(* ===== verification/Prelude.thy ===== *)
theory Prelude
  imports Complex_Main "HOL-Library.Word" "HOL-Library.Log_Nat"
begin

text \<open>
  Shared vocabulary of the development: the machine types of the C++ code, the collections of
  facts the component proofs draw on, and the generic facts on options, maps, lists and words
  that several components use.

  \<^item> \<open>uint64_t\<close> and \<open>size_t\<close> are 64-bit words, \<open>uint32_t\<close> and \<open>int32_t\<close> are 32-bit words (the
    latter read with \<open>sint\<close>), \<open>uint16_t\<close> is a 16-bit word: arithmetic wraps as in C++.
  \<^item> \<open>std::string\<close> is a list of characters, one per byte.
  \<^item> \<open>std::unordered_map\<close> with a lookup/update interface only is a partial function.
\<close>

type_synonym u64 = "64 word"
type_synonym size_t = "64 word"
type_synonym u32 = "32 word"
type_synonym i32 = "32 word"
type_synonym u16 = "16 word"

named_theorems fp_simps \<open>evaluation and order facts on double-precision values\<close>
named_theorems queue_simps \<open>field equations of the ring buffer operations\<close>
named_theorems engine_simps \<open>field equations of the rule engine operations\<close>
named_theorems wf_intros \<open>preservation of component invariants\<close>

section \<open>Options and maps\<close>

definition map_filter_vals :: "('v \<Rightarrow> bool) \<Rightarrow> ('k \<rightharpoonup> 'v) \<Rightarrow> ('k \<rightharpoonup> 'v)" where
  "map_filter_vals P m = (\<lambda>k. case m k of None \<Rightarrow> None | Some v \<Rightarrow> if P v then Some v else None)"

lemma map_filter_vals_Some [simp]:
  "map_filter_vals P m k = Some v \<longleftrightarrow> m k = Some v \<and> P v"
  by (auto simp: map_filter_vals_def split: option.splits)

lemma map_filter_vals_None:
  "map_filter_vals P m k = None \<longleftrightarrow> (\<forall>v. m k = Some v \<longrightarrow> \<not> P v)"
  by (auto simp: map_filter_vals_def split: option.splits)

lemma dom_map_filter_vals: "dom (map_filter_vals P m) \<subseteq> dom m"
  by (auto simp: map_filter_vals_def split: option.splits)

lemma map_filter_vals_keep:
  "m k = Some v \<Longrightarrow> P v \<Longrightarrow> map_filter_vals P m k = Some v"
  by simp

section \<open>Words\<close>

text \<open>Numbers read from words stay in the form \<open>of_nat (unat w)\<close>.\<close>

declare of_nat_unat [simp del]

lemma of_nat_unat_id [simp]: "of_nat (unat w) = (w :: 'a::len word)"
  by (simp add: of_nat_unat)

lemma unat_add_1:
  fixes w :: "'a::len word"
  assumes "w < v"
  shows "unat (w + 1) = unat w + 1"
  using assms by unat_arith

lemma unat_sub_le:
  fixes a b :: "'a::len word"
  assumes "b \<le> a"
  shows "unat (a - b) = unat a - unat b"
  using assms by (rule unat_sub)

lemma unat_add_no_overflow:
  fixes a b :: "'a::len word"
  assumes "unat a + unat b < 2 ^ LENGTH('a)"
  shows "unat (a + b) = unat a + unat b"
  using assms by (rule unat_add_lem [THEN iffD1])

lemma unat_less_64: "unat (w :: u64) < 18446744073709551616"
  using unsigned_less [of w, where ?'a = nat] by simp

lemma unat_less_32: "unat (w :: u32) < 4294967296"
  using unsigned_less [of w, where ?'a = nat] by simp

lemma unat_ucast_u32: "unat (ucast (w :: u32) :: u64) = unat w"
  using unat_less_32 [of w] by (simp add: unsigned_ucast_eq take_bit_nat_eq_self_iff)

section \<open>Lists\<close>

text \<open>The length of the longest suffix whose elements all satisfy a predicate.\<close>

definition trailing_run :: "('a \<Rightarrow> bool) \<Rightarrow> 'a list \<Rightarrow> nat" where
  "trailing_run P xs = length (takeWhile P (rev xs))"

lemma trailing_run_Nil [simp]: "trailing_run P [] = 0"
  by (simp add: trailing_run_def)

lemma trailing_run_snoc [simp]:
  "trailing_run P (xs @ [x]) = (if P x then Suc (trailing_run P xs) else 0)"
  by (simp add: trailing_run_def)

lemma trailing_run_suffix:
  assumes "n \<le> trailing_run P xs"
  shows "n \<le> length xs \<and> list_all P (drop (length xs - n) xs)"
proof -
  have len: "n \<le> length xs"
    using assms length_takeWhile_le [of P "rev xs"] by (simp add: trailing_run_def)
  have "take n (rev xs) = take n (takeWhile P (rev xs))"
    using assms by (metis takeWhile_eq_take min.absorb1 take_take trailing_run_def)
  then have "\<forall>x \<in> set (take n (rev xs)). P x"
    by (metis in_set_takeD set_takeWhileD)
  moreover have "set (take n (rev xs)) = set (drop (length xs - n) xs)"
    by (simp add: take_rev)
  ultimately show ?thesis using len by (simp add: list_all_iff)
qed

end
