(* ===== verification/Ieee_Double.thy ===== *)
theory Ieee_Double
  imports Prelude
begin

text \<open>
  The C++ type \<open>double\<close>: IEEE 754 binary64 with round-to-nearest-even. A value is NaN, one of the
  infinities or a rational number; the two signed zeros are identified (no computed branch of the
  program distinguishes them). Every arithmetic operation is the exact rational result followed by
  \<open>round_double\<close>, which is executable. Comparisons with NaN are false, as in C++, and
  \<open>dmax\<close> and \<open>dmin\<close> are \<open>std::max\<close> and \<open>std::min\<close> with their argument order, which matters for NaN.

  The lemmas show that rounding is monotone, exact on integers up to \<open>2 ^ 53\<close> and on their
  quotients by powers of two, and so when a threshold comparison on doubles is the comparison of
  the integers the program read.
\<close>

datatype double = NaN | NInf | Fin rat | PInf

section \<open>Comparison\<close>

fun dlt :: "double \<Rightarrow> double \<Rightarrow> bool" where
  "dlt NaN _ = False"
| "dlt _ NaN = False"
| "dlt NInf y = (y \<noteq> NInf)"
| "dlt PInf _ = False"
| "dlt (Fin a) (Fin b) = (a < b)"
| "dlt (Fin _) PInf = True"
| "dlt (Fin _) NInf = False"

definition dle :: "double \<Rightarrow> double \<Rightarrow> bool" where
  "dle x y \<longleftrightarrow> x \<noteq> NaN \<and> y \<noteq> NaN \<and> \<not> dlt y x"

definition deq :: "double \<Rightarrow> double \<Rightarrow> bool" where
  "deq x y \<longleftrightarrow> x \<noteq> NaN \<and> x = y"

definition dmax :: "double \<Rightarrow> double \<Rightarrow> double" where
  "dmax a b = (if dlt a b then b else a)"

definition dmin :: "double \<Rightarrow> double \<Rightarrow> double" where
  "dmin a b = (if dlt b a then b else a)"

lemma dle_Fin [simp, fp_simps]: "dle (Fin a) (Fin b) \<longleftrightarrow> a \<le> b"
  by (auto simp: dle_def)

lemma dle_NaN [simp, fp_simps]: "\<not> dle NaN x" "\<not> dle x NaN"
  by (auto simp: dle_def)

lemma dle_Inf [simp, fp_simps]:
  "dle NInf x \<longleftrightarrow> x \<noteq> NaN" "dle x PInf \<longleftrightarrow> x \<noteq> NaN"
  "dle (Fin a) NInf \<longleftrightarrow> False" "dle PInf (Fin a) \<longleftrightarrow> False" "dle PInf NInf \<longleftrightarrow> False"
  by (cases x; simp add: dle_def)+

lemma dlt_irrefl [simp]: "\<not> dlt x x"
  by (cases x) auto

lemma dle_refl: "x \<noteq> NaN \<Longrightarrow> dle x x"
  by (cases x) (auto simp: dle_def)

lemma dle_trans: "dle x y \<Longrightarrow> dle y z \<Longrightarrow> dle x z"
  by (cases x; cases y; cases z) (auto simp: dle_def)

lemma dlt_imp_dle: "dlt x y \<Longrightarrow> dle x y"
  by (cases x; cases y) (auto simp: dle_def)

lemma dle_not_NaN: "dle x y \<Longrightarrow> x \<noteq> NaN \<and> y \<noteq> NaN"
  by (simp add: dle_def)

lemma not_dlt_dle: "x \<noteq> NaN \<Longrightarrow> y \<noteq> NaN \<Longrightarrow> \<not> dlt x y \<Longrightarrow> dle y x"
  by (simp add: dle_def)

lemma dlt_dle_trans: "dlt x y \<Longrightarrow> dle y z \<Longrightarrow> dlt x z"
  by (cases x; cases y; cases z) (auto simp: dle_def)

lemma dmin_le: "a \<noteq> NaN \<Longrightarrow> dle (dmin a b) a"
  by (auto simp: dmin_def dle_refl dlt_imp_dle)

lemma dmax_ge: "a \<noteq> NaN \<Longrightarrow> dle a (dmax a b)"
  by (auto simp: dmax_def dle_refl dlt_imp_dle)

text \<open>Clamping into a range as the code writes it also removes NaN.\<close>

lemma dmax_dmin_range:
  assumes "lo \<le> hi"
  shows "dle (Fin lo) (dmax (Fin lo) (dmin (Fin hi) x)) \<and> dle (dmax (Fin lo) (dmin (Fin hi) x)) (Fin hi)"
  using assms by (cases x) (auto simp: dmax_def dmin_def)

section \<open>Rounding\<close>

text \<open>The exponent of a positive rational: the largest \<open>e\<close> with \<open>2 powi e \<le> q\<close>.\<close>

definition ilog2 :: "rat \<Rightarrow> int" where
  "ilog2 q =
     (let (n, d) = quotient_of q;
          k = bitlen n - bitlen d
      in if 2 powi k \<le> q then k else k - 1)"

definition ulp_exp :: "rat \<Rightarrow> int" where
  "ulp_exp q = max (ilog2 q - 52) (- 1074)"

definition round_half_even :: "rat \<Rightarrow> int" where
  "round_half_even x =
     (let f = \<lfloor>x\<rfloor>; r = x - of_int f
      in if r < 1 / 2 then f
         else if 1 / 2 < r then f + 1
         else if even f then f else f + 1)"

definition round_pos :: "rat \<Rightarrow> rat" where
  "round_pos q = of_int (round_half_even (q / 2 powi ulp_exp q)) * 2 powi ulp_exp q"

definition round_double :: "rat \<Rightarrow> double" where
  "round_double q =
     (if q = 0 then Fin 0
      else let r = round_pos \<bar>q\<bar>
           in if 1024 \<le> ilog2 r then (if q < 0 then NInf else PInf)
              else Fin (if q < 0 then - r else r))"

subsection \<open>Integer rounding\<close>

lemma round_half_even_of_int [simp]: "round_half_even (of_int n) = n"
  by (simp add: round_half_even_def)

lemma round_half_even_mono: "x \<le> y \<Longrightarrow> round_half_even x \<le> round_half_even y"
proof -
  assume le: "x \<le> y"
  have fl: "\<lfloor>x\<rfloor> \<le> \<lfloor>y\<rfloor>" using le by (rule floor_mono)
  show ?thesis
  proof (cases "\<lfloor>x\<rfloor> = \<lfloor>y\<rfloor>")
    case True
    then show ?thesis using le by (auto simp: round_half_even_def Let_def)
  next
    case False
    with fl have "\<lfloor>x\<rfloor> + 1 \<le> \<lfloor>y\<rfloor>" by simp
    moreover have "round_half_even x \<le> \<lfloor>x\<rfloor> + 1" by (simp add: round_half_even_def Let_def)
    moreover have "\<lfloor>y\<rfloor> \<le> round_half_even y" by (simp add: round_half_even_def Let_def)
    ultimately show ?thesis by simp
  qed
qed

lemma round_half_even_nonneg: "0 \<le> x \<Longrightarrow> 0 \<le> round_half_even x"
  using round_half_even_mono [of 0 x] round_half_even_of_int [of 0] by simp

lemma round_half_even_le_int: "x \<le> of_int n \<Longrightarrow> round_half_even x \<le> n"
  using round_half_even_mono [of x "of_int n"] by simp

lemma round_half_even_ge_int: "of_int n \<le> x \<Longrightarrow> n \<le> round_half_even x"
  using round_half_even_mono [of "of_int n" x] by simp

subsection \<open>The exponent\<close>

lemma floorlog_2_bounds:
  assumes "0 < (n::nat)"
  obtains k where "floorlog 2 n = Suc k" and "2 ^ k \<le> n" and "n < 2 ^ Suc k"
proof -
  have "floorlog 2 n \<noteq> 0" using assms by (simp add: floorlog_eq_zero_iff)
  then obtain k where k: "floorlog 2 n = Suc k" by (cases "floorlog 2 n") auto
  have "2 ^ (floorlog 2 n - 1) \<le> n \<and> n < 2 ^ floorlog 2 n"
    by (rule floorlog_bounds) (use assms in auto)
  with k that show thesis by simp
qed

lemma floorlog_2_rat_bounds:
  assumes "0 < (n::int)"
  obtains k where "floorlog 2 (nat n) = Suc k"
    and "(2::rat) ^ k \<le> of_int n" and "of_int n < (2::rat) ^ Suc k"
proof -
  obtain k where k: "floorlog 2 (nat n) = Suc k" "2 ^ k \<le> nat n" "nat n < 2 ^ Suc k"
    using floorlog_2_bounds [of "nat n"] assms by auto
  have "(2::int) ^ k \<le> n" "n < 2 ^ Suc k"
    using k(2,3) assms by (simp_all add: le_nat_iff nat_less_iff)
  then have "(2::rat) ^ k \<le> of_int n" "of_int n < (2::rat) ^ Suc k"
    by (simp, metis of_int_less_iff of_int_numeral of_int_power)
  with k(1) that show thesis by blast
qed

lemma powi_of_nat_diff: "(2::rat) powi (int a - int b) = 2 ^ a / 2 ^ b"
  by (simp add: power_int_diff)

lemma ilog2_bounds:
  assumes "0 < q"
  shows "2 powi ilog2 q \<le> q" and "q < 2 powi (ilog2 q + 1)"
proof -
  obtain n d where nd: "quotient_of q = (n, d)" by (cases "quotient_of q")
  then have d: "0 < d" and q: "q = of_int n / of_int d"
    using quotient_of_denom_pos [OF nd] quotient_of_div [OF nd] by auto
  have n: "0 < n" using assms d by (simp add: q zero_less_divide_iff)
  obtain a where a: "floorlog 2 (nat n) = Suc a" "(2::rat) ^ a \<le> of_int n" "of_int n < (2::rat) ^ Suc a"
    using floorlog_2_rat_bounds [OF n] .
  obtain b where b: "floorlog 2 (nat d) = Suc b" "(2::rat) ^ b \<le> of_int d" "of_int d < (2::rat) ^ Suc b"
    using floorlog_2_rat_bounds [OF d] .
  let ?k = "int a - int b"
  have up: "q < 2 powi (?k + 1)"
  proof -
    have "q < 2 ^ (Suc a) / of_int d"
      unfolding q using a(3) d by (intro divide_strict_right_mono) auto
    also have "\<dots> \<le> 2 ^ (Suc a) / 2 ^ b"
      using b(2) d by (intro divide_left_mono mult_pos_pos) auto
    also have "\<dots> = 2 powi (?k + 1)"
      using powi_of_nat_diff [of "Suc a" b] by (simp add: algebra_simps)
    finally show ?thesis .
  qed
  have lo: "2 powi (?k - 1) \<le> q"
  proof -
    have "2 powi (?k - 1) = 2 ^ a / (2::rat) ^ (Suc b)"
      using powi_of_nat_diff [of a "Suc b"] by (simp add: algebra_simps)
    also have "\<dots> \<le> 2 ^ a / of_int d"
      using b(3) d by (intro divide_left_mono mult_pos_pos) auto
    also have "\<dots> \<le> q" unfolding q using a(2) d by (intro divide_right_mono) auto
    finally show ?thesis .
  qed
  have eq: "ilog2 q = (if 2 powi ?k \<le> q then ?k else ?k - 1)"
    by (simp add: ilog2_def nd Let_def bitlen_def a(1) b(1))
  show "2 powi ilog2 q \<le> q" using lo by (simp add: eq)
  show "q < 2 powi (ilog2 q + 1)" using up by (auto simp: eq)
qed

lemma powi_2_less_iff [simp]: "(2::rat) powi m < 2 powi n \<longleftrightarrow> m < n"
  by (metis less_irrefl linorder_less_linear one_less_numeral_iff order_less_asym
      power_int_strict_increasing semiring_norm(76))

lemma powi_2_le_iff [simp]: "(2::rat) powi m \<le> 2 powi n \<longleftrightarrow> m \<le> n"
  by (metis linorder_not_le powi_2_less_iff)

lemma powi_2_pos [simp]: "0 < (2::rat) powi n"
  by simp

lemma ilog2_ge: "2 powi e \<le> q \<Longrightarrow> e \<le> ilog2 q"
proof -
  assume le: "2 powi e \<le> q"
  then have "0 < q" by (rule less_le_trans [OF powi_2_pos])
  then have "2 powi e < (2::rat) powi (ilog2 q + 1)"
    using ilog2_bounds(2) le by (meson le_less_trans)
  then show ?thesis by simp
qed

lemma ilog2_less: "0 < q \<Longrightarrow> q < 2 powi e \<Longrightarrow> ilog2 q < e"
  using ilog2_bounds(1) [of q] by (meson le_less_trans powi_2_less_iff)

lemma ilog2_mono: "0 < p \<Longrightarrow> p \<le> q \<Longrightarrow> ilog2 p \<le> ilog2 q"
  using ilog2_bounds(1) [of p] by (intro ilog2_ge) (meson order_trans)

lemma ulp_exp_mono: "0 < p \<Longrightarrow> p \<le> q \<Longrightarrow> ulp_exp p \<le> ulp_exp q"
  using ilog2_mono [of p q] by (simp add: ulp_exp_def)

subsection \<open>Rounding to the grid\<close>

lemma powi_2_split: "u \<le> e \<Longrightarrow> (2::rat) powi e = of_int (2 ^ nat (e - u)) * 2 powi u"
  by (simp add: power_int_add [symmetric] flip: power_int_of_nat)

lemma grid_quotient:
  assumes "u \<le> e"
  shows "of_int m * (2::rat) powi e / 2 powi u = of_int (m * 2 ^ nat (e - u))"
  by (simp add: powi_2_split [OF assms])

lemma round_pos_le_grid:
  assumes "p \<le> of_int m * 2 powi e" and "ulp_exp p \<le> e"
  shows "round_pos p \<le> of_int m * 2 powi e"
proof -
  let ?u = "ulp_exp p" and ?n = "m * 2 ^ nat (e - ulp_exp p)"
  have "p / 2 powi ?u \<le> of_int m * 2 powi e / 2 powi ?u"
    using assms(1) by (intro divide_right_mono) simp_all
  then have "p / 2 powi ?u \<le> of_int ?n" by (simp only: grid_quotient [OF assms(2)])
  then have "round_half_even (p / 2 powi ?u) \<le> ?n" by (rule round_half_even_le_int)
  then have "round_pos p \<le> of_int ?n * 2 powi ?u"
    unfolding round_pos_def by (intro mult_right_mono) (simp_all only: of_int_le_iff, simp)
  also have "\<dots> = of_int m * 2 powi e" by (simp add: powi_2_split [OF assms(2)])
  finally show ?thesis .
qed

lemma round_pos_ge_grid:
  assumes "of_int m * 2 powi e \<le> q" and "ulp_exp q \<le> e"
  shows "of_int m * 2 powi e \<le> round_pos q"
proof -
  let ?u = "ulp_exp q" and ?n = "m * 2 ^ nat (e - ulp_exp q)"
  have "of_int m * 2 powi e / 2 powi ?u \<le> q / 2 powi ?u"
    using assms(1) by (intro divide_right_mono) simp_all
  then have "of_int ?n \<le> q / 2 powi ?u" by (simp only: grid_quotient [OF assms(2)])
  then have "?n \<le> round_half_even (q / 2 powi ?u)" by (rule round_half_even_ge_int)
  then have "of_int ?n * 2 powi ?u \<le> round_pos q"
    unfolding round_pos_def by (intro mult_right_mono) (simp_all only: of_int_le_iff, simp)
  moreover have "of_int ?n * 2 powi ?u = of_int m * (2::rat) powi e"
    by (simp add: powi_2_split [OF assms(2)])
  ultimately show ?thesis by (simp only:)
qed

lemma round_pos_grid: "ulp_exp (of_int m * 2 powi e) \<le> e \<Longrightarrow> round_pos (of_int m * 2 powi e) = of_int m * 2 powi e"
  by (intro antisym round_pos_le_grid round_pos_ge_grid) simp_all

lemma round_pos_nonneg: "0 \<le> q \<Longrightarrow> 0 \<le> round_pos q"
  by (simp add: round_pos_def round_half_even_nonneg)

lemma round_pos_mono:
  assumes "0 < p" and "p \<le> q"
  shows "round_pos p \<le> round_pos q"
proof (cases "ulp_exp p = ulp_exp q")
  case True
  have "round_half_even (p / 2 powi ulp_exp q) \<le> round_half_even (q / 2 powi ulp_exp q)"
    using assms(2) by (intro round_half_even_mono divide_right_mono) simp_all
  then show ?thesis unfolding round_pos_def True by (intro mult_right_mono) simp_all
next
  case False
  then have less: "ulp_exp p < ulp_exp q" using ulp_exp_mono [OF assms] by simp
  then have uq: "ulp_exp q = ilog2 q - 52" and "ilog2 p < ilog2 q"
    by (auto simp: ulp_exp_def max_def split: if_splits)
  have "p < 2 powi (ilog2 p + 1)" by (rule ilog2_bounds [OF assms(1)])
  also have "\<dots> \<le> 2 powi ilog2 q" using \<open>ilog2 p < ilog2 q\<close> by simp
  finally have "round_pos p \<le> of_int 1 * 2 powi ilog2 q"
    using less uq by (intro round_pos_le_grid) auto
  also have "of_int 1 * 2 powi ilog2 q \<le> round_pos q"
    using assms uq ilog2_bounds(1) [of q] by (intro round_pos_ge_grid) auto
  finally show ?thesis .
qed

subsection \<open>Properties of the rounded value\<close>

lemma round_pos_pos: "0 < q \<Longrightarrow> 0 \<le> round_pos q"
  by (rule round_pos_nonneg) simp

lemma ilog2_0: "ilog2 0 < 1024"
  by (simp add: ilog2_def bitlen_def floorlog_def)

lemma overflow_iff: "0 \<le> r \<Longrightarrow> 1024 \<le> ilog2 r \<longleftrightarrow> 2 ^ 1024 \<le> r"
  using ilog2_ge [of 1024 r] ilog2_less [of r 1024] ilog2_0
  by (cases "r = 0") (auto simp: not_le [symmetric])

lemma round_double_not_NaN [simp]: "round_double q \<noteq> NaN"
  by (simp add: round_double_def Let_def)

lemma round_double_0 [simp]: "round_double 0 = Fin 0"
  by (simp add: round_double_def)

lemma round_double_pos:
  "0 < q \<Longrightarrow> round_double q = (if 2 ^ 1024 \<le> round_pos q then PInf else Fin (round_pos q))"
  using round_pos_nonneg [of q] overflow_iff [of "round_pos q"] by (simp add: round_double_def Let_def)

lemma round_double_neg:
  "q < 0 \<Longrightarrow> round_double q = (if 2 ^ 1024 \<le> round_pos (- q) then NInf else Fin (- round_pos (- q)))"
  using round_pos_nonneg [of "- q"] overflow_iff [of "round_pos (- q)"] by (simp add: round_double_def Let_def)

lemma round_double_mono:
  assumes "p \<le> q"
  shows "dle (round_double p) (round_double q)"
proof -
  consider "0 < p" | "p = 0" | "p < 0" "q < 0" | "p < 0" "0 \<le> q" by linarith
  then show ?thesis
  proof cases
    case 1
    then show ?thesis
      using round_pos_mono [OF 1 assms] assms by (auto simp: round_double_pos)
  next
    case 2
    then show ?thesis
      using assms round_pos_nonneg [of q] by (cases "q = 0") (auto simp: round_double_pos)
  next
    case 3
    then show ?thesis
      using round_pos_mono [of "- q" "- p"] assms by (auto simp: round_double_neg)
  next
    case 4
    then show ?thesis
      using round_pos_nonneg [of "- p"] round_pos_nonneg [of q]
      by (cases "q = 0") (auto simp: round_double_neg round_double_pos intro: order_trans [of _ 0])
  qed
qed

lemma round_double_nonneg: "0 \<le> q \<Longrightarrow> dle (Fin 0) (round_double q)"
  using round_double_mono [of 0 q] by simp

lemma two53_less_two1024: "(2::rat) ^ 53 < 2 ^ 1024"
  by (intro power_strict_increasing) simp_all

lemma round_pos_exact:
  assumes "0 < m" and "m \<le> 2 ^ 53" and "- 1074 \<le> e"
  shows "round_pos (of_int m * 2 powi e) = of_int m * 2 powi e"
proof (cases "m = 2 ^ 53")
  case True
  have eq: "of_int m * 2 powi e = of_int 1 * (2::rat) powi (e + 53)"
    by (simp add: True power_int_add)
  have pos: "0 < of_int 1 * (2::rat) powi (e + 53)" by simp
  have "ilog2 (of_int 1 * 2 powi (e + 53)) < e + 54"
    using pos by (intro ilog2_less) simp_all
  then have "ulp_exp (of_int 1 * 2 powi (e + 53)) \<le> e + 53"
    using assms(3) by (simp add: ulp_exp_def)
  then show ?thesis unfolding eq by (rule round_pos_grid)
next
  case False
  have "(of_int m :: rat) < of_int (2 ^ 53)" using False assms(2) by (simp only: of_int_less_iff)
  then have "of_int m * (2::rat) powi e < 2 powi 53 * 2 powi e"
    by (intro mult_strict_right_mono) simp_all
  also have "\<dots> = 2 powi (e + 53)" by (simp add: power_int_add)
  finally have "ilog2 (of_int m * 2 powi e) < e + 53"
    using assms(1) by (intro ilog2_less) simp_all
  then have "ulp_exp (of_int m * 2 powi e) \<le> e" using assms(3) by (simp add: ulp_exp_def)
  then show ?thesis by (rule round_pos_grid)
qed

lemma round_double_exact:
  assumes "\<bar>m\<bar> \<le> 2 ^ 53" and "- 1074 \<le> e" and "e \<le> 0"
  shows "round_double (of_int m * 2 powi e) = Fin (of_int m * 2 powi e)"
proof -
  have le1: "(2::rat) powi e \<le> 1" using assms(3) power_int_increasing [of e 0 "2::rat"] by simp
  have "\<bar>of_int m * (2::rat) powi e\<bar> \<le> of_int \<bar>m\<bar> * 1"
    unfolding abs_mult by (intro mult_mono) (simp_all add: le1)
  also have "\<dots> \<le> (of_int (2 ^ 53) :: rat)" using assms(1) by (simp only: of_int_le_iff mult_1_right)
  also have "\<dots> < 2 ^ 1024" using two53_less_two1024 by simp
  finally have small: "\<bar>of_int m * (2::rat) powi e\<bar> < 2 ^ 1024" .
  consider "m = 0" | "0 < m" | "m < 0" by linarith
  then show ?thesis
  proof cases
    case 1
    then show ?thesis by simp
  next
    case 2
    then show ?thesis using assms small round_pos_exact [of m e]
      by (simp add: round_double_pos zero_less_mult_iff)
  next
    case 3
    then show ?thesis using assms small round_pos_exact [of "- m" e]
      by (simp add: round_double_neg mult_less_0_iff)
  qed
qed

lemma round_double_of_int [fp_simps]: "\<bar>m\<bar> \<le> 2 ^ 53 \<Longrightarrow> round_double (of_int m) = Fin (of_int m)"
  using round_double_exact [of m 0] by simp

lemma round_double_of_nat [fp_simps]: "n \<le> 2 ^ 53 \<Longrightarrow> round_double (of_nat n) = Fin (of_nat n)"
  using round_double_of_int [of "int n"] by simp

lemma round_double_of_nat_div_1024 [fp_simps]:
  "n \<le> 2 ^ 53 \<Longrightarrow> round_double (of_nat n / 1024) = Fin (of_nat n / 1024)"
  using round_double_exact [of "int n" "- 10"] by (simp add: power_int_minus field_simps)

section \<open>Arithmetic\<close>

fun dneg :: "double \<Rightarrow> double" where
  "dneg NaN = NaN"
| "dneg NInf = PInf"
| "dneg PInf = NInf"
| "dneg (Fin a) = Fin (- a)"

fun dadd :: "double \<Rightarrow> double \<Rightarrow> double" where
  "dadd NaN _ = NaN"
| "dadd _ NaN = NaN"
| "dadd (Fin a) (Fin b) = round_double (a + b)"
| "dadd PInf NInf = NaN"
| "dadd NInf PInf = NaN"
| "dadd PInf _ = PInf"
| "dadd NInf _ = NInf"
| "dadd (Fin _) y = y"

definition dsub :: "double \<Rightarrow> double \<Rightarrow> double" where
  "dsub x y = dadd x (dneg y)"

definition signed_inf :: "rat \<Rightarrow> double" where
  "signed_inf s = (if s = 0 then NaN else if s < 0 then NInf else PInf)"

fun dsgn :: "double \<Rightarrow> rat" where
  "dsgn NaN = 0"
| "dsgn NInf = - 1"
| "dsgn PInf = 1"
| "dsgn (Fin a) = sgn a"

fun dmul :: "double \<Rightarrow> double \<Rightarrow> double" where
  "dmul (Fin a) (Fin b) = round_double (a * b)"
| "dmul NaN _ = NaN"
| "dmul _ NaN = NaN"
| "dmul x y = signed_inf (dsgn x * dsgn y)"

text \<open>A zero divisor is the positive zero: the program divides by converted integers only.\<close>

fun ddiv :: "double \<Rightarrow> double \<Rightarrow> double" where
  "ddiv NaN _ = NaN"
| "ddiv _ NaN = NaN"
| "ddiv (Fin a) (Fin b) = (if b = 0 then signed_inf a else round_double (a / b))"
| "ddiv (Fin _) _ = Fin 0"
| "ddiv x (Fin b) = signed_inf (dsgn x * (if b < 0 then - 1 else 1))"
| "ddiv _ _ = NaN"

section \<open>Conversions\<close>

definition double_of_u64 :: "u64 \<Rightarrow> double" where
  "double_of_u64 w = round_double (of_nat (unat w))"

definition double_of_u32 :: "u32 \<Rightarrow> double" where
  "double_of_u32 w = round_double (of_nat (unat w))"

definition double_of_i64 :: "u64 \<Rightarrow> double" where
  "double_of_i64 w = round_double (of_int (sint w))"

text \<open>
  \<open>static_cast<uint64_t>\<close> of a double truncates towards zero; outside the range of the type (and
  for NaN) the conversion is undefined behaviour, the value \<open>None\<close>.
\<close>

definition u64_of_double :: "double \<Rightarrow> u64 option" where
  "u64_of_double x =
     (case x of
        Fin q \<Rightarrow> if - 1 < q \<and> q < 2 ^ 64 then Some (of_int (if 0 \<le> q then \<lfloor>q\<rfloor> else 0)) else None
      | _ \<Rightarrow> None)"

lemma double_of_u64_not_NaN [simp]: "double_of_u64 w \<noteq> NaN"
  by (simp add: double_of_u64_def)

lemma double_of_u32_not_NaN [simp]: "double_of_u32 w \<noteq> NaN"
  by (simp add: double_of_u32_def)

lemma double_of_u64_exact [fp_simps]:
  "unat w \<le> 2 ^ 53 \<Longrightarrow> double_of_u64 w = Fin (of_nat (unat w))"
  by (simp only: double_of_u64_def round_double_of_nat)

lemma double_of_u32_exact [fp_simps]: "double_of_u32 w = Fin (of_nat (unat w))"
  using unat_less_32 [of w] by (simp only: double_of_u32_def) (rule round_double_of_nat, simp)

lemma double_of_u64_mono: "a \<le> b \<Longrightarrow> dle (double_of_u64 a) (double_of_u64 b)"
  unfolding double_of_u64_def by (intro round_double_mono) (simp add: word_le_nat_alt)

lemma double_of_u64_nonneg: "dle (Fin 0) (double_of_u64 w)"
  by (simp add: double_of_u64_def round_double_nonneg)

end
