(* ===== verification/Text.thy ===== *)
theory Text
  imports Ieee_Double "HOL-Library.Sublist"
begin

text \<open>
  The parts of the C and C++ standard library for text that the program calls, as functions on
  byte strings: character classes, searching and splitting, \<open>std::getline\<close>, \<open>std::from_chars\<close>,
  stream extraction (\<open>>>\<close>), \<open>std::stoull\<close> and its kin, \<open>std::stod\<close>, and decimal printing
  (\<open>std::to_chars\<close>, \<open>std::to_string\<close>, \<open>std::setw\<close>). A position in a string is represented by the
  remaining suffix. A conversion that reports an error (an error code or an exception) is a value
  of \<open>conv_error + 'a\<close>. The locale is the "C" locale.
\<close>

section \<open>Characters\<close>

definition is_digit :: "char \<Rightarrow> bool" where
  "is_digit c \<longleftrightarrow> 48 \<le> (of_char c :: nat) \<and> (of_char c :: nat) \<le> 57"

definition digit_value :: "char \<Rightarrow> nat" where
  "digit_value c = of_char c - 48"

definition is_space :: "char \<Rightarrow> bool" where
  "is_space c \<longleftrightarrow> of_char c = (32::nat) \<or> (9 \<le> (of_char c :: nat) \<and> (of_char c :: nat) \<le> 13)"

definition to_lower :: "char \<Rightarrow> char" where
  "to_lower c =
     (if 65 \<le> (of_char c :: nat) \<and> (of_char c :: nat) \<le> 90 then char_of ((of_char c :: nat) + 32) else c)"

definition lowercase :: "string \<Rightarrow> string" where
  "lowercase = map to_lower"

lemma of_char_to_lower:
  "(of_char (to_lower c) :: nat) =
     (if 65 \<le> (of_char c :: nat) \<and> (of_char c :: nat) \<le> 90 then of_char c + 32 else of_char c)"
  by (simp add: to_lower_def)

lemma to_lower_idem [simp]: "to_lower (to_lower c) = to_lower c"
  by (auto simp: to_lower_def)

lemma lowercase_idem [simp]: "lowercase (lowercase s) = lowercase s"
  by (simp add: lowercase_def)

section \<open>Searching and splitting\<close>

text \<open>Split at the first occurrence of a character: what precedes it and what follows it.\<close>

fun split_first :: "char \<Rightarrow> string \<Rightarrow> (string \<times> string) option" where
  "split_first c [] = None"
| "split_first c (x # xs) =
     (if x = c then Some ([], xs) else map_option (\<lambda>(a, b). (x # a, b)) (split_first c xs))"

definition split_last :: "char \<Rightarrow> string \<Rightarrow> (string \<times> string) option" where
  "split_last c s = map_option (\<lambda>(a, b). (rev b, rev a)) (split_first c (rev s))"

lemma split_first_Some:
  "split_first c s = Some (a, b) \<longleftrightarrow> s = a @ c # b \<and> c \<notin> set a"
proof (induction s arbitrary: a)
  case (Cons x s)
  then show ?case by (cases a) auto
qed simp

lemma split_first_None: "split_first c s = None \<longleftrightarrow> c \<notin> set s"
  by (induction s) auto

text \<open>\<open>std::getline\<close> until end of file: a final line without newline counts unless it is empty.\<close>

function get_lines :: "string \<Rightarrow> string list" where
  "get_lines s =
     (if s = [] then []
      else case split_first (CHR 0x0A) s of None \<Rightarrow> [s] | Some (l, rest) \<Rightarrow> l # get_lines rest)"
  by pat_completeness auto
termination
  by (relation "measure length") (auto simp: split_first_Some)

declare get_lines.simps [simp del]

lemma get_lines_Nil [simp]: "get_lines [] = []"
  by (simp add: get_lines.simps)

lemma get_lines_append_line [simp]:
  assumes "CHR 0x0A \<notin> set l"
  shows "get_lines (l @ CHR 0x0A # rest) = l # get_lines rest"
proof -
  have "split_first (CHR 0x0A) (l @ CHR 0x0A # rest) = Some (l, rest)"
    using assms by (simp add: split_first_Some)
  then show ?thesis by (subst get_lines.simps) simp
qed

lemma get_lines_concat:
  assumes "\<forall>l \<in> set ls. CHR 0x0A \<notin> set l"
  shows "get_lines (concat (map (\<lambda>l. l @ [CHR 0x0A]) ls)) = ls"
  using assms by (induction ls) simp_all

section \<open>Numbers read from text\<close>

datatype conv_error = InvalidArgument | OutOfRange

definition digits_value :: "string \<Rightarrow> nat" where
  "digits_value ds = foldl (\<lambda>acc c. 10 * acc + digit_value c) 0 ds"

text \<open>\<open>std::from_chars\<close> on an unsigned type: digits only, no sign and no white space.\<close>

definition from_chars_unsigned :: "string \<Rightarrow> conv_error + ('a::len word \<times> string)" where
  "from_chars_unsigned s =
     (let ds = takeWhile is_digit s
      in if ds = [] then Inl InvalidArgument
         else if digits_value ds < 2 ^ LENGTH('a)
              then Inr (of_nat (digits_value ds), dropWhile is_digit s)
              else Inl OutOfRange)"

text \<open>\<open>std::from_chars\<close> on \<open>int\<close>: a minus sign is accepted, a plus sign is not.\<close>

definition from_chars_signed :: "string \<Rightarrow> conv_error + ('a::len word \<times> string)" where
  "from_chars_signed s =
     (let neg = (s \<noteq> [] \<and> hd s = CHR ''-'');
          t = (if neg then tl s else s);
          ds = takeWhile is_digit t;
          v = (if neg then - int (digits_value ds) else int (digits_value ds))
      in if ds = [] then Inl InvalidArgument
         else if - (2 ^ (LENGTH('a) - 1)) \<le> v \<and> v < 2 ^ (LENGTH('a) - 1)
              then Inr (of_int v, dropWhile is_digit t)
              else Inl OutOfRange)"

text \<open>
  Stream extraction of an unsigned 64-bit number: leading white space is skipped and, as for
  \<open>strtoull\<close>, a minus sign negates modulo \<open>2 ^ 64\<close>. \<open>None\<close> is a stream left in the failed state.
\<close>

definition extract_u64 :: "string \<Rightarrow> (u64 \<times> string) option" where
  "extract_u64 s =
     (let t = dropWhile is_space s;
          neg = (t \<noteq> [] \<and> hd t = CHR ''-'');
          u = (if t \<noteq> [] \<and> hd t \<in> {CHR ''-'', CHR ''+''} then tl t else t);
          ds = takeWhile is_digit u;
          v = digits_value ds
      in if ds = [] \<or> 2 ^ 64 \<le> v then None
         else Some (if neg then - of_nat v else of_nat v, dropWhile is_digit u))"

definition extract_word :: "string \<Rightarrow> (string \<times> string) option" where
  "extract_word s =
     (let t = dropWhile is_space s; w = takeWhile (\<lambda>c. \<not> is_space c) t
      in if w = [] then None else Some (w, dropWhile (\<lambda>c. \<not> is_space c) t))"

text \<open>\<open>std::stoull\<close> in base ten: like stream extraction, but an error is an exception.\<close>

definition stoull :: "string \<Rightarrow> conv_error + (u64 \<times> string)" where
  "stoull s =
     (let t = dropWhile is_space s;
          neg = (t \<noteq> [] \<and> hd t = CHR ''-'');
          u = (if t \<noteq> [] \<and> hd t \<in> {CHR ''-'', CHR ''+''} then tl t else t);
          ds = takeWhile is_digit u;
          v = digits_value ds
      in if ds = [] then Inl InvalidArgument
         else if 2 ^ 64 \<le> v then Inl OutOfRange
         else Inr (if neg then - of_nat v else of_nat v, dropWhile is_digit u))"

definition stoi :: "string \<Rightarrow> conv_error + (i32 \<times> string)" where
  "stoi s =
     (let t = dropWhile is_space s;
          neg = (t \<noteq> [] \<and> hd t = CHR ''-'');
          u = (if t \<noteq> [] \<and> hd t \<in> {CHR ''-'', CHR ''+''} then tl t else t);
          ds = takeWhile is_digit u;
          v = (if neg then - int (digits_value ds) else int (digits_value ds))
      in if ds = [] then Inl InvalidArgument
         else if - (2 ^ 31) \<le> v \<and> v < 2 ^ 31 then Inr (of_int v, dropWhile is_digit u)
         else Inl OutOfRange)"

section \<open>Floating-point numbers read from text\<close>

definition is_hex :: "char \<Rightarrow> bool" where
  "is_hex c \<longleftrightarrow> is_digit c \<or> to_lower c \<in> set ''abcdef''"

definition hex_value :: "char \<Rightarrow> nat" where
  "hex_value c = (if is_digit c then digit_value c else of_char (to_lower c) - 87)"

definition hex_digits_value :: "string \<Rightarrow> nat" where
  "hex_digits_value ds = foldl (\<lambda>acc c. 16 * acc + hex_value c) 0 ds"

text \<open>An exponent part after the marker character; absent or malformed, it is not consumed.\<close>

definition scan_exponent :: "char \<Rightarrow> string \<Rightarrow> int \<times> string" where
  "scan_exponent mark s =
     (if s \<noteq> [] \<and> to_lower (hd s) = mark then
        let t = tl s;
            neg = (t \<noteq> [] \<and> hd t = CHR ''-'');
            u = (if t \<noteq> [] \<and> hd t \<in> {CHR ''-'', CHR ''+''} then tl t else t);
            ds = takeWhile is_digit u
        in if ds = [] then (0, s)
           else (if neg then - int (digits_value ds) else int (digits_value ds), dropWhile is_digit u)
      else (0, s))"

text \<open>Digits, an optional point and more digits, in decimal or hexadecimal.\<close>

definition scan_mantissa :: "(char \<Rightarrow> bool) \<Rightarrow> string \<Rightarrow> (string \<times> string \<times> string) option" where
  "scan_mantissa dig s =
     (let ip = takeWhile dig s; r = dropWhile dig s;
          fp = (if r \<noteq> [] \<and> hd r = CHR ''.'' then takeWhile dig (tl r) else []);
          rest = (if r \<noteq> [] \<and> hd r = CHR ''.'' then dropWhile dig (tl r) else r)
      in if ip = [] \<and> fp = [] then None else Some (ip, fp, rest))"

definition scan_decimal :: "string \<Rightarrow> (rat \<times> string) option" where
  "scan_decimal s =
     map_option (\<lambda>(ip, fp, rest).
        let (e, rest') = scan_exponent (CHR ''e'') rest
        in (of_nat (digits_value (ip @ fp)) * 10 powi (e - int (length fp)), rest')) (scan_mantissa is_digit s)"

definition scan_hex :: "string \<Rightarrow> (rat \<times> string) option" where
  "scan_hex s =
     (if lowercase (take 2 s) = ''0x'' then
        map_option (\<lambda>(ip, fp, rest).
          let (e, rest') = scan_exponent (CHR ''p'') rest
          in (of_nat (hex_digits_value (ip @ fp)) * 2 powi (e - 4 * int (length fp)), rest'))
          (scan_mantissa is_hex (drop 2 s))
      else None)"

definition drop_nan_payload :: "string \<Rightarrow> string" where
  "drop_nan_payload s =
     (if s \<noteq> [] \<and> hd s = CHR ''('' then
        let r = dropWhile (\<lambda>c. is_digit c \<or> to_lower c \<in> set ''abcdefghijklmnopqrstuvwxyz_'') (tl s)
        in if r \<noteq> [] \<and> hd r = CHR '')'' then tl r else s
      else s)"

datatype scanned = Special double string | Number rat string

definition scan_unsigned_float :: "string \<Rightarrow> scanned option" where
  "scan_unsigned_float s =
     (if lowercase (take 8 s) = ''infinity'' then Some (Special PInf (drop 8 s))
      else if lowercase (take 3 s) = ''inf'' then Some (Special PInf (drop 3 s))
      else if lowercase (take 3 s) = ''nan'' then Some (Special NaN (drop_nan_payload (drop 3 s)))
      else case scan_hex s of
             Some (q, rest) \<Rightarrow> Some (Number q rest)
           | None \<Rightarrow> map_option (\<lambda>(q, rest). Number q rest) (scan_decimal s))"

text \<open>\<open>ERANGE\<close>: the value overflows, or it is too small for a normal number and not exact.\<close>

definition out_of_double_range :: "rat \<Rightarrow> bool" where
  "out_of_double_range q =
     (case round_double q of
        Fin r \<Rightarrow> r \<noteq> q \<and> (r = 0 \<or> ilog2 \<bar>r\<bar> < - 1022)
      | _ \<Rightarrow> True)"

definition stod :: "string \<Rightarrow> conv_error + (double \<times> string)" where
  "stod s =
     (let t = dropWhile is_space s;
          neg = (t \<noteq> [] \<and> hd t = CHR ''-'');
          u = (if t \<noteq> [] \<and> hd t \<in> {CHR ''-'', CHR ''+''} then tl t else t)
      in case scan_unsigned_float u of
           None \<Rightarrow> Inl InvalidArgument
         | Some (Special x rest) \<Rightarrow> Inr (if neg then dneg x else x, rest)
         | Some (Number q rest) \<Rightarrow>
             let q' = (if neg then - q else q)
             in if out_of_double_range q' then Inl OutOfRange else Inr (round_double q', rest))"

text \<open>
  Stream extraction of a double accepts the decimal form only; overflow leaves the stream failed.
\<close>

definition extract_double :: "string \<Rightarrow> (double \<times> string) option" where
  "extract_double s =
     (let t = dropWhile is_space s;
          neg = (t \<noteq> [] \<and> hd t = CHR ''-'');
          u = (if t \<noteq> [] \<and> hd t \<in> {CHR ''-'', CHR ''+''} then tl t else t)
      in case scan_mantissa is_digit u of
           None \<Rightarrow> None
         | Some (ip, fp, r) \<Rightarrow>
             let (e, rest) = scan_exponent (CHR ''e'') r;
                 q = of_nat (digits_value (ip @ fp)) * 10 powi (e - int (length fp));
                 x = round_double (if neg then - q else q)
             in if (r \<noteq> [] \<and> to_lower (hd r) = CHR ''e'' \<and> rest = r) \<or> x \<in> {PInf, NInf} then None
                else Some (x, rest))"

section \<open>Decimal printing\<close>

definition digit_char :: "nat \<Rightarrow> char" where
  "digit_char d = char_of (48 + d)"

fun show_nat :: "nat \<Rightarrow> string" where
  "show_nat n = (if n < 10 then [digit_char n] else show_nat (n div 10) @ [digit_char (n mod 10)])"

declare show_nat.simps [simp del]

definition show_int :: "int \<Rightarrow> string" where
  "show_int i = (if i < 0 then CHR ''-'' # show_nat (nat (- i)) else show_nat (nat i))"

definition show_word :: "'a::len word \<Rightarrow> string" where
  "show_word w = show_nat (unat w)"

definition show_sword :: "'a::len word \<Rightarrow> string" where
  "show_sword w = show_int (sint w)"

text \<open>\<open>std::setw (n)\<close> with fill character \<open>0\<close> pads on the left and never truncates.\<close>

definition pad_zero :: "nat \<Rightarrow> string \<Rightarrow> string" where
  "pad_zero n s = replicate (n - length s) (CHR ''0'') @ s"

lemma digit_char_is_digit [simp]: "d < 10 \<Longrightarrow> is_digit (digit_char d)"
  by (simp add: is_digit_def digit_char_def)

lemma digit_value_digit_char [simp]: "d < 10 \<Longrightarrow> digit_value (digit_char d) = d"
  by (simp add: digit_value_def digit_char_def)

lemma digits_value_snoc [simp]: "digits_value (s @ [c]) = 10 * digits_value s + digit_value c"
  by (simp add: digits_value_def)

lemma digits_value_Nil [simp]: "digits_value [] = 0"
  by (simp add: digits_value_def)

lemma show_nat_not_Nil [simp]: "show_nat n \<noteq> []"
  by (subst show_nat.simps) simp

lemma show_nat_digits: "c \<in> set (show_nat n) \<Longrightarrow> is_digit c"
proof (induction n rule: show_nat.induct)
  case (1 n)
  then show ?case by (cases "n < 10") (auto simp: show_nat.simps [of n])
qed

lemma digits_value_show_nat [simp]: "digits_value (show_nat n) = n"
proof (induction n rule: show_nat.induct)
  case (1 n)
  show ?case
  proof (cases "n < 10")
    case True
    then show ?thesis using digits_value_snoc [of "[]"] by (simp add: show_nat.simps [of n])
  next
    case False
    then show ?thesis using 1 by (simp add: show_nat.simps [of n])
  qed
qed

lemma show_nat_hd:
  "0 < n \<Longrightarrow> hd (show_nat n) \<noteq> CHR ''0''"
proof (induction n rule: show_nat.induct)
  case (1 n)
  show ?case
  proof (cases "n < 10")
    case True
    have "\<forall>d \<in> set [1..<10]. digit_char d \<noteq> CHR ''0''" by code_simp
    then show ?thesis using True 1(2) by (simp add: show_nat.simps [of n])
  next
    case False
    then show ?thesis using 1 by (simp add: show_nat.simps [of n] hd_append)
  qed
qed

lemma takeWhile_show_nat:
  "rest = [] \<or> \<not> is_digit (hd rest) \<Longrightarrow>
   takeWhile is_digit (show_nat n @ rest) = show_nat n \<and> dropWhile is_digit (show_nat n @ rest) = rest"
  using show_nat_digits [of _ n]
  by (cases rest) (auto simp: takeWhile_append dropWhile_append)

text \<open>Printing and reading back an unsigned value.\<close>

lemma from_chars_show_word:
  assumes "rest = [] \<or> \<not> is_digit (hd rest)"
  shows "from_chars_unsigned (show_word w @ rest) = Inr (w, rest)"
  using takeWhile_show_nat [OF assms, of "unat w"] unsigned_less [of w, where ?'a = nat]
  by (simp add: from_chars_unsigned_def show_word_def)

lemma digit_not_newline: "is_digit c \<Longrightarrow> c \<noteq> CHR 0x0A"
  by (auto simp: is_digit_def)

lemma show_nat_no_newline [simp]: "CHR 0x0A \<notin> set (show_nat n)"
  using show_nat_digits digit_not_newline by blast

lemma show_int_no_newline [simp]: "CHR 0x0A \<notin> set (show_int i)"
  by (simp add: show_int_def)

lemma pad_zero_no_newline [simp]: "CHR 0x0A \<notin> set s \<Longrightarrow> CHR 0x0A \<notin> set (pad_zero n s)"
  by (simp add: pad_zero_def)

end
