(* ===== verification/Config_Data.thy ===== *)
theory Config_Data
  imports Text
begin

text \<open>
  \<open>MonitorConfig\<close> of \<^verbatim>\<open>include/minilisysm/core/config.hpp\<close>: every field of the struct, under its own name
  and with its own type, and the default member initialisers.
\<close>

record monitor_config =
  enable :: bool
  config_version :: string
  platform :: string
  software_version :: string
  device_id :: string
  fast_collect_interval_ms :: u32
  low_freq_collect_interval_ms :: u32
  dispatcher_idle_sleep_ms :: u32
  sink_idle_sleep_ms :: u32
  metrics_enable :: bool
  metrics_bind_host :: string
  metrics_port :: u16
  metrics_scrape_runtime :: bool
  metrics_scrape_collectors :: bool
  metrics_scrape_rule_state :: bool
  metrics_allowed_clients :: "string list"
  agent_log_enable :: bool
  agent_log_level :: string
  agent_log_console :: bool
  agent_log_path :: string
  agent_log_rotation :: string
  agent_log_rotate_mb :: u64
  agent_log_rotate_files :: u32
  agent_log_async_queue_size :: u32
  fast_collector_cpu :: i32
  sched_collector_cpu :: i32
  persist_thread_cpu :: i32
  fast_collector_nice :: i32
  sched_collector_nice :: i32
  background_nice :: i32
  event_queue_capacity :: size_t
  critical_reserved_slots :: size_t
  drop_info_when_full :: bool
  drop_warning_when_full :: bool
  memory_rule_enable :: bool
  mem_available_warning_mb :: u64
  mem_available_critical_mb :: u64
  mem_available_recovery_mb :: u64
  continuous_warning_windows :: u32
  continuous_critical_windows :: u32
  recovery_windows :: u32
  cooldown_sec :: u32
  state_ttl_sec :: u32
  self_protection_enable :: bool
  queue_warning_percent :: u32
  queue_critical_percent :: u32
  queue_recovery_percent :: u32
  self_recovery_windows :: u32
  self_rss_soft_limit_mb :: u64
  self_rss_hard_limit_mb :: u64
  self_rss_recovery_mb :: u64
  sched_delay_enable :: bool
  sched_delay_source :: string
  sched_process_whitelist :: "string list"
  sched_thread_whitelist :: "string list"
  sched_wait_sum_warning_us :: u64
  sched_wait_sum_critical_us :: u64
  sched_wait_sum_recovery_us :: u64
  sched_ebpf_min_wait_us :: u64
  sched_ebpf_ringbuf_kb :: u32
  sched_ebpf_max_events_per_poll :: u32
  sched_ebpf_lifecycle_enable :: bool
  sched_ebpf_allowlist_refresh_ms :: u32
  sched_ebpf_aggregate_enable :: bool
  sched_ebpf_aggregate_window_ms :: u32
  sched_ebpf_aggregate_max_entries :: u32
  sched_proc_cache_refresh_ms :: u32
  sched_proc_max_scan_threads :: u32
  sched_collector_overrun_warning_ms :: u32
  sched_involuntary_switch_warning :: u64
  sched_continuous_warning_windows :: u32
  sched_continuous_critical_windows :: u32
  sched_recovery_windows :: u32
  sched_max_targets :: u32
  process_memory_enable :: bool
  process_memory_growth_warning_mb :: u64
  process_memory_growth_critical_mb :: u64
  process_memory_growth_recovery_mb :: u64
  process_memory_growth_window_sec :: u32
  io_delay_enable :: bool
  io_device_whitelist :: "string list"
  io_await_warning_ms :: double
  io_await_critical_ms :: double
  io_await_recovery_ms :: double
  io_util_warning_percent :: double
  io_util_critical_percent :: double
  io_util_recovery_percent :: double
  io_continuous_warning_windows :: u32
  io_continuous_critical_windows :: u32
  io_recovery_windows :: u32
  io_max_targets :: u32
  cpu_usage_enable :: bool
  cpu_usage_mode :: string
  cpu_usage_core_whitelist :: "string list"
  cpu_usage_warning_percent :: double
  cpu_usage_critical_percent :: double
  cpu_usage_recovery_percent :: double
  cpu_usage_continuous_warning_windows :: u32
  cpu_usage_continuous_critical_windows :: u32
  cpu_usage_recovery_windows :: u32
  persistence_enable :: bool
  cache_path :: string
  cache_max_mb :: u64
  file_rotate_mb :: u64
  critical_fsync :: bool
  max_fsync_per_minute :: u32
  summary_enable :: bool
  summary_color :: bool
  network_sink_enable :: bool
  network_endpoint :: string
  network_batch_size :: u32
  network_flush_interval_ms :: u32
  network_connect_timeout_ms :: u32
  network_request_timeout_ms :: u32
  network_retry_base_ms :: u32
  network_retry_max_ms :: u32
  network_wal_path :: string
  network_wal_max_mb :: u64
  network_wal_segment_mb :: u64

definition default_config :: monitor_config where
  "default_config = \<lparr>
     enable = True,
     config_version = ''default'',
     platform = ''unknown'',
     software_version = ''0.0.0'',
     device_id = ''unknown_device'',
     fast_collect_interval_ms = 1000,
     low_freq_collect_interval_ms = 10000,
     dispatcher_idle_sleep_ms = 2,
     sink_idle_sleep_ms = 5,
     metrics_enable = True,
     metrics_bind_host = ''0.0.0.0'',
     metrics_port = 9108,
     metrics_scrape_runtime = True,
     metrics_scrape_collectors = True,
     metrics_scrape_rule_state = True,
     metrics_allowed_clients = [],
     agent_log_enable = True,
     agent_log_level = ''info'',
     agent_log_console = True,
     agent_log_path = ''./logs/agent/minilisysm-agent.log'',
     agent_log_rotation = ''size'',
     agent_log_rotate_mb = 16,
     agent_log_rotate_files = 8,
     agent_log_async_queue_size = 8192,
     fast_collector_cpu = - 1,
     sched_collector_cpu = - 1,
     persist_thread_cpu = - 1,
     fast_collector_nice = 5,
     sched_collector_nice = 8,
     background_nice = 10,
     event_queue_capacity = 4096,
     critical_reserved_slots = 32,
     drop_info_when_full = True,
     drop_warning_when_full = True,
     memory_rule_enable = True,
     mem_available_warning_mb = 512,
     mem_available_critical_mb = 256,
     mem_available_recovery_mb = 768,
     continuous_warning_windows = 3,
     continuous_critical_windows = 2,
     recovery_windows = 3,
     cooldown_sec = 60,
     state_ttl_sec = 3600,
     self_protection_enable = True,
     queue_warning_percent = 70,
     queue_critical_percent = 90,
     queue_recovery_percent = 50,
     self_recovery_windows = 3,
     self_rss_soft_limit_mb = 40,
     self_rss_hard_limit_mb = 64,
     self_rss_recovery_mb = 32,
     sched_delay_enable = True,
     sched_delay_source = ''proc'',
     sched_process_whitelist = [],
     sched_thread_whitelist = [],
     sched_wait_sum_warning_us = 10000,
     sched_wait_sum_critical_us = 30000,
     sched_wait_sum_recovery_us = 5000,
     sched_ebpf_min_wait_us = 10000,
     sched_ebpf_ringbuf_kb = 1024,
     sched_ebpf_max_events_per_poll = 4096,
     sched_ebpf_lifecycle_enable = True,
     sched_ebpf_allowlist_refresh_ms = 10000,
     sched_ebpf_aggregate_enable = False,
     sched_ebpf_aggregate_window_ms = 1000,
     sched_ebpf_aggregate_max_entries = 8192,
     sched_proc_cache_refresh_ms = 10000,
     sched_proc_max_scan_threads = 4096,
     sched_collector_overrun_warning_ms = 200,
     sched_involuntary_switch_warning = 100,
     sched_continuous_warning_windows = 3,
     sched_continuous_critical_windows = 2,
     sched_recovery_windows = 3,
     sched_max_targets = 32,
     process_memory_enable = True,
     process_memory_growth_warning_mb = 100,
     process_memory_growth_critical_mb = 200,
     process_memory_growth_recovery_mb = 20,
     process_memory_growth_window_sec = 600,
     io_delay_enable = True,
     io_device_whitelist = [],
     io_await_warning_ms = Fin 50,
     io_await_critical_ms = Fin 200,
     io_await_recovery_ms = Fin 20,
     io_util_warning_percent = Fin 80,
     io_util_critical_percent = Fin 95,
     io_util_recovery_percent = Fin 50,
     io_continuous_warning_windows = 3,
     io_continuous_critical_windows = 2,
     io_recovery_windows = 3,
     io_max_targets = 16,
     cpu_usage_enable = True,
     cpu_usage_mode = ''total'',
     cpu_usage_core_whitelist = [],
     cpu_usage_warning_percent = Fin 80,
     cpu_usage_critical_percent = Fin 95,
     cpu_usage_recovery_percent = Fin 60,
     cpu_usage_continuous_warning_windows = 3,
     cpu_usage_continuous_critical_windows = 2,
     cpu_usage_recovery_windows = 3,
     persistence_enable = True,
     cache_path = ''./logs/events'',
     cache_max_mb = 100,
     file_rotate_mb = 4,
     critical_fsync = True,
     max_fsync_per_minute = 6,
     summary_enable = True,
     summary_color = False,
     network_sink_enable = False,
     network_endpoint = ''http://127.0.0.1:8080/events'',
     network_batch_size = 128,
     network_flush_interval_ms = 1000,
     network_connect_timeout_ms = 500,
     network_request_timeout_ms = 2000,
     network_retry_base_ms = 1000,
     network_retry_max_ms = 60000,
     network_wal_path = ''./logs/wal'',
     network_wal_max_mb = 64,
     network_wal_segment_mb = 4\<rparr>"

end
