(* ===== verification/Config.thy ===== *)
theory Config
  imports Config_Data
begin

text \<open>
  \<^verbatim>\<open>src/core/config.cpp\<close>: the INI reader, the typed assignments, \<open>ConfigLoader::load_or_default\<close> and
  \<open>ConfigLoader::validate\<close>. The file is the text it holds, or \<open>None\<close> when it cannot be opened (the
  stream then yields no line). \<open>validate\<close> returns the configuration it leaves behind and the error
  text of a \<open>false\<close> result.

  The lemmas show what the reader accepts (the last assignment to a key wins, a section text
  printed and parsed back gives its entries), which strings are IPv4 addresses, that a successful
  validation establishes the bounds the other components rely on, where it is idempotent, and what
  an early \<open>false\<close> leaves undone.
\<close>

section \<open>The INI reader\<close>

definition trim :: "string \<Rightarrow> string" where
  "trim s = rev (dropWhile is_space (rev (dropWhile is_space s)))"

text \<open>A line up to its first comment character.\<close>

definition strip_comment :: "string \<Rightarrow> string" where
  "strip_comment line = takeWhile (\<lambda>c. c \<noteq> CHR ''#'' \<and> c \<noteq> CHR '';'') line"

type_synonym ini = "string \<rightharpoonup> (string \<rightharpoonup> string)"

definition ini_insert :: "string \<Rightarrow> string \<Rightarrow> string \<Rightarrow> ini \<Rightarrow> ini" where
  "ini_insert sec key val ini =
     ini(sec \<mapsto> (case ini sec of None \<Rightarrow> Map.empty | Some m \<Rightarrow> m)(key \<mapsto> val))"

definition parse_ini_line :: "string \<Rightarrow> ini \<times> string \<Rightarrow> ini \<times> string" where
  "parse_ini_line line = (\<lambda>(ini, sec).
     let cleaned = trim (strip_comment line)
     in if cleaned = [] then (ini, sec)
        else if hd cleaned = CHR ''['' \<and> last cleaned = CHR '']'' then (ini, trim (butlast (tl cleaned)))
        else case split_first (CHR ''='') cleaned of
               None \<Rightarrow> (ini, sec)
             | Some (k, v) \<Rightarrow> if sec = [] then (ini, sec) else (ini_insert sec (trim k) (trim v) ini, sec))"

definition parse_ini :: "string option \<Rightarrow> ini" where
  "parse_ini content =
     (case content of
        None \<Rightarrow> Map.empty
      | Some text \<Rightarrow> fst (fold parse_ini_line (get_lines text) (Map.empty, [])))"

definition find_value :: "ini \<Rightarrow> string \<Rightarrow> string \<Rightarrow> string option" where
  "find_value ini sec key = (case ini sec of None \<Rightarrow> None | Some m \<Rightarrow> m key)"

definition parse_bool :: "string \<Rightarrow> bool" where
  "parse_bool value = (lowercase value \<in> {''true'', ''1'', ''yes'', ''on''})"

section \<open>Typed assignments\<close>

text \<open>Each returns the new value of the target: the parsed value, or the old one.\<close>

definition assign_unsigned :: "ini \<Rightarrow> string \<Rightarrow> string \<Rightarrow> 'a::len word \<Rightarrow> 'a word" where
  "assign_unsigned ini sec key old =
     (case find_value ini sec key of
        None \<Rightarrow> old
      | Some v \<Rightarrow> (case from_chars_unsigned v of Inr (parsed, _) \<Rightarrow> parsed | Inl _ \<Rightarrow> old))"

definition assign_signed :: "ini \<Rightarrow> string \<Rightarrow> string \<Rightarrow> 'a::len word \<Rightarrow> 'a word" where
  "assign_signed ini sec key old =
     (case find_value ini sec key of
        None \<Rightarrow> old
      | Some v \<Rightarrow> (case from_chars_signed v of Inr (parsed, _) \<Rightarrow> parsed | Inl _ \<Rightarrow> old))"

definition assign_bool :: "ini \<Rightarrow> string \<Rightarrow> string \<Rightarrow> bool \<Rightarrow> bool" where
  "assign_bool ini sec key old =
     (case find_value ini sec key of None \<Rightarrow> old | Some v \<Rightarrow> parse_bool v)"

definition assign_string :: "ini \<Rightarrow> string \<Rightarrow> string \<Rightarrow> string \<Rightarrow> string" where
  "assign_string ini sec key old =
     (case find_value ini sec key of None \<Rightarrow> old | Some v \<Rightarrow> v)"

definition assign_double :: "ini \<Rightarrow> string \<Rightarrow> string \<Rightarrow> double \<Rightarrow> double" where
  "assign_double ini sec key old =
     (case find_value ini sec key of
        None \<Rightarrow> old
      | Some v \<Rightarrow> (case stod v of Inr (parsed, rest) \<Rightarrow> if rest = [] then parsed else old | Inl _ \<Rightarrow> old))"

function split_csv :: "string \<Rightarrow> string list" where
  "split_csv value =
     (if value = [] then []
      else case split_first (CHR '','') value of
             None \<Rightarrow> (if trim value = [] then [] else [trim value])
           | Some (item, rest) \<Rightarrow> (if trim item = [] then [] else [trim item]) @ split_csv rest)"
  by pat_completeness auto
termination
  by (relation "measure length") (auto simp: split_first_Some)

declare split_csv.simps [simp del]

definition assign_csv :: "ini \<Rightarrow> string \<Rightarrow> string \<Rightarrow> string list \<Rightarrow> string list" where
  "assign_csv ini sec key old =
     (case find_value ini sec key of None \<Rightarrow> old | Some v \<Rightarrow> split_csv v)"

text \<open>
  The octet loop of \<open>valid_ipv4\<close>: the first argument counts the octets left. An octet that does not
  fit an \<open>unsigned int\<close> is a conversion error.
\<close>

definition valid_octet :: "string \<Rightarrow> bool" where
  "valid_octet part =
     (case (from_chars_unsigned part :: conv_error + (u32 \<times> string)) of
        Inl _ \<Rightarrow> False
      | Inr (parsed, rest) \<Rightarrow> part \<noteq> [] \<and> rest = [] \<and> parsed \<le> 255)"

fun valid_octets :: "nat \<Rightarrow> string \<Rightarrow> bool" where
  "valid_octets 0 s = False"
| "valid_octets (Suc n) s =
     (case split_first (CHR ''.'') s of
        None \<Rightarrow> valid_octet s \<and> n = 0
      | Some (part, rest) \<Rightarrow> valid_octet part \<and> n \<noteq> 0 \<and> valid_octets n rest)"

definition valid_ipv4 :: "string \<Rightarrow> bool" where
  "valid_ipv4 s = valid_octets 4 s"

section \<open>Loading\<close>

definition load_linux_stability_monitor :: "ini \<Rightarrow> monitor_config \<Rightarrow> monitor_config" where
  "load_linux_stability_monitor ini c = c\<lparr>
     enable := assign_bool ini ''linux_stability_monitor'' ''enable'' (enable c),
     config_version := assign_string ini ''linux_stability_monitor'' ''config_version'' (config_version c),
     platform := assign_string ini ''linux_stability_monitor'' ''platform'' (platform c),
     software_version := assign_string ini ''linux_stability_monitor'' ''software_version'' (software_version c),
     device_id := assign_string ini ''linux_stability_monitor'' ''device_id'' (device_id c),
     fast_collect_interval_ms := assign_unsigned ini ''linux_stability_monitor'' ''fast_collect_interval_ms'' (fast_collect_interval_ms c),
     low_freq_collect_interval_ms := assign_unsigned ini ''linux_stability_monitor'' ''low_freq_collect_interval_ms'' (low_freq_collect_interval_ms c),
     dispatcher_idle_sleep_ms := assign_unsigned ini ''runtime'' ''dispatcher_idle_sleep_ms'' (dispatcher_idle_sleep_ms c),
     sink_idle_sleep_ms := assign_unsigned ini ''runtime'' ''sink_idle_sleep_ms'' (sink_idle_sleep_ms c),
     metrics_enable := assign_bool ini ''metrics'' ''enable'' (metrics_enable c),
     metrics_bind_host := assign_string ini ''metrics'' ''bind_host'' (metrics_bind_host c),
     metrics_port := assign_unsigned ini ''metrics'' ''port'' (metrics_port c),
     metrics_scrape_runtime := assign_bool ini ''metrics'' ''scrape_runtime'' (metrics_scrape_runtime c),
     metrics_scrape_collectors := assign_bool ini ''metrics'' ''scrape_collectors'' (metrics_scrape_collectors c),
     metrics_scrape_rule_state := assign_bool ini ''metrics'' ''scrape_rule_state'' (metrics_scrape_rule_state c),
     metrics_allowed_clients := assign_csv ini ''metrics'' ''allowed_clients'' (metrics_allowed_clients c)\<rparr>"

definition load_agent_log :: "ini \<Rightarrow> monitor_config \<Rightarrow> monitor_config" where
  "load_agent_log ini c = c\<lparr>
     agent_log_enable := assign_bool ini ''agent_log'' ''enable'' (agent_log_enable c),
     agent_log_level := assign_string ini ''agent_log'' ''level'' (agent_log_level c),
     agent_log_console := assign_bool ini ''agent_log'' ''console'' (agent_log_console c),
     agent_log_path := assign_string ini ''agent_log'' ''path'' (agent_log_path c),
     agent_log_rotation := assign_string ini ''agent_log'' ''rotation'' (agent_log_rotation c),
     agent_log_rotate_mb := assign_unsigned ini ''agent_log'' ''rotate_mb'' (agent_log_rotate_mb c),
     agent_log_rotate_files := assign_unsigned ini ''agent_log'' ''rotate_files'' (agent_log_rotate_files c),
     agent_log_async_queue_size := assign_unsigned ini ''agent_log'' ''async_queue_size'' (agent_log_async_queue_size c)\<rparr>"

definition load_thread_policy :: "ini \<Rightarrow> monitor_config \<Rightarrow> monitor_config" where
  "load_thread_policy ini c = c\<lparr>
     fast_collector_cpu := assign_signed ini ''thread_policy'' ''fast_collector_cpu'' (fast_collector_cpu c),
     sched_collector_cpu := assign_signed ini ''thread_policy'' ''sched_collector_cpu'' (sched_collector_cpu c),
     persist_thread_cpu := assign_signed ini ''thread_policy'' ''persist_thread_cpu'' (persist_thread_cpu c),
     fast_collector_nice := assign_signed ini ''thread_policy'' ''fast_collector_nice'' (fast_collector_nice c),
     sched_collector_nice := assign_signed ini ''thread_policy'' ''sched_collector_nice'' (sched_collector_nice c),
     background_nice := assign_signed ini ''thread_policy'' ''background_nice'' (background_nice c)\<rparr>"

definition load_event_queue :: "ini \<Rightarrow> monitor_config \<Rightarrow> monitor_config" where
  "load_event_queue ini c = c\<lparr>
     event_queue_capacity := assign_unsigned ini ''event_queue'' ''capacity'' (event_queue_capacity c),
     critical_reserved_slots := assign_unsigned ini ''event_queue'' ''critical_reserved_slots'' (critical_reserved_slots c),
     drop_info_when_full := assign_bool ini ''event_queue'' ''drop_info_when_full'' (drop_info_when_full c),
     drop_warning_when_full := assign_bool ini ''event_queue'' ''drop_warning_when_full'' (drop_warning_when_full c)\<rparr>"

definition load_memory_rule :: "ini \<Rightarrow> monitor_config \<Rightarrow> monitor_config" where
  "load_memory_rule ini c = c\<lparr>
     memory_rule_enable := assign_bool ini ''memory_rule'' ''enable'' (memory_rule_enable c),
     mem_available_warning_mb := assign_unsigned ini ''memory_rule'' ''mem_available_warning_mb'' (mem_available_warning_mb c),
     mem_available_critical_mb := assign_unsigned ini ''memory_rule'' ''mem_available_critical_mb'' (mem_available_critical_mb c),
     mem_available_recovery_mb := assign_unsigned ini ''memory_rule'' ''mem_available_recovery_mb'' (mem_available_recovery_mb c),
     continuous_warning_windows := assign_unsigned ini ''memory_rule'' ''continuous_warning_windows'' (continuous_warning_windows c),
     continuous_critical_windows := assign_unsigned ini ''memory_rule'' ''continuous_critical_windows'' (continuous_critical_windows c),
     recovery_windows := assign_unsigned ini ''memory_rule'' ''recovery_windows'' (recovery_windows c),
     cooldown_sec := assign_unsigned ini ''memory_rule'' ''cooldown_sec'' (cooldown_sec c)\<rparr>"

definition load_rule_runtime :: "ini \<Rightarrow> monitor_config \<Rightarrow> monitor_config" where
  "load_rule_runtime ini c = c\<lparr>
     cooldown_sec := assign_unsigned ini ''rule_runtime'' ''cooldown_sec'' (cooldown_sec c),
     state_ttl_sec := assign_unsigned ini ''rule_runtime'' ''state_ttl_sec'' (state_ttl_sec c)\<rparr>"

definition load_self_protection :: "ini \<Rightarrow> monitor_config \<Rightarrow> monitor_config" where
  "load_self_protection ini c = c\<lparr>
     self_protection_enable := assign_bool ini ''self_protection'' ''enable'' (self_protection_enable c),
     queue_warning_percent := assign_unsigned ini ''self_protection'' ''queue_warning_percent'' (queue_warning_percent c),
     queue_critical_percent := assign_unsigned ini ''self_protection'' ''queue_critical_percent'' (queue_critical_percent c),
     queue_recovery_percent := assign_unsigned ini ''self_protection'' ''queue_recovery_percent'' (queue_recovery_percent c),
     self_recovery_windows := assign_unsigned ini ''self_protection'' ''self_recovery_windows'' (self_recovery_windows c),
     self_rss_soft_limit_mb := assign_unsigned ini ''self_protection'' ''self_rss_soft_limit_mb'' (self_rss_soft_limit_mb c),
     self_rss_hard_limit_mb := assign_unsigned ini ''self_protection'' ''self_rss_hard_limit_mb'' (self_rss_hard_limit_mb c),
     self_rss_recovery_mb := assign_unsigned ini ''self_protection'' ''self_rss_recovery_mb'' (self_rss_recovery_mb c)\<rparr>"

definition load_sched_delay_rule :: "ini \<Rightarrow> monitor_config \<Rightarrow> monitor_config" where
  "load_sched_delay_rule ini c = c\<lparr>
     sched_delay_enable := assign_bool ini ''sched_delay_rule'' ''enable'' (sched_delay_enable c),
     sched_delay_source := assign_string ini ''sched_delay_rule'' ''source'' (sched_delay_source c),
     sched_process_whitelist := assign_csv ini ''sched_delay_rule'' ''process_whitelist'' (sched_process_whitelist c),
     sched_thread_whitelist := assign_csv ini ''sched_delay_rule'' ''thread_whitelist'' (sched_thread_whitelist c),
     sched_wait_sum_warning_us := assign_unsigned ini ''sched_delay_rule'' ''wait_sum_warning_us'' (sched_wait_sum_warning_us c),
     sched_wait_sum_critical_us := assign_unsigned ini ''sched_delay_rule'' ''wait_sum_critical_us'' (sched_wait_sum_critical_us c),
     sched_wait_sum_recovery_us := assign_unsigned ini ''sched_delay_rule'' ''wait_sum_recovery_us'' (sched_wait_sum_recovery_us c),
     sched_ebpf_min_wait_us := assign_unsigned ini ''sched_delay_rule'' ''ebpf_min_wait_us'' (sched_ebpf_min_wait_us c),
     sched_ebpf_ringbuf_kb := assign_unsigned ini ''sched_delay_rule'' ''ebpf_ringbuf_kb'' (sched_ebpf_ringbuf_kb c),
     sched_ebpf_max_events_per_poll := assign_unsigned ini ''sched_delay_rule'' ''ebpf_max_events_per_poll'' (sched_ebpf_max_events_per_poll c),
     sched_ebpf_lifecycle_enable := assign_bool ini ''sched_delay_rule'' ''ebpf_lifecycle_enable'' (sched_ebpf_lifecycle_enable c),
     sched_ebpf_allowlist_refresh_ms := assign_unsigned ini ''sched_delay_rule'' ''ebpf_allowlist_refresh_ms'' (sched_ebpf_allowlist_refresh_ms c),
     sched_ebpf_aggregate_enable := assign_bool ini ''sched_delay_rule'' ''ebpf_aggregate_enable'' (sched_ebpf_aggregate_enable c),
     sched_ebpf_aggregate_window_ms := assign_unsigned ini ''sched_delay_rule'' ''ebpf_aggregate_window_ms'' (sched_ebpf_aggregate_window_ms c),
     sched_ebpf_aggregate_max_entries := assign_unsigned ini ''sched_delay_rule'' ''ebpf_aggregate_max_entries'' (sched_ebpf_aggregate_max_entries c),
     sched_proc_cache_refresh_ms := assign_unsigned ini ''sched_delay_rule'' ''proc_cache_refresh_ms'' (sched_proc_cache_refresh_ms c),
     sched_proc_max_scan_threads := assign_unsigned ini ''sched_delay_rule'' ''proc_max_scan_threads'' (sched_proc_max_scan_threads c),
     sched_collector_overrun_warning_ms := assign_unsigned ini ''sched_delay_rule'' ''collector_overrun_warning_ms'' (sched_collector_overrun_warning_ms c),
     sched_involuntary_switch_warning := assign_unsigned ini ''sched_delay_rule'' ''involuntary_switch_warning'' (sched_involuntary_switch_warning c),
     sched_continuous_warning_windows := assign_unsigned ini ''sched_delay_rule'' ''continuous_warning_windows'' (sched_continuous_warning_windows c),
     sched_continuous_critical_windows := assign_unsigned ini ''sched_delay_rule'' ''continuous_critical_windows'' (sched_continuous_critical_windows c),
     sched_recovery_windows := assign_unsigned ini ''sched_delay_rule'' ''recovery_windows'' (sched_recovery_windows c),
     sched_max_targets := assign_unsigned ini ''sched_delay_rule'' ''max_targets'' (sched_max_targets c)\<rparr>"

definition load_process_memory_rule :: "ini \<Rightarrow> monitor_config \<Rightarrow> monitor_config" where
  "load_process_memory_rule ini c = c\<lparr>
     process_memory_enable := assign_bool ini ''process_memory_rule'' ''enable'' (process_memory_enable c),
     process_memory_growth_warning_mb := assign_unsigned ini ''process_memory_rule'' ''growth_warning_mb'' (process_memory_growth_warning_mb c),
     process_memory_growth_critical_mb := assign_unsigned ini ''process_memory_rule'' ''growth_critical_mb'' (process_memory_growth_critical_mb c),
     process_memory_growth_recovery_mb := assign_unsigned ini ''process_memory_rule'' ''growth_recovery_mb'' (process_memory_growth_recovery_mb c),
     process_memory_growth_window_sec := assign_unsigned ini ''process_memory_rule'' ''growth_window_sec'' (process_memory_growth_window_sec c)\<rparr>"

definition load_io_delay_rule :: "ini \<Rightarrow> monitor_config \<Rightarrow> monitor_config" where
  "load_io_delay_rule ini c = c\<lparr>
     io_delay_enable := assign_bool ini ''io_delay_rule'' ''enable'' (io_delay_enable c),
     io_device_whitelist := assign_csv ini ''io_delay_rule'' ''device_whitelist'' (io_device_whitelist c),
     io_await_warning_ms := assign_double ini ''io_delay_rule'' ''await_warning_ms'' (io_await_warning_ms c),
     io_await_critical_ms := assign_double ini ''io_delay_rule'' ''await_critical_ms'' (io_await_critical_ms c),
     io_await_recovery_ms := assign_double ini ''io_delay_rule'' ''await_recovery_ms'' (io_await_recovery_ms c),
     io_util_warning_percent := assign_double ini ''io_delay_rule'' ''util_warning_percent'' (io_util_warning_percent c),
     io_util_critical_percent := assign_double ini ''io_delay_rule'' ''util_critical_percent'' (io_util_critical_percent c),
     io_util_recovery_percent := assign_double ini ''io_delay_rule'' ''util_recovery_percent'' (io_util_recovery_percent c),
     io_continuous_warning_windows := assign_unsigned ini ''io_delay_rule'' ''continuous_warning_windows'' (io_continuous_warning_windows c),
     io_continuous_critical_windows := assign_unsigned ini ''io_delay_rule'' ''continuous_critical_windows'' (io_continuous_critical_windows c),
     io_recovery_windows := assign_unsigned ini ''io_delay_rule'' ''recovery_windows'' (io_recovery_windows c),
     io_max_targets := assign_unsigned ini ''io_delay_rule'' ''max_targets'' (io_max_targets c)\<rparr>"

definition load_cpu_usage_rule :: "ini \<Rightarrow> monitor_config \<Rightarrow> monitor_config" where
  "load_cpu_usage_rule ini c = c\<lparr>
     cpu_usage_enable := assign_bool ini ''cpu_usage_rule'' ''enable'' (cpu_usage_enable c),
     cpu_usage_mode := assign_string ini ''cpu_usage_rule'' ''mode'' (cpu_usage_mode c),
     cpu_usage_core_whitelist := assign_csv ini ''cpu_usage_rule'' ''core_whitelist'' (cpu_usage_core_whitelist c),
     cpu_usage_warning_percent := assign_double ini ''cpu_usage_rule'' ''warning_percent'' (cpu_usage_warning_percent c),
     cpu_usage_critical_percent := assign_double ini ''cpu_usage_rule'' ''critical_percent'' (cpu_usage_critical_percent c),
     cpu_usage_recovery_percent := assign_double ini ''cpu_usage_rule'' ''recovery_percent'' (cpu_usage_recovery_percent c),
     cpu_usage_continuous_warning_windows := assign_unsigned ini ''cpu_usage_rule'' ''continuous_warning_windows'' (cpu_usage_continuous_warning_windows c),
     cpu_usage_continuous_critical_windows := assign_unsigned ini ''cpu_usage_rule'' ''continuous_critical_windows'' (cpu_usage_continuous_critical_windows c),
     cpu_usage_recovery_windows := assign_unsigned ini ''cpu_usage_rule'' ''recovery_windows'' (cpu_usage_recovery_windows c)\<rparr>"

definition load_persistence :: "ini \<Rightarrow> monitor_config \<Rightarrow> monitor_config" where
  "load_persistence ini c = c\<lparr>
     persistence_enable := assign_bool ini ''persistence'' ''enable'' (persistence_enable c),
     cache_path := assign_string ini ''persistence'' ''cache_path'' (cache_path c),
     cache_max_mb := assign_unsigned ini ''persistence'' ''cache_max_mb'' (cache_max_mb c),
     file_rotate_mb := assign_unsigned ini ''persistence'' ''file_rotate_mb'' (file_rotate_mb c),
     critical_fsync := assign_bool ini ''persistence'' ''critical_fsync'' (critical_fsync c),
     max_fsync_per_minute := assign_unsigned ini ''persistence'' ''max_fsync_per_minute'' (max_fsync_per_minute c),
     summary_enable := assign_bool ini ''persistence'' ''summary_enable'' (summary_enable c),
     summary_color := assign_bool ini ''persistence'' ''summary_color'' (summary_color c)\<rparr>"

definition load_network_sink :: "ini \<Rightarrow> monitor_config \<Rightarrow> monitor_config" where
  "load_network_sink ini c = c\<lparr>
     network_sink_enable := assign_bool ini ''network_sink'' ''enable'' (network_sink_enable c),
     network_endpoint := assign_string ini ''network_sink'' ''endpoint'' (network_endpoint c),
     network_batch_size := assign_unsigned ini ''network_sink'' ''batch_size'' (network_batch_size c),
     network_flush_interval_ms := assign_unsigned ini ''network_sink'' ''flush_interval_ms'' (network_flush_interval_ms c),
     network_connect_timeout_ms := assign_unsigned ini ''network_sink'' ''connect_timeout_ms'' (network_connect_timeout_ms c),
     network_request_timeout_ms := assign_unsigned ini ''network_sink'' ''request_timeout_ms'' (network_request_timeout_ms c),
     network_retry_base_ms := assign_unsigned ini ''network_sink'' ''retry_base_ms'' (network_retry_base_ms c),
     network_retry_max_ms := assign_unsigned ini ''network_sink'' ''retry_max_ms'' (network_retry_max_ms c),
     network_wal_path := assign_string ini ''network_sink'' ''wal_path'' (network_wal_path c),
     network_wal_max_mb := assign_unsigned ini ''network_sink'' ''wal_max_mb'' (network_wal_max_mb c),
     network_wal_segment_mb := assign_unsigned ini ''network_sink'' ''wal_segment_mb'' (network_wal_segment_mb c)\<rparr>"

section \<open>Validation\<close>

text \<open>
  The assignments of \<open>validate\<close> in source order, in groups. Within a group every assignment writes a
  field of its own, and a value read from a field the group has already written is computed first.
\<close>

definition validate_head :: "monitor_config \<Rightarrow> monitor_config" where
  "validate_head c = c\<lparr>
     agent_log_level := lowercase (agent_log_level c),
     agent_log_rotation := lowercase (agent_log_rotation c),
     cpu_usage_mode := lowercase (cpu_usage_mode c),
     fast_collect_interval_ms := (if fast_collect_interval_ms c < 100 then 100 else fast_collect_interval_ms c),
     dispatcher_idle_sleep_ms := (if dispatcher_idle_sleep_ms c = 0 then 1 else dispatcher_idle_sleep_ms c),
     sink_idle_sleep_ms := (if sink_idle_sleep_ms c = 0 then 1 else sink_idle_sleep_ms c),
     metrics_enable := (if metrics_port c = 0 then False else metrics_enable c)\<rparr>"

definition validate_runtime :: "monitor_config \<Rightarrow> monitor_config" where
  "validate_runtime c =
     (let capacity = (if event_queue_capacity c < 16 then 16 else event_queue_capacity c)
      in c\<lparr>
     state_ttl_sec := (if state_ttl_sec c = 0 then 3600 else state_ttl_sec c),
     agent_log_level :=
       (if agent_log_level c \<notin> {''debug'', ''info'', ''warn'', ''error''} then ''info'' else agent_log_level c),
     agent_log_rotation :=
       (if agent_log_rotation c \<notin> {''size'', ''daily''} then ''size'' else agent_log_rotation c),
     agent_log_rotate_mb := (if agent_log_rotate_mb c = 0 then 1 else agent_log_rotate_mb c),
     agent_log_rotate_files := (if agent_log_rotate_files c = 0 then 1 else agent_log_rotate_files c),
     agent_log_async_queue_size :=
       (if agent_log_async_queue_size c < 1024 then 1024 else agent_log_async_queue_size c),
     event_queue_capacity := capacity,
     critical_reserved_slots :=
       (if capacity \<le> critical_reserved_slots c then capacity - 1 else critical_reserved_slots c)\<rparr>)"

definition validate_pressure :: "monitor_config \<Rightarrow> monitor_config" where
  "validate_pressure c = c\<lparr>
     mem_available_recovery_mb :=
       (if mem_available_recovery_mb c < mem_available_warning_mb c then mem_available_warning_mb c
        else mem_available_recovery_mb c),
     queue_critical_percent :=
       (if queue_critical_percent c < queue_warning_percent c then queue_warning_percent c
        else queue_critical_percent c),
     queue_recovery_percent :=
       (if queue_warning_percent c < queue_recovery_percent c then queue_warning_percent c
        else queue_recovery_percent c),
     self_rss_hard_limit_mb :=
       (if self_rss_hard_limit_mb c < self_rss_soft_limit_mb c then self_rss_soft_limit_mb c
        else self_rss_hard_limit_mb c),
     self_rss_recovery_mb :=
       (if self_rss_soft_limit_mb c < self_rss_recovery_mb c then self_rss_soft_limit_mb c
        else self_rss_recovery_mb c)\<rparr>"

definition validate_sched :: "monitor_config \<Rightarrow> monitor_config" where
  "validate_sched c = c\<lparr>
     sched_wait_sum_critical_us :=
       (if sched_wait_sum_critical_us c < sched_wait_sum_warning_us c then sched_wait_sum_warning_us c
        else sched_wait_sum_critical_us c),
     sched_ebpf_min_wait_us :=
       (if sched_ebpf_min_wait_us c = 0 then sched_wait_sum_warning_us c else sched_ebpf_min_wait_us c),
     sched_ebpf_ringbuf_kb := (if sched_ebpf_ringbuf_kb c < 64 then 64 else sched_ebpf_ringbuf_kb c),
     sched_ebpf_max_events_per_poll :=
       (if sched_ebpf_max_events_per_poll c = 0 then 1 else sched_ebpf_max_events_per_poll c),
     sched_ebpf_allowlist_refresh_ms :=
       (if sched_ebpf_allowlist_refresh_ms c = 0 then sched_proc_cache_refresh_ms c
        else sched_ebpf_allowlist_refresh_ms c),
     sched_ebpf_aggregate_window_ms :=
       (if sched_ebpf_aggregate_window_ms c = 0 then 1 else sched_ebpf_aggregate_window_ms c),
     sched_ebpf_aggregate_max_entries :=
       (if sched_ebpf_aggregate_max_entries c < 16 then 16 else sched_ebpf_aggregate_max_entries c),
     sched_proc_cache_refresh_ms :=
       (if sched_proc_cache_refresh_ms c = 0 then low_freq_collect_interval_ms c
        else sched_proc_cache_refresh_ms c),
     sched_proc_max_scan_threads :=
       (if sched_proc_max_scan_threads c = 0 then 1 else sched_proc_max_scan_threads c),
     sched_collector_overrun_warning_ms :=
       (if sched_collector_overrun_warning_ms c = 0 then 1 else sched_collector_overrun_warning_ms c),
     sched_delay_source :=
       (if sched_delay_source c \<notin> {''proc'', ''ebpf''} then ''proc'' else sched_delay_source c),
     sched_wait_sum_recovery_us :=
       (if sched_wait_sum_warning_us c < sched_wait_sum_recovery_us c then sched_wait_sum_warning_us c
        else sched_wait_sum_recovery_us c),
     sched_max_targets := (if sched_max_targets c = 0 then 1 else sched_max_targets c)\<rparr>"

definition validate_process_io :: "monitor_config \<Rightarrow> monitor_config" where
  "validate_process_io c = c\<lparr>
     process_memory_growth_critical_mb :=
       (if process_memory_growth_critical_mb c < process_memory_growth_warning_mb c
        then process_memory_growth_warning_mb c else process_memory_growth_critical_mb c),
     process_memory_growth_recovery_mb :=
       (if process_memory_growth_warning_mb c < process_memory_growth_recovery_mb c
        then process_memory_growth_warning_mb c else process_memory_growth_recovery_mb c),
     process_memory_growth_window_sec :=
       (if process_memory_growth_window_sec c = 0 then 1 else process_memory_growth_window_sec c),
     io_await_critical_ms :=
       (if dlt (io_await_critical_ms c) (io_await_warning_ms c) then io_await_warning_ms c
        else io_await_critical_ms c),
     io_await_recovery_ms :=
       (if dlt (io_await_warning_ms c) (io_await_recovery_ms c) then io_await_warning_ms c
        else io_await_recovery_ms c),
     io_util_critical_percent :=
       (if dlt (io_util_critical_percent c) (io_util_warning_percent c) then io_util_warning_percent c
        else io_util_critical_percent c),
     io_util_recovery_percent :=
       (if dlt (io_util_warning_percent c) (io_util_recovery_percent c) then io_util_warning_percent c
        else io_util_recovery_percent c),
     io_max_targets := (if io_max_targets c = 0 then 1 else io_max_targets c)\<rparr>"

definition clamp_percent :: "double \<Rightarrow> double" where
  "clamp_percent x = dmax (Fin 0) (dmin (Fin 100) x)"

definition validate_cpu :: "monitor_config \<Rightarrow> monitor_config" where
  "validate_cpu c =
     (let warning = cpu_usage_warning_percent c;
          critical = (if dlt (cpu_usage_critical_percent c) warning then warning else cpu_usage_critical_percent c);
          recovery = (if dlt warning (cpu_usage_recovery_percent c) then warning else cpu_usage_recovery_percent c)
      in c\<lparr>
     cpu_usage_mode :=
       (if cpu_usage_mode c \<notin> {''total'', ''per_core'', ''both''} then ''total'' else cpu_usage_mode c),
     cpu_usage_warning_percent := clamp_percent warning,
     cpu_usage_critical_percent := clamp_percent critical,
     cpu_usage_recovery_percent := clamp_percent recovery,
     cpu_usage_continuous_warning_windows :=
       (if cpu_usage_continuous_warning_windows c = 0 then 1 else cpu_usage_continuous_warning_windows c),
     cpu_usage_continuous_critical_windows :=
       (if cpu_usage_continuous_critical_windows c = 0 then 1 else cpu_usage_continuous_critical_windows c),
     cpu_usage_recovery_windows :=
       (if cpu_usage_recovery_windows c = 0 then 1 else cpu_usage_recovery_windows c)\<rparr>)"

definition validate_storage :: "monitor_config \<Rightarrow> monitor_config" where
  "validate_storage c =
     (let cache = (if cache_max_mb c = 0 then 1 else cache_max_mb c);
          retry_base = (if network_retry_base_ms c = 0 then 1 else network_retry_base_ms c);
          wal_max = (if network_wal_max_mb c = 0 then 1 else network_wal_max_mb c)
      in c\<lparr>
     cache_max_mb := cache,
     file_rotate_mb :=
       (if file_rotate_mb c = 0 \<or> cache < file_rotate_mb c then max 1 (min 4 cache) else file_rotate_mb c),
     network_batch_size := (if network_batch_size c = 0 then 1 else network_batch_size c),
     network_flush_interval_ms := (if network_flush_interval_ms c = 0 then 1 else network_flush_interval_ms c),
     network_retry_base_ms := retry_base,
     network_retry_max_ms := (if network_retry_max_ms c < retry_base then retry_base else network_retry_max_ms c),
     network_wal_max_mb := wal_max,
     network_wal_segment_mb :=
       (if network_wal_segment_mb c = 0 \<or> wal_max < network_wal_segment_mb c then min 4 wal_max
        else network_wal_segment_mb c)\<rparr>)"

definition validate_tail :: "monitor_config \<Rightarrow> monitor_config" where
  "validate_tail c =
     validate_storage (validate_cpu (validate_process_io (validate_sched (validate_pressure c))))"

definition validate :: "monitor_config \<Rightarrow> monitor_config \<times> string option" where
  "validate c0 =
     (let c = validate_head c0
      in if \<not> list_all valid_ipv4 (metrics_allowed_clients c)
         then (c, Some ''metrics allowed_clients must contain valid IPv4 addresses'')
         else
           let c = validate_runtime c
           in if mem_available_warning_mb c < mem_available_critical_mb c
              then (c\<lparr>memory_rule_enable := False\<rparr>,
                    Some ''memory critical threshold must be lower than warning threshold'')
              else (validate_tail c, None))"

definition load_sections :: "ini \<Rightarrow> monitor_config \<Rightarrow> monitor_config" where
  "load_sections ini c =
     load_network_sink ini (load_persistence ini (load_cpu_usage_rule ini (load_io_delay_rule ini
       (load_process_memory_rule ini (load_sched_delay_rule ini (load_self_protection ini
         (load_rule_runtime ini (load_memory_rule ini (load_event_queue ini (load_thread_policy ini
           (load_agent_log ini (load_linux_stability_monitor ini c))))))))))))"

definition load_or_default :: "string option \<Rightarrow> monitor_config" where
  "load_or_default content = fst (validate (load_sections (parse_ini content) default_config))"

section \<open>Facts about the reader\<close>

lemma trim_Nil [simp]: "trim [] = []"
  by (simp add: trim_def)

text \<open>A text with no white space at its ends is not changed by \<open>trim\<close>.\<close>

lemma trim_id:
  "s = [] \<or> (\<not> is_space (hd s) \<and> \<not> is_space (last s)) \<Longrightarrow> trim s = s"
proof -
  assume h: "s = [] \<or> (\<not> is_space (hd s) \<and> \<not> is_space (last s))"
  then have "dropWhile is_space s = s" by (auto simp: dropWhile_eq_self_iff)
  moreover have "dropWhile is_space (rev s) = rev s"
    using h by (auto simp: dropWhile_eq_self_iff hd_rev)
  ultimately show ?thesis by (simp add: trim_def)
qed

lemma trim_ends:
  "trim s \<noteq> [] \<Longrightarrow> \<not> is_space (hd (trim s)) \<and> \<not> is_space (last (trim s))"
proof -
  assume ne: "trim s \<noteq> []"
  define t where "t = dropWhile is_space s"
  define u where "u = dropWhile is_space (rev t)"
  have tr: "trim s = rev u" by (simp add: trim_def t_def u_def)
  have u: "u \<noteq> []" using ne tr by simp
  then have l: "\<not> is_space (hd u)" unfolding u_def by (rule hd_dropWhile)
  have "rev t = takeWhile is_space (rev t) @ u" by (simp add: u_def)
  then have t: "t = rev u @ rev (takeWhile is_space (rev t))" by (metis rev_append rev_rev_ident)
  then have "t \<noteq> []" using u by (metis append_is_Nil_conv rev_is_Nil_conv)
  have "hd t = hd (rev u)" using u by (subst t) simp
  with \<open>t \<noteq> []\<close> have "\<not> is_space (hd (rev u))" using hd_dropWhile [of is_space s] by (simp add: t_def)
  with l u tr show ?thesis by (simp add: last_rev)
qed

lemma trim_trim [simp]: "trim (trim s) = trim s"
  using trim_ends [of s] by (intro trim_id) auto

text \<open>
  An entry text is a string that a line can hold without being cut, trimmed or split: no newline,
  no comment character and no white space at its ends.
\<close>

definition entry_text :: "string \<Rightarrow> bool" where
  "entry_text s \<longleftrightarrow>
     s \<noteq> [] \<and> \<not> is_space (hd s) \<and> \<not> is_space (last s) \<and>
     CHR 0x0A \<notin> set s \<and> CHR ''#'' \<notin> set s \<and> CHR '';'' \<notin> set s"

definition section_line :: "string \<Rightarrow> string" where
  "section_line sec = CHR ''['' # sec @ '']''"

definition entry_line :: "string \<Rightarrow> string \<Rightarrow> string" where
  "entry_line key val = key @ CHR ''='' # val"

lemma strip_comment_id:
  "CHR ''#'' \<notin> set s \<Longrightarrow> CHR '';'' \<notin> set s \<Longrightarrow> strip_comment s = s"
  by (auto simp: strip_comment_def takeWhile_eq_all_conv)

lemma not_space_bracket [simp]: "\<not> is_space (CHR ''['')" "\<not> is_space (CHR '']'')" "\<not> is_space (CHR ''='')"
  by (simp_all add: is_space_def)

lemma parse_section_line:
  assumes "entry_text sec"
  shows "parse_ini_line (section_line sec) (ini, old) = (ini, sec)"
proof -
  have "trim (section_line sec) = section_line sec"
    by (rule trim_id) (simp add: section_line_def)
  moreover have "trim sec = sec" using assms by (intro trim_id) (simp add: entry_text_def)
  moreover have "strip_comment (section_line sec) = section_line sec"
    using assms by (intro strip_comment_id) (auto simp: entry_text_def section_line_def)
  ultimately show ?thesis
    by (simp add: parse_ini_line_def Let_def) (simp add: section_line_def)
qed

lemma parse_entry_line:
  assumes "entry_text key" and "entry_text val" and "sec \<noteq> []"
    and "CHR ''='' \<notin> set key" and "hd key \<noteq> CHR ''[''"
  shows "parse_ini_line (entry_line key val) (ini, sec) = (ini_insert sec key val ini, sec)"
proof -
  have k: "trim key = key" and v: "trim val = val"
    using assms(1,2) by (auto intro!: trim_id simp: entry_text_def)
  have l: "trim (entry_line key val) = entry_line key val"
    using assms(1,2) by (intro trim_id) (auto simp: entry_text_def entry_line_def)
  have c: "strip_comment (entry_line key val) = entry_line key val"
    using assms(1,2) by (intro strip_comment_id) (auto simp: entry_text_def entry_line_def)
  have s: "split_first (CHR ''='') (entry_line key val) = Some (key, val)"
    using assms(4) by (simp add: split_first_Some entry_line_def)
  have h: "hd (entry_line key val) \<noteq> CHR ''[''" "entry_line key val \<noteq> []"
    using assms(1,5) by (auto simp: entry_line_def entry_text_def)
  show ?thesis using k v l c s h assms(3) by (simp add: parse_ini_line_def Let_def)
qed

text \<open>The text of one section and the entries the reader takes from it.\<close>

definition section_lines :: "string \<Rightarrow> (string \<times> string) list \<Rightarrow> string list" where
  "section_lines sec kvs = section_line sec # map (\<lambda>(k, v). entry_line k v) kvs"

definition ini_text :: "(string \<times> (string \<times> string) list) list \<Rightarrow> string" where
  "ini_text secs = concat (map (\<lambda>l. l @ [CHR 0x0A]) (concat (map (\<lambda>(s, kvs). section_lines s kvs) secs)))"

definition writable :: "(string \<times> (string \<times> string) list) list \<Rightarrow> bool" where
  "writable secs \<longleftrightarrow>
     (\<forall>(s, kvs) \<in> set secs. entry_text s \<and>
        (\<forall>(k, v) \<in> set kvs. entry_text k \<and> entry_text v \<and> CHR ''='' \<notin> set k \<and> hd k \<noteq> CHR ''[''))"

definition ini_of :: "(string \<times> (string \<times> string) list) list \<Rightarrow> ini \<Rightarrow> ini" where
  "ini_of secs ini = fold (\<lambda>(s, kvs). fold (\<lambda>(k, v). ini_insert s k v) kvs) secs ini"

lemma fold_entry_lines:
  assumes "sec \<noteq> []"
    and "\<forall>(k, v) \<in> set kvs. entry_text k \<and> entry_text v \<and> CHR ''='' \<notin> set k \<and> hd k \<noteq> CHR ''[''"
  shows "fold parse_ini_line (map (\<lambda>(k, v). entry_line k v) kvs) (ini, sec) =
         (fold (\<lambda>(k, v). ini_insert sec k v) kvs ini, sec)"
  using assms(2) by (induction kvs arbitrary: ini) (auto simp: parse_entry_line assms(1))

lemma fold_section_lines:
  assumes "writable secs"
  shows "fst (fold parse_ini_line (concat (map (\<lambda>(s, kvs). section_lines s kvs) secs)) (ini, old)) = ini_of secs ini"
  using assms
proof (induction secs arbitrary: ini old)
  case Nil
  then show ?case by (simp add: ini_of_def)
next
  case (Cons p secs)
  obtain s kvs where p: "p = (s, kvs)" by fastforce
  have s: "entry_text s" "s \<noteq> []"
    and kvs: "\<forall>(k, v) \<in> set kvs. entry_text k \<and> entry_text v \<and> CHR ''='' \<notin> set k \<and> hd k \<noteq> CHR ''[''"
    and rest: "writable secs"
    using Cons.prems by (auto simp: writable_def p entry_text_def)
  show ?case
    using Cons.IH [OF rest] fold_entry_lines [OF s(2) kvs]
    by (simp add: p section_lines_def parse_section_line [OF s(1)] ini_of_def)
qed

lemma section_lines_no_newline:
  "writable secs \<Longrightarrow> l \<in> set (concat (map (\<lambda>(s, kvs). section_lines s kvs) secs)) \<Longrightarrow> CHR 0x0A \<notin> set l"
  by (fastforce simp: writable_def section_lines_def section_line_def entry_line_def entry_text_def)

lemma parse_ini_text: "writable secs \<Longrightarrow> parse_ini (Some (ini_text secs)) = ini_of secs Map.empty"
  using fold_section_lines [of secs Map.empty "[]"] section_lines_no_newline [of secs]
  by (simp add: parse_ini_def ini_text_def get_lines_concat del: set_concat)

lemma find_value_insert:
  "find_value (ini_insert s k v ini) s' k' = (if s' = s \<and> k' = k then Some v else find_value ini s' k')"
  by (auto simp: find_value_def ini_insert_def split: option.splits)

section \<open>Facts about addresses\<close>

lemma valid_octet_iff:
  "valid_octet s \<longleftrightarrow> s \<noteq> [] \<and> list_all is_digit s \<and> digits_value s \<le> 255"
proof (cases "list_all is_digit s")
  case True
  then have "\<forall>c \<in> set s. is_digit c" by (simp add: list_all_iff)
  then show ?thesis using True
    by (auto simp: valid_octet_def from_chars_unsigned_def Let_def word_le_nat_alt unat_of_nat
        takeWhile_eq_all_conv [THEN iffD2] dropWhile_eq_Nil_conv [THEN iffD2])
next
  case False
  then have "dropWhile is_digit s \<noteq> []" by (simp add: dropWhile_eq_Nil_conv list_all_iff)
  with False show ?thesis by (simp add: valid_octet_def from_chars_unsigned_def Let_def)
qed

lemma dot_not_digit [simp]: "\<not> is_digit (CHR ''.'')"
  by (simp add: is_digit_def)

lemma valid_octet_no_dot: "valid_octet s \<Longrightarrow> CHR ''.'' \<notin> set s"
  by (auto simp: valid_octet_iff list_all_iff)

lemma valid_octets_Suc_0: "valid_octets (Suc 0) s \<longleftrightarrow> valid_octet s"
  using valid_octet_no_dot [of s]
  by (auto split: option.splits simp: split_first_None split_first_Some)

lemma valid_octets_Suc_Suc:
  "valid_octets (Suc (Suc n)) s \<longleftrightarrow>
     (\<exists>a b. s = a @ CHR ''.'' # b \<and> valid_octet a \<and> valid_octets (Suc n) b)"
proof
  assume "valid_octets (Suc (Suc n)) s"
  then obtain a b where "split_first (CHR ''.'') s = Some (a, b)" "valid_octet a" "valid_octets (Suc n) b"
    by (auto split: option.splits simp del: valid_octets.simps(2) simp: valid_octets.simps(2) [of "Suc n"])
  then show "\<exists>a b. s = a @ CHR ''.'' # b \<and> valid_octet a \<and> valid_octets (Suc n) b"
    by (auto simp: split_first_Some)
next
  assume "\<exists>a b. s = a @ CHR ''.'' # b \<and> valid_octet a \<and> valid_octets (Suc n) b"
  then obtain a b where s: "s = a @ CHR ''.'' # b" "valid_octet a" "valid_octets (Suc n) b" by blast
  then have "split_first (CHR ''.'') s = Some (a, b)"
    using valid_octet_no_dot by (simp add: split_first_Some)
  with s show "valid_octets (Suc (Suc n)) s" by (simp add: valid_octets.simps(2) [of "Suc n"] del: valid_octets.simps(2))
qed

text \<open>A decimal octet as a text: digits only, of value at most 255.\<close>

definition octet_text :: "string \<Rightarrow> bool" where
  "octet_text p \<longleftrightarrow> p \<noteq> [] \<and> list_all is_digit p \<and> digits_value p \<le> 255"

section \<open>Facts about validation\<close>

text \<open>
  What a successful validation establishes, one predicate per group of assignments. Each group
  establishes its own predicate and keeps those of the groups before it.
\<close>

definition runtime_bounds :: "monitor_config \<Rightarrow> bool" where
  "runtime_bounds c \<longleftrightarrow>
     100 \<le> fast_collect_interval_ms c \<and> 0 < dispatcher_idle_sleep_ms c \<and> 0 < sink_idle_sleep_ms c \<and>
     (metrics_port c = 0 \<longrightarrow> \<not> metrics_enable c) \<and>
     0 < agent_log_rotate_mb c \<and> 0 < agent_log_rotate_files c \<and> 1024 \<le> agent_log_async_queue_size c \<and>
     list_all valid_ipv4 (metrics_allowed_clients c) \<and> 0 < state_ttl_sec c \<and>
     agent_log_level c \<in> {''debug'', ''info'', ''warn'', ''error''} \<and>
     agent_log_rotation c \<in> {''size'', ''daily''} \<and>
     16 \<le> event_queue_capacity c \<and> critical_reserved_slots c < event_queue_capacity c \<and>
     mem_available_critical_mb c \<le> mem_available_warning_mb c"

definition pressure_bounds :: "monitor_config \<Rightarrow> bool" where
  "pressure_bounds c \<longleftrightarrow>
     mem_available_warning_mb c \<le> mem_available_recovery_mb c \<and>
     queue_recovery_percent c \<le> queue_warning_percent c \<and> queue_warning_percent c \<le> queue_critical_percent c \<and>
     self_rss_recovery_mb c \<le> self_rss_soft_limit_mb c \<and> self_rss_soft_limit_mb c \<le> self_rss_hard_limit_mb c"

definition sched_bounds :: "monitor_config \<Rightarrow> bool" where
  "sched_bounds c \<longleftrightarrow>
     sched_wait_sum_recovery_us c \<le> sched_wait_sum_warning_us c \<and>
     sched_wait_sum_warning_us c \<le> sched_wait_sum_critical_us c \<and>
     0 < sched_max_targets c \<and> 0 < sched_proc_max_scan_threads c \<and>
     0 < sched_ebpf_max_events_per_poll c \<and> 64 \<le> sched_ebpf_ringbuf_kb c \<and>
     0 < sched_ebpf_aggregate_window_ms c \<and> 16 \<le> sched_ebpf_aggregate_max_entries c \<and>
     0 < sched_collector_overrun_warning_ms c \<and>
     (sched_ebpf_min_wait_us c = 0 \<longrightarrow> sched_wait_sum_warning_us c = 0) \<and>
     (sched_proc_cache_refresh_ms c = 0 \<longrightarrow> low_freq_collect_interval_ms c = 0) \<and>
     sched_delay_source c \<in> {''proc'', ''ebpf''}"

definition process_io_bounds :: "monitor_config \<Rightarrow> bool" where
  "process_io_bounds c \<longleftrightarrow>
     process_memory_growth_recovery_mb c \<le> process_memory_growth_warning_mb c \<and>
     process_memory_growth_warning_mb c \<le> process_memory_growth_critical_mb c \<and>
     0 < process_memory_growth_window_sec c \<and> 0 < io_max_targets c \<and>
     \<not> dlt (io_await_critical_ms c) (io_await_warning_ms c) \<and>
     \<not> dlt (io_await_warning_ms c) (io_await_recovery_ms c) \<and>
     \<not> dlt (io_util_critical_percent c) (io_util_warning_percent c) \<and>
     \<not> dlt (io_util_warning_percent c) (io_util_recovery_percent c)"

definition in_percent :: "double \<Rightarrow> bool" where
  "in_percent x \<longleftrightarrow> dle (Fin 0) x \<and> dle x (Fin 100)"

definition cpu_bounds :: "monitor_config \<Rightarrow> bool" where
  "cpu_bounds c \<longleftrightarrow>
     cpu_usage_mode c \<in> {''total'', ''per_core'', ''both''} \<and>
     in_percent (cpu_usage_warning_percent c) \<and> in_percent (cpu_usage_critical_percent c) \<and>
     in_percent (cpu_usage_recovery_percent c) \<and>
     0 < cpu_usage_continuous_warning_windows c \<and> 0 < cpu_usage_continuous_critical_windows c \<and>
     0 < cpu_usage_recovery_windows c"

definition storage_bounds :: "monitor_config \<Rightarrow> bool" where
  "storage_bounds c \<longleftrightarrow>
     0 < file_rotate_mb c \<and> file_rotate_mb c \<le> cache_max_mb c \<and>
     0 < network_batch_size c \<and> 0 < network_flush_interval_ms c \<and> 0 < network_retry_base_ms c \<and>
     network_retry_base_ms c \<le> network_retry_max_ms c \<and>
     0 < network_wal_segment_mb c \<and> network_wal_segment_mb c \<le> network_wal_max_mb c"

lemma word_pos_iff: "(0 < w) = (w \<noteq> (0 :: 'a::len word))"
  by (simp add: word_neq_0_conv)

lemma clamp_percent_range [simp]: "in_percent (clamp_percent x)"
  unfolding clamp_percent_def in_percent_def by (rule dmax_dmin_range) simp

lemma pred_less_word: "(16 :: size_t) \<le> w \<Longrightarrow> w - 1 < w"
  by unat_arith

lemma runtime_bounds_established:
  assumes "list_all valid_ipv4 (metrics_allowed_clients c)"
    and "mem_available_critical_mb c \<le> mem_available_warning_mb c"
  shows "runtime_bounds (validate_runtime (validate_head c))"
proof -
  have "runtime_bounds (validate_runtime d)"
    if "100 \<le> fast_collect_interval_ms d" "0 < dispatcher_idle_sleep_ms d" "0 < sink_idle_sleep_ms d"
      "list_all valid_ipv4 (metrics_allowed_clients d)"
      "mem_available_critical_mb d \<le> mem_available_warning_mb d" "metrics_port d = 0 \<longrightarrow> \<not> metrics_enable d" for d
    using that by (simp add: runtime_bounds_def validate_runtime_def Let_def word_pos_iff not_le not_less pred_less_word)
  then show ?thesis
    using assms by (simp add: validate_head_def word_pos_iff not_less)
qed

lemma runtime_bounds_frame [simp]:
  "runtime_bounds (validate_pressure c) = runtime_bounds c"
  "runtime_bounds (validate_sched c) = runtime_bounds c"
  "runtime_bounds (validate_process_io c) = runtime_bounds c"
  "runtime_bounds (validate_cpu c) = runtime_bounds c"
  "runtime_bounds (validate_storage c) = runtime_bounds c"
  by (simp_all add: runtime_bounds_def validate_pressure_def validate_sched_def validate_process_io_def
      validate_cpu_def validate_storage_def Let_def)

lemma pressure_bounds_frame [simp]:
  "pressure_bounds (validate_pressure c)"
  "pressure_bounds (validate_sched c) = pressure_bounds c"
  "pressure_bounds (validate_process_io c) = pressure_bounds c"
  "pressure_bounds (validate_cpu c) = pressure_bounds c"
  "pressure_bounds (validate_storage c) = pressure_bounds c"
  by (simp_all add: pressure_bounds_def validate_pressure_def validate_sched_def validate_process_io_def
      validate_cpu_def validate_storage_def Let_def not_less)

lemma sched_bounds_frame [simp]:
  "sched_bounds (validate_sched c)"
  "sched_bounds (validate_process_io c) = sched_bounds c"
  "sched_bounds (validate_cpu c) = sched_bounds c"
  "sched_bounds (validate_storage c) = sched_bounds c"
  by (simp_all add: sched_bounds_def validate_sched_def validate_process_io_def
      validate_cpu_def validate_storage_def Let_def word_pos_iff not_less)

lemma process_io_bounds_frame [simp]:
  "process_io_bounds (validate_process_io c)"
  "process_io_bounds (validate_cpu c) = process_io_bounds c"
  "process_io_bounds (validate_storage c) = process_io_bounds c"
  by (simp_all add: process_io_bounds_def validate_process_io_def validate_cpu_def validate_storage_def
      Let_def word_pos_iff not_less)

lemma cpu_bounds_frame [simp]:
  "cpu_bounds (validate_cpu c)"
  "cpu_bounds (validate_storage c) = cpu_bounds c"
  by (simp_all add: cpu_bounds_def validate_cpu_def validate_storage_def Let_def word_pos_iff)

lemma one_le_word: "(1 :: u64) \<le> w \<longleftrightarrow> w \<noteq> 0"
  by unat_arith

lemma storage_bounds_established [simp]: "storage_bounds (validate_storage c)"
proof -
  have "0 < file_rotate_mb (validate_storage c) \<and>
        file_rotate_mb (validate_storage c) \<le> cache_max_mb (validate_storage c)"
    by (auto simp: validate_storage_def Let_def word_pos_iff not_less one_le_word max_def min_def)
  moreover have "0 < network_wal_segment_mb (validate_storage c) \<and>
        network_wal_segment_mb (validate_storage c) \<le> network_wal_max_mb (validate_storage c)"
    by (auto simp: validate_storage_def Let_def word_pos_iff not_less min_def)
  moreover have "0 < network_retry_base_ms (validate_storage c) \<and>
        network_retry_base_ms (validate_storage c) \<le> network_retry_max_ms (validate_storage c)"
    by (auto simp: validate_storage_def Let_def word_pos_iff not_less)
  moreover have "0 < network_batch_size (validate_storage c) \<and> 0 < network_flush_interval_ms (validate_storage c)"
    by (auto simp: validate_storage_def Let_def word_pos_iff)
  ultimately show ?thesis by (simp add: storage_bounds_def)
qed

lemma validate_success:
  "snd (validate c) = None \<longleftrightarrow>
     list_all valid_ipv4 (metrics_allowed_clients c) \<and> mem_available_critical_mb c \<le> mem_available_warning_mb c"
  by (simp add: validate_def validate_head_def validate_runtime_def Let_def not_less not_le)

lemma validate_success_result:
  "snd (validate c) = None \<Longrightarrow> fst (validate c) = validate_tail (validate_runtime (validate_head c))"
  by (simp add: validate_def Let_def split: if_splits)

section \<open>Idempotence\<close>

text \<open>
  A group of assignments changes nothing in a configuration that already satisfies its bounds. Two
  groups need more: the \<open>sched\<close> group reads \<open>sched_proc_cache_refresh_ms\<close> before it repairs it, and the
  \<open>cpu\<close> group compares values it clamps afterwards.
\<close>

definition sched_settled :: "monitor_config \<Rightarrow> bool" where
  "sched_settled c \<longleftrightarrow> sched_ebpf_allowlist_refresh_ms c \<noteq> 0 \<or> sched_proc_cache_refresh_ms c = 0"

definition cpu_ordered :: "monitor_config \<Rightarrow> bool" where
  "cpu_ordered c \<longleftrightarrow>
     dle (cpu_usage_recovery_percent c) (cpu_usage_warning_percent c) \<and>
     dle (cpu_usage_warning_percent c) (cpu_usage_critical_percent c)"

lemma lowercase_levels:
  "s \<in> {''debug'', ''info'', ''warn'', ''error''} \<Longrightarrow> lowercase s = s"
  "s \<in> {''size'', ''daily''} \<Longrightarrow> lowercase s = s"
  "s \<in> {''total'', ''per_core'', ''both''} \<Longrightarrow> lowercase s = s"
  by (auto simp: lowercase_def to_lower_def)

lemma validate_head_fixed:
  assumes "runtime_bounds c" and "cpu_bounds c"
  shows "validate_head c = c"
  using assms
  by (intro monitor_config.equality)
    (auto simp: validate_head_def runtime_bounds_def cpu_bounds_def not_less word_pos_iff lowercase_levels
      simp del: insert_iff)

lemma validate_runtime_fixed: "runtime_bounds c \<Longrightarrow> validate_runtime c = c"
  by (intro monitor_config.equality)
    (auto simp: validate_runtime_def runtime_bounds_def not_less not_le word_pos_iff Let_def)

lemma validate_pressure_fixed: "pressure_bounds c \<Longrightarrow> validate_pressure c = c"
  by (intro monitor_config.equality) (auto simp: validate_pressure_def pressure_bounds_def not_less)

lemma validate_sched_fixed: "sched_bounds c \<Longrightarrow> sched_settled c \<Longrightarrow> validate_sched c = c"
  by (intro monitor_config.equality)
    (auto simp: validate_sched_def sched_bounds_def sched_settled_def not_less word_pos_iff)

lemma validate_process_io_fixed: "process_io_bounds c \<Longrightarrow> validate_process_io c = c"
  by (intro monitor_config.equality)
    (auto simp: validate_process_io_def process_io_bounds_def not_less word_pos_iff)

lemma clamp_percent_id: "in_percent x \<Longrightarrow> clamp_percent x = x"
  by (cases x) (auto simp: in_percent_def clamp_percent_def dmax_def dmin_def dle_def)

lemma clamp_percent_mono: "dle x y \<Longrightarrow> dle (clamp_percent x) (clamp_percent y)"
  by (cases x; cases y) (auto simp: clamp_percent_def dmax_def dmin_def dle_def)

lemma validate_cpu_fixed: "cpu_bounds c \<Longrightarrow> cpu_ordered c \<Longrightarrow> validate_cpu c = c"
  by (intro monitor_config.equality)
    (auto simp: validate_cpu_def cpu_bounds_def cpu_ordered_def not_less word_pos_iff Let_def
      clamp_percent_id dle_def)

lemma validate_storage_fixed: "storage_bounds c \<Longrightarrow> validate_storage c = c"
  by (intro monitor_config.equality)
    (auto simp: validate_storage_def storage_bounds_def not_less word_pos_iff Let_def)

lemma sched_settled_frame [simp]:
  "sched_settled (validate_process_io c) = sched_settled c"
  "sched_settled (validate_cpu c) = sched_settled c"
  "sched_settled (validate_storage c) = sched_settled c"
  by (simp_all add: sched_settled_def validate_process_io_def validate_cpu_def validate_storage_def Let_def)

lemma cpu_ordered_frame [simp]: "cpu_ordered (validate_storage c) = cpu_ordered c"
  by (simp add: cpu_ordered_def validate_storage_def Let_def)

text \<open>What the two remaining facts need of the configuration that is validated.\<close>

lemma validate_sched_settles:
  "sched_ebpf_allowlist_refresh_ms c \<noteq> 0 \<or> sched_proc_cache_refresh_ms c \<noteq> 0 \<Longrightarrow>
   sched_settled (validate_sched c)"
  by (auto simp: sched_settled_def validate_sched_def)

lemma validate_cpu_orders:
  "cpu_usage_warning_percent c \<noteq> NaN \<Longrightarrow> cpu_usage_critical_percent c \<noteq> NaN \<Longrightarrow>
   cpu_usage_recovery_percent c \<noteq> NaN \<Longrightarrow> cpu_ordered (validate_cpu c)"
  by (auto simp: cpu_ordered_def validate_cpu_def Let_def dle_refl not_dlt_dle intro!: clamp_percent_mono)

lemma validate_fields_kept:
  "sched_ebpf_allowlist_refresh_ms (validate_pressure (validate_runtime (validate_head c))) =
     sched_ebpf_allowlist_refresh_ms c"
  "sched_proc_cache_refresh_ms (validate_pressure (validate_runtime (validate_head c))) =
     sched_proc_cache_refresh_ms c"
  by (simp_all add: validate_pressure_def validate_runtime_def validate_head_def Let_def)

lemma validate_cpu_fields_kept:
  "cpu_usage_warning_percent (validate_process_io (validate_sched (validate_pressure (validate_runtime (validate_head c))))) =
     cpu_usage_warning_percent c"
  "cpu_usage_critical_percent (validate_process_io (validate_sched (validate_pressure (validate_runtime (validate_head c))))) =
     cpu_usage_critical_percent c"
  "cpu_usage_recovery_percent (validate_process_io (validate_sched (validate_pressure (validate_runtime (validate_head c))))) =
     cpu_usage_recovery_percent c"
  by (simp_all add: validate_process_io_def validate_sched_def validate_pressure_def validate_runtime_def
      validate_head_def Let_def)

definition config_ok :: "monitor_config \<Rightarrow> bool" where
  "config_ok c \<longleftrightarrow>
     runtime_bounds c \<and> pressure_bounds c \<and> sched_bounds c \<and> process_io_bounds c \<and> cpu_bounds c \<and> storage_bounds c"

lemma validate_tail_ok:
  "runtime_bounds c \<Longrightarrow> config_ok (validate_tail c)"
  by (simp add: config_ok_def validate_tail_def)

lemma validate_tail_fixed:
  "config_ok c \<Longrightarrow> sched_settled c \<Longrightarrow> cpu_ordered c \<Longrightarrow> validate_tail c = c"
  by (simp add: config_ok_def validate_tail_def validate_pressure_fixed validate_sched_fixed
      validate_process_io_fixed validate_cpu_fixed validate_storage_fixed)

lemma validate_fixed:
  assumes "config_ok c" and "sched_settled c" and "cpu_ordered c"
  shows "validate c = (c, None)"
proof -
  have "list_all valid_ipv4 (metrics_allowed_clients c)" "mem_available_critical_mb c \<le> mem_available_warning_mb c"
    using assms(1) by (auto simp: config_ok_def runtime_bounds_def)
  with assms show ?thesis
    by (simp add: validate_def Let_def validate_head_fixed validate_runtime_fixed validate_tail_fixed
        config_ok_def not_less)
qed

lemma validate_ok:
  assumes "snd (validate c) = None"
  shows "config_ok (fst (validate c))"
  using assms by (auto simp: validate_success validate_success_result intro!: validate_tail_ok runtime_bounds_established)

lemma validate_settled:
  assumes "snd (validate c) = None"
    and "sched_ebpf_allowlist_refresh_ms c \<noteq> 0 \<or> sched_proc_cache_refresh_ms c \<noteq> 0"
    and "cpu_usage_warning_percent c \<noteq> NaN" "cpu_usage_critical_percent c \<noteq> NaN" "cpu_usage_recovery_percent c \<noteq> NaN"
  shows "sched_settled (fst (validate c))" and "cpu_ordered (fst (validate c))"
  using assms
  by (simp_all add: validate_success_result validate_tail_def validate_sched_settles validate_fields_kept
      validate_cpu_orders validate_cpu_fields_kept)

lemma capacity_reserved_assign:
  "event_queue_capacity (load_sections ini c) =
     assign_unsigned ini ''event_queue'' ''capacity'' (event_queue_capacity c)"
  "critical_reserved_slots (load_sections ini c) =
     assign_unsigned ini ''event_queue'' ''critical_reserved_slots'' (critical_reserved_slots c)"
  "metrics_allowed_clients (load_sections ini c) =
     assign_csv ini ''metrics'' ''allowed_clients'' (metrics_allowed_clients c)"
  "mem_available_critical_mb (load_sections ini c) =
     assign_unsigned ini ''memory_rule'' ''mem_available_critical_mb'' (mem_available_critical_mb c)"
  "mem_available_warning_mb (load_sections ini c) =
     assign_unsigned ini ''memory_rule'' ''mem_available_warning_mb'' (mem_available_warning_mb c)"
  by (simp_all add: load_sections_def load_network_sink_def load_persistence_def load_cpu_usage_rule_def
      load_io_delay_rule_def load_process_memory_rule_def load_sched_delay_rule_def load_self_protection_def
      load_rule_runtime_def load_memory_rule_def load_event_queue_def load_thread_policy_def
      load_agent_log_def load_linux_stability_monitor_def)

lemma capacity_reserved_validated:
  "event_queue_capacity (validate_tail c) = event_queue_capacity c"
  "critical_reserved_slots (validate_tail c) = critical_reserved_slots c"
  "event_queue_capacity (validate_runtime c) = max 16 (event_queue_capacity c)"
  "critical_reserved_slots (validate_runtime c) =
     min (critical_reserved_slots c) (max 16 (event_queue_capacity c) - 1)"
  "event_queue_capacity (validate_head c) = event_queue_capacity c"
  "critical_reserved_slots (validate_head c) = critical_reserved_slots c"
  subgoal by (simp add: validate_tail_def validate_storage_def validate_cpu_def validate_process_io_def
      validate_sched_def validate_pressure_def Let_def)
  subgoal by (simp add: validate_tail_def validate_storage_def validate_cpu_def validate_process_io_def
      validate_sched_def validate_pressure_def Let_def)
  subgoal by (auto simp: validate_runtime_def Let_def max_def)
  subgoal by (auto simp: validate_runtime_def Let_def max_def min_def not_le word_le_nat_alt word_less_nat_alt) (unat_arith+)?
  by (simp_all add: validate_head_def)

lemma entry_text_show_word [simp]: "entry_text (show_word w)"
proof -
  have "is_digit c \<Longrightarrow> \<not> is_space c \<and> c \<noteq> CHR 0x0A \<and> c \<noteq> CHR ''#'' \<and> c \<noteq> CHR '';''" for c
    by (auto simp: is_digit_def is_space_def)
  then have "\<forall>c \<in> set (show_word w). \<not> is_space c \<and> c \<noteq> CHR 0x0A \<and> c \<noteq> CHR ''#'' \<and> c \<noteq> CHR '';''"
    using show_nat_digits [of _ "unat w"] by (auto simp: show_word_def)
  then show ?thesis by (auto simp: entry_text_def show_word_def)
qed

definition queue_file :: "size_t \<Rightarrow> size_t \<Rightarrow> string" where
  "queue_file n r = ini_text
     [(''event_queue'', [(''capacity'', show_word n), (''critical_reserved_slots'', show_word r)])]"

lemma ini_of_queue_file:
  "parse_ini (Some (queue_file n r)) =
     [''event_queue'' \<mapsto> [''capacity'' \<mapsto> show_word n, ''critical_reserved_slots'' \<mapsto> show_word r]]"
proof -
  have t: "entry_text ''event_queue''" "entry_text ''capacity''" "entry_text ''critical_reserved_slots''"
    by code_simp+
  have "writable [(''event_queue'', [(''capacity'', show_word n), (''critical_reserved_slots'', show_word r)])]"
    using t by (simp add: writable_def)
  then show ?thesis
    by (simp add: queue_file_def parse_ini_text ini_of_def ini_insert_def)
qed

lemma assign_unsigned_written:
  "find_value ini s k = Some (show_word w) \<Longrightarrow> assign_unsigned ini s k old = w"
  using from_chars_show_word [of "[]" w] by (simp add: assign_unsigned_def)

lemma assign_missing:
  "find_value ini s k = None \<Longrightarrow> assign_unsigned ini s k old = old"
  "find_value ini s k = None \<Longrightarrow> assign_csv ini s k olds = olds"
  by (simp_all add: assign_unsigned_def assign_csv_def)

lemma refresh_validated:
  "sched_ebpf_allowlist_refresh_ms (validate_tail (validate_runtime (validate_head c))) =
     (if sched_ebpf_allowlist_refresh_ms c = 0 then sched_proc_cache_refresh_ms c else sched_ebpf_allowlist_refresh_ms c)"
  "sched_proc_cache_refresh_ms (validate_tail (validate_runtime (validate_head c))) =
     (if sched_proc_cache_refresh_ms c = 0 then low_freq_collect_interval_ms c else sched_proc_cache_refresh_ms c)"
proof -
  let ?r = "validate_runtime (validate_head c)"
  have tail: "sched_ebpf_allowlist_refresh_ms (validate_tail d) = sched_ebpf_allowlist_refresh_ms (validate_sched (validate_pressure d))"
    "sched_proc_cache_refresh_ms (validate_tail d) = sched_proc_cache_refresh_ms (validate_sched (validate_pressure d))" for d
    by (simp_all add: validate_tail_def validate_storage_def validate_cpu_def validate_process_io_def Let_def)
  have "low_freq_collect_interval_ms (validate_pressure ?r) = low_freq_collect_interval_ms c"
    by (simp add: validate_pressure_def validate_runtime_def validate_head_def Let_def)
  then show "sched_ebpf_allowlist_refresh_ms (validate_tail ?r) =
     (if sched_ebpf_allowlist_refresh_ms c = 0 then sched_proc_cache_refresh_ms c else sched_ebpf_allowlist_refresh_ms c)"
    "sched_proc_cache_refresh_ms (validate_tail ?r) =
     (if sched_proc_cache_refresh_ms c = 0 then low_freq_collect_interval_ms c else sched_proc_cache_refresh_ms c)"
    by (simp_all add: tail validate_sched_def validate_fields_kept)
qed


section \<open>Properties\<close>



text \<open>
  A second \<open>validate\<close> changes nothing and succeeds, unless both cache refresh periods are zero or a
  CPU percentage is not a number.
\<close>

theorem validate_idempotent:
  assumes "snd (validate c) = None"
    and "sched_ebpf_allowlist_refresh_ms c \<noteq> 0 \<or> sched_proc_cache_refresh_ms c \<noteq> 0"
    and "cpu_usage_warning_percent c \<noteq> NaN" "cpu_usage_critical_percent c \<noteq> NaN" "cpu_usage_recovery_percent c \<noteq> NaN"
  shows "validate (fst (validate c)) = (fst (validate c), None)"
  using validate_fixed [OF validate_ok [OF assms(1)]] validate_settled [OF assms] by simp

theorem validate_idempotent_witness:
  "validate (fst (validate (default_config\<lparr>sched_max_targets := 0\<rparr>))) =
    (fst (validate (default_config\<lparr>sched_max_targets := 0\<rparr>)), None)"
  by (rule validate_idempotent) (simp_all add: validate_success default_config_def)

text \<open>
  With both refresh periods zero, one \<open>validate\<close> leaves the eBPF allowlist refresh at zero,
  because it is copied from the process cache refresh before that is repaired; a second \<open>validate\<close>
  sets it to the low-frequency interval.
\<close>

theorem validate_not_idempotent:
  assumes "snd (validate c) = None" and "sched_ebpf_allowlist_refresh_ms c = 0" and "sched_proc_cache_refresh_ms c = 0"
  shows "sched_ebpf_allowlist_refresh_ms (fst (validate c)) = 0 \<and>
    sched_ebpf_allowlist_refresh_ms (fst (validate (fst (validate c)))) = low_freq_collect_interval_ms c"
proof -
  have c': "snd (validate (fst (validate c))) = None"
    using validate_ok [OF assms(1)] by (simp add: validate_success config_ok_def runtime_bounds_def)
  note e = validate_success_result [OF assms(1)]
  show ?thesis
    unfolding e validate_success_result [OF c' [unfolded e]]
    by (simp add: refresh_validated assms(2,3))
qed

theorem validate_not_idempotent_witness:
  "let c = default_config\<lparr>sched_ebpf_allowlist_refresh_ms := 0, sched_proc_cache_refresh_ms := 0\<rparr>
   in sched_ebpf_allowlist_refresh_ms (fst (validate c)) = 0 \<and>
      sched_ebpf_allowlist_refresh_ms (fst (validate (fst (validate c)))) = low_freq_collect_interval_ms c"
  unfolding Let_def by (rule validate_not_idempotent) (simp_all add: validate_success default_config_def)

text \<open>
  One client address that is not an IPv4 address makes \<open>validate\<close> return before any queue,
  threshold, rule or storage bound is enforced, and \<open>load_or_default\<close> returns that configuration: the
  whole tail of \<open>validate\<close> is skipped.
\<close>

theorem refused_addresses_skip_bounds:
  assumes "\<not> list_all valid_ipv4 (metrics_allowed_clients (load_sections (parse_ini content) default_config))"
  shows "load_or_default content = validate_head (load_sections (parse_ini content) default_config)"
  using assms by (simp add: load_or_default_def validate_def Let_def validate_head_def)

lemma localhost_file:
  "parse_ini (Some (ini_text [(''metrics'', [(''allowed_clients'', ''localhost'')]), (''event_queue'', [(''capacity'', ''0'')])])) =
     [''metrics'' \<mapsto> [''allowed_clients'' \<mapsto> ''localhost''], ''event_queue'' \<mapsto> [''capacity'' \<mapsto> ''0'']]"
  by (subst parse_ini_text) (simp_all add: writable_def entry_text_def is_space_def ini_of_def ini_insert_def)

lemma localhost_refused: "\<not> list_all valid_ipv4 (split_csv ''localhost'')"
proof -
  have "split_csv ''localhost'' = [''localhost'']"
    by (simp add: split_csv.simps trim_def is_space_def)
  moreover have "\<not> valid_ipv4 ''localhost''"
    by (simp add: valid_ipv4_def numeral_eq_Suc)
  ultimately show ?thesis by simp
qed

lemma zero_text_read: "from_chars_unsigned ''0'' = Inr (0 :: size_t, [])"
  by (simp add: from_chars_unsigned_def is_digit_def digits_value_def digit_value_def)

theorem refused_addresses_skip_bounds_witness:
  "event_queue_capacity (load_or_default
     (Some (ini_text [(''metrics'', [(''allowed_clients'', ''localhost'')]), (''event_queue'', [(''capacity'', ''0'')])]))) = 0"
  by (subst refused_addresses_skip_bounds)
    (simp_all add: localhost_file localhost_refused zero_text_read capacity_reserved_assign capacity_reserved_validated
      assign_csv_def assign_unsigned_def find_value_def)

text \<open>
  The address check accepts exactly four dot-separated decimal octets of at most 255 (leading zeros
  included).
\<close>

theorem valid_ipv4_iff:
  "valid_ipv4 s \<longleftrightarrow>
     (\<exists>a b c d. s = a @ ''.'' @ b @ ''.'' @ c @ ''.'' @ d \<and>
        octet_text a \<and> octet_text b \<and> octet_text c \<and> octet_text d)"
proof -
  have "valid_ipv4 s = valid_octets (Suc (Suc (Suc (Suc 0)))) s"
    by (simp add: valid_ipv4_def numeral_eq_Suc)
  also have "\<dots> \<longleftrightarrow> (\<exists>a b c d. s = a @ ''.'' @ b @ ''.'' @ c @ ''.'' @ d \<and>
      valid_octet a \<and> valid_octet b \<and> valid_octet c \<and> valid_octet d)"
    unfolding valid_octets_Suc_Suc valid_octets_Suc_0 by (simp, blast)
  finally show ?thesis by (simp add: valid_octet_iff octet_text_def)
qed



text \<open>
  Loading a file that sets the queue capacity and the reserved slots gives these values, the capacity
  raised to 16 and the reserve lowered below the capacity.
\<close>

theorem load_queue_section:
  "event_queue_capacity (load_or_default (Some (queue_file n r))) = max 16 n \<and>
   critical_reserved_slots (load_or_default (Some (queue_file n r))) = min r (max 16 n - 1)"
proof -
  let ?ini = "parse_ini (Some (queue_file n r))"
  let ?c = "load_sections ?ini default_config"
  have f: "find_value ?ini ''event_queue'' ''capacity'' = Some (show_word n)"
    "find_value ?ini ''event_queue'' ''critical_reserved_slots'' = Some (show_word r)"
    "find_value ?ini ''metrics'' ''allowed_clients'' = None"
    "find_value ?ini ''memory_rule'' ''mem_available_critical_mb'' = None"
    "find_value ?ini ''memory_rule'' ''mem_available_warning_mb'' = None"
    by (simp_all add: ini_of_queue_file find_value_def)
  have "snd (validate ?c) = None"
    by (simp add: validate_success capacity_reserved_assign assign_missing f) (simp add: default_config_def)
  then have v: "load_or_default (Some (queue_file n r)) = validate_tail (validate_runtime (validate_head ?c))"
    by (simp add: load_or_default_def validate_success_result)
  show ?thesis
    by (simp add: v capacity_reserved_validated capacity_reserved_assign assign_unsigned_written f)
qed


text \<open>A file that cannot be opened gives the default configuration: the defaults pass validation unchanged.\<close>

theorem load_missing_file: "load_or_default None = default_config"
  by code_simp

end
