(* ===== verification/Events.thy ===== *)
theory Events
  imports Text
begin

text \<open>
  \<^verbatim>\<open>include/minilisysm/core/event.hpp\<close> with the name functions of \<^verbatim>\<open>src/storage/event_serializer.cpp\<close>, and the
  sample structs the collectors hand to the rule engine. A \<open>std::array<char, 32>\<close> filled by
  \<open>strncpy\<close> is the C string it holds.
\<close>

section \<open>Levels, status and types\<close>

datatype event_level = LevelInfo | LevelRecovery | LevelWarning | LevelCritical

datatype event_status = StatusActive | StatusRecovering | StatusResolved

datatype event_type =
    MonitorStarted | MemoryPressure | MonitorOverrun | QueuePressure | StoragePressure | CollectorFailure
  | MonitorMemoryPressure | SchedDelayRisk | IoDelayRisk | CpuUsageRisk | WhitelistedProcessMemoryRisk

fun level_to_string :: "event_level \<Rightarrow> string" where
  "level_to_string LevelCritical = ''error''"
| "level_to_string LevelWarning = ''warning''"
| "level_to_string LevelRecovery = ''recovery''"
| "level_to_string LevelInfo = ''info''"

fun status_to_string :: "event_status \<Rightarrow> string" where
  "status_to_string StatusActive = ''active''"
| "status_to_string StatusRecovering = ''recovering''"
| "status_to_string StatusResolved = ''resolved''"

fun type_to_string :: "event_type \<Rightarrow> string" where
  "type_to_string MonitorStarted = ''monitor_started''"
| "type_to_string MemoryPressure = ''memory_pressure''"
| "type_to_string MonitorOverrun = ''monitor_overrun''"
| "type_to_string QueuePressure = ''monitor_queue_pressure''"
| "type_to_string StoragePressure = ''monitor_storage_pressure''"
| "type_to_string CollectorFailure = ''monitor_collector_failure''"
| "type_to_string MonitorMemoryPressure = ''monitor_memory_pressure''"
| "type_to_string SchedDelayRisk = ''sched_delay_risk''"
| "type_to_string IoDelayRisk = ''io_delay_risk''"
| "type_to_string CpuUsageRisk = ''cpu_usage_risk''"
| "type_to_string WhitelistedProcessMemoryRisk = ''whitelisted_process_memory_risk''"

section \<open>Events\<close>

record evidence_item =
  item_key :: string
  item_value :: double

record internal_event =
  ev_sequence :: u64
  ev_realtime_ms :: u64
  ev_monotonic_ms :: u64
  ev_boottime_ms :: u64
  ev_rule_id :: u32
  ev_event_type :: event_type
  ev_level :: event_level
  ev_status :: event_status
  ev_target :: string
  ev_pid :: i32
  ev_tid :: i32
  ev_value :: double
  ev_warning_threshold :: double
  ev_critical_threshold :: double
  ev_window_sec :: u32
  ev_continuous_hit_count :: u32
  ev_first_seen_ms :: u64
  ev_last_seen_ms :: u64
  ev_hit_count :: u64
  ev_evidence_count :: u32
  ev_evidence :: "evidence_item list"

definition empty_item :: evidence_item where
  "empty_item = \<lparr>item_key = [], item_value = Fin 0\<rparr>"

definition default_event :: internal_event where
  "default_event = \<lparr>
     ev_sequence = 0, ev_realtime_ms = 0, ev_monotonic_ms = 0, ev_boottime_ms = 0, ev_rule_id = 0,
     ev_event_type = MonitorStarted, ev_level = LevelInfo, ev_status = StatusActive, ev_target = [],
     ev_pid = - 1, ev_tid = - 1, ev_value = Fin 0, ev_warning_threshold = Fin 0,
     ev_critical_threshold = Fin 0, ev_window_sec = 0, ev_continuous_hit_count = 0,
     ev_first_seen_ms = 0, ev_last_seen_ms = 0, ev_hit_count = 0, ev_evidence_count = 0,
     ev_evidence = replicate 6 empty_item\<rparr>"

text \<open>
  \<open>strncpy\<close> of a C string into an array of \<open>n\<close> zero characters, the last one overwritten with NUL: the
  array then holds the text up to its first NUL, cut to \<open>n - 1\<close> characters.
\<close>

definition copy_c_string :: "nat \<Rightarrow> string \<Rightarrow> string" where
  "copy_c_string n s = take (n - 1) (takeWhile (\<lambda>c. c \<noteq> CHR 0x00) s)"

definition set_event_target :: "string \<Rightarrow> internal_event \<Rightarrow> internal_event" where
  "set_event_target target event = event\<lparr>ev_target := copy_c_string 32 target\<rparr>"

text \<open>An evidence item with \<open>set_evidence_key\<close> and the value assigned after it.\<close>

definition evidence :: "string \<Rightarrow> double \<Rightarrow> evidence_item" where
  "evidence key value = \<lparr>item_key = copy_c_string 32 key, item_value = value\<rparr>"

text \<open>The first items of the array set, the others as constructed.\<close>

definition set_evidence :: "evidence_item list \<Rightarrow> internal_event \<Rightarrow> internal_event" where
  "set_evidence items event = event\<lparr>
     ev_evidence_count := of_nat (length items),
     ev_evidence := items @ replicate (6 - length items) empty_item\<rparr>"

lemma copy_c_string_bound: "0 < n \<Longrightarrow> length (copy_c_string n s) < n"
  by (auto simp: copy_c_string_def min_def)

lemma copy_c_string_no_nul: "CHR 0x00 \<notin> set (copy_c_string n s)"
  by (auto simp: copy_c_string_def dest!: in_set_takeD set_takeWhileD)

text \<open>What every event the program builds satisfies: the fixed arrays are not overrun.\<close>

definition event_fits :: "internal_event \<Rightarrow> bool" where
  "event_fits event \<longleftrightarrow>
     length (ev_evidence event) = 6 \<and> unat (ev_evidence_count event) \<le> 6 \<and> length (ev_target event) < 32 \<and>
     CHR 0x00 \<notin> set (ev_target event) \<and>
     (\<forall>item \<in> set (ev_evidence event). length (item_key item) < 32 \<and> CHR 0x00 \<notin> set (item_key item))"

lemma default_event_fits [simp]: "event_fits default_event"
  by (simp add: event_fits_def default_event_def empty_item_def)

lemma set_event_target_fits [simp]: "event_fits event \<Longrightarrow> event_fits (set_event_target t event)"
  by (simp add: event_fits_def set_event_target_def copy_c_string_bound copy_c_string_no_nul)

lemma evidence_fits [simp]:
  "length (item_key (evidence k v)) < 32 \<and> CHR 0x00 \<notin> set (item_key (evidence k v))"
  by (simp add: evidence_def copy_c_string_bound copy_c_string_no_nul)

lemma set_evidence_fits [simp]:
  assumes "event_fits event" and "length items \<le> 6"
    and "\<forall>item \<in> set items. length (item_key item) < 32 \<and> CHR 0x00 \<notin> set (item_key item)"
  shows "event_fits (set_evidence items event)"
proof -
  have "unat (of_nat (length items) :: u32) = length items"
    using assms(2) by (simp add: unat_of_nat)
  with assms show ?thesis by (auto simp: event_fits_def set_evidence_def empty_item_def)
qed

section \<open>Samples\<close>

record meminfo_sample =
  mem_total_kb :: u64
  mem_available_kb :: u64
  swap_free_kb :: u64
  sreclaimable_kb :: u64
  sunreclaim_kb :: u64
  mem_valid :: bool

definition empty_meminfo_sample :: meminfo_sample where
  "empty_meminfo_sample = \<lparr>mem_total_kb = 0, mem_available_kb = 0, swap_free_kb = 0, sreclaimable_kb = 0,
     sunreclaim_kb = 0, mem_valid = False\<rparr>"

record cpu_usage_sample =
  cpu_name :: string
  cpu_usage_percent :: double
  delta_total_jiffies :: u64
  delta_idle_jiffies :: u64
  cpu_valid :: bool

record sched_delay_sample =
  sd_pid :: i32
  sd_tid :: i32
  sd_delta_wait_sum_us :: u64
  sd_delta_involuntary_switches :: u64
  sd_max_wait_us :: u64
  sd_avg_wait_us :: u64
  sd_aggregate_count :: u64
  sd_valid :: bool

record io_delay_sample =
  io_device :: string
  io_delta_io_count :: u64
  io_avg_await_ms :: double
  io_util_percent :: double
  io_in_flight :: u64
  io_valid :: bool

text \<open>\<open>QueueSnapshot\<close> of \<^verbatim>\<open>rule_engine.hpp\<close>: the counters and depths of the two queues.\<close>

record queue_snapshot =
  qs_push_fail_count :: u64
  qs_dropped_count :: u64
  qs_dropped_critical_count :: u64
  qs_reserve_reject_count :: u64
  qs_dispatcher_sink_push_failures :: u64
  qs_sink_dropped_count :: u64
  qs_sink_dropped_critical_count :: u64
  qs_sink_reserve_reject_count :: u64
  qs_depth :: size_t
  qs_capacity :: size_t
  qs_high_watermark :: size_t
  qs_sink_depth :: size_t
  qs_sink_capacity :: size_t
  qs_sink_high_watermark :: size_t

end
