(* ===== verification/Ring_Buffer.thy ===== *)
theory Ring_Buffer
  imports Events
begin

text \<open>
  \<open>SpscRingBuffer<T>\<close> of \<^verbatim>\<open>include/minilisysm/queue/spsc_ring_buffer.hpp\<close>, operation by operation, on 64-bit
  indices: \<open>capacity_\<close> is the requested capacity plus one slot, \<open>head_\<close> the next slot to write and
  \<open>tail_\<close> the next to read. An operation here runs without interference; the interleaving of the
  producer's and the consumer's atomic accesses is the subject of theory \<open>Spsc_Concurrent\<close>.

  The abstraction \<open>ring_items\<close> is the list of queued items. The locale \<open>level_queue\<close> is the contract the
  dispatcher and the sinks rely on; its laws are proved for the ring buffer at the end, and with
  them the order, loss-accounting and reserve properties of every sequence of operations.
\<close>

section \<open>The data structure\<close>

record 'a ring =
  rb_capacity :: size_t
  rb_critical_reserved_slots :: size_t
  rb_drop_info_when_reserved :: bool
  rb_drop_warning_when_reserved :: bool
  rb_buffer :: "'a list"
  rb_head :: size_t
  rb_tail :: size_t
  rb_push_fail_count :: u64
  rb_dropped_info_count :: u64
  rb_dropped_warning_count :: u64
  rb_dropped_critical_count :: u64
  rb_reserve_reject_count :: u64
  rb_high_watermark :: size_t

record queue_stats =
  st_push_fail_count :: u64
  st_dropped_info_count :: u64
  st_dropped_warning_count :: u64
  st_dropped_critical_count :: u64
  st_reserve_reject_count :: u64
  st_high_watermark :: size_t

text \<open>The constructor; \<open>fill\<close> is the value-initialised element.\<close>

definition new_ring :: "'a \<Rightarrow> size_t \<Rightarrow> size_t \<Rightarrow> bool \<Rightarrow> bool \<Rightarrow> 'a ring" where
  "new_ring fill cap reserved drop_info drop_warning = \<lparr>
     rb_capacity = cap + 1, rb_critical_reserved_slots = reserved,
     rb_drop_info_when_reserved = drop_info, rb_drop_warning_when_reserved = drop_warning,
     rb_buffer = replicate (unat (cap + 1)) fill, rb_head = 0, rb_tail = 0,
     rb_push_fail_count = 0, rb_dropped_info_count = 0, rb_dropped_warning_count = 0,
     rb_dropped_critical_count = 0, rb_reserve_reject_count = 0, rb_high_watermark = 0\<rparr>"

definition increment :: "'a ring \<Rightarrow> size_t \<Rightarrow> size_t" where
  "increment r value = (value + 1) mod rb_capacity r"

definition depth :: "'a ring \<Rightarrow> size_t" where
  "depth r =
     (if rb_tail r \<le> rb_head r then rb_head r - rb_tail r
      else rb_capacity r - rb_tail r + rb_head r)"

definition usable_capacity :: "'a ring \<Rightarrow> size_t" where
  "usable_capacity r = rb_capacity r - 1"

definition stats :: "'a ring \<Rightarrow> queue_stats" where
  "stats r = \<lparr>
     st_push_fail_count = rb_push_fail_count r, st_dropped_info_count = rb_dropped_info_count r,
     st_dropped_warning_count = rb_dropped_warning_count r,
     st_dropped_critical_count = rb_dropped_critical_count r,
     st_reserve_reject_count = rb_reserve_reject_count r, st_high_watermark = rb_high_watermark r\<rparr>"

definition update_high_watermark :: "'a ring \<Rightarrow> 'a ring" where
  "update_high_watermark r =
     (if rb_high_watermark r < depth r then r\<lparr>rb_high_watermark := depth r\<rparr> else r)"

definition should_reject_for_reserve :: "'a ring \<Rightarrow> event_level \<Rightarrow> bool" where
  "should_reject_for_reserve r level =
     (if level = LevelCritical \<or> rb_critical_reserved_slots r = 0 then False
      else if level = LevelWarning \<and> \<not> rb_drop_warning_when_reserved r then False
      else if (level = LevelInfo \<or> level = LevelRecovery) \<and> \<not> rb_drop_info_when_reserved r then False
      else
        let usable = usable_capacity r
        in if usable = 0 then True
           else
             let reserved = (if usable \<le> rb_critical_reserved_slots r then usable - 1
                             else rb_critical_reserved_slots r);
                 free_slots = usable - depth r
             in free_slots \<le> reserved)"

definition record_drop :: "event_level \<Rightarrow> bool \<Rightarrow> 'a ring \<Rightarrow> 'a ring" where
  "record_drop level rejected_by_reserve r =
     (let r = r\<lparr>rb_push_fail_count := rb_push_fail_count r + 1\<rparr>;
          r = (if rejected_by_reserve then r\<lparr>rb_reserve_reject_count := rb_reserve_reject_count r + 1\<rparr> else r)
      in if level = LevelCritical then r\<lparr>rb_dropped_critical_count := rb_dropped_critical_count r + 1\<rparr>
         else if level = LevelWarning then r\<lparr>rb_dropped_warning_count := rb_dropped_warning_count r + 1\<rparr>
         else r\<lparr>rb_dropped_info_count := rb_dropped_info_count r + 1\<rparr>)"

text \<open>\<open>emplace\<close>, and with it both overloads of \<open>push\<close>: the new queue and whether the item was taken.\<close>

definition push :: "event_level \<Rightarrow> 'a \<Rightarrow> 'a ring \<Rightarrow> 'a ring \<times> bool" where
  "push level item r =
     (let head = rb_head r; next = increment r head
      in if next = rb_tail r then (record_drop level False r, False)
         else if should_reject_for_reserve r level then (record_drop level True r, False)
         else (update_high_watermark
                 (r\<lparr>rb_buffer := (rb_buffer r)[unat head := item], rb_head := next\<rparr>), True))"

text \<open>
  \<open>pop\<close>: the item read, or nothing when the queue is empty. The slot keeps its (moved-from) element;
  it is overwritten before it is read again.
\<close>

definition pop :: "'a ring \<Rightarrow> 'a ring \<times> 'a option" where
  "pop r =
     (let tail = rb_tail r
      in if tail = rb_head r then (r, None)
         else (r\<lparr>rb_tail := increment r tail\<rparr>, Some (rb_buffer r ! unat tail)))"

section \<open>The contract of a levelled queue\<close>

text \<open>
  What a client sees: the queued items, the bound, and operations that append at one end and remove
  at the other. \<open>accepts\<close> is the admission rule.
\<close>

datatype 'a queue_op = Push event_level 'a | Pop

text \<open>What an operation reports: an accepted or refused push, or the result of a pop.\<close>

datatype 'a queue_result = Accepted 'a | Refused 'a | Popped 'a | Nothing

fun queue_step ::
  "(event_level \<Rightarrow> 'a \<Rightarrow> 'q \<Rightarrow> 'q \<times> bool) \<Rightarrow> ('q \<Rightarrow> 'q \<times> 'a option) \<Rightarrow> 'a queue_op \<Rightarrow> 'q \<Rightarrow> 'q \<times> 'a queue_result" where
  "queue_step enqueue dequeue (Push level x) q =
     (case enqueue level x q of (q', ok) \<Rightarrow> (q', if ok then Accepted x else Refused x))"
| "queue_step enqueue dequeue Pop q =
     (case dequeue q of (q', None) \<Rightarrow> (q', Nothing) | (q', Some x) \<Rightarrow> (q', Popped x))"

fun queue_run ::
  "(event_level \<Rightarrow> 'a \<Rightarrow> 'q \<Rightarrow> 'q \<times> bool) \<Rightarrow> ('q \<Rightarrow> 'q \<times> 'a option) \<Rightarrow> 'a queue_op list \<Rightarrow> 'q \<Rightarrow> 'q \<times> 'a queue_result list" where
  "queue_run enqueue dequeue [] q = (q, [])"
| "queue_run enqueue dequeue (op # ops) q =
     (let (q', res) = queue_step enqueue dequeue op q; (q'', ress) = queue_run enqueue dequeue ops q' in (q'', res # ress))"

lemma queue_run_Cons:
  "queue_run e d (op # ops) q =
     (fst (queue_run e d ops (fst (queue_step e d op q))),
      snd (queue_step e d op q) # snd (queue_run e d ops (fst (queue_step e d op q))))"
  by (simp add: Let_def split: prod.splits)

fun accepted :: "'a queue_result list \<Rightarrow> 'a list" where
  "accepted [] = []"
| "accepted (Accepted x # rs) = x # accepted rs"
| "accepted (_ # rs) = accepted rs"

fun popped :: "'a queue_result list \<Rightarrow> 'a list" where
  "popped [] = []"
| "popped (Popped x # rs) = x # popped rs"
| "popped (_ # rs) = popped rs"

fun refused :: "'a queue_result list \<Rightarrow> 'a list" where
  "refused [] = []"
| "refused (Refused x # rs) = x # refused rs"
| "refused (_ # rs) = refused rs"

locale level_queue =
  fixes items :: "'q \<Rightarrow> 'a list"
    and inv :: "'q \<Rightarrow> bool"
    and bound :: "'q \<Rightarrow> nat"
    and accepts :: "event_level \<Rightarrow> 'q \<Rightarrow> bool"
    and enqueue :: "event_level \<Rightarrow> 'a \<Rightarrow> 'q \<Rightarrow> 'q \<times> bool"
    and dequeue :: "'q \<Rightarrow> 'q \<times> 'a option"
  assumes items_bound: "inv q \<Longrightarrow> length (items q) \<le> bound q"
    and enqueue_inv: "inv q \<Longrightarrow> inv (fst (enqueue l x q))"
    and enqueue_flag: "inv q \<Longrightarrow> snd (enqueue l x q) = accepts l q"
    and enqueue_items: "inv q \<Longrightarrow> items (fst (enqueue l x q)) = (if accepts l q then items q @ [x] else items q)"
    and enqueue_bound: "inv q \<Longrightarrow> bound (fst (enqueue l x q)) = bound q"
    and accepts_bound: "inv q \<Longrightarrow> accepts l q \<Longrightarrow> length (items q) < bound q"
    and dequeue_inv: "inv q \<Longrightarrow> inv (fst (dequeue q))"
    and dequeue_result: "inv q \<Longrightarrow> snd (dequeue q) = (case items q of [] \<Rightarrow> None | x # _ \<Rightarrow> Some x)"
    and dequeue_items: "inv q \<Longrightarrow> items (fst (dequeue q)) = tl (items q)"
    and dequeue_bound: "inv q \<Longrightarrow> bound (fst (dequeue q)) = bound q"
begin

lemma step_inv: "inv q \<Longrightarrow> inv (fst (queue_step enqueue dequeue op q))"
  using enqueue_inv dequeue_inv by (cases op) (auto split: prod.splits option.splits simp: prod_eq_iff)

lemma step_bound: "inv q \<Longrightarrow> bound (fst (queue_step enqueue dequeue op q)) = bound q"
  using enqueue_bound dequeue_bound by (cases op) (auto split: prod.splits option.splits simp: prod_eq_iff)

text \<open>One step keeps the sum of what is queued, what came in and what went out.\<close>

lemma step_balance:
  assumes "inv q"
  shows "items q @ accepted [snd (queue_step enqueue dequeue op q)] =
         popped [snd (queue_step enqueue dequeue op q)] @ items (fst (queue_step enqueue dequeue op q))"
proof (cases op)
  case (Push l x)
  then show ?thesis
    using enqueue_flag [OF assms, of l x] enqueue_items [OF assms, of l x]
    by (auto split: prod.splits)
next
  case Pop
  then show ?thesis
    using dequeue_result [OF assms] dequeue_items [OF assms]
    by (auto split: prod.splits option.splits list.splits)
qed

lemma run_inv: "inv q \<Longrightarrow> inv (fst (queue_run enqueue dequeue ops q))"
  using step_inv by (induction ops arbitrary: q) (auto simp: queue_run_Cons simp del: queue_run.simps(2))

lemma accepted_Cons: "accepted (r # rs) = accepted [r] @ accepted rs"
  by (cases r) simp_all

lemma popped_Cons: "popped (r # rs) = popped [r] @ popped rs"
  by (cases r) simp_all

text \<open>Items leave in the order they were accepted, and none is lost or duplicated.\<close>

lemma run_fifo:
  assumes "inv q"
  shows "items q @ accepted (snd (queue_run enqueue dequeue ops q)) =
         popped (snd (queue_run enqueue dequeue ops q)) @ items (fst (queue_run enqueue dequeue ops q))"
  using assms
proof (induction ops arbitrary: q)
  case Nil
  then show ?case by simp
next
  case (Cons op ops)
  let ?s = "queue_step enqueue dequeue op q"
  let ?r = "queue_run enqueue dequeue ops (fst ?s)"
  have "items q @ accepted [snd ?s] @ accepted (snd ?r) = popped [snd ?s] @ popped (snd ?r) @ items (fst ?r)"
    using step_balance [OF Cons.prems, of op] Cons.IH [OF step_inv [OF Cons.prems, of op]]
    by (metis append.assoc)
  then show ?case
    using accepted_Cons [of "snd ?s" "snd ?r"] popped_Cons [of "snd ?s" "snd ?r"]
    by (simp add: queue_run_Cons del: queue_run.simps(2))
qed

end

section \<open>The ring buffer implements the contract\<close>

definition ring_wf :: "'a ring \<Rightarrow> bool" where
  "ring_wf r \<longleftrightarrow>
     rb_head r < rb_capacity r \<and> rb_tail r < rb_capacity r \<and> length (rb_buffer r) = unat (rb_capacity r) \<and>
     rb_high_watermark r \<le> usable_capacity r"

text \<open>The queued items, oldest first.\<close>

definition ring_items :: "'a ring \<Rightarrow> 'a list" where
  "ring_items r =
     map (\<lambda>i. rb_buffer r ! ((unat (rb_tail r) + i) mod unat (rb_capacity r))) [0..<unat (depth r)]"

definition ring_bound :: "'a ring \<Rightarrow> nat" where
  "ring_bound r = unat (usable_capacity r)"

definition ring_accepts :: "event_level \<Rightarrow> 'a ring \<Rightarrow> bool" where
  "ring_accepts level r \<longleftrightarrow> increment r (rb_head r) \<noteq> rb_tail r \<and> \<not> should_reject_for_reserve r level"

lemma increment_unat:
  "v < rb_capacity r \<Longrightarrow> unat (increment r v) = (unat v + 1) mod unat (rb_capacity r)"
  by (simp add: increment_def unat_mod unat_add_1)

lemma depth_unat:
  assumes "ring_wf r"
  shows "unat (depth r) = (unat (rb_head r) + unat (rb_capacity r) - unat (rb_tail r)) mod unat (rb_capacity r)"
proof -
  have h: "unat (rb_head r) < unat (rb_capacity r)" and t: "unat (rb_tail r) < unat (rb_capacity r)"
    using assms by (simp_all add: ring_wf_def word_less_nat_alt)
  show ?thesis
  proof (cases "rb_tail r \<le> rb_head r")
    case True
    then have le: "unat (rb_tail r) \<le> unat (rb_head r)" by (simp add: word_le_nat_alt)
    have e: "unat (rb_head r) + unat (rb_capacity r) - unat (rb_tail r) =
          (unat (rb_head r) - unat (rb_tail r)) + unat (rb_capacity r)" using le by simp
    show ?thesis unfolding e mod_add_self2 using True h by (simp add: depth_def unat_sub_le)
  next
    case False
    then have gt: "unat (rb_head r) < unat (rb_tail r)" by (simp add: word_le_nat_alt)
    have s: "unat (rb_capacity r - rb_tail r) = unat (rb_capacity r) - unat (rb_tail r)"
      using t by (intro unat_sub_le) (simp add: word_le_nat_alt)
    have "unat (rb_capacity r - rb_tail r + rb_head r) = unat (rb_capacity r) - unat (rb_tail r) + unat (rb_head r)"
    proof (subst unat_add_no_overflow)
      show "unat (rb_capacity r - rb_tail r) + unat (rb_head r) < 2 ^ LENGTH(64)"
        unfolding s using gt t unat_less_64 [of "rb_capacity r"] by simp
    qed (simp add: s)
    then show ?thesis using False gt t by (simp add: depth_def)
  qed
qed

lemma depth_less: "ring_wf r \<Longrightarrow> unat (depth r) < unat (rb_capacity r)"
  by (simp add: depth_unat ring_wf_def word_less_nat_alt)

lemma tail_plus_depth:
  assumes "ring_wf r"
  shows "(unat (rb_tail r) + unat (depth r)) mod unat (rb_capacity r) = unat (rb_head r)"
proof -
  have "unat (rb_head r) < unat (rb_capacity r)" "unat (rb_tail r) < unat (rb_capacity r)"
    using assms by (simp_all add: ring_wf_def word_less_nat_alt)
  then show ?thesis by (simp add: depth_unat [OF assms] mod_add_right_eq)
qed

lemma ring_items_length [simp]: "length (ring_items r) = unat (depth r)"
  by (simp add: ring_items_def)

lemma ring_bound_capacity:
  "ring_wf r \<Longrightarrow> Suc (ring_bound r) = unat (rb_capacity r)"
proof -
  assume "ring_wf r"
  then have "rb_head r < rb_capacity r" by (simp add: ring_wf_def)
  then show "Suc (ring_bound r) = unat (rb_capacity r)"
    unfolding ring_bound_def usable_capacity_def by unat_arith
qed

text \<open>Two positions of the window that agree modulo the capacity are the same.\<close>

lemma slot_inj:
  fixes i j t c :: nat
  assumes "i < c" "j < c" "(t + i) mod c = (t + j) mod c"
  shows "i = j"
proof -
  have less: False if "i < j" "j < c" "(t + i) mod c = (t + j) mod c" for i j
  proof -
    have "c dvd (t + j) - (t + i)"
      using that by (intro mod_eq_dvd_iff_nat [THEN iffD1]) simp_all
    then have "c \<le> j - i" using that(1) by (intro dvd_imp_le) simp_all
    then show False using that by simp
  qed
  show ?thesis
    using less [of i j] less [of j i] assms by (metis nat_neq_iff)
qed

lemma full_iff:
  assumes "ring_wf r"
  shows "increment r (rb_head r) = rb_tail r \<longleftrightarrow> unat (depth r) = ring_bound r"
proof -
  let ?c = "unat (rb_capacity r)" and ?t = "unat (rb_tail r)" and ?d = "unat (depth r)"
  have h: "rb_head r < rb_capacity r" and t: "?t < ?c" and c: "Suc (ring_bound r) = ?c" and d: "?d < ?c"
    using assms ring_bound_capacity depth_less by (auto simp: ring_wf_def word_less_nat_alt)
  have "unat (increment r (rb_head r)) = (?t + Suc ?d) mod ?c"
    using tail_plus_depth [OF assms] h by (simp add: increment_unat) (metis mod_Suc_eq)
  then have "increment r (rb_head r) = rb_tail r \<longleftrightarrow> (?t + Suc ?d) mod ?c = (?t + 0) mod ?c"
    using t by (simp add: word_unat_eq_iff)
  also have "\<dots> \<longleftrightarrow> Suc ?d = ?c"
  proof
    assume eq: "(?t + Suc ?d) mod ?c = (?t + 0) mod ?c"
    show "Suc ?d = ?c"
    proof (rule ccontr)
      assume "Suc ?d \<noteq> ?c"
      then have "Suc ?d < ?c" using d by simp
      then show False using slot_inj [OF _ _ eq] d by simp
    qed
  qed simp
  finally show ?thesis using c by auto
qed

section \<open>Push and pop on the items\<close>

lemma record_drop_fields [simp, queue_simps]:
  "rb_capacity (record_drop l b r) = rb_capacity r"
  "rb_critical_reserved_slots (record_drop l b r) = rb_critical_reserved_slots r"
  "rb_drop_info_when_reserved (record_drop l b r) = rb_drop_info_when_reserved r"
  "rb_drop_warning_when_reserved (record_drop l b r) = rb_drop_warning_when_reserved r"
  "rb_buffer (record_drop l b r) = rb_buffer r"
  "rb_head (record_drop l b r) = rb_head r"
  "rb_tail (record_drop l b r) = rb_tail r"
  "rb_high_watermark (record_drop l b r) = rb_high_watermark r"
  by (simp_all add: record_drop_def Let_def)

lemma update_high_watermark_fields [simp, queue_simps]:
  "rb_capacity (update_high_watermark r) = rb_capacity r"
  "rb_critical_reserved_slots (update_high_watermark r) = rb_critical_reserved_slots r"
  "rb_drop_info_when_reserved (update_high_watermark r) = rb_drop_info_when_reserved r"
  "rb_drop_warning_when_reserved (update_high_watermark r) = rb_drop_warning_when_reserved r"
  "rb_buffer (update_high_watermark r) = rb_buffer r"
  "rb_head (update_high_watermark r) = rb_head r"
  "rb_tail (update_high_watermark r) = rb_tail r"
  "rb_high_watermark (update_high_watermark r) = max (rb_high_watermark r) (depth r)"
  by (auto simp: update_high_watermark_def max_def)

lemma depth_cong:
  "rb_head r' = rb_head r \<Longrightarrow> rb_tail r' = rb_tail r \<Longrightarrow> rb_capacity r' = rb_capacity r \<Longrightarrow> depth r' = depth r"
  by (simp add: depth_def)

lemma ring_items_cong:
  "rb_head r' = rb_head r \<Longrightarrow> rb_tail r' = rb_tail r \<Longrightarrow> rb_capacity r' = rb_capacity r \<Longrightarrow>
   rb_buffer r' = rb_buffer r \<Longrightarrow> ring_items r' = ring_items r"
  by (simp add: ring_items_def depth_cong [of r' r])

lemma increment_less: "v < rb_capacity r \<Longrightarrow> increment r v < rb_capacity r"
  by (simp add: word_less_nat_alt increment_unat)

text \<open>The state after an accepted push, before the watermark is updated.\<close>

definition stored :: "'a \<Rightarrow> 'a ring \<Rightarrow> 'a ring" where
  "stored x r = r\<lparr>rb_buffer := (rb_buffer r)[unat (rb_head r) := x], rb_head := increment r (rb_head r)\<rparr>"

lemma push_eq:
  "push l x r =
     (if ring_accepts l r then (update_high_watermark (stored x r), True)
      else (record_drop l (increment r (rb_head r) \<noteq> rb_tail r) r, False))"
  by (simp add: push_def ring_accepts_def stored_def Let_def)

lemma stored_fields [simp, queue_simps]:
  "rb_capacity (stored x r) = rb_capacity r"
  "rb_critical_reserved_slots (stored x r) = rb_critical_reserved_slots r"
  "rb_drop_info_when_reserved (stored x r) = rb_drop_info_when_reserved r"
  "rb_drop_warning_when_reserved (stored x r) = rb_drop_warning_when_reserved r"
  "rb_buffer (stored x r) = (rb_buffer r)[unat (rb_head r) := x]"
  "rb_head (stored x r) = increment r (rb_head r)"
  "rb_tail (stored x r) = rb_tail r"
  "rb_high_watermark (stored x r) = rb_high_watermark r"
  by (simp_all add: stored_def)

lemma stored_wf: "ring_wf r \<Longrightarrow> ring_wf (stored x r)"
  by (simp add: ring_wf_def increment_less usable_capacity_def)

lemma stored_depth:
  assumes "ring_wf r" and "increment r (rb_head r) \<noteq> rb_tail r"
  shows "unat (depth (stored x r)) = Suc (unat (depth r))"
proof -
  let ?c = "unat (rb_capacity r)" and ?t = "unat (rb_tail r)"
  have wf: "ring_wf (stored x r)" using assms(1) by (rule stored_wf)
  have d: "Suc (unat (depth r)) < ?c"
    using depth_less [OF assms(1)] full_iff [OF assms(1)] ring_bound_capacity [OF assms(1)] assms(2) by simp
  have "rb_head r < rb_capacity r" using assms(1) by (simp add: ring_wf_def)
  then have "unat (increment r (rb_head r)) = (?t + Suc (unat (depth r))) mod ?c"
    using tail_plus_depth [OF assms(1)] by (simp add: increment_unat) (metis mod_Suc_eq)
  then have "(?t + unat (depth (stored x r))) mod ?c = (?t + Suc (unat (depth r))) mod ?c"
    using tail_plus_depth [OF wf] by simp
  then show ?thesis
    using slot_inj [of "unat (depth (stored x r))" ?c "Suc (unat (depth r))" ?t] depth_less [OF wf] d by simp
qed

lemma stored_items:
  assumes "ring_wf r" and "increment r (rb_head r) \<noteq> rb_tail r"
  shows "ring_items (stored x r) = ring_items r @ [x]"
proof (rule nth_equalityI)
  show "length (ring_items (stored x r)) = length (ring_items r @ [x])"
    using stored_depth [OF assms] by simp
next
  fix i
  assume "i < length (ring_items (stored x r))"
  then have i: "i \<le> unat (depth r)" using stored_depth [OF assms, of x] by simp
  let ?c = "unat (rb_capacity r)" and ?t = "unat (rb_tail r)" and ?h = "unat (rb_head r)"
  have d: "unat (depth r) < ?c" using depth_less [OF assms(1)] .
  have len: "length (rb_buffer r) = ?c" "?h < ?c" using assms(1) by (simp_all add: ring_wf_def word_less_nat_alt)
  have h: "(?t + unat (depth r)) mod ?c = ?h" using tail_plus_depth [OF assms(1)] .
  have at: "ring_items (stored x r) ! i = ((rb_buffer r)[?h := x]) ! ((?t + i) mod ?c)"
    using i stored_depth [OF assms, of x] by (simp add: ring_items_def del: upt_Suc)
  show "ring_items (stored x r) ! i = (ring_items r @ [x]) ! i"
  proof (cases "i = unat (depth r)")
    case True
    then show ?thesis using at h len by (simp add: nth_append)
  next
    case False
    then have "i < unat (depth r)" using i by simp
    moreover from this have "(?t + i) mod ?c \<noteq> ?h"
      using slot_inj [of i ?c "unat (depth r)" ?t] d h by auto
    ultimately show ?thesis using at by (simp add: nth_append ring_items_def)
  qed
qed

lemma update_high_watermark_wf: "ring_wf r \<Longrightarrow> ring_wf (update_high_watermark r)"
proof -
  assume wf: "ring_wf r"
  then have "unat (depth r) \<le> ring_bound r"
    using depth_less [OF wf] ring_bound_capacity [OF wf] by simp
  then have "depth r \<le> usable_capacity r" by (simp add: ring_bound_def word_le_nat_alt)
  with wf show ?thesis by (simp add: ring_wf_def usable_capacity_def)
qed

lemma ring_bound_cong: "rb_capacity r' = rb_capacity r \<Longrightarrow> ring_bound r' = ring_bound r"
  by (simp add: ring_bound_def usable_capacity_def)

lemma record_drop_wf: "ring_wf r \<Longrightarrow> ring_wf (record_drop l b r)"
  by (simp add: ring_wf_def usable_capacity_def)

lemma push_wf [wf_intros]: "ring_wf r \<Longrightarrow> ring_wf (fst (push l x r))"
  by (simp add: push_eq stored_wf update_high_watermark_wf record_drop_wf)

lemma push_items:
  "ring_wf r \<Longrightarrow> ring_items (fst (push l x r)) = (if ring_accepts l r then ring_items r @ [x] else ring_items r)"
  using stored_items [of r x] ring_items_cong [of "update_high_watermark (stored x r)" "stored x r"]
    ring_items_cong [of "record_drop l b r" r for b]
  by (simp add: push_eq ring_accepts_def)

text \<open>Reading the oldest item.\<close>

lemma pop_nonempty:
  assumes "ring_wf r" and "rb_tail r \<noteq> rb_head r"
  shows "unat (depth r) \<noteq> 0"
    and "rb_buffer r ! unat (rb_tail r) = hd (ring_items r)"
proof -
  have t: "unat (rb_tail r) < unat (rb_capacity r)" using assms(1) by (simp add: ring_wf_def word_less_nat_alt)
  show d: "unat (depth r) \<noteq> 0"
    using tail_plus_depth [OF assms(1)] t assms(2) by (metis add.right_neutral mod_less word_unat_eq_iff)
  then have "[0..<unat (depth r)] = 0 # [1..<unat (depth r)]" by (simp add: upt_conv_Cons)
  then show "rb_buffer r ! unat (rb_tail r) = hd (ring_items r)" using t by (simp add: ring_items_def)
qed

lemma pop_items:
  assumes "ring_wf r"
  shows "ring_items (fst (pop r)) = tl (ring_items r)"
    and "ring_wf (fst (pop r))"
proof -
  let ?r = "fst (pop r)" and ?c = "unat (rb_capacity r)" and ?t = "unat (rb_tail r)" and ?d = "unat (depth r)"
  have t: "rb_tail r < rb_capacity r" "?t < ?c" using assms by (simp_all add: ring_wf_def word_less_nat_alt)
  show wf: "ring_wf ?r"
    using assms t by (simp add: pop_def Let_def ring_wf_def increment_less usable_capacity_def)
  show "ring_items ?r = tl (ring_items r)"
  proof (cases "rb_tail r = rb_head r")
    case True
    then show ?thesis by (simp add: pop_def Let_def ring_items_def depth_def)
  next
    case False
    then have fields: "rb_head ?r = rb_head r" "rb_tail ?r = increment r (rb_tail r)"
      "rb_capacity ?r = rb_capacity r" "rb_buffer ?r = rb_buffer r"
      by (simp_all add: pop_def Let_def)
    have inc: "unat (increment r (rb_tail r)) = (?t + 1) mod ?c" using t by (simp add: increment_unat)
    have d: "?d \<noteq> 0" "?d < ?c" using pop_nonempty(1) [OF assms False] depth_less [OF assms] by simp_all
    have "(?t + (1 + unat (depth ?r))) mod ?c = (?t + ?d) mod ?c"
      using tail_plus_depth [OF wf] tail_plus_depth [OF assms]
      by (simp add: fields inc) (metis mod_add_left_eq add_Suc)
    moreover have "1 + unat (depth ?r) < ?c \<or> 1 + unat (depth ?r) = ?c"
      using depth_less [OF wf] by (auto simp: fields)
    ultimately have dep: "?d = 1 + unat (depth ?r)"
    proof (elim disjE)
      assume "1 + unat (depth ?r) < ?c" "(?t + (1 + unat (depth ?r))) mod ?c = (?t + ?d) mod ?c"
      then show ?thesis using slot_inj [of "1 + unat (depth ?r)" ?c ?d ?t] d by simp
    next
      assume full: "1 + unat (depth ?r) = ?c" and eq: "(?t + (1 + unat (depth ?r))) mod ?c = (?t + ?d) mod ?c"
      then have "(?t + 0) mod ?c = (?t + ?d) mod ?c" by simp
      then show ?thesis using slot_inj [of 0 ?c ?d ?t] d by simp
    qed
    have "ring_items ?r = map (\<lambda>i. rb_buffer r ! ((?t + Suc i) mod ?c)) [0..<unat (depth ?r)]"
      by (simp add: ring_items_def fields inc) (metis mod_add_left_eq add_Suc)
    moreover have "[0..<?d] = 0 # map Suc [0..<unat (depth ?r)]"
      using d dep by (simp add: upt_conv_Cons map_Suc_upt del: upt_Suc)
    ultimately show ?thesis by (simp add: ring_items_def [of r] o_def)
  qed
qed

lemma pop_result:
  "ring_wf r \<Longrightarrow> snd (pop r) = (case ring_items r of [] \<Rightarrow> None | x # _ \<Rightarrow> Some x)"
proof -
  assume wf: "ring_wf r"
  show ?thesis
  proof (cases "rb_tail r = rb_head r")
    case True
    then show ?thesis by (simp add: pop_def Let_def ring_items_def depth_def)
  next
    case False
    then have "ring_items r \<noteq> []" using pop_nonempty(1) [OF wf] ring_items_length [of r] by fastforce
    then show ?thesis using False pop_nonempty(2) [OF wf False]
      by (simp add: pop_def Let_def split: list.splits)
  qed
qed

interpretation rb: level_queue ring_items ring_wf ring_bound ring_accepts push pop
proof unfold_locales
  fix q :: "'a ring" and l :: event_level and x :: 'a
  assume wf: "ring_wf q"
  show "length (ring_items q) \<le> ring_bound q"
    using depth_less [OF wf] ring_bound_capacity [OF wf] by simp
  show "ring_wf (fst (push l x q))" using wf by (rule push_wf)
  show "snd (push l x q) = ring_accepts l q" by (simp add: push_eq)
  show "ring_items (fst (push l x q)) = (if ring_accepts l q then ring_items q @ [x] else ring_items q)"
    using wf by (rule push_items)
  show "ring_bound (fst (push l x q)) = ring_bound q" by (rule ring_bound_cong) (simp add: push_eq)
  show "length (ring_items q) < ring_bound q" if "ring_accepts l q"
    using that full_iff [OF wf] depth_less [OF wf] ring_bound_capacity [OF wf] by (simp add: ring_accepts_def)
  show "ring_wf (fst (pop q))" using wf by (rule pop_items)
  show "snd (pop q) = (case ring_items q of [] \<Rightarrow> None | x # _ \<Rightarrow> Some x)" using wf by (rule pop_result)
  show "ring_items (fst (pop q)) = tl (ring_items q)" using wf by (rule pop_items)
  show "ring_bound (fst (pop q)) = ring_bound q" by (rule ring_bound_cong) (simp add: pop_def Let_def)
qed

section \<open>Sequences of operations\<close>

lemma fst_queue_step [simp]:
  "fst (queue_step enqueue dequeue (Push l x) q) = fst (enqueue l x q)"
  "fst (queue_step enqueue dequeue Pop q) = fst (dequeue q)"
  by (simp_all split: prod.splits option.splits)

lemma snd_queue_step [simp]:
  "snd (queue_step enqueue dequeue (Push l x) q) = (if snd (enqueue l x q) then Accepted x else Refused x)"
  "snd (queue_step enqueue dequeue Pop q) = (case snd (dequeue q) of None \<Rightarrow> Nothing | Some x \<Rightarrow> Popped x)"
  by (simp_all split: prod.splits option.splits)

lemma new_ring_wf: "cap \<noteq> - 1 \<Longrightarrow> ring_wf (new_ring fill cap reserved di dw)"
proof -
  assume "cap \<noteq> - 1"
  then have "cap + 1 \<noteq> 0" by (metis add_eq_0_iff2)
  then show ?thesis by (simp add: ring_wf_def new_ring_def word_neq_0_conv usable_capacity_def)
qed

lemma new_ring_items [simp]: "ring_items (new_ring fill cap reserved di dw) = []"
  by (simp add: ring_items_def depth_def new_ring_def)

lemma new_ring_bound [simp]: "ring_bound (new_ring fill cap reserved di dw) = unat cap"
  by (simp add: ring_bound_def usable_capacity_def new_ring_def)

definition ring_run :: "'a queue_op list \<Rightarrow> 'a ring \<Rightarrow> 'a ring \<times> 'a queue_result list" where
  "ring_run ops r = queue_run push pop ops r"

lemma ring_run_Nil [simp]: "ring_run [] r = (r, [])"
  by (simp add: ring_run_def)

lemma ring_run_snoc:
  "ring_run (ops @ [op]) r =
     (fst (queue_step push pop op (fst (ring_run ops r))),
      snd (ring_run ops r) @ [snd (queue_step push pop op (fst (ring_run ops r)))])"
  unfolding ring_run_def
  by (induction ops arbitrary: r) (simp_all add: queue_run_Cons Let_def split: prod.splits)

lemma ring_run_wf: "ring_wf r \<Longrightarrow> ring_wf (fst (ring_run ops r))"
  unfolding ring_run_def by (rule rb.run_inv)

lemma ring_step_wf: "ring_wf r \<Longrightarrow> ring_wf (fst (queue_step push pop op r))"
  by (rule rb.step_inv)

lemma ring_run_bound: "ring_wf r \<Longrightarrow> ring_bound (fst (ring_run ops r)) = ring_bound r"
  by (induction ops rule: rev_induct) (simp_all add: ring_run_snoc rb.step_bound ring_run_wf)

text \<open>The admission rule in numbers of slots.\<close>

definition subject_to_reserve :: "'a ring \<Rightarrow> event_level \<Rightarrow> bool" where
  "subject_to_reserve r level \<longleftrightarrow>
     rb_critical_reserved_slots r \<noteq> 0 \<and>
     (case level of
        LevelCritical \<Rightarrow> False
      | LevelWarning \<Rightarrow> rb_drop_warning_when_reserved r
      | _ \<Rightarrow> rb_drop_info_when_reserved r)"

definition reserved_slots :: "'a ring \<Rightarrow> nat" where
  "reserved_slots r = min (unat (rb_critical_reserved_slots r)) (ring_bound r - 1)"

lemma free_slots_unat:
  "ring_wf r \<Longrightarrow> unat (usable_capacity r - depth r) = ring_bound r - length (ring_items r)"
  using rb.items_bound [of r] by (simp add: ring_bound_def unat_sub_le word_le_nat_alt)

lemma should_reject_iff:
  assumes "ring_wf r" and "0 < ring_bound r"
  shows "should_reject_for_reserve r level \<longleftrightarrow>
         subject_to_reserve r level \<and> ring_bound r - length (ring_items r) \<le> reserved_slots r"
proof -
  let ?u = "usable_capacity r" and ?s = "rb_critical_reserved_slots r"
  have u: "?u \<noteq> 0" using assms(2) by (auto simp: ring_bound_def)
  have res: "unat (if ?u \<le> ?s then ?u - 1 else ?s) = reserved_slots r"
    using u by (auto simp: reserved_slots_def ring_bound_def min_def word_le_nat_alt unat_minus_one)
  show ?thesis
    using u free_slots_unat [OF assms(1)]
    by (cases level)
      (simp_all add: should_reject_for_reserve_def subject_to_reserve_def Let_def word_le_nat_alt [of "_ - depth r"] res)
qed

lemma ring_accepts_iff:
  assumes "ring_wf r"
  shows "ring_accepts level r \<longleftrightarrow>
         length (ring_items r) < ring_bound r \<and>
         (subject_to_reserve r level \<longrightarrow> reserved_slots r < ring_bound r - length (ring_items r))"
proof (cases "0 < ring_bound r")
  case True
  then show ?thesis
    using rb.items_bound [OF assms] full_iff [OF assms]
    by (auto simp: ring_accepts_def should_reject_iff [OF assms])
next
  case False
  then show ?thesis using rb.accepts_bound [OF assms] by auto
qed

text \<open>Fields no operation changes.\<close>

lemma step_constants:
  "rb_critical_reserved_slots (fst (queue_step push pop op r)) = rb_critical_reserved_slots r"
  "rb_drop_info_when_reserved (fst (queue_step push pop op r)) = rb_drop_info_when_reserved r"
  "rb_drop_warning_when_reserved (fst (queue_step push pop op r)) = rb_drop_warning_when_reserved r"
  "rb_capacity (fst (queue_step push pop op r)) = rb_capacity r"
  by (cases op; simp add: push_eq pop_def Let_def del: queue_step.simps)+

lemma step_reserve:
  "subject_to_reserve (fst (queue_step push pop op r)) = subject_to_reserve r"
  "reserved_slots (fst (queue_step push pop op r)) = reserved_slots r"
  by (simp_all add: fun_eq_iff subject_to_reserve_def reserved_slots_def ring_bound_def usable_capacity_def
      step_constants split: event_level.split)

text \<open>Every push carries the level of its item.\<close>

definition levelled :: "('a \<Rightarrow> event_level) \<Rightarrow> 'a queue_op list \<Rightarrow> bool" where
  "levelled lv ops \<longleftrightarrow> list_all (\<lambda>op. case op of Push l x \<Rightarrow> l = lv x | Pop \<Rightarrow> True) ops"

definition non_critical :: "('a \<Rightarrow> event_level) \<Rightarrow> 'a list \<Rightarrow> nat" where
  "non_critical lv xs = length (filter (\<lambda>x. lv x \<noteq> LevelCritical) xs)"

lemma non_critical_le: "non_critical lv xs \<le> length xs"
  by (simp add: non_critical_def)

lemma non_critical_tl: "non_critical lv (tl xs) \<le> non_critical lv xs"
  by (cases xs) (simp_all add: non_critical_def)

text \<open>The reserve: non-critical items never occupy it.\<close>

lemma reserve_step:
  assumes wf: "ring_wf r" and lv: "levelled lv [op]"
    and sub: "\<And>l. l \<noteq> LevelCritical \<Longrightarrow> subject_to_reserve r l"
    and inv: "non_critical lv (ring_items r) + reserved_slots r \<le> ring_bound r"
  shows "non_critical lv (ring_items (fst (queue_step push pop op r))) + reserved_slots r \<le> ring_bound r"
proof (cases op)
  case (Push l x)
  then have l: "l = lv x" using lv by (simp add: levelled_def)
  have st: "ring_items (fst (queue_step push pop op r)) =
        (if ring_accepts l r then ring_items r @ [x] else ring_items r)"
    using push_items [OF wf, of l x] by (simp add: Push del: queue_step.simps)
  show ?thesis
  proof (cases "ring_accepts l r \<and> l \<noteq> LevelCritical")
    case True
    then have "reserved_slots r < ring_bound r - length (ring_items r)"
      using ring_accepts_iff [OF wf] sub by blast
    then show ?thesis using True non_critical_le [of lv "ring_items r"] l
      by (simp add: st non_critical_def)
  next
    case False
    then show ?thesis using inv l by (auto simp: st non_critical_def)
  qed
next
  case Pop
  have "ring_items (fst (queue_step push pop op r)) = tl (ring_items r)"
    using pop_items(1) [OF wf] by (simp add: Pop del: queue_step.simps)
  then show ?thesis using non_critical_tl [of lv "ring_items r"] inv by simp
qed

lemma reserve_run:
  assumes "ring_wf r" and "levelled lv ops"
    and "\<And>l. l \<noteq> LevelCritical \<Longrightarrow> subject_to_reserve r l"
    and "non_critical lv (ring_items r) + reserved_slots r \<le> ring_bound r"
  shows "non_critical lv (ring_items (fst (ring_run ops r))) + reserved_slots r \<le> ring_bound r \<and>
    reserved_slots (fst (ring_run ops r)) = reserved_slots r \<and>
    subject_to_reserve (fst (ring_run ops r)) = subject_to_reserve r"
  using assms(2)
proof (induction ops rule: rev_induct)
  case Nil
  then show ?case using assms(4) by simp
next
  case (snoc op ops)
  let ?r = "fst (ring_run ops r)"
  have IH: "non_critical lv (ring_items ?r) + reserved_slots r \<le> ring_bound r"
    "reserved_slots ?r = reserved_slots r" "subject_to_reserve ?r = subject_to_reserve r" "levelled lv [op]"
    using snoc by (simp_all add: levelled_def)
  have "ring_bound ?r = ring_bound r" using ring_run_bound [OF assms(1)] .
  then show ?case
    using reserve_step [OF ring_run_wf [OF assms(1)] IH(4), of ops] IH assms(3)
    by (simp add: ring_run_snoc step_reserve)
qed

lemma results_append [simp]:
  "accepted (xs @ ys) = accepted xs @ accepted ys"
  "popped (xs @ ys) = popped xs @ popped ys"
  "refused (xs @ ys) = refused xs @ refused ys"
  by (induction xs rule: accepted.induct; simp)+

lemma push_counters:
  "rb_push_fail_count (fst (push l x r)) = rb_push_fail_count r + (if ring_accepts l r then 0 else 1)"
  "rb_dropped_critical_count (fst (push l x r)) =
     rb_dropped_critical_count r + (if \<not> ring_accepts l r \<and> l = LevelCritical then 1 else 0)"
  "rb_dropped_warning_count (fst (push l x r)) =
     rb_dropped_warning_count r + (if \<not> ring_accepts l r \<and> l = LevelWarning then 1 else 0)"
  "rb_dropped_info_count (fst (push l x r)) =
     rb_dropped_info_count r + (if \<not> ring_accepts l r \<and> l \<in> {LevelInfo, LevelRecovery} then 1 else 0)"
  by (cases l; simp add: push_eq record_drop_def update_high_watermark_def stored_def Let_def)+

lemma pop_counters:
  "rb_push_fail_count (fst (pop r)) = rb_push_fail_count r"
  "rb_dropped_critical_count (fst (pop r)) = rb_dropped_critical_count r"
  "rb_dropped_warning_count (fst (pop r)) = rb_dropped_warning_count r"
  "rb_dropped_info_count (fst (pop r)) = rb_dropped_info_count r"
  "rb_high_watermark (fst (pop r)) = rb_high_watermark r"
  by (simp_all add: pop_def Let_def)

definition refused_at :: "('a \<Rightarrow> event_level) \<Rightarrow> event_level set \<Rightarrow> 'a queue_result list \<Rightarrow> nat" where
  "refused_at lv levels rs = length (filter (\<lambda>x. lv x \<in> levels) (refused rs))"

lemma refused_at_step:
  assumes "ring_wf r" and "levelled lv [op]"
  shows "refused_at lv levels [snd (queue_step push pop op r)] =
    (case op of Push l x \<Rightarrow> if \<not> ring_accepts l r \<and> l \<in> levels then 1 else 0 | Pop \<Rightarrow> 0)"
  using assms(2)
  by (cases op) (auto simp: refused_at_def levelled_def push_eq simp del: queue_step.simps split: option.splits)

lemma refused_at_append [simp]:
  "refused_at lv levels (xs @ ys) = refused_at lv levels xs + refused_at lv levels ys"
  by (simp add: refused_at_def)

text \<open>The loss counters are the numbers of refused pushes per level, modulo \<open>2 ^ 64\<close>.\<close>

lemma run_counters:
  assumes "ring_wf r" and "levelled lv ops"
  defines "r' \<equiv> fst (ring_run ops r)" and "rs \<equiv> snd (ring_run ops r)"
  shows "rb_push_fail_count r' = rb_push_fail_count r + of_nat (refused_at lv UNIV rs) \<and>
    rb_dropped_critical_count r' = rb_dropped_critical_count r + of_nat (refused_at lv {LevelCritical} rs) \<and>
    rb_dropped_warning_count r' = rb_dropped_warning_count r + of_nat (refused_at lv {LevelWarning} rs) \<and>
    rb_dropped_info_count r' = rb_dropped_info_count r + of_nat (refused_at lv {LevelInfo, LevelRecovery} rs)"
  unfolding r'_def rs_def using assms(2)
proof (induction ops rule: rev_induct)
  case Nil
  then show ?case by (simp add: refused_at_def)
next
  case (snoc op ops)
  have lv: "levelled lv ops" "levelled lv [op]" using snoc.prems by (simp_all add: levelled_def)
  show ?case
    using snoc.IH [OF lv(1)] refused_at_step [OF ring_run_wf [OF assms(1)] lv(2), of _ ops]
    by (cases op) (simp_all add: ring_run_snoc push_counters pop_counters del: queue_step.simps)
qed

lemma depth_le_watermark_step:
  assumes "ring_wf r" and "length (ring_items r) \<le> unat (rb_high_watermark r)"
  shows "unat (rb_high_watermark (fst (queue_step push pop op r))) =
    max (unat (rb_high_watermark r)) (length (ring_items (fst (queue_step push pop op r))))"
proof (cases op)
  case (Push l x)
  show ?thesis
  proof (cases "ring_accepts l r")
    case True
    have "depth (update_high_watermark (stored x r)) = depth (stored x r)" by (rule depth_cong) simp_all
    then show ?thesis using True
      by (simp add: Push push_eq max_def word_le_nat_alt del: queue_step.simps)
  next
    case False
    have "depth (record_drop l b r) = depth r" for b by (rule depth_cong) simp_all
    then show ?thesis using False assms(2)
      by (simp add: Push push_eq max_def del: queue_step.simps)
  qed
next
  case Pop
  have "length (ring_items (fst (pop r))) \<le> unat (rb_high_watermark r)"
    using assms(2) by (simp only: pop_items(1) [OF assms(1)] length_tl)
  then show ?thesis by (simp add: Pop pop_counters max_absorb1 del: queue_step.simps)
qed

text \<open>The depths a sequence of operations goes through.\<close>

fun depths :: "'a queue_op list \<Rightarrow> 'a ring \<Rightarrow> nat list" where
  "depths [] r = [unat (depth r)]"
| "depths (op # ops) r = unat (depth r) # depths ops (fst (queue_step push pop op r))"

lemma run_watermark:
  assumes "ring_wf r" and "unat (depth r) \<le> unat (rb_high_watermark r)"
  shows "unat (rb_high_watermark (fst (ring_run ops r))) = Max (insert (unat (rb_high_watermark r)) (set (depths ops r)))"
  using assms
proof (induction ops arbitrary: r)
  case Nil
  then show ?case by simp
next
  case (Cons op ops)
  let ?r = "fst (queue_step push pop op r)"
  have hw: "unat (rb_high_watermark ?r) = max (unat (rb_high_watermark r)) (unat (depth ?r))"
    using depth_le_watermark_step [OF Cons.prems(1)] Cons.prems(2) by simp
  have "unat (rb_high_watermark (fst (ring_run ops ?r))) =
      Max (insert (unat (rb_high_watermark ?r)) (set (depths ops ?r)))"
    using Cons.IH [OF ring_step_wf [OF Cons.prems(1)]] hw by simp
  moreover have "Max (insert (max a b) S) = max a (Max (insert b S))" if "finite S" for a b :: nat and S
    using that by (cases "S = {}") (simp_all add: max.assoc)
  moreover have "unat (depth ?r) \<in> set (depths ops ?r)" by (cases ops) simp_all
  moreover have "finite (set (depths ops ?r))" "set (depths ops ?r) \<noteq> {}" by (cases ops; simp)+
  ultimately have "unat (rb_high_watermark (fst (ring_run ops ?r))) =
      max (unat (rb_high_watermark r)) (Max (set (depths ops ?r)))"
    using hw by (simp add: insert_absorb)
  moreover have "fst (ring_run (op # ops) r) = fst (ring_run ops ?r)"
    by (simp add: ring_run_def queue_run_Cons del: queue_run.simps)
  ultimately show ?case
    using Cons.prems(2) \<open>set (depths ops ?r) \<noteq> {}\<close> by (simp add: max.assoc [symmetric] max_absorb1)
qed

section \<open>Properties\<close>

text \<open>
  C11: whatever is pushed and popped on a new queue, the items popped, followed by those still queued,
  are exactly the accepted items in the order they were accepted.
\<close>

theorem ring_fifo:
  assumes "cap \<noteq> - 1"
  shows "accepted (snd (ring_run ops (new_ring fill cap reserved drop_info drop_warning))) =
    popped (snd (ring_run ops (new_ring fill cap reserved drop_info drop_warning))) @
    ring_items (fst (ring_run ops (new_ring fill cap reserved drop_info drop_warning)))"
  using rb.run_fifo [OF new_ring_wf [OF assms, of fill reserved drop_info drop_warning], of ops]
  by (simp add: ring_run_def)

theorem ring_fifo_witness:
  "let (r, results) = ring_run [Push LevelInfo 1, Push LevelInfo 2, Push LevelInfo 3, Pop, Push LevelInfo 4]
     (new_ring (0 :: nat) 2 0 False False)
   in [1, 2, 4] = popped results @ ring_items r"
proof -
  have "accepted (snd (ring_run [Push LevelInfo 1, Push LevelInfo 2, Push LevelInfo 3, Pop, Push LevelInfo 4]
     (new_ring (0 :: nat) 2 0 False False))) = [1, 2, 4]" by code_simp
  then show ?thesis
    using ring_fifo [of 2 "[Push LevelInfo 1, Push LevelInfo 2, Push LevelInfo 3, Pop, Push LevelInfo 4]" "0 :: nat" 0 False False]
    by (simp add: case_prod_beta)
qed

text \<open>
  A push is accepted exactly when a slot is free and, for an item the reserve applies to, more slots are
  free than are reserved; an accepted item becomes the newest, a refused one leaves the queue as it was.
\<close>

theorem push_admission:
  assumes "ring_wf r"
  shows "snd (push level x r) =
      (length (ring_items r) < ring_bound r \<and>
       (subject_to_reserve r level \<longrightarrow> reserved_slots r < ring_bound r - length (ring_items r))) \<and>
    ring_items (fst (push level x r)) = (if snd (push level x r) then ring_items r @ [x] else ring_items r)"
  using ring_accepts_iff [OF assms] push_items [OF assms, of level x] by (simp add: push_eq)

theorem push_admission_witness:
  "snd (push LevelInfo 5 (new_ring (0 :: nat) 4 4 True True)) \<and>
   \<not> snd (push LevelInfo 5 (fst (push LevelInfo 5 (new_ring (0 :: nat) 4 4 True True))))"
proof -
  have wf: "ring_wf (new_ring (0 :: nat) 4 4 True True)" by (rule new_ring_wf) simp
  have sub: "subject_to_reserve (new_ring (0 :: nat) 4 4 True True) LevelInfo"
    by (simp add: subject_to_reserve_def new_ring_def)
  have res: "reserved_slots (new_ring (0 :: nat) 4 4 True True) = 3" by (simp add: reserved_slots_def new_ring_def ring_bound_def usable_capacity_def)
  have ok: "snd (push LevelInfo 5 (new_ring (0 :: nat) 4 4 True True))"
    using push_admission [OF wf, of LevelInfo 5] sub res by simp
  have "\<not> snd (push LevelInfo 5 (fst (push LevelInfo 5 (new_ring (0 :: nat) 4 4 True True))))"
    by code_simp
  with ok show ?thesis by blast
qed

text \<open>
  C7: when both kinds of lower-level items are subject to the reserve, a critical item is refused only if the
  queue is full and at least the reserved number of slots is held by critical items: no flood of
  lower-level items makes the queue lose a critical event.
\<close>

theorem critical_reserve:
  fixes fill :: 'a
  assumes "cap \<noteq> - 1" and "0 < reserved" and "reserved < cap" and "levelled lv ops"
  defines "r \<equiv> fst (ring_run ops (new_ring fill cap reserved True True))"
  assumes "\<not> snd (push LevelCritical x r)"
  shows "length (ring_items r) = unat cap \<and>
    unat reserved \<le> length (filter (\<lambda>y. lv y = LevelCritical) (ring_items r))"
proof -
  let ?n = "new_ring fill cap reserved True True"
  have wf: "ring_wf ?n" using assms(1) by (rule new_ring_wf)
  have wf': "ring_wf r" unfolding r_def by (rule ring_run_wf [OF wf])
  have bound: "ring_bound r = unat cap" unfolding r_def by (simp add: ring_run_bound [OF wf])
  have sub: "subject_to_reserve ?n l" if "l \<noteq> LevelCritical" for l
    using that assms(2) by (cases l) (simp_all add: subject_to_reserve_def new_ring_def word_neq_0_conv)
  have res: "reserved_slots ?n = unat reserved"
    using assms(3) by (simp add: reserved_slots_def min_def new_ring_def ring_bound_def usable_capacity_def word_less_nat_alt)
  have le: "unat reserved \<le> unat cap" using assms(3) by (simp add: word_less_nat_alt)
  have run: "non_critical lv (ring_items r) + unat reserved \<le> unat cap \<and> subject_to_reserve r = subject_to_reserve ?n"
    using reserve_run [OF wf assms(4) sub] unfolding r_def [symmetric]
    by (simp add: res non_critical_def le)
  have "\<not> subject_to_reserve ?n LevelCritical" by (simp add: subject_to_reserve_def)
  moreover have "\<not> ring_accepts LevelCritical r" using assms(6) by (simp add: push_eq split: if_splits)
  ultimately have full: "length (ring_items r) = unat cap"
    using ring_accepts_iff [OF wf', of LevelCritical] rb.items_bound [OF wf'] bound run by auto
  have "length (ring_items r) = non_critical lv (ring_items r) + length (filter (\<lambda>y. lv y = LevelCritical) (ring_items r))"
    using sum_length_filter_compl [of "\<lambda>y. lv y \<noteq> LevelCritical" "ring_items r"] by (simp add: non_critical_def)
  then show ?thesis using run full by simp
qed

theorem critical_reserve_witness:
  "length (ring_items (fst (ring_run (replicate 9 (Push LevelInfo LevelInfo) @ replicate 3 (Push LevelCritical LevelCritical))
      (new_ring LevelInfo 4 2 True True)))) = unat (4 :: size_t) \<and>
   unat (2 :: size_t) \<le> length (filter (\<lambda>y. y = LevelCritical)
     (ring_items (fst (ring_run (replicate 9 (Push LevelInfo LevelInfo) @ replicate 3 (Push LevelCritical LevelCritical))
      (new_ring LevelInfo 4 2 True True)))))"
proof (rule critical_reserve [where lv = "\<lambda>l. l" and x = LevelCritical])
  show "\<not> snd (push LevelCritical LevelCritical (fst (ring_run (replicate 9 (Push LevelInfo LevelInfo) @
      replicate 3 (Push LevelCritical LevelCritical)) (new_ring LevelInfo 4 2 True True))))"
    by code_simp
  show "levelled (\<lambda>l. l) (replicate 9 (Push LevelInfo LevelInfo) @ replicate 3 (Push LevelCritical LevelCritical))"
    by code_simp
qed simp_all

text \<open>
  The loss counters of a new queue count the refused pushes: the total, and one counter per level (info and
  recovery share one), each modulo \<open>2 ^ 64\<close>; the total is the sum of the other three.
\<close>

theorem loss_accounting:
  fixes fill :: 'a and cap reserved :: size_t and drop_info drop_warning :: bool
  assumes "cap \<noteq> - 1" and "levelled lv ops"
  defines "run \<equiv> ring_run ops (new_ring fill cap reserved drop_info drop_warning)"
  shows "rb_push_fail_count (fst run) = of_nat (length (refused (snd run))) \<and>
    rb_dropped_critical_count (fst run) = of_nat (refused_at lv {LevelCritical} (snd run)) \<and>
    rb_dropped_warning_count (fst run) = of_nat (refused_at lv {LevelWarning} (snd run)) \<and>
    rb_dropped_info_count (fst run) = of_nat (refused_at lv {LevelInfo, LevelRecovery} (snd run)) \<and>
    rb_push_fail_count (fst run) =
      rb_dropped_critical_count (fst run) + rb_dropped_warning_count (fst run) + rb_dropped_info_count (fst run)"
proof -
  have split: "length xs = length (filter (\<lambda>x. lv x \<in> {LevelCritical}) xs) + length (filter (\<lambda>x. lv x \<in> {LevelWarning}) xs) +
      length (filter (\<lambda>x. lv x \<in> {LevelInfo, LevelRecovery}) xs)" for xs
  proof (induction xs)
    case (Cons x xs)
    then show ?case by (cases "lv x") simp_all
  qed simp
  show ?thesis
    using run_counters [OF new_ring_wf [OF assms(1), of fill reserved drop_info drop_warning] assms(2)]
      split [of "refused (snd run)"]
    unfolding run_def [symmetric]
    by (simp add: new_ring_def refused_at_def)
qed

theorem loss_accounting_witness:
  "rb_push_fail_count (fst (ring_run (replicate 3 (Push LevelInfo LevelInfo)) (new_ring LevelInfo 2 0 False False))) =
   of_nat (length (refused (snd (ring_run (replicate 3 (Push LevelInfo LevelInfo)) (new_ring LevelInfo 2 0 False False)))))"
proof -
  have "levelled (\<lambda>l. l) (replicate 3 (Push LevelInfo LevelInfo))" by code_simp
  then show ?thesis
    using loss_accounting [of 2 "\<lambda>l. l" "replicate 3 (Push LevelInfo LevelInfo)" LevelInfo 0 False False] by simp
qed

text \<open>
  The high watermark is the greatest depth the queue has had, and never exceeds the capacity.
\<close>

theorem watermark_is_maximum:
  fixes fill :: 'a and cap reserved :: size_t and drop_info drop_warning :: bool
  assumes "cap \<noteq> - 1"
  defines "r \<equiv> new_ring fill cap reserved drop_info drop_warning"
  shows "unat (rb_high_watermark (fst (ring_run ops r))) = Max (set (depths ops r)) \<and>
    unat (rb_high_watermark (fst (ring_run ops r))) \<le> unat cap"
proof -
  have wf: "ring_wf r" unfolding r_def using assms(1) by (rule new_ring_wf)
  have z: "depth r = 0" "rb_high_watermark r = 0" by (simp_all add: r_def depth_def new_ring_def)
  have "0 \<in> set (depths ops r)" using z by (cases ops) simp_all
  then have "unat (rb_high_watermark (fst (ring_run ops r))) = Max (set (depths ops r))"
    using run_watermark [OF wf, of ops] by (simp add: z insert_absorb)
  moreover have "rb_high_watermark (fst (ring_run ops r)) \<le> usable_capacity (fst (ring_run ops r))"
    using ring_run_wf [OF wf] by (simp add: ring_wf_def)
  moreover have "ring_bound (fst (ring_run ops r)) = unat cap"
    using ring_run_bound [OF wf] by (simp add: r_def)
  ultimately show ?thesis by (simp add: ring_bound_def word_le_nat_alt)
qed

theorem watermark_is_maximum_witness:
  "unat (rb_high_watermark (fst (ring_run [Push LevelInfo 1, Pop] (new_ring (0 :: nat) 2 0 False False)))) = 1"
proof -
  have "Max (set (depths [Push LevelInfo 1, Pop] (new_ring (0 :: nat) 2 0 False False))) = 1" by code_simp
  then show ?thesis using watermark_is_maximum [of 2 "[Push LevelInfo 1, Pop]" "0 :: nat" 0 False False] by simp
qed

end
