(* ===== verification/Rule_Engine.thy ===== *)
theory Rule_Engine
  imports Config_Data Events
begin

text \<open>
  \<^verbatim>\<open>src/rules/rule_engine.cpp\<close> and its header: one \<open>rule_context\<close> per monitored target, the threshold
  state machine \<open>evaluate_threshold\<close>, the seven \<open>evaluate\<close> operations over it and the events they
  build. Clock readings are arguments, in the order the code takes them: an operation that reads the
  clock twice has two. The hash maps are partial functions from keys to contexts.
\<close>

section \<open>Data\<close>

datatype rule_state = StateNormal | StateWarning | StateCritical | StateRecovering | StateDisabled

datatype rule_id =
    RuleMemoryPressure | RuleSelfRssPressure | RuleQueuePressure | RuleCpuUsage | RuleSchedDelay | RuleIoDelay
  | RuleWhitelistedProcessMemory

fun rule_id_value :: "rule_id \<Rightarrow> u32" where
  "rule_id_value RuleMemoryPressure = 1001"
| "rule_id_value RuleSelfRssPressure = 2001"
| "rule_id_value RuleQueuePressure = 2002"
| "rule_id_value RuleCpuUsage = 2003"
| "rule_id_value RuleSchedDelay = 3001"
| "rule_id_value RuleIoDelay = 4001"
| "rule_id_value RuleWhitelistedProcessMemory = 5001"

datatype threshold_direction = LessOrEqual | GreaterOrEqual

record threshold_rule_definition =
  td_rule_id :: rule_id
  td_event_type :: event_type
  td_direction :: threshold_direction
  td_warning_threshold :: double
  td_critical_threshold :: double
  td_recovery_threshold :: double
  td_warning_windows :: u32
  td_critical_windows :: u32
  td_recovery_windows :: u32
  td_window_sec :: u32

record rule_context =
  rc_state :: rule_state
  rc_hit_count :: u32
  rc_critical_hit_count :: u32
  rc_recovery_count :: u32
  rc_total_hit_count :: u64
  rc_first_seen_ms :: u64
  rc_last_seen_ms :: u64
  rc_last_activation_event_ms :: u64
  rc_notification_active :: bool
  rc_max_value :: double

definition empty_context :: rule_context where
  "empty_context = \<lparr>rc_state = StateNormal, rc_hit_count = 0, rc_critical_hit_count = 0,
     rc_recovery_count = 0, rc_total_hit_count = 0, rc_first_seen_ms = 0, rc_last_seen_ms = 0,
     rc_last_activation_event_ms = 0, rc_notification_active = False, rc_max_value = Fin 0\<rparr>"

record rule_engine =
  re_memory :: rule_context
  re_self_rss :: rule_context
  re_cpu_usage :: "string \<rightharpoonup> rule_context"
  re_queue :: rule_context
  re_last_queue_drop_count :: u64
  re_last_queue_critical_drop_count :: u64
  re_last_queue_dispatcher_failure_count :: u64
  re_sched_delay :: "u64 \<rightharpoonup> rule_context"
  re_io_delay :: "string \<rightharpoonup> rule_context"
  re_process_memory :: "string \<rightharpoonup> rule_context"

section \<open>The threshold state machine\<close>

definition cooldown_active :: "monitor_config \<Rightarrow> rule_context \<Rightarrow> u64 \<Rightarrow> bool" where
  "cooldown_active cfg context now_ms \<longleftrightarrow>
     cooldown_sec cfg \<noteq> 0 \<and> rc_last_activation_event_ms context \<noteq> 0 \<and>
     now_ms - rc_last_activation_event_ms context < ucast (cooldown_sec cfg) * 1000"

definition recovered :: "threshold_rule_definition \<Rightarrow> double \<Rightarrow> bool \<Rightarrow> bool" where
  "recovered definition value extra_recovery_condition =
     (if \<not> extra_recovery_condition then False
      else if td_direction definition = GreaterOrEqual then dle value (td_recovery_threshold definition)
      else dle (td_recovery_threshold definition) value)"

text \<open>Whether a value reaches a threshold in the direction of the rule.\<close>

definition reaches :: "threshold_rule_definition \<Rightarrow> double \<Rightarrow> double \<Rightarrow> bool" where
  "reaches definition value threshold =
     (if td_direction definition = GreaterOrEqual then dle threshold value else dle value threshold)"

definition evaluate_threshold ::
  "monitor_config \<Rightarrow> u64 \<Rightarrow> threshold_rule_definition \<Rightarrow> double \<Rightarrow> bool \<Rightarrow> bool \<Rightarrow> bool \<Rightarrow>
   rule_context \<Rightarrow> rule_context \<times> event_level option" where
  "evaluate_threshold cfg now_ms definition value external_warning external_critical recovery_blocked context =
     (let context = context\<lparr>rc_last_seen_ms := now_ms, rc_max_value := dmax (rc_max_value context) value\<rparr>;
          critical_hit = (reaches definition value (td_critical_threshold definition) \<or> external_critical)
      in if critical_hit then
           let context = context\<lparr>
                 rc_hit_count := rc_hit_count context + 1,
                 rc_critical_hit_count := rc_critical_hit_count context + 1,
                 rc_total_hit_count := rc_total_hit_count context + 1,
                 rc_recovery_count := 0\<rparr>
           in if (external_critical \<or> td_critical_windows definition \<le> rc_critical_hit_count context) \<and>
                 rc_state context \<noteq> StateCritical
              then (context\<lparr>rc_state := StateCritical, rc_notification_active := True,
                      rc_last_activation_event_ms := now_ms\<rparr>, Some LevelCritical)
              else (context, None)
         else
           let warning_hit = (reaches definition value (td_warning_threshold definition) \<or> external_warning)
           in if warning_hit then
                let context = context\<lparr>
                      rc_hit_count := rc_hit_count context + 1,
                      rc_total_hit_count := rc_total_hit_count context + 1,
                      rc_critical_hit_count := 0,
                      rc_recovery_count := 0\<rparr>
                in if (external_warning \<or> td_warning_windows definition \<le> rc_hit_count context) \<and>
                      rc_state context = StateNormal
                   then
                     let context = context\<lparr>rc_state := StateWarning\<rparr>
                     in if cooldown_active cfg context now_ms then (context, None)
                        else (context\<lparr>rc_notification_active := True, rc_last_activation_event_ms := now_ms\<rparr>,
                              Some LevelWarning)
                   else (context, None)
              else if recovered definition value (\<not> recovery_blocked) \<and> rc_state context \<noteq> StateNormal then
                let context = context\<lparr>rc_recovery_count := rc_recovery_count context + 1\<rparr>
                in if td_recovery_windows definition \<le> rc_recovery_count context then
                     let context = context\<lparr>rc_state := StateNormal, rc_hit_count := 0, rc_critical_hit_count := 0\<rparr>
                     in if \<not> rc_notification_active context then (context, None)
                        else (context\<lparr>rc_notification_active := False\<rparr>, Some LevelRecovery)
                   else (context, None)
              else
                (context\<lparr>rc_hit_count := 0, rc_critical_hit_count := 0, rc_recovery_count := 0\<rparr>, None))"

section \<open>Keys, windows and expiry\<close>

text \<open>Process and thread numbers are zero-extended, the process number in the upper half.\<close>

definition sched_key :: "i32 \<Rightarrow> i32 \<Rightarrow> u64" where
  "sched_key pid tid = or (push_bit 32 (ucast pid)) (ucast tid)"

definition event_window_sec :: "event_level \<Rightarrow> u32 \<Rightarrow> u32 \<Rightarrow> u32 \<Rightarrow> u32 \<Rightarrow> u32" where
  "event_window_sec level interval_ms warning critical recovery =
     (let windows = (if level = LevelCritical then critical
                     else if level = LevelRecovery then recovery else warning)
      in ucast ((ucast interval_ms * ucast windows :: u64) div 1000))"

definition process_key :: "string \<Rightarrow> i32 \<Rightarrow> string" where
  "process_key name pid = name @ '':'' @ show_sword pid"

definition expired :: "monitor_config \<Rightarrow> u64 \<Rightarrow> rule_context \<Rightarrow> bool" where
  "expired cfg now_ms context =
     (let ttl_sec = (if state_ttl_sec cfg = 0 then 3600 else ucast (state_ttl_sec cfg) :: u64);
          ttl_ms = ttl_sec * 1000
      in rc_last_seen_ms context \<noteq> 0 \<and> ttl_ms \<le> now_ms - rc_last_seen_ms context)"

definition prune_expired_contexts :: "monitor_config \<Rightarrow> u64 \<Rightarrow> rule_engine \<Rightarrow> rule_engine" where
  "prune_expired_contexts cfg now_ms e = e\<lparr>
     re_cpu_usage := map_filter_vals (\<lambda>c. \<not> expired cfg now_ms c) (re_cpu_usage e),
     re_sched_delay := map_filter_vals (\<lambda>c. \<not> expired cfg now_ms c) (re_sched_delay e),
     re_io_delay := map_filter_vals (\<lambda>c. \<not> expired cfg now_ms c) (re_io_delay e),
     re_process_memory := map_filter_vals (\<lambda>c. \<not> expired cfg now_ms c) (re_process_memory e)\<rparr>"

text \<open>\<open>map[key]\<close> of a hash map inserts a default context for a new key.\<close>

definition touch :: "'k \<Rightarrow> u64 \<Rightarrow> ('k \<rightharpoonup> rule_context) \<Rightarrow> ('k \<rightharpoonup> rule_context)" where
  "touch key now_ms m =
     m(key \<mapsto> (case m key of None \<Rightarrow> empty_context | Some c \<Rightarrow> c)\<lparr>rc_last_seen_ms := now_ms\<rparr>)"

definition status_of :: "event_level \<Rightarrow> event_status" where
  "status_of level = (if level = LevelRecovery then StatusResolved else StatusActive)"

section \<open>Construction\<close>

definition new_rule_engine :: "monitor_config \<Rightarrow> rule_engine" where
  "new_rule_engine cfg = \<lparr>
     re_memory = (if \<not> memory_rule_enable cfg then empty_context\<lparr>rc_state := StateDisabled\<rparr> else empty_context),
     re_self_rss = (if \<not> self_protection_enable cfg then empty_context\<lparr>rc_state := StateDisabled\<rparr> else empty_context),
     re_cpu_usage = (if \<not> cpu_usage_enable cfg then [''total'' \<mapsto> empty_context\<lparr>rc_state := StateDisabled\<rparr>] else Map.empty),
     re_queue = (if \<not> self_protection_enable cfg then empty_context\<lparr>rc_state := StateDisabled\<rparr> else empty_context),
     re_last_queue_drop_count = 0, re_last_queue_critical_drop_count = 0,
     re_last_queue_dispatcher_failure_count = 0,
     re_sched_delay = Map.empty, re_io_delay = Map.empty, re_process_memory = Map.empty\<rparr>"

section \<open>Memory\<close>

definition memory_rule :: "monitor_config \<Rightarrow> threshold_rule_definition" where
  "memory_rule cfg = \<lparr>
     td_rule_id = RuleMemoryPressure, td_event_type = MemoryPressure, td_direction = LessOrEqual,
     td_warning_threshold = double_of_u64 (mem_available_warning_mb cfg),
     td_critical_threshold = double_of_u64 (mem_available_critical_mb cfg),
     td_recovery_threshold = double_of_u64 (mem_available_recovery_mb cfg),
     td_warning_windows = continuous_warning_windows cfg,
     td_critical_windows = continuous_critical_windows cfg,
     td_recovery_windows = recovery_windows cfg, td_window_sec = 0\<rparr>"

definition make_memory_event ::
  "monitor_config \<Rightarrow> rule_context \<Rightarrow> event_level \<Rightarrow> event_status \<Rightarrow> double \<Rightarrow> internal_event" where
  "make_memory_event cfg memory level status value_mb =
     set_evidence
       [evidence ''recovery_threshold_mb'' (double_of_u64 (mem_available_recovery_mb cfg)),
        evidence ''max_observed_available_mb'' (rc_max_value memory)]
       (default_event\<lparr>
          ev_rule_id := rule_id_value RuleMemoryPressure, ev_event_type := MemoryPressure,
          ev_level := level, ev_status := status, ev_value := value_mb,
          ev_warning_threshold := double_of_u64 (mem_available_warning_mb cfg),
          ev_critical_threshold := double_of_u64 (mem_available_critical_mb cfg),
          ev_window_sec := event_window_sec level (fast_collect_interval_ms cfg) (continuous_warning_windows cfg)
            (continuous_critical_windows cfg) (recovery_windows cfg),
          ev_continuous_hit_count := rc_hit_count memory,
          ev_hit_count := rc_total_hit_count memory\<rparr>)"

definition evaluate_memory ::
  "monitor_config \<Rightarrow> u64 \<Rightarrow> meminfo_sample \<Rightarrow> rule_engine \<Rightarrow> rule_engine \<times> internal_event option" where
  "evaluate_memory cfg now_ms sample e =
     (if rc_state (re_memory e) = StateDisabled \<or> \<not> mem_valid sample then (e, None)
      else
        let available_mb = ddiv (double_of_u64 (mem_available_kb sample)) (Fin 1024);
            (context, level) = evaluate_threshold cfg now_ms (memory_rule cfg) available_mb False False False (re_memory e)
        in (e\<lparr>re_memory := context\<rparr>,
            map_option (\<lambda>l. make_memory_event cfg context l (status_of l) available_mb) level))"

section \<open>Own memory\<close>

definition self_rss_rule :: "monitor_config \<Rightarrow> threshold_rule_definition" where
  "self_rss_rule cfg = \<lparr>
     td_rule_id = RuleSelfRssPressure, td_event_type = MonitorMemoryPressure, td_direction = GreaterOrEqual,
     td_warning_threshold = double_of_u64 (self_rss_soft_limit_mb cfg),
     td_critical_threshold = double_of_u64 (self_rss_hard_limit_mb cfg),
     td_recovery_threshold = double_of_u64 (self_rss_recovery_mb cfg),
     td_warning_windows = continuous_warning_windows cfg,
     td_critical_windows = continuous_critical_windows cfg,
     td_recovery_windows = self_recovery_windows cfg, td_window_sec = 0\<rparr>"

definition make_self_rss_event ::
  "monitor_config \<Rightarrow> rule_context \<Rightarrow> event_level \<Rightarrow> event_status \<Rightarrow> double \<Rightarrow> internal_event" where
  "make_self_rss_event cfg self_rss level status rss_mb =
     set_evidence
       [evidence ''recovery_threshold_mb'' (double_of_u64 (self_rss_recovery_mb cfg)),
        evidence ''max_observed_rss_mb'' (rc_max_value self_rss)]
       (default_event\<lparr>
          ev_rule_id := rule_id_value RuleSelfRssPressure, ev_event_type := MonitorMemoryPressure,
          ev_level := level, ev_status := status, ev_value := rss_mb,
          ev_warning_threshold := double_of_u64 (self_rss_soft_limit_mb cfg),
          ev_critical_threshold := double_of_u64 (self_rss_hard_limit_mb cfg),
          ev_window_sec := event_window_sec level (fast_collect_interval_ms cfg) (continuous_warning_windows cfg)
            (continuous_critical_windows cfg) (self_recovery_windows cfg),
          ev_continuous_hit_count := rc_hit_count self_rss,
          ev_hit_count := rc_total_hit_count self_rss\<rparr>)"

definition evaluate_self_rss ::
  "monitor_config \<Rightarrow> u64 \<Rightarrow> u64 \<Rightarrow> rule_engine \<Rightarrow> rule_engine \<times> internal_event option" where
  "evaluate_self_rss cfg now_ms rss_kb e =
     (if rc_state (re_self_rss e) = StateDisabled \<or> rss_kb = 0 then (e, None)
      else
        let rss_mb = ddiv (double_of_u64 rss_kb) (Fin 1024);
            (context, level) = evaluate_threshold cfg now_ms (self_rss_rule cfg) rss_mb False False False (re_self_rss e)
        in (e\<lparr>re_self_rss := context\<rparr>,
            map_option (\<lambda>l. make_self_rss_event cfg context l (status_of l) rss_mb) level))"

section \<open>CPU usage\<close>

definition cpu_usage_rule :: "monitor_config \<Rightarrow> threshold_rule_definition" where
  "cpu_usage_rule cfg = \<lparr>
     td_rule_id = RuleCpuUsage, td_event_type = CpuUsageRisk, td_direction = GreaterOrEqual,
     td_warning_threshold = cpu_usage_warning_percent cfg,
     td_critical_threshold = cpu_usage_critical_percent cfg,
     td_recovery_threshold = cpu_usage_recovery_percent cfg,
     td_warning_windows = cpu_usage_continuous_warning_windows cfg,
     td_critical_windows = cpu_usage_continuous_critical_windows cfg,
     td_recovery_windows = cpu_usage_recovery_windows cfg,
     td_window_sec = fast_collect_interval_ms cfg * cpu_usage_continuous_warning_windows cfg div 1000\<rparr>"

definition make_cpu_usage_event ::
  "monitor_config \<Rightarrow> event_level \<Rightarrow> event_status \<Rightarrow> cpu_usage_sample \<Rightarrow> rule_context \<Rightarrow> internal_event" where
  "make_cpu_usage_event cfg level status sample context =
     set_evidence
       [evidence ''recovery_percent'' (cpu_usage_recovery_percent cfg),
        evidence ''max_observed_percent'' (rc_max_value context),
        evidence ''delta_total_jiffies'' (double_of_u64 (delta_total_jiffies sample)),
        evidence ''delta_idle_jiffies'' (double_of_u64 (delta_idle_jiffies sample))]
       (set_event_target (cpu_name sample) (default_event\<lparr>
          ev_rule_id := rule_id_value RuleCpuUsage, ev_event_type := CpuUsageRisk,
          ev_level := level, ev_status := status, ev_value := cpu_usage_percent sample,
          ev_warning_threshold := cpu_usage_warning_percent cfg,
          ev_critical_threshold := cpu_usage_critical_percent cfg,
          ev_window_sec := event_window_sec level (fast_collect_interval_ms cfg)
            (cpu_usage_continuous_warning_windows cfg) (cpu_usage_continuous_critical_windows cfg)
            (cpu_usage_recovery_windows cfg),
          ev_continuous_hit_count := rc_hit_count context,
          ev_hit_count := rc_total_hit_count context\<rparr>))"

text \<open>
  The code keeps a reference to the map entry across the pruning. An entry that the pruning erased
  would leave it dangling: the branch \<open>None\<close> below, which \<open>touch_survives_prune\<close> shows unreachable.
\<close>

definition evaluate_cpu_usage ::
  "monitor_config \<Rightarrow> u64 \<Rightarrow> u64 \<Rightarrow> cpu_usage_sample \<Rightarrow> rule_engine \<Rightarrow> rule_engine \<times> internal_event option" where
  "evaluate_cpu_usage cfg now_ms now2_ms sample e =
     (if \<not> cpu_usage_enable cfg \<or> \<not> cpu_valid sample \<or> cpu_name sample = [] then (e, None)
      else
        let e = prune_expired_contexts cfg now_ms
                  (e\<lparr>re_cpu_usage := touch (cpu_name sample) now_ms (re_cpu_usage e)\<rparr>)
        in case re_cpu_usage e (cpu_name sample) of
             None \<Rightarrow> (e, None)
           | Some context \<Rightarrow>
               let (context, level) = evaluate_threshold cfg now2_ms (cpu_usage_rule cfg)
                     (cpu_usage_percent sample) False False False context
               in (e\<lparr>re_cpu_usage := (re_cpu_usage e)(cpu_name sample \<mapsto> context)\<rparr>,
                   map_option (\<lambda>l. make_cpu_usage_event cfg l (status_of l) sample context) level))"

section \<open>Memory growth of a process\<close>

definition process_memory_rule :: "monitor_config \<Rightarrow> threshold_rule_definition" where
  "process_memory_rule cfg = \<lparr>
     td_rule_id = RuleWhitelistedProcessMemory, td_event_type = WhitelistedProcessMemoryRisk,
     td_direction = GreaterOrEqual,
     td_warning_threshold = double_of_u64 (process_memory_growth_warning_mb cfg),
     td_critical_threshold = double_of_u64 (process_memory_growth_critical_mb cfg),
     td_recovery_threshold = double_of_u64 (process_memory_growth_recovery_mb cfg),
     td_warning_windows = 1, td_critical_windows = 1, td_recovery_windows = 1,
     td_window_sec = process_memory_growth_window_sec cfg\<rparr>"

definition make_process_memory_event ::
  "monitor_config \<Rightarrow> string \<Rightarrow> i32 \<Rightarrow> event_level \<Rightarrow> event_status \<Rightarrow> double \<Rightarrow> rule_context \<Rightarrow> internal_event" where
  "make_process_memory_event cfg name pid level status growth_mb context =
     set_evidence
       [evidence ''recovery_growth_mb'' (double_of_u64 (process_memory_growth_recovery_mb cfg)),
        evidence ''max_growth_mb'' (rc_max_value context)]
       (set_event_target name (default_event\<lparr>
          ev_rule_id := rule_id_value RuleWhitelistedProcessMemory,
          ev_event_type := WhitelistedProcessMemoryRisk,
          ev_level := level, ev_status := status, ev_pid := pid, ev_value := growth_mb,
          ev_warning_threshold := double_of_u64 (process_memory_growth_warning_mb cfg),
          ev_critical_threshold := double_of_u64 (process_memory_growth_critical_mb cfg),
          ev_window_sec := process_memory_growth_window_sec cfg,
          ev_continuous_hit_count := rc_hit_count context,
          ev_hit_count := rc_total_hit_count context\<rparr>))"

definition evaluate_process_memory_growth ::
  "monitor_config \<Rightarrow> u64 \<Rightarrow> u64 \<Rightarrow> string \<Rightarrow> i32 \<Rightarrow> double \<Rightarrow> rule_engine \<Rightarrow> rule_engine \<times> internal_event option" where
  "evaluate_process_memory_growth cfg now_ms now2_ms name pid growth_mb e =
     (if \<not> process_memory_enable cfg \<or> name = [] \<or> sint pid \<le> 0 then (e, None)
      else
        let key = process_key name pid;
            e = prune_expired_contexts cfg now_ms (e\<lparr>re_process_memory := touch key now_ms (re_process_memory e)\<rparr>)
        in case re_process_memory e key of
             None \<Rightarrow> (e, None)
           | Some context \<Rightarrow>
               let (context, level) = evaluate_threshold cfg now2_ms (process_memory_rule cfg) growth_mb
                     False False False context
               in (e\<lparr>re_process_memory := (re_process_memory e)(key \<mapsto> context)\<rparr>,
                   map_option (\<lambda>l. make_process_memory_event cfg name pid l (status_of l) growth_mb context) level))"

definition forget_process_memory :: "string \<Rightarrow> i32 \<Rightarrow> rule_engine \<Rightarrow> rule_engine" where
  "forget_process_memory name pid e = e\<lparr>re_process_memory := (re_process_memory e)(process_key name pid := None)\<rparr>"

section \<open>Event queues\<close>

definition fill_percent :: "size_t \<Rightarrow> size_t \<Rightarrow> double" where
  "fill_percent depth capacity =
     (if capacity = 0 then Fin 0 else ddiv (dmul (double_of_u64 depth) (Fin 100)) (double_of_u64 capacity))"

definition queue_rule :: "monitor_config \<Rightarrow> threshold_rule_definition" where
  "queue_rule cfg = \<lparr>
     td_rule_id = RuleQueuePressure, td_event_type = QueuePressure, td_direction = GreaterOrEqual,
     td_warning_threshold = double_of_u32 (queue_warning_percent cfg),
     td_critical_threshold = double_of_u32 (queue_critical_percent cfg),
     td_recovery_threshold = double_of_u32 (queue_recovery_percent cfg),
     td_warning_windows = continuous_warning_windows cfg,
     td_critical_windows = continuous_critical_windows cfg,
     td_recovery_windows = self_recovery_windows cfg,
     td_window_sec = fast_collect_interval_ms cfg * continuous_warning_windows cfg div 1000\<rparr>"

definition make_queue_event ::
  "monitor_config \<Rightarrow> rule_context \<Rightarrow> event_level \<Rightarrow> event_status \<Rightarrow> double \<Rightarrow> queue_snapshot \<Rightarrow> internal_event" where
  "make_queue_event cfg queue level status queue_percent snapshot =
     set_evidence
       [evidence ''source_queue_percent'' (fill_percent (qs_depth snapshot) (qs_capacity snapshot)),
        evidence ''sink_queue_percent'' (fill_percent (qs_sink_depth snapshot) (qs_sink_capacity snapshot)),
        evidence ''total_dropped_count'' (double_of_u64 (qs_dropped_count snapshot + qs_sink_dropped_count snapshot)),
        evidence ''dispatcher_failures'' (double_of_u64 (qs_dispatcher_sink_push_failures snapshot)),
        evidence ''critical_dropped_count''
          (double_of_u64 (qs_dropped_critical_count snapshot + qs_sink_dropped_critical_count snapshot)),
        evidence ''high_watermark_percent''
          (dmax (fill_percent (qs_high_watermark snapshot) (qs_capacity snapshot))
                (fill_percent (qs_sink_high_watermark snapshot) (qs_sink_capacity snapshot)))]
       (default_event\<lparr>
          ev_rule_id := rule_id_value RuleQueuePressure, ev_event_type := QueuePressure,
          ev_level := level, ev_status := status, ev_value := queue_percent,
          ev_warning_threshold := double_of_u32 (queue_warning_percent cfg),
          ev_critical_threshold := double_of_u32 (queue_critical_percent cfg),
          ev_window_sec := event_window_sec level (fast_collect_interval_ms cfg) (continuous_warning_windows cfg)
            (continuous_critical_windows cfg) (self_recovery_windows cfg),
          ev_continuous_hit_count := rc_hit_count queue,
          ev_hit_count := rc_total_hit_count queue\<rparr>)"

definition evaluate_queue ::
  "monitor_config \<Rightarrow> u64 \<Rightarrow> queue_snapshot \<Rightarrow> rule_engine \<Rightarrow> rule_engine \<times> internal_event option" where
  "evaluate_queue cfg now_ms snapshot e =
     (if rc_state (re_queue e) = StateDisabled \<or> (qs_capacity snapshot = 0 \<and> qs_sink_capacity snapshot = 0)
      then (e, None)
      else
        let source_percent = fill_percent (qs_depth snapshot) (qs_capacity snapshot);
            sink_percent = fill_percent (qs_sink_depth snapshot) (qs_sink_capacity snapshot);
            queue_percent = dmax source_percent sink_percent;
            total_drop_count = qs_dropped_count snapshot + qs_sink_dropped_count snapshot +
              qs_dispatcher_sink_push_failures snapshot;
            total_critical_drop_count = qs_dropped_critical_count snapshot + qs_sink_dropped_critical_count snapshot;
            new_drop = re_last_queue_drop_count e < total_drop_count;
            new_critical_drop = re_last_queue_critical_drop_count e < total_critical_drop_count;
            new_dispatcher_failure =
              re_last_queue_dispatcher_failure_count e < qs_dispatcher_sink_push_failures snapshot;
            e = e\<lparr>re_last_queue_drop_count := total_drop_count,
                  re_last_queue_critical_drop_count := total_critical_drop_count,
                  re_last_queue_dispatcher_failure_count := qs_dispatcher_sink_push_failures snapshot\<rparr>;
            (context, level) = evaluate_threshold cfg now_ms (queue_rule cfg) queue_percent
              (new_drop \<or> new_dispatcher_failure) new_critical_drop (new_drop \<or> new_dispatcher_failure) (re_queue e)
        in (e\<lparr>re_queue := context\<rparr>,
            map_option (\<lambda>l. make_queue_event cfg context l (status_of l) queue_percent snapshot) level))"

section \<open>Scheduling delay\<close>

definition sched_delay_rule :: "monitor_config \<Rightarrow> threshold_rule_definition" where
  "sched_delay_rule cfg = \<lparr>
     td_rule_id = RuleSchedDelay, td_event_type = SchedDelayRisk, td_direction = GreaterOrEqual,
     td_warning_threshold = double_of_u64 (sched_wait_sum_warning_us cfg),
     td_critical_threshold = double_of_u64 (sched_wait_sum_critical_us cfg),
     td_recovery_threshold = double_of_u64 (sched_wait_sum_recovery_us cfg),
     td_warning_windows = sched_continuous_warning_windows cfg,
     td_critical_windows = sched_continuous_critical_windows cfg,
     td_recovery_windows = sched_recovery_windows cfg, td_window_sec = 0\<rparr>"

definition make_sched_delay_event ::
  "monitor_config \<Rightarrow> sched_delay_sample \<Rightarrow> event_level \<Rightarrow> event_status \<Rightarrow> double \<Rightarrow> rule_context \<Rightarrow> internal_event" where
  "make_sched_delay_event cfg sample level status wait_sum_us context =
     set_evidence
       [evidence ''delta_involuntary_switches'' (double_of_u64 (sd_delta_involuntary_switches sample)),
        evidence ''recovery_wait_sum_us'' (double_of_u64 (sched_wait_sum_recovery_us cfg)),
        evidence ''max_observed_wait_sum_us'' (rc_max_value context),
        evidence ''max_wait_us'' (double_of_u64 (sd_max_wait_us sample)),
        evidence ''avg_wait_us'' (double_of_u64 (sd_avg_wait_us sample)),
        evidence ''aggregate_count'' (double_of_u64 (sd_aggregate_count sample))]
       (default_event\<lparr>
          ev_rule_id := rule_id_value RuleSchedDelay, ev_event_type := SchedDelayRisk,
          ev_level := level, ev_status := status, ev_pid := sd_pid sample, ev_tid := sd_tid sample,
          ev_value := wait_sum_us,
          ev_warning_threshold := double_of_u64 (sched_wait_sum_warning_us cfg),
          ev_critical_threshold := double_of_u64 (sched_wait_sum_critical_us cfg),
          ev_window_sec := event_window_sec level (low_freq_collect_interval_ms cfg)
            (sched_continuous_warning_windows cfg) (sched_continuous_critical_windows cfg)
            (sched_recovery_windows cfg),
          ev_continuous_hit_count := rc_hit_count context,
          ev_hit_count := rc_total_hit_count context\<rparr>)"

definition evaluate_sched_delay ::
  "monitor_config \<Rightarrow> u64 \<Rightarrow> u64 \<Rightarrow> sched_delay_sample \<Rightarrow> rule_engine \<Rightarrow> rule_engine \<times> internal_event option" where
  "evaluate_sched_delay cfg now_ms now2_ms sample e =
     (if \<not> sched_delay_enable cfg \<or> \<not> sd_valid sample then (e, None)
      else
        let key = sched_key (sd_pid sample) (sd_tid sample);
            e = prune_expired_contexts cfg now_ms (e\<lparr>re_sched_delay := touch key now_ms (re_sched_delay e)\<rparr>);
            wait_us = double_of_u64 (sd_delta_wait_sum_us sample);
            switch_hit = sched_involuntary_switch_warning cfg \<le> sd_delta_involuntary_switches sample
        in case re_sched_delay e key of
             None \<Rightarrow> (e, None)
           | Some context \<Rightarrow>
               let (context, level) = evaluate_threshold cfg now2_ms (sched_delay_rule cfg)
                     (if switch_hit then wait_us else Fin 0) False False False context
               in (e\<lparr>re_sched_delay := (re_sched_delay e)(key \<mapsto> context)\<rparr>,
                   map_option (\<lambda>l. make_sched_delay_event cfg sample l (status_of l) wait_us context) level))"

section \<open>I/O delay\<close>

definition io_delay_rule :: "monitor_config \<Rightarrow> threshold_rule_definition" where
  "io_delay_rule cfg = \<lparr>
     td_rule_id = RuleIoDelay, td_event_type = IoDelayRisk, td_direction = GreaterOrEqual,
     td_warning_threshold = io_await_warning_ms cfg,
     td_critical_threshold = io_await_critical_ms cfg,
     td_recovery_threshold = io_await_recovery_ms cfg,
     td_warning_windows = io_continuous_warning_windows cfg,
     td_critical_windows = io_continuous_critical_windows cfg,
     td_recovery_windows = Config_Data.io_recovery_windows cfg,
     td_window_sec = fast_collect_interval_ms cfg * io_continuous_warning_windows cfg div 1000\<rparr>"

definition make_io_delay_event ::
  "monitor_config \<Rightarrow> io_delay_sample \<Rightarrow> event_level \<Rightarrow> event_status \<Rightarrow> double \<Rightarrow> rule_context \<Rightarrow> internal_event" where
  "make_io_delay_event cfg sample level status await_ms context =
     set_evidence
       [evidence ''delta_io_count'' (double_of_u64 (io_delta_io_count sample)),
        evidence ''util_percent'' (io_util_percent sample),
        evidence ''in_flight'' (double_of_u64 (io_in_flight sample)),
        evidence ''recovery_await_ms'' (io_await_recovery_ms cfg),
        evidence ''max_observed_await_ms'' (rc_max_value context)]
       (set_event_target (io_device sample) (default_event\<lparr>
          ev_rule_id := rule_id_value RuleIoDelay, ev_event_type := IoDelayRisk,
          ev_level := level, ev_status := status, ev_value := await_ms,
          ev_warning_threshold := io_await_warning_ms cfg,
          ev_critical_threshold := io_await_critical_ms cfg,
          ev_window_sec := event_window_sec level (low_freq_collect_interval_ms cfg)
            (io_continuous_warning_windows cfg) (io_continuous_critical_windows cfg)
            (Config_Data.io_recovery_windows cfg),
          ev_continuous_hit_count := rc_hit_count context,
          ev_hit_count := rc_total_hit_count context\<rparr>))"

definition evaluate_io_delay ::
  "monitor_config \<Rightarrow> u64 \<Rightarrow> u64 \<Rightarrow> io_delay_sample \<Rightarrow> rule_engine \<Rightarrow> rule_engine \<times> internal_event option" where
  "evaluate_io_delay cfg now_ms now2_ms sample e =
     (if \<not> io_delay_enable cfg \<or> \<not> io_valid sample \<or> io_device sample = [] then (e, None)
      else
        let key = io_device sample;
            e = prune_expired_contexts cfg now_ms (e\<lparr>re_io_delay := touch key now_ms (re_io_delay e)\<rparr>);
            await_ms = io_avg_await_ms sample;
            critical_util_hit = (dle (io_util_critical_percent cfg) (io_util_percent sample) \<and> 0 < io_in_flight sample);
            warning_util_hit = (dle (io_util_warning_percent cfg) (io_util_percent sample) \<and> 0 < io_in_flight sample);
            recovery_blocked = dlt (io_util_recovery_percent cfg) (io_util_percent sample)
        in case re_io_delay e key of
             None \<Rightarrow> (e, None)
           | Some context \<Rightarrow>
               let (context, level) = evaluate_threshold cfg now2_ms (io_delay_rule cfg) await_ms
                     warning_util_hit critical_util_hit recovery_blocked context
               in (e\<lparr>re_io_delay := (re_io_delay e)(key \<mapsto> context)\<rparr>,
                   map_option (\<lambda>l. make_io_delay_event cfg sample l (status_of l) await_ms context) level))"

section \<open>Runs of the state machine\<close>

text \<open>One evaluation: the clock reading, the value and the three external conditions.\<close>

record threshold_input =
  ti_now_ms :: u64
  ti_value :: double
  ti_external_warning :: bool
  ti_external_critical :: bool
  ti_recovery_blocked :: bool

definition threshold_step ::
  "monitor_config \<Rightarrow> threshold_rule_definition \<Rightarrow> threshold_input \<Rightarrow> rule_context \<Rightarrow> rule_context \<times> event_level option" where
  "threshold_step cfg d i c = evaluate_threshold cfg (ti_now_ms i) d (ti_value i) (ti_external_warning i)
     (ti_external_critical i) (ti_recovery_blocked i) c"

fun threshold_run ::
  "monitor_config \<Rightarrow> threshold_rule_definition \<Rightarrow> threshold_input list \<Rightarrow> rule_context \<Rightarrow> rule_context \<times> event_level option list" where
  "threshold_run cfg d [] c = (c, [])"
| "threshold_run cfg d (i # is) c =
     (let (c', out) = threshold_step cfg d i c; (c'', outs) = threshold_run cfg d is c' in (c'', out # outs))"

lemma threshold_run_Cons:
  "threshold_run cfg d (i # is) c =
     (fst (threshold_run cfg d is (fst (threshold_step cfg d i c))),
      snd (threshold_step cfg d i c) # snd (threshold_run cfg d is (fst (threshold_step cfg d i c))))"
  by (simp add: case_prod_beta Let_def)

lemma threshold_run_append:
  "threshold_run cfg d (is @ js) c =
     (fst (threshold_run cfg d js (fst (threshold_run cfg d is c))),
      snd (threshold_run cfg d is c) @ snd (threshold_run cfg d js (fst (threshold_run cfg d is c))))"
  by (induction "is" arbitrary: c) (simp_all add: threshold_run_Cons del: threshold_run.simps(2))

declare threshold_run.simps(2) [simp del]

text \<open>What a sample is for the state machine.\<close>

definition critical_sample :: "threshold_rule_definition \<Rightarrow> threshold_input \<Rightarrow> bool" where
  "critical_sample d i \<longleftrightarrow> reaches d (ti_value i) (td_critical_threshold d) \<or> ti_external_critical i"

definition warning_sample :: "threshold_rule_definition \<Rightarrow> threshold_input \<Rightarrow> bool" where
  "warning_sample d i \<longleftrightarrow>
     \<not> critical_sample d i \<and> (reaches d (ti_value i) (td_warning_threshold d) \<or> ti_external_warning i)"

definition hit_sample :: "threshold_rule_definition \<Rightarrow> threshold_input \<Rightarrow> bool" where
  "hit_sample d i \<longleftrightarrow> critical_sample d i \<or> warning_sample d i"

definition recovery_sample :: "threshold_rule_definition \<Rightarrow> threshold_input \<Rightarrow> bool" where
  "recovery_sample d i \<longleftrightarrow> \<not> hit_sample d i \<and> recovered d (ti_value i) (\<not> ti_recovery_blocked i)"

lemma sample_exclusive:
  "warning_sample d i \<Longrightarrow> \<not> critical_sample d i"
  "recovery_sample d i \<Longrightarrow> \<not> critical_sample d i \<and> \<not> warning_sample d i"
  by (auto simp: warning_sample_def recovery_sample_def hit_sample_def)

text \<open>One step, seen from the state it leaves.\<close>

lemmas threshold_step_unfold =
  threshold_step_def evaluate_threshold_def critical_sample_def [symmetric] Let_def

lemma step_critical [engine_simps]:
  assumes "critical_sample d i"
  shows "rc_hit_count (fst (threshold_step cfg d i c)) = rc_hit_count c + 1"
    "rc_critical_hit_count (fst (threshold_step cfg d i c)) = rc_critical_hit_count c + 1"
    "rc_recovery_count (fst (threshold_step cfg d i c)) = 0"
    "rc_state (fst (threshold_step cfg d i c)) =
      (if ti_external_critical i \<or> td_critical_windows d \<le> rc_critical_hit_count c + 1 then StateCritical else rc_state c)"
    "rc_notification_active (fst (threshold_step cfg d i c)) =
      ((ti_external_critical i \<or> td_critical_windows d \<le> rc_critical_hit_count c + 1) \<and> rc_state c \<noteq> StateCritical
       \<or> rc_notification_active c)"
    "rc_last_activation_event_ms (fst (threshold_step cfg d i c)) =
      (if (ti_external_critical i \<or> td_critical_windows d \<le> rc_critical_hit_count c + 1) \<and> rc_state c \<noteq> StateCritical
       then ti_now_ms i else rc_last_activation_event_ms c)"
    "snd (threshold_step cfg d i c) =
      (if (ti_external_critical i \<or> td_critical_windows d \<le> rc_critical_hit_count c + 1) \<and> rc_state c \<noteq> StateCritical
       then Some LevelCritical else None)"
  using assms by (auto simp: threshold_step_unfold)

lemma step_warning [engine_simps]:
  assumes "warning_sample d i"
  shows "rc_hit_count (fst (threshold_step cfg d i c)) = rc_hit_count c + 1"
    "rc_critical_hit_count (fst (threshold_step cfg d i c)) = 0"
    "rc_recovery_count (fst (threshold_step cfg d i c)) = 0"
    "rc_state (fst (threshold_step cfg d i c)) =
      (if (ti_external_warning i \<or> td_warning_windows d \<le> rc_hit_count c + 1) \<and> rc_state c = StateNormal
       then StateWarning else rc_state c)"
    "rc_notification_active (fst (threshold_step cfg d i c)) =
      ((ti_external_warning i \<or> td_warning_windows d \<le> rc_hit_count c + 1) \<and> rc_state c = StateNormal \<and>
       \<not> cooldown_active cfg c (ti_now_ms i) \<or> rc_notification_active c)"
    "rc_last_activation_event_ms (fst (threshold_step cfg d i c)) =
      (if (ti_external_warning i \<or> td_warning_windows d \<le> rc_hit_count c + 1) \<and> rc_state c = StateNormal \<and>
          \<not> cooldown_active cfg c (ti_now_ms i)
       then ti_now_ms i else rc_last_activation_event_ms c)"
    "snd (threshold_step cfg d i c) =
      (if (ti_external_warning i \<or> td_warning_windows d \<le> rc_hit_count c + 1) \<and> rc_state c = StateNormal \<and>
          \<not> cooldown_active cfg c (ti_now_ms i)
       then Some LevelWarning else None)"
  using assms by (auto simp: threshold_step_unfold warning_sample_def cooldown_active_def)

lemma step_recovery [engine_simps]:
  assumes "recovery_sample d i" and "rc_state c \<noteq> StateNormal"
  shows "rc_hit_count (fst (threshold_step cfg d i c)) =
      (if td_recovery_windows d \<le> rc_recovery_count c + 1 then 0 else rc_hit_count c)"
    "rc_critical_hit_count (fst (threshold_step cfg d i c)) =
      (if td_recovery_windows d \<le> rc_recovery_count c + 1 then 0 else rc_critical_hit_count c)"
    "rc_recovery_count (fst (threshold_step cfg d i c)) = rc_recovery_count c + 1"
    "rc_state (fst (threshold_step cfg d i c)) =
      (if td_recovery_windows d \<le> rc_recovery_count c + 1 then StateNormal else rc_state c)"
    "rc_notification_active (fst (threshold_step cfg d i c)) =
      (\<not> td_recovery_windows d \<le> rc_recovery_count c + 1 \<and> rc_notification_active c)"
    "rc_last_activation_event_ms (fst (threshold_step cfg d i c)) = rc_last_activation_event_ms c"
    "snd (threshold_step cfg d i c) =
      (if td_recovery_windows d \<le> rc_recovery_count c + 1 \<and> rc_notification_active c then Some LevelRecovery else None)"
  using assms by (auto simp: threshold_step_unfold recovery_sample_def warning_sample_def hit_sample_def)

lemma step_idle [engine_simps]:
  assumes "\<not> hit_sample d i" and "\<not> recovery_sample d i \<or> rc_state c = StateNormal"
  shows "rc_hit_count (fst (threshold_step cfg d i c)) = 0"
    "rc_critical_hit_count (fst (threshold_step cfg d i c)) = 0"
    "rc_recovery_count (fst (threshold_step cfg d i c)) = 0"
    "rc_state (fst (threshold_step cfg d i c)) = rc_state c"
    "rc_notification_active (fst (threshold_step cfg d i c)) = rc_notification_active c"
    "rc_last_activation_event_ms (fst (threshold_step cfg d i c)) = rc_last_activation_event_ms c"
    "snd (threshold_step cfg d i c) = None"
  using assms by (auto simp: threshold_step_unfold recovery_sample_def warning_sample_def hit_sample_def)

text \<open>Every step is one of the four.\<close>

lemma step_cases [case_names critical warning recovery idle]:
  assumes "critical_sample d i \<Longrightarrow> P" and "warning_sample d i \<Longrightarrow> P"
    and "recovery_sample d i \<Longrightarrow> rc_state c \<noteq> StateNormal \<Longrightarrow> P"
    and "\<not> hit_sample d i \<Longrightarrow> \<not> recovery_sample d i \<or> rc_state c = StateNormal \<Longrightarrow> P"
  shows P
  using assms by (auto simp: hit_sample_def)

section \<open>Episodes\<close>

text \<open>
  What the observer of one target can see: an episode is opened by a warning or a critical event, may
  be escalated once from warning to critical, and is closed by one recovery event.
\<close>

datatype phase = Quiet | Warned | Alarmed

fun observe :: "event_level \<Rightarrow> phase \<Rightarrow> phase option" where
  "observe LevelWarning Quiet = Some Warned"
| "observe LevelCritical Quiet = Some Alarmed"
| "observe LevelCritical Warned = Some Alarmed"
| "observe LevelRecovery Warned = Some Quiet"
| "observe LevelRecovery Alarmed = Some Quiet"
| "observe _ _ = None"

fun episodes :: "phase \<Rightarrow> event_level option list \<Rightarrow> phase option" where
  "episodes p [] = Some p"
| "episodes p (None # outs) = episodes p outs"
| "episodes p (Some l # outs) = (case observe l p of None \<Rightarrow> None | Some p' \<Rightarrow> episodes p' outs)"

text \<open>The invariant of a context and the phase it stands for.\<close>

definition context_ok :: "rule_context \<Rightarrow> bool" where
  "context_ok c \<longleftrightarrow>
     rc_state c \<noteq> StateRecovering \<and>
     (rc_notification_active c \<longrightarrow> rc_state c \<in> {StateWarning, StateCritical}) \<and>
     (rc_state c = StateCritical \<longrightarrow> rc_notification_active c)"

definition phase_of :: "rule_context \<Rightarrow> phase" where
  "phase_of c = (if \<not> rc_notification_active c then Quiet else if rc_state c = StateCritical then Alarmed else Warned)"

lemma empty_context_ok [simp]: "context_ok empty_context" "phase_of empty_context = Quiet"
  "context_ok (empty_context\<lparr>rc_state := StateDisabled\<rparr>)"
  by (simp_all add: context_ok_def phase_of_def empty_context_def)

lemma step_ok [wf_intros]: "context_ok c \<Longrightarrow> context_ok (fst (threshold_step cfg d i c))"
  by (rule step_cases [where d = d and i = i and c = c]) (auto simp: context_ok_def engine_simps)

lemma step_phase:
  assumes "context_ok c"
  shows "case snd (threshold_step cfg d i c) of
      None \<Rightarrow> phase_of (fst (threshold_step cfg d i c)) = phase_of c
    | Some l \<Rightarrow> observe l (phase_of c) = Some (phase_of (fst (threshold_step cfg d i c)))"
  using assms
  by (rule_tac step_cases [where d = d and i = i and c = c]) (auto simp: context_ok_def phase_of_def engine_simps)

lemma run_ok: "context_ok c \<Longrightarrow> context_ok (fst (threshold_run cfg d is c))"
  by (induction "is" arbitrary: c) (simp_all add: threshold_run_Cons step_ok)

lemma run_episodes:
  "context_ok c \<Longrightarrow> episodes (phase_of c) (snd (threshold_run cfg d is c)) = Some (phase_of (fst (threshold_run cfg d is c)))"
proof (induction "is" arbitrary: c)
  case (Cons i "is")
  then show ?case
    using step_phase [OF Cons.prems, of cfg d i] Cons.IH [OF step_ok [OF Cons.prems, of cfg d i]]
    by (cases "snd (threshold_step cfg d i c)") (simp_all add: threshold_run_Cons)
qed simp

section \<open>Consecutive windows\<close>

text \<open>
  In the normal state the hit counter is at most the number of consecutive hits just seen, and the
  critical counter the number of consecutive critical samples; the recovery counter is at most the
  number of consecutive recovery samples in every state.
\<close>

definition counters_ok :: "threshold_rule_definition \<Rightarrow> threshold_input list \<Rightarrow> rule_context \<Rightarrow> bool" where
  "counters_ok d is c \<longleftrightarrow>
     (rc_state c = StateNormal \<longrightarrow>
        unat (rc_hit_count c) \<le> trailing_run (hit_sample d) is \<and>
        unat (rc_critical_hit_count c) \<le> trailing_run (critical_sample d) is) \<and>
     unat (rc_recovery_count c) \<le> trailing_run (recovery_sample d) is"

lemma unat_plus_one_le: "unat (w + 1 :: u32) \<le> unat w + 1"
  by unat_arith

lemma unat_plus_one_bound: "unat w \<le> n \<Longrightarrow> unat (w + 1 :: u32) \<le> Suc n"
  using unat_plus_one_le [of w] by simp

lemma counters_step:
  assumes "counters_ok d is c"
  shows "counters_ok d (is @ [i]) (fst (threshold_step cfg d i c))"
proof (cases rule: step_cases [where d = d and i = i and c = c])
  case critical
  then show ?thesis using assms
    by (auto simp: counters_ok_def engine_simps unat_plus_one_bound hit_sample_def split: if_splits)
next
  case warning
  then show ?thesis using assms
    by (auto simp: counters_ok_def engine_simps unat_plus_one_bound hit_sample_def split: if_splits)
next
  case recovery
  then show ?thesis using assms
    by (auto simp: counters_ok_def engine_simps unat_plus_one_bound split: if_splits)
next
  case idle
  then show ?thesis using assms by (auto simp: counters_ok_def engine_simps)
qed

lemma counters_run: "counters_ok d hist c \<Longrightarrow> counters_ok d (hist @ is) (fst (threshold_run cfg d is c))"
proof (induction "is" arbitrary: c hist)
  case (Cons i "is")
  then show ?case using Cons.IH [OF counters_step [OF Cons.prems, of i cfg]] by (simp add: threshold_run_Cons)
qed simp

lemma empty_counters_ok: "counters_ok d [] empty_context"
  by (simp add: counters_ok_def empty_context_def)

section \<open>Reporting in time\<close>

text \<open>A run of \<open>n\<close> warning samples from the normal state counts them and stays silent before the last.\<close>

lemma warning_count_run:
  assumes "rc_state c = StateNormal" and "list_all (\<lambda>i. warning_sample d i \<and> \<not> ti_external_warning i) is"
    and "unat (rc_hit_count c) + length is < unat (td_warning_windows d)"
  shows "rc_state (fst (threshold_run cfg d is c)) = StateNormal \<and>
    unat (rc_hit_count (fst (threshold_run cfg d is c))) = unat (rc_hit_count c) + length is \<and>
    rc_last_activation_event_ms (fst (threshold_run cfg d is c)) = rc_last_activation_event_ms c \<and>
    snd (threshold_run cfg d is c) = replicate (length is) None"
  using assms
proof (induction "is" arbitrary: c)
  case (Cons i "is")
  let ?c = "fst (threshold_step cfg d i c)"
  have lt: "unat (rc_hit_count c) + 1 < unat (td_warning_windows d)" using Cons.prems(3) by simp
  have w: "warning_sample d i" "\<not> ti_external_warning i" using Cons.prems(2) by simp_all
  have u: "unat (rc_hit_count c + 1) = unat (rc_hit_count c) + 1"
    using lt by (intro unat_add_1 [where v = "td_warning_windows d"]) (simp add: word_less_nat_alt)
  then have no: "\<not> td_warning_windows d \<le> rc_hit_count c + 1" using lt by (simp add: word_le_nat_alt)
  have c: "rc_state ?c = StateNormal" "unat (rc_hit_count ?c) = unat (rc_hit_count c) + 1"
    "rc_last_activation_event_ms ?c = rc_last_activation_event_ms c" "snd (threshold_step cfg d i c) = None"
    using w no u Cons.prems(1) by (simp_all add: engine_simps)
  show ?case
    using Cons.IH [of ?c] Cons.prems(2,3) c by (simp add: threshold_run_Cons)
qed simp

lemma critical_count_run:
  assumes "rc_state c \<noteq> StateCritical" and "list_all (\<lambda>i. critical_sample d i \<and> \<not> ti_external_critical i) is"
    and "unat (rc_critical_hit_count c) + length is < unat (td_critical_windows d)"
  shows "rc_state (fst (threshold_run cfg d is c)) \<noteq> StateCritical \<and>
    unat (rc_critical_hit_count (fst (threshold_run cfg d is c))) = unat (rc_critical_hit_count c) + length is \<and>
    snd (threshold_run cfg d is c) = replicate (length is) None"
  using assms
proof (induction "is" arbitrary: c)
  case (Cons i "is")
  let ?c = "fst (threshold_step cfg d i c)"
  have lt: "unat (rc_critical_hit_count c) + 1 < unat (td_critical_windows d)" using Cons.prems(3) by simp
  have w: "critical_sample d i" "\<not> ti_external_critical i" using Cons.prems(2) by simp_all
  have u: "unat (rc_critical_hit_count c + 1) = unat (rc_critical_hit_count c) + 1"
    using lt by (intro unat_add_1 [where v = "td_critical_windows d"]) (simp add: word_less_nat_alt)
  then have no: "\<not> td_critical_windows d \<le> rc_critical_hit_count c + 1" using lt by (simp add: word_le_nat_alt)
  have c: "rc_state ?c \<noteq> StateCritical" "unat (rc_critical_hit_count ?c) = unat (rc_critical_hit_count c) + 1"
    "snd (threshold_step cfg d i c) = None"
    using w no u Cons.prems(1) by (simp_all add: engine_simps)
  show ?case
    using Cons.IH [of ?c] Cons.prems(2,3) c by (simp add: threshold_run_Cons)
qed simp

definition activation :: "event_level option \<Rightarrow> bool" where
  "activation out \<longleftrightarrow> out = Some LevelWarning \<or> out = Some LevelCritical"

lemma activation_time_step:
  "rc_last_activation_event_ms (fst (threshold_step cfg d i c)) =
     (if activation (snd (threshold_step cfg d i c)) then ti_now_ms i else rc_last_activation_event_ms c)"
  by (rule step_cases [where d = d and i = i and c = c]) (auto simp: engine_simps activation_def)

lemma activation_time_run:
  "list_all (\<lambda>out. \<not> activation out) (snd (threshold_run cfg d is c)) \<Longrightarrow>
   rc_last_activation_event_ms (fst (threshold_run cfg d is c)) = rc_last_activation_event_ms c"
  by (induction "is" arbitrary: c) (simp_all add: threshold_run_Cons activation_time_step)

lemma warning_not_cooling:
  "snd (threshold_step cfg d i c) = Some LevelWarning \<Longrightarrow> \<not> cooldown_active cfg c (ti_now_ms i)"
  by (rule step_cases [where d = d and i = i and c = c]) (auto simp: engine_simps split: if_splits)

lemma silent_run:
  assumes "rc_state c = StateWarning" "list_all (warning_sample d) is"
  shows "snd (threshold_run cfg d is c) = replicate (length is) None"
  using assms
proof (induction "is" arbitrary: c)
  case (Cons i "is")
  then show ?case
    using Cons.IH [of "fst (threshold_step cfg d i c)"] by (simp add: threshold_run_Cons engine_simps)
qed simp

text \<open>A sample of the program's own memory in MiB, used in concrete runs.\<close>

definition rss_input :: "u64 \<Rightarrow> nat \<Rightarrow> threshold_input" where
  "rss_input now mb = \<lparr>ti_now_ms = now, ti_value = Fin (of_nat mb), ti_external_warning = False,
     ti_external_critical = False, ti_recovery_blocked = False\<rparr>"

section \<open>Properties of the state machine\<close>


text \<open>
  C13: a warning that no external condition triggered comes only after at least the configured
  number of consecutive windows at or beyond the threshold.
\<close>

theorem warning_needs_consecutive_hits:
  assumes "snd (threshold_step cfg d i (fst (threshold_run cfg d is empty_context))) = Some LevelWarning"
    and "\<not> ti_external_warning i"
  shows "unat (td_warning_windows d) \<le> length (is @ [i]) \<and>
    list_all (hit_sample d) (drop (length (is @ [i]) - unat (td_warning_windows d)) (is @ [i]))"
proof (rule trailing_run_suffix)
  let ?c = "fst (threshold_run cfg d is empty_context)"
  have cnt: "counters_ok d is ?c" using counters_run [OF empty_counters_ok, of d "is" cfg] by simp
  have "warning_sample d i \<and> td_warning_windows d \<le> rc_hit_count ?c + 1 \<and> rc_state ?c = StateNormal"
    using assms by (cases rule: step_cases [where d = d and i = i and c = ?c]) (auto simp: engine_simps split: if_splits)
  then show "unat (td_warning_windows d) \<le> trailing_run (hit_sample d) (is @ [i])"
    using cnt unat_plus_one_bound [of "rc_hit_count ?c"]
    by (auto simp: counters_ok_def hit_sample_def word_le_nat_alt intro: order_trans)
qed

theorem warning_needs_consecutive_hits_witness:
  "unat (td_warning_windows (self_rss_rule default_config)) \<le> length ([rss_input 1000 50, rss_input 2000 50] @ [rss_input 3000 50]) \<and>
    list_all (hit_sample (self_rss_rule default_config))
      (drop (length ([rss_input 1000 50, rss_input 2000 50] @ [rss_input 3000 50]) - unat (td_warning_windows (self_rss_rule default_config)))
        ([rss_input 1000 50, rss_input 2000 50] @ [rss_input 3000 50]))"
  by (rule warning_needs_consecutive_hits [where cfg = default_config]) code_simp+

text \<open>
  C14: a recovery comes only after at least the configured number of consecutive windows inside the
  recovery range.
\<close>

theorem recovery_needs_consecutive_windows:
  assumes "snd (threshold_step cfg d i (fst (threshold_run cfg d is empty_context))) = Some LevelRecovery"
  shows "unat (td_recovery_windows d) \<le> length (is @ [i]) \<and>
    list_all (recovery_sample d) (drop (length (is @ [i]) - unat (td_recovery_windows d)) (is @ [i]))"
proof (rule trailing_run_suffix)
  let ?c = "fst (threshold_run cfg d is empty_context)"
  have cnt: "counters_ok d is ?c" using counters_run [OF empty_counters_ok, of d "is" cfg] by simp
  have "recovery_sample d i \<and> td_recovery_windows d \<le> rc_recovery_count ?c + 1"
    using assms by (cases rule: step_cases [where d = d and i = i and c = ?c]) (auto simp: engine_simps split: if_splits)
  then show "unat (td_recovery_windows d) \<le> trailing_run (recovery_sample d) (is @ [i])"
    using cnt unat_plus_one_bound [of "rc_recovery_count ?c"]
    by (auto simp: counters_ok_def word_le_nat_alt intro: order_trans)
qed

theorem recovery_needs_consecutive_windows_witness:
  "let rest = [rss_input 1000 70, rss_input 2000 70, rss_input 3000 10, rss_input 4000 10]
   in unat (td_recovery_windows (self_rss_rule default_config)) \<le> length (rest @ [rss_input 5000 10]) \<and>
    list_all (recovery_sample (self_rss_rule default_config))
      (drop (length (rest @ [rss_input 5000 10]) - unat (td_recovery_windows (self_rss_rule default_config)))
        (rest @ [rss_input 5000 10]))"
  unfolding Let_def by (rule recovery_needs_consecutive_windows [where cfg = default_config]) code_simp

text \<open>
  Out of the normal state, a critical event that no external condition triggered comes only after at
  least the configured number of consecutive critical windows.
\<close>

theorem critical_from_normal_consecutive:
  assumes "snd (threshold_step cfg d i (fst (threshold_run cfg d is empty_context))) = Some LevelCritical"
    and "rc_state (fst (threshold_run cfg d is empty_context)) = StateNormal" and "\<not> ti_external_critical i"
  shows "unat (td_critical_windows d) \<le> length (is @ [i]) \<and>
    list_all (critical_sample d) (drop (length (is @ [i]) - unat (td_critical_windows d)) (is @ [i]))"
proof (rule trailing_run_suffix)
  let ?c = "fst (threshold_run cfg d is empty_context)"
  have cnt: "counters_ok d is ?c" using counters_run [OF empty_counters_ok, of d "is" cfg] by simp
  have "critical_sample d i \<and> td_critical_windows d \<le> rc_critical_hit_count ?c + 1"
    using assms by (cases rule: step_cases [where d = d and i = i and c = ?c]) (auto simp: engine_simps split: if_splits)
  then show "unat (td_critical_windows d) \<le> trailing_run (critical_sample d) (is @ [i])"
    using cnt assms(2) unat_plus_one_bound [of "rc_critical_hit_count ?c"]
    by (auto simp: counters_ok_def word_le_nat_alt intro: order_trans)
qed

theorem critical_from_normal_consecutive_witness:
  "unat (td_critical_windows (self_rss_rule default_config)) \<le> length ([rss_input 1000 70] @ [rss_input 2000 70]) \<and>
    list_all (critical_sample (self_rss_rule default_config))
      (drop (length ([rss_input 1000 70] @ [rss_input 2000 70]) - unat (td_critical_windows (self_rss_rule default_config)))
        ([rss_input 1000 70] @ [rss_input 2000 70]))"
  by (rule critical_from_normal_consecutive [where cfg = default_config]) code_simp+

text \<open>
  In the warning state the critical windows need not be consecutive: a sample inside the recovery
  range, short of the recovery windows, leaves the critical counter as it was.
\<close>

theorem critical_windows_survive_recovery_sample:
  "snd (threshold_run default_config (self_rss_rule default_config)
      [rss_input 1000 50, rss_input 2000 50, rss_input 3000 50, rss_input 4000 70, rss_input 5000 10, rss_input 6000 70]
      empty_context) =
    [None, None, Some LevelWarning, None, None, Some LevelCritical] \<and>
   td_critical_windows (self_rss_rule default_config) = 2"
  by code_simp

text \<open>
  C12: the configured number of warning windows in a row, from the normal state and outside a cooldown,
  raises the warning with the last of them and not before.
\<close>

theorem warning_reported_in_time:
  assumes "rc_state c = StateNormal" and "rc_hit_count c = 0"
    and "list_all (\<lambda>i. warning_sample d i \<and> \<not> ti_external_warning i) (is @ [i])"
    and "Suc (length is) = unat (td_warning_windows d)"
    and "\<not> cooldown_active cfg c (ti_now_ms i)"
  shows "snd (threshold_run cfg d (is @ [i]) c) = replicate (length is) None @ [Some LevelWarning]"
proof -
  let ?c = "fst (threshold_run cfg d is c)"
  have run: "rc_state ?c = StateNormal \<and> unat (rc_hit_count ?c) = length is \<and>
      rc_last_activation_event_ms ?c = rc_last_activation_event_ms c \<and>
      snd (threshold_run cfg d is c) = replicate (length is) None"
    using warning_count_run [OF assms(1), of d "is" cfg] assms by simp
  have "unat (rc_hit_count ?c + 1) = unat (rc_hit_count ?c) + 1"
    using run assms(4) by (intro unat_add_1 [where v = "td_warning_windows d"]) (simp add: word_less_nat_alt)
  then have "td_warning_windows d \<le> rc_hit_count ?c + 1" using run assms(4) by (simp add: word_le_nat_alt)
  moreover have "\<not> cooldown_active cfg ?c (ti_now_ms i)" using run assms(5) by (simp add: cooldown_active_def)
  ultimately have "snd (threshold_step cfg d i ?c) = Some LevelWarning"
    using run assms(3) by (simp add: engine_simps)
  then show ?thesis using run by (simp add: threshold_run_append threshold_run_Cons)
qed

theorem warning_reported_in_time_witness:
  "snd (threshold_run default_config (self_rss_rule default_config) ([rss_input 1000 50, rss_input 2000 50] @ [rss_input 3000 50]) empty_context) =
    replicate (length [rss_input 1000 50, rss_input 2000 50]) None @ [Some LevelWarning]"
  by (rule warning_reported_in_time) code_simp+

text \<open>
  The configured number of critical windows in a row raises a critical event with the last of them, from
  any state but critical and whatever the cooldown.
\<close>

theorem critical_reported_in_time:
  assumes "rc_state c \<noteq> StateCritical" and "rc_critical_hit_count c = 0"
    and "list_all (\<lambda>i. critical_sample d i \<and> \<not> ti_external_critical i) (is @ [i])"
    and "Suc (length is) = unat (td_critical_windows d)"
  shows "snd (threshold_run cfg d (is @ [i]) c) = replicate (length is) None @ [Some LevelCritical]"
proof -
  let ?c = "fst (threshold_run cfg d is c)"
  have run: "rc_state ?c \<noteq> StateCritical \<and> unat (rc_critical_hit_count ?c) = length is \<and>
      snd (threshold_run cfg d is c) = replicate (length is) None"
    using critical_count_run [OF assms(1), of d "is" cfg] assms by simp
  have "unat (rc_critical_hit_count ?c + 1) = unat (rc_critical_hit_count ?c) + 1"
    using run assms(4) by (intro unat_add_1 [where v = "td_critical_windows d"]) (simp add: word_less_nat_alt)
  then have "td_critical_windows d \<le> rc_critical_hit_count ?c + 1" using run assms(4) by (simp add: word_le_nat_alt)
  then have "snd (threshold_step cfg d i ?c) = Some LevelCritical"
    using run assms(3) by (simp add: engine_simps)
  then show ?thesis using run by (simp add: threshold_run_append threshold_run_Cons)
qed

theorem critical_reported_in_time_witness:
  "snd (threshold_run default_config (self_rss_rule default_config) ([rss_input 1000 70] @ [rss_input 2000 70]) empty_context) =
    replicate (length [rss_input 1000 70]) None @ [Some LevelCritical]"
  by (rule critical_reported_in_time) code_simp+


definition rss_instant :: "u64 \<Rightarrow> nat \<Rightarrow> bool \<Rightarrow> threshold_input" where
  "rss_instant now mb warn = (rss_input now mb)\<lparr>ti_external_warning := warn\<rparr>"


text \<open>
  A warning the cooldown suppressed is not reported later: the state is warning and stays there without
  an event however many warning windows follow, also after the cooldown has passed.
\<close>

theorem suppressed_warning_stays_silent:
  assumes "rc_state c = StateNormal" and "cooldown_active cfg c (ti_now_ms i)"
    and "warning_sample d i" and "td_warning_windows d \<le> rc_hit_count c + 1" and "list_all (warning_sample d) is"
  shows "snd (threshold_run cfg d (i # is) c) = replicate (Suc (length is)) None"
  using silent_run [of "fst (threshold_step cfg d i c)" d "is" cfg] assms
  by (simp add: threshold_run_Cons engine_simps)

theorem suppressed_warning_stays_silent_witness:
  "snd (threshold_run default_config (self_rss_rule default_config)
      (rss_input 2000 50 # [rss_input 100000 50, rss_input 200000 50, rss_input 300000 50])
      (empty_context\<lparr>rc_hit_count := 2, rc_last_activation_event_ms := 1000\<rparr>)) =
    replicate (Suc (length [rss_input 100000 50, rss_input 200000 50, rss_input 300000 50])) None"
  by (rule suppressed_warning_stays_silent) code_simp+

section \<open>The engine\<close>

text \<open>The operations a client of the engine performs, with their clock readings.\<close>

datatype engine_op =
    EvaluateMemory u64 meminfo_sample
  | EvaluateSelfRss u64 u64
  | EvaluateCpuUsage u64 u64 cpu_usage_sample
  | EvaluateQueue u64 queue_snapshot
  | EvaluateSchedDelay u64 u64 sched_delay_sample
  | EvaluateIoDelay u64 u64 io_delay_sample
  | EvaluateProcessMemoryGrowth u64 u64 string i32 double
  | ForgetProcessMemory string i32

fun engine_step :: "monitor_config \<Rightarrow> engine_op \<Rightarrow> rule_engine \<Rightarrow> rule_engine \<times> internal_event option" where
  "engine_step cfg (EvaluateMemory t s) e = evaluate_memory cfg t s e"
| "engine_step cfg (EvaluateSelfRss t s) e = evaluate_self_rss cfg t s e"
| "engine_step cfg (EvaluateCpuUsage t t2 s) e = evaluate_cpu_usage cfg t t2 s e"
| "engine_step cfg (EvaluateQueue t s) e = evaluate_queue cfg t s e"
| "engine_step cfg (EvaluateSchedDelay t t2 s) e = evaluate_sched_delay cfg t t2 s e"
| "engine_step cfg (EvaluateIoDelay t t2 s) e = evaluate_io_delay cfg t t2 s e"
| "engine_step cfg (EvaluateProcessMemoryGrowth t t2 n p g) e = evaluate_process_memory_growth cfg t t2 n p g e"
| "engine_step cfg (ForgetProcessMemory n p) e = (forget_process_memory n p e, None)"

fun engine_run :: "monitor_config \<Rightarrow> engine_op list \<Rightarrow> rule_engine \<Rightarrow> rule_engine \<times> internal_event list" where
  "engine_run cfg [] e = (e, [])"
| "engine_run cfg (op # ops) e =
     (let (e', out) = engine_step cfg op e; (e'', outs) = engine_run cfg ops e'
      in (e'', (case out of None \<Rightarrow> outs | Some event \<Rightarrow> event # outs)))"

lemma engine_run_Cons:
  "engine_run cfg (op # ops) e =
     (fst (engine_run cfg ops (fst (engine_step cfg op e))),
      (case snd (engine_step cfg op e) of
         None \<Rightarrow> snd (engine_run cfg ops (fst (engine_step cfg op e)))
       | Some event \<Rightarrow> event # snd (engine_run cfg ops (fst (engine_step cfg op e)))))"
  by (simp add: case_prod_beta Let_def)

declare engine_run.simps(2) [simp del]

text \<open>The entry an operation works on is there after the pruning, so its reference does not dangle.\<close>

lemma expired_now: "rc_last_seen_ms c = now_ms \<Longrightarrow> \<not> expired cfg now_ms c"
proof -
  assume seen: "rc_last_seen_ms c = now_ms"
  have "(0 :: u64) < (if state_ttl_sec cfg = 0 then 3600 else ucast (state_ttl_sec cfg)) * 1000"
  proof (cases "state_ttl_sec cfg = 0")
    case False
    have "unat (ucast (state_ttl_sec cfg) :: u64) = unat (state_ttl_sec cfg)"
      by (rule unat_ucast_u32)
    moreover have "0 < unat (state_ttl_sec cfg)" "unat (state_ttl_sec cfg) < 4294967296"
      using False unat_less_32 by (simp_all add: unat_gt_0)
    ultimately have "unat (ucast (state_ttl_sec cfg) * 1000 :: u64) = unat (state_ttl_sec cfg) * 1000"
      by (subst unat_mult_lem [THEN iffD1]) simp_all
    then show ?thesis using False by (simp add: word_less_nat_alt unat_gt_0)
  qed simp
  then have "\<not> (if state_ttl_sec cfg = 0 then 3600 else ucast (state_ttl_sec cfg)) * 1000 \<le> (0 :: u64)"
    by (simp only: not_le)
  then show ?thesis unfolding expired_def Let_def seen diff_self by blast
qed

lemma touch_survives_prune [simp]:
  "map_filter_vals (\<lambda>c. \<not> expired cfg now_ms c) (touch key now_ms m) key =
     Some ((case m key of None \<Rightarrow> empty_context | Some c \<Rightarrow> c)\<lparr>rc_last_seen_ms := now_ms\<rparr>)"
  by (simp add: touch_def expired_now)

text \<open>All contexts of an engine.\<close>

definition engine_contexts :: "rule_engine \<Rightarrow> rule_context set" where
  "engine_contexts e =
     {re_memory e, re_self_rss e, re_queue e} \<union> ran (re_cpu_usage e) \<union> ran (re_sched_delay e) \<union>
     ran (re_io_delay e) \<union> ran (re_process_memory e)"

definition engine_ok :: "rule_engine \<Rightarrow> bool" where
  "engine_ok e \<longleftrightarrow> (\<forall>c \<in> engine_contexts e. context_ok c)"

definition map_ok :: "('k \<rightharpoonup> rule_context) \<Rightarrow> bool" where
  "map_ok m \<longleftrightarrow> (\<forall>k c. m k = Some c \<longrightarrow> context_ok c)"

lemma engine_ok_iff:
  "engine_ok e \<longleftrightarrow> context_ok (re_memory e) \<and> context_ok (re_self_rss e) \<and> context_ok (re_queue e) \<and>
     map_ok (re_cpu_usage e) \<and> map_ok (re_sched_delay e) \<and> map_ok (re_io_delay e) \<and> map_ok (re_process_memory e)"
  unfolding engine_ok_def engine_contexts_def map_ok_def ran_def by blast

lemma context_ok_seen [simp]: "context_ok (c\<lparr>rc_last_seen_ms := t\<rparr>) = context_ok c"
  by (simp add: context_ok_def)

lemma map_ok_touch [simp]: "map_ok m \<Longrightarrow> map_ok (touch k t m)"
  by (auto simp: map_ok_def touch_def split: option.splits)

lemma map_ok_filter [simp]: "map_ok m \<Longrightarrow> map_ok (map_filter_vals P m)"
  by (auto simp: map_ok_def)

lemma map_ok_update [simp]: "map_ok m \<Longrightarrow> context_ok c \<Longrightarrow> map_ok (m(k \<mapsto> c))"
  by (simp add: map_ok_def)

lemma map_ok_remove [simp]: "map_ok m \<Longrightarrow> map_ok (m(k := None))"
  by (simp add: map_ok_def)

lemma map_ok_lookup: "map_ok m \<Longrightarrow> m k = Some c \<Longrightarrow> context_ok c"
  by (auto simp: map_ok_def)

lemma evaluate_threshold_ok:
  "context_ok c \<Longrightarrow> context_ok (fst (evaluate_threshold cfg t d v w cr b c))"
  using step_ok [of c cfg d "\<lparr>ti_now_ms = t, ti_value = v, ti_external_warning = w, ti_external_critical = cr,
    ti_recovery_blocked = b\<rparr>"] by (simp add: threshold_step_def)

lemma touched_ok: "map_ok m \<Longrightarrow> context_ok (case m k of None \<Rightarrow> empty_context | Some c \<Rightarrow> c)"
  by (auto simp: map_ok_def split: option.splits)

lemma engine_step_ok:
  assumes "engine_ok e"
  shows "engine_ok (fst (engine_step cfg op e))"
  using assms
  by (cases op)
    (simp_all add: engine_ok_iff evaluate_memory_def evaluate_self_rss_def evaluate_cpu_usage_def
      evaluate_queue_def evaluate_sched_delay_def evaluate_io_delay_def evaluate_process_memory_growth_def
      forget_process_memory_def prune_expired_contexts_def Let_def case_prod_beta evaluate_threshold_ok touched_ok)

lemma new_engine_ok: "engine_ok (new_rule_engine cfg)"
  by (simp add: engine_ok_iff new_rule_engine_def map_ok_def)

lemma engine_run_ok: "engine_ok e \<Longrightarrow> engine_ok (fst (engine_run cfg ops e))"
  by (induction ops arbitrary: e) (simp_all add: engine_run_Cons engine_step_ok)

text \<open>What every event of the engine satisfies.\<close>

definition rule_event_ok :: "internal_event \<Rightarrow> bool" where
  "rule_event_ok event \<longleftrightarrow>
     event_fits event \<and> ev_level event \<in> {LevelWarning, LevelCritical, LevelRecovery} \<and>
     ev_status event = status_of (ev_level event)"

lemma evaluate_threshold_level:
  "snd (evaluate_threshold cfg t d v w cr b c) = Some l \<Longrightarrow> l \<in> {LevelWarning, LevelCritical, LevelRecovery}"
  by (auto simp: evaluate_threshold_def Let_def split: if_splits)

lemma event_fields [simp]:
  "ev_level (set_evidence items event) = ev_level event"
  "ev_status (set_evidence items event) = ev_status event"
  "ev_level (set_event_target t event) = ev_level event"
  "ev_status (set_event_target t event) = ev_status event"
  by (simp_all add: set_evidence_def set_event_target_def)

lemma event_fits_update [simp]:
  "event_fits (e\<lparr>ev_rule_id := a, ev_event_type := b, ev_level := c, ev_status := d, ev_value := v,
     ev_warning_threshold := w, ev_critical_threshold := x, ev_window_sec := y, ev_continuous_hit_count := z,
     ev_hit_count := h\<rparr>) = event_fits e"
  "event_fits (e\<lparr>ev_rule_id := a, ev_event_type := b, ev_level := c, ev_status := d, ev_pid := p, ev_value := v,
     ev_warning_threshold := w, ev_critical_threshold := x, ev_window_sec := y, ev_continuous_hit_count := z,
     ev_hit_count := h\<rparr>) = event_fits e"
  "event_fits (e\<lparr>ev_rule_id := a, ev_event_type := b, ev_level := c, ev_status := d, ev_pid := p, ev_tid := q,
     ev_value := v, ev_warning_threshold := w, ev_critical_threshold := x, ev_window_sec := y,
     ev_continuous_hit_count := z, ev_hit_count := h\<rparr>) = event_fits e"
  by (simp_all add: event_fits_def)

lemma made_events_ok:
  assumes "l \<in> {LevelWarning, LevelCritical, LevelRecovery}"
  shows "rule_event_ok (make_memory_event cfg c l (status_of l) v)"
    "rule_event_ok (make_self_rss_event cfg c l (status_of l) v)"
    "rule_event_ok (make_cpu_usage_event cfg l (status_of l) cs c)"
    "rule_event_ok (make_queue_event cfg c l (status_of l) v qs)"
    "rule_event_ok (make_sched_delay_event cfg ss l (status_of l) v c)"
    "rule_event_ok (make_io_delay_event cfg ios l (status_of l) v c)"
    "rule_event_ok (make_process_memory_event cfg n p l (status_of l) v c)"
  using assms
  by (simp_all add: rule_event_ok_def make_memory_event_def make_self_rss_event_def make_cpu_usage_event_def
      make_queue_event_def make_sched_delay_event_def make_io_delay_event_def make_process_memory_event_def)

lemma engine_step_event_ok:
  "snd (engine_step cfg op e) = Some event \<Longrightarrow> rule_event_ok event"
  by (cases op)
    (auto simp: evaluate_memory_def evaluate_self_rss_def evaluate_cpu_usage_def
      evaluate_queue_def evaluate_sched_delay_def evaluate_io_delay_def evaluate_process_memory_growth_def
      Let_def case_prod_beta made_events_ok dest!: evaluate_threshold_level split: if_splits option.splits)

lemma engine_run_events_ok: "list_all rule_event_ok (snd (engine_run cfg ops e))"
  using engine_step_event_ok
  by (induction ops arbitrary: e) (auto simp: engine_run_Cons split: option.split)

section \<open>Properties of the engine\<close>

text \<open>
  Whatever an engine is asked to evaluate, every event it returns is a warning, a critical or a recovery
  event with the matching status and with its texts inside the fixed arrays, and every context keeps
  its invariant (an active notification is in the warning or critical state).
\<close>

theorem engine_events_well_formed:
  "list_all rule_event_ok (snd (engine_run cfg ops (new_rule_engine cfg))) \<and>
   engine_ok (fst (engine_run cfg ops (new_rule_engine cfg)))"
  by (simp add: engine_run_events_ok engine_run_ok new_engine_ok)

text \<open>The contexts that are never pruned.\<close>

fun fixed_context :: "event_type \<Rightarrow> rule_engine \<Rightarrow> rule_context" where
  "fixed_context MemoryPressure e = re_memory e"
| "fixed_context MonitorMemoryPressure e = re_self_rss e"
| "fixed_context _ e = re_queue e"

definition levels_of :: "event_type \<Rightarrow> internal_event list \<Rightarrow> event_level option list" where
  "levels_of ty events = map (\<lambda>event. Some (ev_level event)) (filter (\<lambda>event. ev_event_type event = ty) events)"

lemma made_event_types [simp]:
  "ev_event_type (make_memory_event cfg c l s v) = MemoryPressure"
  "ev_event_type (make_self_rss_event cfg c l s v) = MonitorMemoryPressure"
  "ev_event_type (make_cpu_usage_event cfg l s cs c) = CpuUsageRisk"
  "ev_event_type (make_queue_event cfg c l s v qs) = QueuePressure"
  "ev_event_type (make_sched_delay_event cfg ss l s v c) = SchedDelayRisk"
  "ev_event_type (make_io_delay_event cfg ios l s v c) = IoDelayRisk"
  "ev_event_type (make_process_memory_event cfg n p l s v c) = WhitelistedProcessMemoryRisk"
  by (simp_all add: make_memory_event_def make_self_rss_event_def make_cpu_usage_event_def make_queue_event_def
      make_sched_delay_event_def make_io_delay_event_def make_process_memory_event_def set_evidence_def
      set_event_target_def)

lemma made_event_levels [simp]:
  "ev_level (make_memory_event cfg c l s v) = l"
  "ev_level (make_self_rss_event cfg c l s v) = l"
  "ev_level (make_queue_event cfg c l s v qs) = l"
  by (simp_all add: make_memory_event_def make_self_rss_event_def make_queue_event_def)

lemma evaluate_threshold_phase:
  "context_ok c \<Longrightarrow>
   case snd (evaluate_threshold cfg t d v w cr b c) of
      None \<Rightarrow> phase_of (fst (evaluate_threshold cfg t d v w cr b c)) = phase_of c
    | Some l \<Rightarrow> observe l (phase_of c) = Some (phase_of (fst (evaluate_threshold cfg t d v w cr b c)))"
  using step_phase [of c cfg d "\<lparr>ti_now_ms = t, ti_value = v, ti_external_warning = w, ti_external_critical = cr,
    ti_recovery_blocked = b\<rparr>", unfolded threshold_step_def threshold_input.simps] by blast

text \<open>One operation moves the phase of a fixed target by the event it returns for it.\<close>

lemma engine_step_phase:
  assumes "engine_ok e" and "ty \<in> {MemoryPressure, MonitorMemoryPressure, QueuePressure}"
  shows "case snd (engine_step cfg op e) of
      None \<Rightarrow> phase_of (fixed_context ty (fst (engine_step cfg op e))) = phase_of (fixed_context ty e)
    | Some event \<Rightarrow>
        if ev_event_type event = ty
        then observe (ev_level event) (phase_of (fixed_context ty e)) =
             Some (phase_of (fixed_context ty (fst (engine_step cfg op e))))
        else phase_of (fixed_context ty (fst (engine_step cfg op e))) = phase_of (fixed_context ty e)"
proof -
  have ok: "context_ok (re_memory e)" "context_ok (re_self_rss e)" "context_ok (re_queue e)"
    using assms(1) by (simp_all add: engine_ok_iff)
  note ph = evaluate_threshold_phase [OF ok(1)] evaluate_threshold_phase [OF ok(2)] evaluate_threshold_phase [OF ok(3)]
  show ?thesis
  proof (cases op)
    case (EvaluateMemory t s)
    then show ?thesis
      using ph(1) [of cfg t "memory_rule cfg" "ddiv (double_of_u64 (mem_available_kb s)) (Fin 1024)" False False False] assms(2)
      by (auto simp: evaluate_memory_def Let_def case_prod_beta split: option.splits)
  next
    case (EvaluateSelfRss t kb)
    then show ?thesis
      using ph(2) [of cfg t "self_rss_rule cfg" "ddiv (double_of_u64 kb) (Fin 1024)" False False False] assms(2)
      by (auto simp: evaluate_self_rss_def Let_def case_prod_beta split: option.splits)
  next
    case (EvaluateQueue t s)
    then show ?thesis
      using assms(2)
        ph(3) [of cfg t "queue_rule cfg"
          "dmax (fill_percent (qs_depth s) (qs_capacity s)) (fill_percent (qs_sink_depth s) (qs_sink_capacity s))"
          "re_last_queue_drop_count e < qs_dropped_count s + qs_sink_dropped_count s + qs_dispatcher_sink_push_failures s \<or>
           re_last_queue_dispatcher_failure_count e < qs_dispatcher_sink_push_failures s"
          "re_last_queue_critical_drop_count e < qs_dropped_critical_count s + qs_sink_dropped_critical_count s"
          "re_last_queue_drop_count e < qs_dropped_count s + qs_sink_dropped_count s + qs_dispatcher_sink_push_failures s \<or>
           re_last_queue_dispatcher_failure_count e < qs_dispatcher_sink_push_failures s"]
      by (auto simp: evaluate_queue_def Let_def case_prod_beta split: option.splits)
  qed (use assms(2) in \<open>auto simp: evaluate_cpu_usage_def evaluate_sched_delay_def evaluate_io_delay_def
      evaluate_process_memory_growth_def forget_process_memory_def prune_expired_contexts_def Let_def case_prod_beta
      split: option.splits\<close>)
qed

lemma engine_run_phase:
  assumes "engine_ok e" and "ty \<in> {MemoryPressure, MonitorMemoryPressure, QueuePressure}"
  shows "episodes (phase_of (fixed_context ty e)) (levels_of ty (snd (engine_run cfg ops e))) =
    Some (phase_of (fixed_context ty (fst (engine_run cfg ops e))))"
  using assms(1)
proof (induction ops arbitrary: e)
  case (Cons op ops)
  then show ?case
    using engine_step_phase [OF Cons.prems assms(2), of cfg op] Cons.IH [OF engine_step_ok [OF Cons.prems, of cfg op]]
    by (cases "snd (engine_step cfg op e)") (simp_all add: engine_run_Cons levels_of_def split: if_splits)
qed (simp add: levels_of_def)

definition idle_snapshot :: "queue_snapshot" where
  "idle_snapshot = \<lparr>qs_push_fail_count = 0, qs_dropped_count = 0, qs_dropped_critical_count = 0,
     qs_reserve_reject_count = 0, qs_dispatcher_sink_push_failures = 0, qs_sink_dropped_count = 0,
     qs_sink_dropped_critical_count = 0, qs_sink_reserve_reject_count = 0, qs_depth = 0, qs_capacity = 0,
     qs_high_watermark = 0, qs_sink_depth = 0, qs_sink_capacity = 0, qs_sink_high_watermark = 0\<rparr>"

text \<open>
  The memory, own-memory and queue events of an engine form episodes, whatever other evaluations are
  interleaved with them.
\<close>

theorem fixed_target_episodes:
  assumes "ty \<in> {MemoryPressure, MonitorMemoryPressure, QueuePressure}"
  shows "episodes Quiet (levels_of ty (snd (engine_run cfg ops (new_rule_engine cfg)))) \<noteq> None"
proof -
  have "phase_of (fixed_context ty (new_rule_engine cfg)) = Quiet"
    using assms by (auto simp: new_rule_engine_def phase_of_def empty_context_def)
  then show ?thesis using engine_run_phase [OF new_engine_ok assms, of cfg cfg ops] by simp
qed

theorem fixed_target_episodes_witness:
  "episodes Quiet (levels_of MonitorMemoryPressure (snd (engine_run default_config
     [EvaluateSelfRss 1000 70000, EvaluateQueue 1500 idle_snapshot, EvaluateSelfRss 2000 70000] (new_rule_engine default_config)))) \<noteq> None"
  by (rule fixed_target_episodes) simp

definition hot_cpu :: cpu_usage_sample where
  "hot_cpu = \<lparr>cpu_name = ''total'', cpu_usage_percent = Fin 99, delta_total_jiffies = 100,
     delta_idle_jiffies = 1, cpu_valid = True\<rparr>"

text \<open>
  The evaluation of one CPU target depends only on its own context and clock readings: in any two
  engines that agree on it, it returns the same event and leaves the same context.
\<close>

theorem cpu_targets_independent:
  assumes "re_cpu_usage e (cpu_name sample) = re_cpu_usage e' (cpu_name sample)"
  shows "snd (evaluate_cpu_usage cfg t t2 sample e) = snd (evaluate_cpu_usage cfg t t2 sample e') \<and>
    re_cpu_usage (fst (evaluate_cpu_usage cfg t t2 sample e)) (cpu_name sample) =
    re_cpu_usage (fst (evaluate_cpu_usage cfg t t2 sample e')) (cpu_name sample)"
  using assms by (simp add: evaluate_cpu_usage_def prune_expired_contexts_def Let_def case_prod_beta)

theorem cpu_targets_independent_witness:
  "snd (evaluate_cpu_usage default_config 7 8 hot_cpu (new_rule_engine default_config)) =
   snd (evaluate_cpu_usage default_config 7 8 hot_cpu
     ((new_rule_engine default_config)\<lparr>re_cpu_usage := [''cpu0'' \<mapsto> empty_context]\<rparr>))"
  by (rule cpu_targets_independent [THEN conjunct1]) (simp add: new_rule_engine_def default_config_def hot_cpu_def)

text \<open>
  An evaluation erases exactly the contexts of other targets that have not been seen for the time to
  live; the others are kept as they were.
\<close>

theorem prune_keeps_live_contexts:
  assumes "cpu_usage_enable cfg" "cpu_valid sample" "cpu_name sample \<noteq> []" "k \<noteq> cpu_name sample"
  shows "re_cpu_usage (fst (evaluate_cpu_usage cfg t t2 sample e)) k =
      (case re_cpu_usage e k of None \<Rightarrow> None | Some c \<Rightarrow> if expired cfg t c then None else Some c)"
  using assms
  by (simp add: evaluate_cpu_usage_def prune_expired_contexts_def Let_def case_prod_beta touch_def expired_now
      map_filter_vals_def split: option.split)

theorem prune_keeps_live_contexts_witness:
  "re_cpu_usage (fst (evaluate_cpu_usage default_config 7 8 hot_cpu
      ((new_rule_engine default_config)\<lparr>re_cpu_usage := [''cpu0'' \<mapsto> empty_context]\<rparr>))) ''cpu0'' = Some empty_context"
  by (subst prune_keeps_live_contexts) (simp_all add: default_config_def hot_cpu_def expired_def empty_context_def)

section \<open>Keys\<close>

text \<open>Different threads have different contexts.\<close>

theorem sched_key_injective: "sched_key p t = sched_key p' t' \<longleftrightarrow> p = p' \<and> t = t'"
proof -
  have up: "drop_bit 32 (sched_key p t) = ucast p" for p t
    unfolding sched_key_def by (intro bit_word_eqI) (auto simp: bit_simps dest: bit_imp_le_length)
  have lo: "ucast (sched_key p t) = t" for p t
    unfolding sched_key_def by (intro bit_word_eqI) (auto simp: bit_simps dest: bit_imp_le_length)
  have inj: "ucast p = (ucast p' :: u64) \<Longrightarrow> p = p'" for p p' :: i32
    by (metis unat_ucast_u32 word_unat_eq_iff)
  show ?thesis using up lo inj by metis
qed

lemma show_sword_no_colon: "CHR '':'' \<notin> set (show_sword w)"
proof -
  have "CHR '':'' \<notin> set (show_nat n)" for n
    using show_nat_digits [of "CHR '':''" n] by (auto simp: is_digit_def)
  then show ?thesis by (simp add: show_sword_def show_int_def)
qed

lemma show_sword_inj: "show_sword p = show_sword p' \<Longrightarrow> p = p'"
proof -
  assume eq: "show_sword p = show_sword p'"
  have nat: "show_nat m = show_nat n \<Longrightarrow> m = n" for m n by (metis digits_value_show_nat)
  have minus: "CHR ''-'' \<notin> set (show_nat n)" for n
    using show_nat_digits [of "CHR ''-''" n] by (auto simp: is_digit_def)
  have "sint p = sint p'"
  proof (cases "sint p < 0"; cases "sint p' < 0")
    assume neg: "sint p < 0" "sint p' < 0"
    then have "nat (- sint p) = nat (- sint p')" using eq nat by (simp add: show_sword_def show_int_def)
    then show ?thesis using neg by simp
  next
    assume "sint p < 0" "\<not> sint p' < 0"
    then show ?thesis using eq minus [of "nat (sint p')"] by (auto simp: show_sword_def show_int_def dest: sym)
  next
    assume "\<not> sint p < 0" "sint p' < 0"
    then show ?thesis using eq minus [of "nat (sint p)"] by (auto simp: show_sword_def show_int_def dest: sym)
  next
    assume pos: "\<not> sint p < 0" "\<not> sint p' < 0"
    then have "nat (sint p) = nat (sint p')" using eq nat by (simp add: show_sword_def show_int_def)
    then show ?thesis using pos by simp
  qed
  then show ?thesis by (simp add: signed_word_eqI)
qed

text \<open>Different processes have different contexts, also when a process name contains a colon.\<close>

theorem process_key_injective: "process_key n p = process_key n' p' \<longleftrightarrow> n = n' \<and> p = p'"
proof
  assume eq: "process_key n p = process_key n' p'"
  have s: "takeWhile (\<lambda>c. c \<noteq> CHR '':'') (rev (process_key n p)) = rev (show_sword p)" for n p
    using show_sword_no_colon [of p] by (simp add: process_key_def takeWhile_append takeWhile_eq_all_conv)
  then have "show_sword p = show_sword p'" using eq by (metis rev_rev_ident)
  with eq show "n = n' \<and> p = p'" by (simp add: process_key_def show_sword_inj)
qed (simp add: process_key_def)

section \<open>Thresholds as integers\<close>

lemma two53_word: "unat (w :: u64) \<le> 2 ^ 53 \<Longrightarrow> double_of_u64 w = Fin (of_nat (unat w))"
  by (simp add: double_of_u64_def round_double_of_nat)

lemma mb_of_kb: "unat kb \<le> 2 ^ 53 \<Longrightarrow> ddiv (double_of_u64 kb) (Fin 1024) = Fin (of_nat (unat kb) / 1024)"
  by (simp add: two53_word round_double_of_nat_div_1024)

lemma kb_le_mb: "(of_nat kb / 1024 :: rat) \<le> of_nat mb \<longleftrightarrow> kb \<le> 1024 * mb"
proof -
  have "(of_nat kb / 1024 :: rat) \<le> of_nat mb \<longleftrightarrow> (of_nat kb :: rat) \<le> of_nat (1024 * mb)"
    by (simp add: field_simps)
  then show ?thesis by (simp only: of_nat_le_iff)
qed

lemma mb_le_kb: "of_nat mb \<le> (of_nat kb / 1024 :: rat) \<longleftrightarrow> 1024 * mb \<le> kb"
proof -
  have "of_nat mb \<le> (of_nat kb / 1024 :: rat) \<longleftrightarrow> (of_nat (1024 * mb) :: rat) \<le> of_nat kb"
    by (simp add: field_simps)
  then show ?thesis by (simp only: of_nat_le_iff)
qed

text \<open>
  Up to \<open>2 ^ 53\<close> KiB and MiB the floating-point comparisons of the memory rule are the exact integer
  ones: with one critical window, a valid sample in the normal state raises a critical event exactly
  when the available KiB are at most 1024 times the configured MiB.
\<close>

theorem memory_critical_exact:
  assumes "unat (mem_available_kb sample) \<le> 2 ^ 53" and "unat (mem_available_critical_mb cfg) \<le> 2 ^ 53"
    and "mem_valid sample" and "rc_state (re_memory e) = StateNormal" and "rc_critical_hit_count (re_memory e) = 0"
    and "continuous_critical_windows cfg = 1"
  shows "(\<exists>event. snd (evaluate_memory cfg t sample e) = Some event \<and> ev_level event = LevelCritical) \<longleftrightarrow>
    unat (mem_available_kb sample) \<le> 1024 * unat (mem_available_critical_mb cfg)"
proof -
  let ?i = "\<lparr>ti_now_ms = t, ti_value = ddiv (double_of_u64 (mem_available_kb sample)) (Fin 1024),
    ti_external_warning = False, ti_external_critical = False, ti_recovery_blocked = False\<rparr>"
  have crit: "critical_sample (memory_rule cfg) ?i \<longleftrightarrow>
      unat (mem_available_kb sample) \<le> 1024 * unat (mem_available_critical_mb cfg)"
    by (simp add: critical_sample_def reaches_def memory_rule_def mb_of_kb [OF assms(1)] two53_word [OF assms(2)] kb_le_mb
        del: divide_le_eq_numeral1)
  have windows: "td_critical_windows (memory_rule cfg) = 1" using assms(6) by (simp add: memory_rule_def)
  have ev: "evaluate_memory cfg t sample e =
      (e\<lparr>re_memory := fst (threshold_step cfg (memory_rule cfg) ?i (re_memory e))\<rparr>,
       map_option (\<lambda>l. make_memory_event cfg (fst (threshold_step cfg (memory_rule cfg) ?i (re_memory e))) l
         (status_of l) (ti_value ?i)) (snd (threshold_step cfg (memory_rule cfg) ?i (re_memory e))))"
    using assms(3,4) by (simp add: evaluate_memory_def threshold_step_def Let_def case_prod_beta)
  have "snd (threshold_step cfg (memory_rule cfg) ?i (re_memory e)) = Some LevelCritical \<longleftrightarrow>
      critical_sample (memory_rule cfg) ?i"
  proof (cases rule: step_cases [where d = "memory_rule cfg" and i = ?i and c = "re_memory e"])
    case critical
    then show ?thesis using assms(4,5) windows by (simp add: engine_simps)
  next
    case warning
    then show ?thesis by (simp add: engine_simps sample_exclusive)
  next
    case recovery
    then show ?thesis using assms(4) by simp
  next
    case idle
    then show ?thesis by (simp add: engine_simps hit_sample_def)
  qed
  then show ?thesis by (auto simp: ev crit)
qed

theorem memory_critical_exact_witness:
  "(\<exists>event. snd (evaluate_memory (default_config\<lparr>continuous_critical_windows := 1\<rparr>) 5
       (empty_meminfo_sample\<lparr>mem_available_kb := 262144, mem_valid := True\<rparr>)
       (new_rule_engine (default_config\<lparr>continuous_critical_windows := 1\<rparr>))) = Some event \<and> ev_level event = LevelCritical) \<longleftrightarrow>
    unat (mem_available_kb (empty_meminfo_sample\<lparr>mem_available_kb := 262144, mem_valid := True\<rparr>)) \<le>
      1024 * unat (mem_available_critical_mb (default_config\<lparr>continuous_critical_windows := 1\<rparr>))"
  by (rule memory_critical_exact)
    (simp_all add: default_config_def new_rule_engine_def empty_context_def empty_meminfo_sample_def)

section \<open>Queue pressure\<close>

lemma fill_percent_bounds:
  assumes "unat capacity \<le> 2 ^ 46" and "depth \<le> capacity"
  shows "dle (Fin 0) (fill_percent depth capacity) \<and> dle (fill_percent depth capacity) (Fin 100)"
    and "capacity \<noteq> 0 \<Longrightarrow> fill_percent capacity capacity = Fin 100"
proof -
  have le: "unat depth \<le> unat capacity" using assms(2) by (simp add: word_le_nat_alt)
  have m: "dmul (double_of_u64 d) (Fin 100) = Fin (of_nat (100 * unat d))" if "unat d \<le> 2 ^ 46" for d
  proof -
    have "dmul (double_of_u64 d) (Fin 100) = round_double (of_nat (100 * unat d))"
      using that by (simp add: two53_word mult.commute)
    moreover have "100 * unat d \<le> 2 ^ 53" using that by simp
    ultimately show ?thesis by (simp only: round_double_of_nat)
  qed
  have f: "fill_percent d capacity = round_double (of_nat (100 * unat d) / of_nat (unat capacity))"
    if "capacity \<noteq> 0" "unat d \<le> unat capacity" for d
    using that assms(1) m [of d]
    by (simp add: fill_percent_def two53_word unat_eq_zero)
  have r100: "round_double 100 = Fin 100" using round_double_of_nat [of 100] by simp
  show "dle (Fin 0) (fill_percent depth capacity) \<and> dle (fill_percent depth capacity) (Fin 100)"
  proof (cases "capacity = 0")
    case True
    then show ?thesis by (simp add: fill_percent_def)
  next
    case False
    then have pos: "0 < unat capacity" by (simp add: unat_gt_0)
    have "(of_nat (100 * unat depth) / of_nat (unat capacity) :: rat) \<le> 100"
      using le pos by (simp add: divide_le_eq)
    then have "dle (fill_percent depth capacity) (round_double 100)"
      unfolding f [OF False le] by (rule round_double_mono)
    then show ?thesis using f [OF False le] r100 by (simp add: round_double_nonneg)
  qed
  show "fill_percent capacity capacity = Fin 100" if "capacity \<noteq> 0"
  proof -
    have "(of_nat (100 * unat capacity) / of_nat (unat capacity) :: rat) = 100"
      using that by (simp add: unat_eq_zero)
    then show ?thesis using f [OF that] r100 by simp
  qed
qed

text \<open>
  When a queue has lost a critical event since the last evaluation, the evaluation returns a critical
  event at once, unless one is already active.
\<close>

theorem lost_critical_event_reported:
  assumes "rc_state (re_queue e) \<notin> {StateDisabled, StateCritical}"
    and "qs_capacity snapshot \<noteq> 0 \<or> qs_sink_capacity snapshot \<noteq> 0"
    and "re_last_queue_critical_drop_count e < qs_dropped_critical_count snapshot + qs_sink_dropped_critical_count snapshot"
  shows "\<exists>event. snd (evaluate_queue cfg t snapshot e) = Some event \<and> ev_level event = LevelCritical \<and>
    ev_event_type event = QueuePressure"
  using assms by (auto simp: evaluate_queue_def evaluate_threshold_def Let_def case_prod_beta)

theorem lost_critical_event_reported_witness:
  "\<exists>event. snd (evaluate_queue default_config 5 (idle_snapshot\<lparr>qs_capacity := 64, qs_dropped_critical_count := 1\<rparr>)
     (new_rule_engine default_config)) = Some event \<and> ev_level event = LevelCritical \<and> ev_event_type event = QueuePressure"
  by (rule lost_critical_event_reported)
    (simp_all add: new_rule_engine_def default_config_def empty_context_def idle_snapshot_def)

text \<open>
  A full queue reaches the critical threshold of the queue rule whenever that is at most 100 percent: the
  floating-point fill level of a full queue of at most \<open>2 ^ 46\<close> slots is exactly 100.
\<close>

theorem full_queue_reaches_critical:
  assumes "unat (queue_critical_percent cfg) \<le> 100" and "capacity \<noteq> 0" and "unat capacity \<le> 2 ^ 46"
  shows "reaches (queue_rule cfg) (dmax (fill_percent capacity capacity) x) (td_critical_threshold (queue_rule cfg))"
proof -
  have "fill_percent capacity capacity = Fin 100" using fill_percent_bounds(2) [OF assms(3) order_refl] assms(2) by simp
  moreover have "dle (double_of_u32 (queue_critical_percent cfg)) (Fin 100)"
    using assms(1) by (simp add: double_of_u32_exact)
  ultimately show ?thesis
    using dmax_ge [of "Fin 100" x] dle_trans by (auto simp: reaches_def queue_rule_def)
qed

theorem full_queue_reaches_critical_witness:
  "reaches (queue_rule default_config) (dmax (fill_percent 64 64) NaN) (td_critical_threshold (queue_rule default_config))"
  by (rule full_queue_reaches_critical) (simp_all add: default_config_def)

end
