(* ===== verification/Spsc_Concurrent.thy ===== *)
theory Spsc_Concurrent
  imports Ring_Buffer
begin

text \<open>
  \<open>SpscRingBuffer\<close> under concurrency: one producer in \<open>emplace\<close>, one consumer in \<open>pop\<close> and one observer in
  \<open>depth\<close> (the monitor reads the depth of queues it does not own), interleaved at every access to an
  index another thread writes. A step is one such access with the local work around it; the
  counters and the watermark are written by the producer only, so their updates are one step each.
  The interleavings are sequentially consistent: the acquire and release orders of the code make
  the slot contents visible with the indices, and a stale index read is an earlier interleaving.

  The invariant says that the accepted items are those popped followed by those queued, and that the
  producer never writes the slot the consumer reads. The last part shows what the observer may see.
\<close>

section \<open>The threads\<close>

datatype 'a producer =
    ProducerIdle
  | LoadedHead event_level 'a size_t
  | NotFull event_level 'a size_t
  | Admitted 'a size_t
  | Written 'a size_t
  | Published

datatype 'a consumer =
    ConsumerIdle
  | LoadedTail size_t
  | NotEmpty size_t
  | Copied size_t 'a

datatype observer =
    ObserverIdle
  | ObservedHead size_t
  | ObservedDepth size_t

record 'a spsc =
  shared :: "'a ring"
  producer :: "'a producer"
  consumer :: "'a consumer"
  observer :: observer
  history_in :: "'a list"
  history_out :: "'a list"

definition spsc_start :: "'a ring \<Rightarrow> 'a spsc" where
  "spsc_start r = \<lparr>shared = r, producer = ProducerIdle, consumer = ConsumerIdle, observer = ObserverIdle,
     history_in = [], history_out = []\<rparr>"

text \<open>\<open>depth\<close> computed from two separate loads.\<close>

definition depth_of_loads :: "'a ring \<Rightarrow> size_t \<Rightarrow> size_t \<Rightarrow> size_t" where
  "depth_of_loads r head tail =
     (if tail \<le> head then head - tail else rb_capacity r - tail + head)"

inductive producer_step :: "'a spsc \<Rightarrow> 'a spsc \<Rightarrow> bool" where
  load_head:
    "producer s = ProducerIdle \<Longrightarrow>
     producer_step s (s\<lparr>producer := LoadedHead level x (rb_head (shared s))\<rparr>)"
| full:
    "producer s = LoadedHead level x h \<Longrightarrow> increment (shared s) h = rb_tail (shared s) \<Longrightarrow>
     producer_step s (s\<lparr>shared := record_drop level False (shared s), producer := ProducerIdle\<rparr>)"
| not_full:
    "producer s = LoadedHead level x h \<Longrightarrow> increment (shared s) h \<noteq> rb_tail (shared s) \<Longrightarrow>
     producer_step s (s\<lparr>producer := NotFull level x h\<rparr>)"
| reserve:
    "producer s = NotFull level x h \<Longrightarrow> should_reject_for_reserve (shared s) level \<Longrightarrow>
     producer_step s (s\<lparr>shared := record_drop level True (shared s), producer := ProducerIdle\<rparr>)"
| admit:
    "producer s = NotFull level x h \<Longrightarrow> \<not> should_reject_for_reserve (shared s) level \<Longrightarrow>
     producer_step s (s\<lparr>producer := Admitted x h\<rparr>)"
| write_slot:
    "producer s = Admitted x h \<Longrightarrow>
     producer_step s (s\<lparr>shared := (shared s)\<lparr>rb_buffer := (rb_buffer (shared s))[unat h := x]\<rparr>,
                        producer := Written x h\<rparr>)"
| publish:
    "producer s = Written x h \<Longrightarrow>
     producer_step s (s\<lparr>shared := (shared s)\<lparr>rb_head := increment (shared s) h\<rparr>,
                        producer := Published, history_in := history_in s @ [x]\<rparr>)"
| watermark:
    "producer s = Published \<Longrightarrow>
     producer_step s (s\<lparr>shared := update_high_watermark (shared s), producer := ProducerIdle\<rparr>)"

inductive consumer_step :: "'a spsc \<Rightarrow> 'a spsc \<Rightarrow> bool" where
  load_tail:
    "consumer s = ConsumerIdle \<Longrightarrow>
     consumer_step s (s\<lparr>consumer := LoadedTail (rb_tail (shared s))\<rparr>)"
| empty:
    "consumer s = LoadedTail t \<Longrightarrow> t = rb_head (shared s) \<Longrightarrow>
     consumer_step s (s\<lparr>consumer := ConsumerIdle\<rparr>)"
| not_empty:
    "consumer s = LoadedTail t \<Longrightarrow> t \<noteq> rb_head (shared s) \<Longrightarrow>
     consumer_step s (s\<lparr>consumer := NotEmpty t\<rparr>)"
| read_slot:
    "consumer s = NotEmpty t \<Longrightarrow>
     consumer_step s (s\<lparr>consumer := Copied t (rb_buffer (shared s) ! unat t)\<rparr>)"
| release_slot:
    "consumer s = Copied t x \<Longrightarrow>
     consumer_step s (s\<lparr>shared := (shared s)\<lparr>rb_tail := increment (shared s) t\<rparr>,
                        consumer := ConsumerIdle, history_out := history_out s @ [x]\<rparr>)"

inductive observer_step :: "'a spsc \<Rightarrow> 'a spsc \<Rightarrow> bool" where
  observe_head:
    "observer_step s (s\<lparr>observer := ObservedHead (rb_head (shared s))\<rparr>)"
| observe_tail:
    "observer s = ObservedHead h \<Longrightarrow>
     observer_step s (s\<lparr>observer := ObservedDepth (depth_of_loads (shared s) h (rb_tail (shared s)))\<rparr>)"

inductive spsc_step :: "'a spsc \<Rightarrow> 'a spsc \<Rightarrow> bool" where
  by_producer: "producer_step s s' \<Longrightarrow> spsc_step s s'"
| by_consumer: "consumer_step s s' \<Longrightarrow> spsc_step s s'"
| by_observer: "observer_step s s' \<Longrightarrow> spsc_step s s'"

inductive reachable :: "'a ring \<Rightarrow> 'a spsc \<Rightarrow> bool" for r where
  start: "reachable r (spsc_start r)"
| step: "reachable r s \<Longrightarrow> spsc_step s s' \<Longrightarrow> reachable r s'"

inductive_cases producer_stepE: "producer_step s s'"
inductive_cases consumer_stepE: "consumer_step s s'"
inductive_cases observer_stepE: "observer_step s s'"

section \<open>The invariant\<close>

definition producer_ok :: "'a ring \<Rightarrow> 'a producer \<Rightarrow> bool" where
  "producer_ok r p \<longleftrightarrow>
     (case p of
        LoadedHead l x h \<Rightarrow> h = rb_head r
      | NotFull l x h \<Rightarrow> h = rb_head r \<and> increment r (rb_head r) \<noteq> rb_tail r
      | Admitted x h \<Rightarrow> h = rb_head r \<and> increment r (rb_head r) \<noteq> rb_tail r
      | Written x h \<Rightarrow> h = rb_head r \<and> increment r (rb_head r) \<noteq> rb_tail r \<and> rb_buffer r ! unat h = x
      | _ \<Rightarrow> True)"

definition consumer_ok :: "'a ring \<Rightarrow> 'a consumer \<Rightarrow> bool" where
  "consumer_ok r c \<longleftrightarrow>
     (case c of
        LoadedTail t \<Rightarrow> t = rb_tail r
      | NotEmpty t \<Rightarrow> t = rb_tail r \<and> rb_tail r \<noteq> rb_head r
      | Copied t x \<Rightarrow> t = rb_tail r \<and> rb_tail r \<noteq> rb_head r \<and> x = hd (ring_items r)
      | _ \<Rightarrow> True)"

definition spsc_ok :: "'a spsc \<Rightarrow> bool" where
  "spsc_ok s \<longleftrightarrow>
     ring_wf (shared s) \<and> producer_ok (shared s) (producer s) \<and> consumer_ok (shared s) (consumer s) \<and>
     history_in s = history_out s @ ring_items (shared s)"

lemma empty_iff: "ring_wf r \<Longrightarrow> rb_tail r = rb_head r \<longleftrightarrow> ring_items r = []"
proof
  assume wf: "ring_wf r" and "ring_items r = []"
  then show "rb_tail r = rb_head r" using pop_nonempty(1) [OF wf] ring_items_length [of r] by fastforce
qed (simp add: ring_items_def depth_def)

text \<open>Writing the free slot at the head does not change the queued items.\<close>

lemma write_head_slot:
  assumes "ring_wf r"
  shows "ring_items (r\<lparr>rb_buffer := (rb_buffer r)[unat (rb_head r) := x]\<rparr>) = ring_items r"
    and "ring_wf (r\<lparr>rb_buffer := (rb_buffer r)[unat (rb_head r) := x]\<rparr>)"
proof -
  let ?c = "unat (rb_capacity r)" and ?t = "unat (rb_tail r)" and ?h = "unat (rb_head r)"
  have "?h \<noteq> (?t + i) mod ?c" if "i < unat (depth r)" for i
    using slot_inj [of i ?c "unat (depth r)" ?t] depth_less [OF assms] tail_plus_depth [OF assms] that by auto
  moreover have "depth (r\<lparr>rb_buffer := (rb_buffer r)[?h := x]\<rparr>) = depth r"
    by (rule depth_cong) simp_all
  ultimately show "ring_items (r\<lparr>rb_buffer := (rb_buffer r)[?h := x]\<rparr>) = ring_items r"
    by (simp add: ring_items_def)
  show "ring_wf (r\<lparr>rb_buffer := (rb_buffer r)[?h := x]\<rparr>)"
    using assms by (simp add: ring_wf_def usable_capacity_def)
qed

text \<open>Publishing the written slot appends it.\<close>

lemma publish_head:
  assumes "ring_wf r" and "increment r (rb_head r) \<noteq> rb_tail r"
  shows "ring_items (r\<lparr>rb_head := increment r (rb_head r)\<rparr>) = ring_items r @ [rb_buffer r ! unat (rb_head r)]"
    and "ring_wf (r\<lparr>rb_head := increment r (rb_head r)\<rparr>)"
proof -
  have eq: "stored (rb_buffer r ! unat (rb_head r)) r = r\<lparr>rb_head := increment r (rb_head r)\<rparr>"
    by (simp add: stored_def)
  show "ring_items (r\<lparr>rb_head := increment r (rb_head r)\<rparr>) = ring_items r @ [rb_buffer r ! unat (rb_head r)]"
    using stored_items [OF assms, of "rb_buffer r ! unat (rb_head r)"] unfolding eq .
  show "ring_wf (r\<lparr>rb_head := increment r (rb_head r)\<rparr>)"
    using stored_wf [OF assms(1), of "rb_buffer r ! unat (rb_head r)"] unfolding eq .
qed

text \<open>Releasing the read slot removes the oldest item, and leaves room.\<close>

lemma release_tail:
  assumes "ring_wf r" and "rb_tail r \<noteq> rb_head r"
  shows "ring_items (r\<lparr>rb_tail := increment r (rb_tail r)\<rparr>) = tl (ring_items r)"
    and "ring_wf (r\<lparr>rb_tail := increment r (rb_tail r)\<rparr>)"
    and "increment r (rb_head r) \<noteq> increment r (rb_tail r)"
proof -
  have eq: "fst (pop r) = r\<lparr>rb_tail := increment r (rb_tail r)\<rparr>"
    using assms(2) by (simp add: pop_def Let_def)
  show it: "ring_items (r\<lparr>rb_tail := increment r (rb_tail r)\<rparr>) = tl (ring_items r)"
    using pop_items(1) [OF assms(1)] unfolding eq .
  show wf: "ring_wf (r\<lparr>rb_tail := increment r (rb_tail r)\<rparr>)"
    using pop_items(2) [OF assms(1)] unfolding eq .
  let ?r = "r\<lparr>rb_tail := increment r (rb_tail r)\<rparr>"
  have "ring_items r \<noteq> []" using assms empty_iff by blast
  then have "length (ring_items ?r) < ring_bound r"
    using it rb.items_bound [OF assms(1)] by (cases "ring_items r") auto
  moreover have "ring_bound ?r = ring_bound r" by (simp add: ring_bound_def usable_capacity_def)
  ultimately have "increment ?r (rb_head ?r) \<noteq> rb_tail ?r"
    using full_iff [OF wf] by simp
  then show "increment r (rb_head r) \<noteq> increment r (rb_tail r)" by (simp add: increment_def)
qed

lemma producer_ok_cong:
  assumes "rb_head r' = rb_head r" "rb_tail r' = rb_tail r" "rb_capacity r' = rb_capacity r" "rb_buffer r' = rb_buffer r"
  shows "producer_ok r' p = producer_ok r p" and "consumer_ok r' c = consumer_ok r c" and "ring_items r' = ring_items r"
proof -
  show it: "ring_items r' = ring_items r" using assms by (intro ring_items_cong) simp_all
  show "producer_ok r' p = producer_ok r p" "consumer_ok r' c = consumer_ok r c"
    using assms it by (auto simp: producer_ok_def consumer_ok_def increment_def split: producer.splits consumer.splits)
qed

lemma spsc_start_ok: "ring_wf r \<Longrightarrow> ring_items r = [] \<Longrightarrow> spsc_ok (spsc_start r)"
  by (simp add: spsc_ok_def spsc_start_def producer_ok_def consumer_ok_def)

lemma consumer_ok_more:
  assumes "consumer_ok r c" and "ring_wf r" and "ring_wf r'" and "rb_tail r' = rb_tail r"
    and "ring_items r' = ring_items r @ xs"
  shows "consumer_ok r' c"
  using assms empty_iff [OF assms(2)] empty_iff [OF assms(3)]
  by (auto simp: consumer_ok_def split: consumer.splits)

lemma producer_step_ok:
  assumes "producer_step s s'" and "spsc_ok s"
  shows "spsc_ok s'"
  using assms(1)
proof cases
  case (full level x h)
  then show ?thesis using assms(2)
    by (simp add: spsc_ok_def record_drop_wf producer_ok_cong [of "record_drop l b r" r for l b r] producer_ok_def [of _ ProducerIdle])
next
  case (reserve level x h)
  then show ?thesis using assms(2)
    by (simp add: spsc_ok_def record_drop_wf producer_ok_cong [of "record_drop l b r" r for l b r] producer_ok_def [of _ ProducerIdle])
next
  case (write_slot x h)
  have h: "h = rb_head (shared s)" "increment (shared s) (rb_head (shared s)) \<noteq> rb_tail (shared s)"
    using assms(2) write_slot by (auto simp: spsc_ok_def producer_ok_def)
  have wf: "ring_wf (shared s)" using assms(2) by (simp add: spsc_ok_def)
  have "unat h < length (rb_buffer (shared s))" using wf h(1) by (simp add: ring_wf_def word_less_nat_alt)
  then show ?thesis
    using write_slot assms(2) h write_head_slot [OF wf, of x]
      consumer_ok_more [of "shared s" "consumer s" "(shared s)\<lparr>rb_buffer := (rb_buffer (shared s))[unat (rb_head (shared s)) := x]\<rparr>" "[]"]
    by (auto simp: spsc_ok_def producer_ok_def increment_def)
next
  case (publish x h)
  have h: "h = rb_head (shared s)" "increment (shared s) (rb_head (shared s)) \<noteq> rb_tail (shared s)"
    "rb_buffer (shared s) ! unat h = x"
    using assms(2) publish by (auto simp: spsc_ok_def producer_ok_def)
  have wf: "ring_wf (shared s)" using assms(2) by (simp add: spsc_ok_def)
  show ?thesis
    using publish assms(2) h publish_head [OF wf h(2)]
      consumer_ok_more [of "shared s" "consumer s" "(shared s)\<lparr>rb_head := increment (shared s) (rb_head (shared s))\<rparr>" "[x]"]
    by (auto simp: spsc_ok_def producer_ok_def)
next
  case watermark
  then show ?thesis using assms(2)
    by (simp add: spsc_ok_def update_high_watermark_wf producer_ok_cong [of "update_high_watermark r" r for r] producer_ok_def [of _ ProducerIdle])
qed (use assms(2) in \<open>auto simp: spsc_ok_def producer_ok_def\<close>)

lemma consumer_step_ok:
  assumes "consumer_step s s'" and "spsc_ok s"
  shows "spsc_ok s'"
  using assms(1)
proof cases
  case (read_slot t)
  then show ?thesis using assms(2) pop_nonempty(2) [of "shared s"]
    by (auto simp: spsc_ok_def consumer_ok_def)
next
  case (release_slot t x)
  have wf: "ring_wf (shared s)" using assms(2) by (simp add: spsc_ok_def)
  have t: "t = rb_tail (shared s)" "rb_tail (shared s) \<noteq> rb_head (shared s)" "x = hd (ring_items (shared s))"
    using assms(2) release_slot by (auto simp: spsc_ok_def consumer_ok_def)
  have ne: "ring_items (shared s) \<noteq> []" using t(2) empty_iff [OF wf] by blast
  show ?thesis
    using release_slot assms(2) t ne release_tail [OF wf t(2)]
    by (auto simp: spsc_ok_def consumer_ok_def producer_ok_def increment_def split: producer.splits)
qed (use assms(2) in \<open>auto simp: spsc_ok_def consumer_ok_def\<close>)

lemma reachable_ok:
  assumes "reachable r s" and "ring_wf r" and "ring_items r = []"
  shows "spsc_ok s"
  using assms(1)
proof induction
  case start
  then show ?case using assms by (simp add: spsc_start_ok)
next
  case (step s s')
  from step.hyps(2) show ?case
  proof cases
    case by_producer
    then show ?thesis using step.IH producer_step_ok by blast
  next
    case by_consumer
    then show ?thesis using step.IH consumer_step_ok by blast
  next
    case by_observer
    then show ?thesis using step.IH by (auto elim!: observer_stepE simp: spsc_ok_def)
  qed
qed

section \<open>The atomic operations are the uninterrupted runs\<close>

lemma producer_run_admit:
  assumes "producer s = ProducerIdle" and "ring_accepts l (shared s)"
  shows "producer_step\<^sup>*\<^sup>* s (s\<lparr>producer := Admitted x (rb_head (shared s))\<rparr>)"
proof -
  let ?r = "shared s" and ?h = "rb_head (shared s)"
  let ?s1 = "s\<lparr>producer := LoadedHead l x ?h\<rparr>"
  let ?s2 = "s\<lparr>producer := NotFull l x ?h\<rparr>"
  let ?s3 = "s\<lparr>producer := Admitted x ?h\<rparr>"
  have a: "increment ?r ?h \<noteq> rb_tail ?r" "\<not> should_reject_for_reserve ?r l"
    using assms(2) by (simp_all add: ring_accepts_def)
  have 1: "producer_step s ?s1" using assms(1) by (rule load_head)
  have 2: "producer_step ?s1 ?s2" using not_full [of ?s1 l x ?h] a by simp
  have 3: "producer_step ?s2 ?s3" using admit [of ?s2 l x ?h] a by simp
  show ?thesis using 1 2 3 by (meson converse_rtranclp_into_rtranclp rtranclp.rtrancl_refl)
qed

lemma producer_run_accept:
  assumes "producer s = ProducerIdle" and "ring_accepts l (shared s)"
  shows "producer_step\<^sup>*\<^sup>* s (s\<lparr>shared := fst (push l x (shared s)), history_in := history_in s @ [x]\<rparr>)"
proof -
  let ?r = "shared s" and ?h = "rb_head (shared s)"
  let ?s3 = "s\<lparr>producer := Admitted x ?h\<rparr>"
  let ?s4 = "s\<lparr>shared := ?r\<lparr>rb_buffer := (rb_buffer ?r)[unat ?h := x]\<rparr>, producer := Written x ?h\<rparr>"
  let ?s5 = "s\<lparr>shared := stored x ?r, producer := Published, history_in := history_in s @ [x]\<rparr>"
  let ?s6 = "s\<lparr>shared := fst (push l x ?r), history_in := history_in s @ [x]\<rparr>"
  have 4: "producer_step ?s3 ?s4" using write_slot [of ?s3 x ?h] by simp
  have 5: "producer_step ?s4 ?s5" using publish [of ?s4 x ?h] by (simp add: stored_def increment_def)
  have "?s5\<lparr>shared := update_high_watermark (shared ?s5), producer := ProducerIdle\<rparr> = ?s6"
    using assms by (intro spsc.equality) (simp_all add: push_eq)
  then have 6: "producer_step ?s5 ?s6" using watermark [of ?s5] by simp
  show ?thesis using producer_run_admit [OF assms, of x] 4 5 6 by (meson rtranclp.rtrancl_into_rtrancl)
qed

lemma producer_run_refuse:
  assumes "producer s = ProducerIdle" and "\<not> ring_accepts l (shared s)"
  shows "producer_step\<^sup>*\<^sup>* s (s\<lparr>shared := fst (push l x (shared s))\<rparr>)"
proof -
  let ?r = "shared s" and ?h = "rb_head (shared s)"
  let ?s1 = "s\<lparr>producer := LoadedHead l x ?h\<rparr>"
  let ?s2 = "s\<lparr>producer := NotFull l x ?h\<rparr>"
  let ?s6 = "s\<lparr>shared := fst (push l x ?r)\<rparr>"
  have end_eq: "s\<lparr>producer := p, shared := fst (push l x ?r), producer := ProducerIdle\<rparr> = ?s6" for p
    using assms by (intro spsc.equality) simp_all
  have 1: "producer_step s ?s1" using assms(1) by (rule load_head)
  show ?thesis
  proof (cases "increment ?r ?h = rb_tail ?r")
    case True
    then have "producer_step ?s1 ?s6"
      using full [of ?s1 l x ?h] end_eq [of "LoadedHead l x ?h"] assms(2) by (simp add: push_eq)
    then show ?thesis using 1 by (meson converse_rtranclp_into_rtranclp rtranclp.rtrancl_refl)
  next
    case False
    have 2: "producer_step ?s1 ?s2" using not_full [of ?s1 l x ?h] False by simp
    have "should_reject_for_reserve ?r l" using assms(2) False by (simp add: ring_accepts_def)
    then have "producer_step ?s2 ?s6"
      using reserve [of ?s2 l x ?h] end_eq [of "NotFull l x ?h"] assms(2) False by (simp add: push_eq)
    then show ?thesis using 1 2 by (meson converse_rtranclp_into_rtranclp rtranclp.rtrancl_refl)
  qed
qed

lemma consumer_run_pop:
  assumes "consumer s = ConsumerIdle"
  shows "consumer_step\<^sup>*\<^sup>* s (s\<lparr>shared := fst (pop (shared s)),
    history_out := history_out s @ (case snd (pop (shared s)) of None \<Rightarrow> [] | Some x \<Rightarrow> [x])\<rparr>)"
proof -
  let ?r = "shared s" and ?t = "rb_tail (shared s)"
  let ?s1 = "s\<lparr>consumer := LoadedTail ?t\<rparr>"
  let ?s2 = "s\<lparr>consumer := NotEmpty ?t\<rparr>"
  let ?s3 = "s\<lparr>consumer := Copied ?t (rb_buffer ?r ! unat ?t)\<rparr>"
  have 1: "consumer_step s ?s1" using assms by (rule load_tail)
  show ?thesis
  proof (cases "?t = rb_head ?r")
    case True
    have "?s1\<lparr>consumer := ConsumerIdle\<rparr> = s" using assms by (intro spsc.equality) simp_all
    then have "consumer_step ?s1 s" using empty [of ?s1 ?t] True by simp
    moreover have "s\<lparr>shared := fst (pop ?r), history_out := history_out s @ []\<rparr> = s"
      using True by (intro spsc.equality) (simp_all add: pop_def Let_def)
    moreover have "snd (pop ?r) = None" using True by (simp add: pop_def Let_def)
    ultimately show ?thesis using 1
      by simp
  next
    case False
    let ?s4 = "s\<lparr>shared := fst (pop ?r), history_out := history_out s @ [rb_buffer ?r ! unat ?t]\<rparr>"
    have 2: "consumer_step ?s1 ?s2" using not_empty [of ?s1 ?t] False by simp
    have 3: "consumer_step ?s2 ?s3" using read_slot [of ?s2 ?t] by simp
    have "?s3\<lparr>shared := (shared ?s3)\<lparr>rb_tail := increment (shared ?s3) ?t\<rparr>, consumer := ConsumerIdle,
        history_out := history_out ?s3 @ [rb_buffer ?r ! unat ?t]\<rparr> = ?s4"
      using assms False by (intro spsc.equality) (simp_all add: pop_def Let_def)
    then have 4: "consumer_step ?s3 ?s4"
      using release_slot [of ?s3 ?t "rb_buffer ?r ! unat ?t"] by simp
    have "snd (pop ?r) = Some (rb_buffer ?r ! unat ?t)" using False by (simp add: pop_def Let_def)
    then show ?thesis using 1 2 3 4
      by simp
  qed
qed

lemma reachable_producer_run: "reachable r s \<Longrightarrow> producer_step\<^sup>*\<^sup>* s s' \<Longrightarrow> reachable r s'"
  by (rotate_tac 1, induction rule: rtranclp_induct) (auto intro: reachable.step by_producer)

lemma reachable_consumer_run: "reachable r s \<Longrightarrow> consumer_step\<^sup>*\<^sup>* s s' \<Longrightarrow> reachable r s'"
  by (rotate_tac 1, induction rule: rtranclp_induct) (auto intro: reachable.step by_consumer)

section \<open>Properties\<close>

text \<open>
  C3: in every interleaving of one producer, one consumer and an observer, the items the consumer has taken,
  followed by those in the queue, are the items the producer has published, in order: none is lost,
  duplicated, reordered or read half-written.
\<close>

theorem spsc_order_preserved:
  assumes "reachable (new_ring fill cap reserved drop_info drop_warning) s" and "cap \<noteq> - 1"
  shows "history_in s = history_out s @ ring_items (shared s) \<and> length (ring_items (shared s)) \<le> ring_bound (shared s)"
  using reachable_ok [OF assms(1) new_ring_wf [OF assms(2)]] rb.items_bound
  by (auto simp: spsc_ok_def)



lemma small_queue_pushed:
  "snd (push LevelInfo 7 (new_ring (0 :: nat) 2 0 False False))"
  "ring_items (fst (push LevelInfo 7 (new_ring (0 :: nat) 2 0 False False))) = [7]"
  by code_simp+

lemma small_queue_reachable:
  "reachable (new_ring (0 :: nat) 2 0 False False)
    ((spsc_start (new_ring 0 2 0 False False))\<lparr>shared := fst (push LevelInfo 7 (new_ring 0 2 0 False False)),
       history_in := [7]\<rparr>)"
  using reachable_producer_run [OF reachable.start producer_run_accept [of "spsc_start (new_ring (0 :: nat) 2 0 False False)" LevelInfo 7]]
    small_queue_pushed(1)
  by (simp add: spsc_start_def push_eq split: if_splits)

theorem spsc_order_preserved_witness:
  "[7 :: nat] = [] @ ring_items (fst (push LevelInfo 7 (new_ring 0 2 0 False False)))"
  using spsc_order_preserved [OF small_queue_reachable] by (simp add: spsc_start_def)

text \<open>
  The producer never writes the slot the consumer is about to read.
\<close>

theorem spsc_slots_exclusive:
  assumes "reachable (new_ring fill cap reserved drop_info drop_warning) s" and "cap \<noteq> - 1"
    and "producer s = Admitted x h" and "consumer s = NotEmpty t"
  shows "h \<noteq> t \<and> unat h < length (rb_buffer (shared s)) \<and> unat t < length (rb_buffer (shared s))"
  using reachable_ok [OF assms(1) new_ring_wf [OF assms(2)]] assms(3,4)
  by (auto simp: spsc_ok_def producer_ok_def consumer_ok_def ring_wf_def word_less_nat_alt)

lemma small_queue_contended:
  "reachable (new_ring (0 :: nat) 2 0 False False)
    ((spsc_start (new_ring 0 2 0 False False))\<lparr>shared := fst (push LevelInfo 7 (new_ring 0 2 0 False False)),
       producer := Admitted 8 1, consumer := NotEmpty 0, history_in := [7]\<rparr>)"
proof -
  let ?r = "new_ring (0 :: nat) 2 0 False False"
  let ?r1 = "fst (push LevelInfo 7 ?r)"
  let ?s = "(spsc_start ?r)\<lparr>shared := ?r1, history_in := [7]\<rparr>"
  have f: "rb_head ?r1 = 1" "rb_tail ?r1 = 0" "snd (push LevelInfo 8 ?r1)" by code_simp+
  then have "ring_accepts LevelInfo ?r1" by (simp add: push_eq [of LevelInfo 8 ?r1] split: if_splits)
  then have "reachable ?r (?s\<lparr>producer := Admitted 8 1\<rparr>)"
    using reachable_producer_run [OF small_queue_reachable producer_run_admit [of ?s LevelInfo 8]] f
    by (simp add: spsc_start_def)
  moreover have "consumer_step\<^sup>*\<^sup>* (?s\<lparr>producer := Admitted 8 1\<rparr>)
      (?s\<lparr>producer := Admitted 8 1, consumer := NotEmpty 0\<rparr>)"
    using load_tail [of "?s\<lparr>producer := Admitted 8 1\<rparr>"]
      not_empty [of "?s\<lparr>producer := Admitted 8 1, consumer := LoadedTail 0\<rparr>" 0] f
    by (simp add: spsc_start_def)
  ultimately show ?thesis using reachable_consumer_run by (fastforce simp: spsc_start_def)
qed

theorem spsc_slots_exclusive_witness:
  "(1 :: size_t) \<noteq> 0 \<and> unat (1 :: size_t) < length (rb_buffer (fst (push LevelInfo 7 (new_ring (0 :: nat) 2 0 False False))))"
  using spsc_slots_exclusive [OF small_queue_contended, of 8 1 0] by simp

text \<open>
  The depth another thread reads can be the full capacity of a queue that never held more than one item: the
  head is loaded, one item passes through the queue, and the tail loaded afterwards is ahead of the
  head.
\<close>

theorem observer_depth_torn:
  assumes "cap \<noteq> 0" and "cap \<noteq> - 1"
  shows "\<exists>s. reachable (new_ring fill cap 0 False False) s \<and> observer s = ObservedDepth cap \<and>
    history_in s = [x] \<and> history_out s = [x] \<and> ring_items (shared s) = []"
proof -
  let ?r = "new_ring fill cap 0 False False"
  let ?s0 = "(spsc_start ?r)\<lparr>observer := ObservedHead 0\<rparr>"
  have one: "(1 :: size_t) mod (cap + 1) = 1"
  proof -
    have "cap < - 1" using assms(2) by (simp add: word_order.not_eq_extremum)
    then have "unat (cap + 1) = unat cap + 1" by (rule unat_add_1)
    moreover have "0 < unat cap" using assms(1) by (simp add: unat_gt_0)
    ultimately have "1 < cap + 1" by (simp add: word_less_nat_alt)
    then show ?thesis by (simp add: word_arith_nat_mod word_less_nat_alt)
  qed
  have wf: "ring_wf ?r" using assms(2) by (rule new_ring_wf)
  have acc: "ring_accepts LevelInfo ?r"
    using one by (simp add: ring_accepts_def increment_def new_ring_def should_reject_for_reserve_def)
  let ?r1 = "fst (push LevelInfo x ?r)"
  have r1: "rb_head ?r1 = 1" "rb_tail ?r1 = 0" "rb_capacity ?r1 = cap + 1" "snd (push LevelInfo x ?r)"
    using acc one by (simp_all add: push_eq increment_def new_ring_def)
  have items1: "ring_items ?r1 = [x]" using push_items [OF wf, of LevelInfo x] acc by simp
  let ?s1 = "?s0\<lparr>shared := ?r1, history_in := [x]\<rparr>"
  let ?s2 = "?s1\<lparr>shared := fst (pop ?r1), history_out := [x]\<rparr>"
  have "reachable ?r ?s0"
    using reachable.step [OF reachable.start by_observer [OF observe_head [of "spsc_start ?r"]]]
    by (simp add: spsc_start_def new_ring_def)
  then have "reachable ?r ?s1"
    using reachable_producer_run [OF _ producer_run_accept [of ?s0 LevelInfo x]] acc
    by (simp add: spsc_start_def)
  moreover have "snd (pop ?r1) = Some x" using pop_result [OF push_wf [OF wf], of LevelInfo x] items1 by simp
  ultimately have s2: "reachable ?r ?s2"
    using reachable_consumer_run [OF _ consumer_run_pop [of ?s1]] by (simp add: spsc_start_def)
  have pop1: "rb_tail (fst (pop ?r1)) = 1" "rb_capacity (fst (pop ?r1)) = cap + 1"
    using r1 one by (simp_all add: pop_def Let_def increment_def)
  let ?s3 = "?s2\<lparr>observer := ObservedDepth cap\<rparr>"
  have "observer_step ?s2 ?s3"
    using observe_tail [of ?s2 0] pop1 by (simp add: depth_of_loads_def)
  then have "reachable ?r ?s3" using reachable.step [OF s2 by_observer] by blast
  moreover have "ring_items (fst (pop ?r1)) = []" using pop_items(1) [OF push_wf [OF wf], of LevelInfo x] items1 by simp
  ultimately show ?thesis by (intro exI [of _ ?s3]) simp
qed

theorem observer_depth_torn_witness:
  "\<exists>s. reachable (new_ring (0 :: nat) 4096 0 False False) s \<and> observer s = ObservedDepth 4096 \<and>
    history_in s = [7] \<and> history_out s = [7] \<and> ring_items (shared s) = []"
  by (rule observer_depth_torn) simp_all

end
