(* ===== verification/Serializer.thy ===== *)
theory Serializer
  imports Config_Data Events "HOL-Library.Monad_Syntax"
begin

text \<open>
  \<^verbatim>\<open>src/storage/event_serializer.cpp\<close>: one event as one line of JSON. \<open>append_double\<close> prints into a buffer of
  64 characters and appends as many characters as the whole text has; reading past the buffer is
  undefined behaviour, the value \<open>None\<close> here, so \<open>to_json_line\<close> is partial.

  The lemmas show when the line is defined, that it is one line, and that the string literals in it
  read back as the strings written, with a reference reader of JSON string literals.
\<close>

section \<open>Appending values\<close>

definition escape_char :: "char \<Rightarrow> string" where
  "escape_char c =
     (if c = CHR 0x22 then [CHR 0x5C, CHR 0x22]
      else if c = CHR 0x5C then [CHR 0x5C, CHR 0x5C]
      else if c = CHR 0x08 then [CHR 0x5C, CHR ''b'']
      else if c = CHR 0x0C then [CHR 0x5C, CHR ''f'']
      else if c = CHR 0x0A then [CHR 0x5C, CHR ''n'']
      else if c = CHR 0x0D then [CHR 0x5C, CHR ''r'']
      else if c = CHR 0x09 then [CHR 0x5C, CHR ''t'']
      else [c])"

definition escape :: "string \<Rightarrow> string" where
  "escape s = concat (map escape_char s)"

definition append_json_string :: "string \<Rightarrow> string \<Rightarrow> string" where
  "append_json_string output value = output @ [CHR 0x22] @ escape value @ [CHR 0x22]"

definition append_unsigned :: "string \<Rightarrow> 'a::len word \<Rightarrow> string" where
  "append_unsigned output value = output @ show_word value"

definition append_signed :: "string \<Rightarrow> 'a::len word \<Rightarrow> string" where
  "append_signed output value = output @ show_sword value"

text \<open>
  \<open>printf\<close> with \<open>%.3f\<close>: the value rounded half to even to three decimals, as digits, a point and three
  digits; the sign is that of the value, also when it rounds to zero.
\<close>

definition fixed_3 :: "rat \<Rightarrow> string" where
  "fixed_3 q =
     (let thousandths = nat (round_half_even (\<bar>q\<bar> * 1000))
      in (if q < 0 then ''-'' else []) @ show_nat (thousandths div 1000) @ ''.'' @
         pad_zero 3 (show_nat (thousandths mod 1000)))"

definition printf_3 :: "double \<Rightarrow> string" where
  "printf_3 x = (case x of NaN \<Rightarrow> ''nan'' | PInf \<Rightarrow> ''inf'' | NInf \<Rightarrow> ''-inf'' | Fin q \<Rightarrow> fixed_3 q)"

text \<open>
  \<open>snprintf\<close> stores at most 63 characters and a NUL, and returns the length of the whole text;
  \<open>append (buffer, written)\<close> then reads that many characters.
\<close>

definition append_double :: "string \<Rightarrow> double \<Rightarrow> string option" where
  "append_double output value =
     (let text = printf_3 value; buffer = take 63 text @ [CHR 0x00]; written = length text
      in if written \<le> 64 then Some (output @ take written buffer) else None)"

definition append_field_name :: "string \<Rightarrow> string \<Rightarrow> string" where
  "append_field_name output name = output @ '','' @ [CHR 0x22] @ name @ [CHR 0x22] @ '':''"

section \<open>The line\<close>

definition line_head :: "monitor_config \<Rightarrow> internal_event \<Rightarrow> string" where
  "line_head cfg event =
     (let out = ''{'' @ [CHR 0x22] @ ''event_id'' @ [CHR 0x22] @ '':'';
          out = out @ [CHR 0x22] @ escape (device_id cfg) @ ''-'';
          out = append_unsigned out (ev_sequence event) @ [CHR 0x22];
          out = append_json_string (append_field_name out ''device_id'') (device_id cfg);
          out = append_json_string (append_field_name out ''platform'') (platform cfg);
          out = append_json_string (append_field_name out ''software_version'') (software_version cfg);
          out = append_json_string (append_field_name out ''config_version'') (config_version cfg);
          out = append_unsigned (append_field_name out ''timestamp_ms'') (ev_realtime_ms event);
          out = append_unsigned (append_field_name out ''monotonic_ms'') (ev_monotonic_ms event);
          out = append_unsigned (append_field_name out ''boottime_ms'') (ev_boottime_ms event);
          out = append_json_string (append_field_name out ''module'') ''linux_stability_monitor'';
          out = append_unsigned (append_field_name out ''rule_id'') (ev_rule_id event);
          out = append_json_string (append_field_name out ''event_type'') (type_to_string (ev_event_type event));
          out = append_json_string (append_field_name out ''level'') (level_to_string (ev_level event));
          out = append_json_string (append_field_name out ''status'') (status_to_string (ev_status event));
          out = append_json_string (append_field_name out ''target'') (ev_target event);
          out = append_signed (append_field_name out ''pid'') (ev_pid event)
      in append_signed (append_field_name out ''tid'') (ev_tid event))"

definition line_tail :: "internal_event \<Rightarrow> string \<Rightarrow> string" where
  "line_tail event out =
     (let out = append_unsigned (append_field_name out ''window_sec'') (ev_window_sec event);
          out = append_unsigned (append_field_name out ''continuous_hit_count'') (ev_continuous_hit_count event);
          out = append_unsigned (append_field_name out ''first_seen_ms'') (ev_first_seen_ms event);
          out = append_unsigned (append_field_name out ''last_seen_ms'') (ev_last_seen_ms event);
          out = append_unsigned (append_field_name out ''hit_count'') (ev_hit_count event)
      in out @ '','' @ [CHR 0x22] @ ''evidence'' @ [CHR 0x22] @ '':{'')"

text \<open>The loop over the evidence items, from index \<open>i\<close> on, over the items not yet written.\<close>

fun append_evidence :: "nat \<Rightarrow> evidence_item list \<Rightarrow> string \<Rightarrow> string option" where
  "append_evidence i [] out = Some out"
| "append_evidence i (item # items) out =
     (let out = (if i \<noteq> 0 then out @ '','' else out);
          out = append_json_string out (item_key item) @ '':''
      in case append_double out (item_value item) of
           None \<Rightarrow> None
         | Some out \<Rightarrow> append_evidence (Suc i) items out)"

definition append_double_field :: "string \<Rightarrow> double \<Rightarrow> string \<Rightarrow> string option" where
  "append_double_field name value out = append_double (append_field_name out name) value"

definition to_json_line :: "monitor_config \<Rightarrow> internal_event \<Rightarrow> string option" where
  "to_json_line cfg event = do {
     out \<leftarrow> append_double_field ''value'' (ev_value event) (line_head cfg event);
     out \<leftarrow> append_double_field ''warning_threshold'' (ev_warning_threshold event) out;
     out \<leftarrow> append_double_field ''critical_threshold'' (ev_critical_threshold event) out;
     out \<leftarrow> append_evidence 0
             (take (min (unat (ev_evidence_count event)) (length (ev_evidence event))) (ev_evidence event))
             (line_tail event out);
     Some (out @ ''}}'' @ [CHR 0x0A])
   }"

section \<open>One line\<close>

lemma escape_char_no_newline: "CHR 0x0A \<notin> set (escape_char c)"
  by (simp add: escape_char_def)

lemma escape_no_newline [simp]: "CHR 0x0A \<notin> set (escape s)"
  using escape_char_no_newline by (auto simp: escape_def)

lemma append_json_string_newline [simp]:
  "CHR 0x0A \<in> set (append_json_string out s) \<longleftrightarrow> CHR 0x0A \<in> set out"
  by (simp add: append_json_string_def)

lemma append_number_newline [simp]:
  "CHR 0x0A \<in> set (append_unsigned out w) \<longleftrightarrow> CHR 0x0A \<in> set out"
  "CHR 0x0A \<in> set (append_signed out w) \<longleftrightarrow> CHR 0x0A \<in> set out"
  by (simp_all add: append_unsigned_def append_signed_def show_word_def show_sword_def)

lemma append_field_name_newline [simp]:
  "CHR 0x0A \<notin> set name \<Longrightarrow> CHR 0x0A \<in> set (append_field_name out name) \<longleftrightarrow> CHR 0x0A \<in> set out"
  by (simp add: append_field_name_def)

lemma printf_3_no_newline: "CHR 0x0A \<notin> set (printf_3 x)"
  by (simp add: printf_3_def fixed_3_def Let_def split: double.split)

lemma append_double_newline:
  assumes "append_double out x = Some out'" and "CHR 0x0A \<notin> set out"
  shows "CHR 0x0A \<notin> set out'"
proof -
  have "CHR 0x0A \<notin> set (take n (take 63 (printf_3 x) @ [CHR 0x00]))"
    for n
    using printf_3_no_newline [of x] by (auto dest!: in_set_takeD)
  then show ?thesis using assms by (auto simp: append_double_def Let_def split: if_splits)
qed

lemma append_evidence_newline:
  "append_evidence i items out = Some out' \<Longrightarrow> CHR 0x0A \<notin> set out \<Longrightarrow> CHR 0x0A \<notin> set out'"
proof (induction i items out arbitrary: out' rule: append_evidence.induct)
  case (2 i item items out)
  then show ?case
    by (auto simp: Let_def split: option.splits if_splits dest!: append_double_newline)
qed simp

lemma line_head_newline: "CHR 0x0A \<notin> set (line_head cfg event)"
proof -
  have "CHR 0x0A \<notin> set (type_to_string t)" for t by (cases t) simp_all
  then show ?thesis by (simp add: line_head_def Let_def)
qed

lemma line_tail_newline: "CHR 0x0A \<notin> set out \<Longrightarrow> CHR 0x0A \<notin> set (line_tail event out)"
  by (simp add: line_tail_def Let_def)

lemma append_double_field_newline:
  "append_double_field name x out = Some out' \<Longrightarrow> CHR 0x0A \<notin> set name \<Longrightarrow> CHR 0x0A \<notin> set out \<Longrightarrow>
   CHR 0x0A \<notin> set out'"
  by (auto simp: append_double_field_def dest!: append_double_newline)

text \<open>The parts of a line that is defined.\<close>

lemma to_json_line_Some:
  assumes "to_json_line cfg event = Some line"
  obtains a b c body where
    "append_double_field ''value'' (ev_value event) (line_head cfg event) = Some a"
    "append_double_field ''warning_threshold'' (ev_warning_threshold event) a = Some b"
    "append_double_field ''critical_threshold'' (ev_critical_threshold event) b = Some c"
    "append_evidence 0 (take (min (unat (ev_evidence_count event)) (length (ev_evidence event))) (ev_evidence event))
       (line_tail event c) = Some body"
    "line = body @ ''}}'' @ [CHR 0x0A]"
  using assms by (auto simp: to_json_line_def bind_eq_Some_conv)

lemma to_json_line_body:
  assumes "to_json_line cfg event = Some line"
  shows "\<exists>body. line = body @ [CHR 0x0A] \<and> body \<noteq> [] \<and> CHR 0x0A \<notin> set body"
proof -
  obtain a b c body where l:
    "append_double_field ''value'' (ev_value event) (line_head cfg event) = Some a"
    "append_double_field ''warning_threshold'' (ev_warning_threshold event) a = Some b"
    "append_double_field ''critical_threshold'' (ev_critical_threshold event) b = Some c"
    "append_evidence 0 (take (min (unat (ev_evidence_count event)) (length (ev_evidence event))) (ev_evidence event))
       (line_tail event c) = Some body"
    "line = body @ ''}}'' @ [CHR 0x0A]"
    using to_json_line_Some [OF assms] .
  have "CHR 0x0A \<notin> set a" using append_double_field_newline [OF l(1)] line_head_newline by simp
  then have "CHR 0x0A \<notin> set b" using append_double_field_newline [OF l(2)] by simp
  then have "CHR 0x0A \<notin> set c" using append_double_field_newline [OF l(3)] by simp
  then have "CHR 0x0A \<notin> set body" using append_evidence_newline [OF l(4)] line_tail_newline by simp
  then show ?thesis using l(5) by (intro exI [of _ "body @ ''}}''"]) simp
qed

section \<open>When the line is defined\<close>

text \<open>The texts that fit the buffer with its NUL, or fill it.\<close>

definition fits_buffer :: "double \<Rightarrow> bool" where
  "fits_buffer x \<longleftrightarrow> length (printf_3 x) \<le> 64"

lemma append_double_defined: "append_double out x \<noteq> None \<longleftrightarrow> fits_buffer x"
  by (simp add: append_double_def fits_buffer_def Let_def)

lemma append_evidence_defined:
  "append_evidence i items out \<noteq> None \<longleftrightarrow> list_all (\<lambda>item. fits_buffer (item_value item)) items"
proof (induction items arbitrary: i out)
  case (Cons item items)
  let ?o = "append_json_string (if i \<noteq> 0 then out @ '','' else out) (item_key item) @ '':''"
  show ?case
    using append_double_defined [of ?o "item_value item"] Cons
    by (cases "append_double ?o (item_value item)") (simp_all add: Let_def del: not_None_eq)
qed simp

lemma append_double_field_defined:
  "append_double_field name x out \<noteq> None \<longleftrightarrow> fits_buffer x"
  unfolding append_double_field_def by (rule append_double_defined)

lemma bind_defined: "Option.bind m f \<noteq> None \<longleftrightarrow> (\<exists>a. m = Some a \<and> f a \<noteq> None)"
  by (cases m) simp_all

text \<open>The printed length of an integer.\<close>

lemma show_nat_length: "n < 10 ^ k \<Longrightarrow> 0 < k \<Longrightarrow> length (show_nat n) \<le> k"
proof (induction n arbitrary: k rule: show_nat.induct)
  case (1 n)
  show ?case
  proof (cases "n < 10")
    case True
    then show ?thesis using 1 by (simp add: show_nat.simps [of n])
  next
    case False
    obtain m where m: "k = Suc m" using "1.prems"(2) by (cases k) auto
    then have "m \<noteq> 0" using "1.prems"(1) False by (cases m) simp_all
    with m have k: "k = Suc m" "0 < m" by simp_all
    have "n div 10 < 10 ^ m" using "1.prems" k by (simp add: less_mult_imp_div_less mult.commute)
    then have "length (show_nat (n div 10)) \<le> m" using 1 False k by blast
    then show ?thesis using k False by (simp add: show_nat.simps [of n])
  qed
qed

lemma show_nat_length_ge: "10 ^ k \<le> n \<Longrightarrow> k < length (show_nat n)"
proof (induction n arbitrary: k rule: show_nat.induct)
  case (1 n)
  show ?case
  proof (cases k)
    case 0
    then show ?thesis by (simp add: length_greater_0_conv)
  next
    case (Suc m)
    then have ge: "10 * 10 ^ m \<le> n" using "1.prems" by simp
    have "(1 :: nat) \<le> 10 ^ m" by simp
    then have "\<not> n < 10" using ge by linarith
    moreover have "10 ^ m \<le> n div 10" using ge by (simp add: less_eq_div_iff_mult_less_eq mult.commute)
    ultimately have "m < length (show_nat (n div 10))" using "1.IH" by blast
    then show ?thesis using Suc \<open>\<not> n < 10\<close> by (simp add: show_nat.simps [of n])
  qed
qed

lemma pad_zero_length [simp]: "length (pad_zero n s) = max n (length s)"
  by (simp add: pad_zero_def)

lemma fits_buffer_bound:
  assumes "\<bar>q\<bar> < 10 ^ 58"
  shows "fits_buffer (Fin q)"
proof -
  let ?t = "nat (round_half_even (\<bar>q\<bar> * 1000))"
  have "round_half_even (\<bar>q\<bar> * 1000) \<le> 10 ^ 61"
    using assms by (intro round_half_even_le_int) simp
  then have "?t \<le> 10 ^ 61" by simp
  then have "?t div 1000 < 10 ^ 59" by (simp add: less_mult_imp_div_less)
  then have "length (show_nat (?t div 1000)) \<le> 59" by (rule show_nat_length) simp
  moreover have "length (show_nat (?t mod 1000)) \<le> 3" by (rule show_nat_length) simp_all
  ultimately show ?thesis
    by (cases "q < 0") (simp_all add: fits_buffer_def printf_3_def fixed_3_def Let_def)
qed

lemma overflow_buffer:
  assumes "10 ^ 61 \<le> \<bar>q\<bar>"
  shows "\<not> fits_buffer (Fin q)"
proof -
  let ?t = "nat (round_half_even (\<bar>q\<bar> * 1000))"
  have "10 ^ 64 \<le> round_half_even (\<bar>q\<bar> * 1000)"
    using assms by (intro round_half_even_ge_int) simp
  then have "10 ^ 64 \<le> ?t" by simp
  then have "10 ^ 61 \<le> ?t div 1000" by (simp add: less_eq_div_iff_mult_less_eq)
  then have "61 < length (show_nat (?t div 1000))" by (rule show_nat_length_ge)
  then show ?thesis by (cases "q < 0") (simp_all add: fits_buffer_def printf_3_def fixed_3_def Let_def)
qed

section \<open>A reader of JSON string literals\<close>

fun unescape_char :: "char \<Rightarrow> char option" where
  "unescape_char c =
     (if c = CHR 0x22 then Some (CHR 0x22) else if c = CHR 0x5C then Some (CHR 0x5C)
      else if c = CHR ''/'' then Some (CHR ''/'') else if c = CHR ''b'' then Some (CHR 0x08)
      else if c = CHR ''f'' then Some (CHR 0x0C) else if c = CHR ''n'' then Some (CHR 0x0A)
      else if c = CHR ''r'' then Some (CHR 0x0D) else if c = CHR ''t'' then Some (CHR 0x09) else None)"

text \<open>The characters of a literal after its opening quote, and what follows the closing one.\<close>

fun read_literal :: "string \<Rightarrow> (string \<times> string) option" where
  "read_literal [] = None"
| "read_literal (c # s) =
     (if c = CHR 0x22 then Some ([], s)
      else if c = CHR 0x5C then
        (case s of
           [] \<Rightarrow> None
         | d # s' \<Rightarrow> (case (unescape_char d, read_literal s') of
                        (Some x, Some (xs, rest)) \<Rightarrow> Some (x # xs, rest)
                      | _ \<Rightarrow> None))
      else map_option (\<lambda>(xs, rest). (c # xs, rest)) (read_literal s))"

definition read_json_string :: "string \<Rightarrow> (string \<times> string) option" where
  "read_json_string s = (case s of [] \<Rightarrow> None | c # s' \<Rightarrow> if c = CHR 0x22 then read_literal s' else None)"

lemma read_literal_escape: "read_literal (escape s @ CHR 0x22 # rest) = Some (s, rest)"
proof (induction s)
  case (Cons c s)
  have "escape (c # s) @ CHR 0x22 # rest = escape_char c @ escape s @ CHR 0x22 # rest"
    by (simp add: escape_def)
  then show ?case using Cons by (simp add: escape_char_def)
qed (simp add: escape_def)

section \<open>Properties\<close>

text \<open>
  A serialised event is one line: it ends with its only newline, whatever characters the configured texts
  and the target contain.
\<close>

theorem json_line_is_one_line:
  assumes "to_json_line cfg event = Some line"
  shows "\<exists>body. line = body @ [CHR 0x0A] \<and> CHR 0x0A \<notin> set body"
  using to_json_line_body [OF assms] by blast

theorem json_line_is_one_line_witness:
  "\<exists>body. the (to_json_line default_config default_event) = body @ [CHR 0x0A] \<and> CHR 0x0A \<notin> set body"
proof -
  have "to_json_line default_config default_event \<noteq> None" by code_simp
  then show ?thesis using json_line_is_one_line [of default_config default_event] by force
qed

text \<open>
  The line is defined exactly when every number of the event prints in at most 64 characters, the size of
  the buffer; numbers below \<open>10 ^ 58\<close> in magnitude, infinities and NaN do.
\<close>

theorem json_line_defined_iff:
  "(to_json_line cfg event \<noteq> None \<longleftrightarrow>
     fits_buffer (ev_value event) \<and> fits_buffer (ev_warning_threshold event) \<and>
     fits_buffer (ev_critical_threshold event) \<and>
     list_all (\<lambda>item. fits_buffer (item_value item))
       (take (min (unat (ev_evidence_count event)) (length (ev_evidence event))) (ev_evidence event))) \<and>
   (\<bar>q\<bar> < 10 ^ 58 \<longrightarrow> fits_buffer (Fin q)) \<and> fits_buffer NaN \<and> fits_buffer PInf \<and> fits_buffer NInf"
proof -
  have "to_json_line cfg event \<noteq> None \<longleftrightarrow>
     fits_buffer (ev_value event) \<and> fits_buffer (ev_warning_threshold event) \<and>
     fits_buffer (ev_critical_threshold event) \<and>
     list_all (\<lambda>item. fits_buffer (item_value item))
       (take (min (unat (ev_evidence_count event)) (length (ev_evidence event))) (ev_evidence event))"
  proof -
    have field: "(\<exists>y. append_double_field n x out = Some y) \<longleftrightarrow> fits_buffer x" for n x out
      using append_double_field_defined [of n x out] by simp
    have items: "(\<exists>y. append_evidence i its out = Some y) \<longleftrightarrow> list_all (\<lambda>item. fits_buffer (item_value item)) its"
      for i its out
      using append_evidence_defined [of i its out] by simp
    show ?thesis
      unfolding to_json_line_def bind_defined
      by (simp add: field items)
  qed
  moreover have "fits_buffer NaN" "fits_buffer PInf" "fits_buffer NInf"
    by (simp_all add: fits_buffer_def printf_3_def)
  ultimately show ?thesis using fits_buffer_bound by blast
qed

theorem json_line_defined_iff_witness: "fits_buffer (Fin 95.5)"
  using json_line_defined_iff [of default_config default_event "95.5"] by simp

text \<open>
  An event with a threshold of \<open>10 ^ 61\<close> or more, as the configuration file may set for the I/O rule, has no
  defined line: the code reads past its buffer.
\<close>

theorem huge_threshold_overreads:
  assumes "10 ^ 61 \<le> q"
  shows "to_json_line cfg (event\<lparr>ev_warning_threshold := Fin q\<rparr>) = None"
proof -
  have "\<not> fits_buffer (Fin q)" using assms by (intro overflow_buffer) simp
  then have "append_double_field ''warning_threshold'' (Fin q) out = None" for out
    using append_double_field_defined by blast
  then show ?thesis by (auto simp: to_json_line_def split: Option.bind_split)
qed

theorem huge_threshold_overreads_witness:
  "to_json_line default_config (default_event\<lparr>ev_warning_threshold := Fin (10 ^ 70)\<rparr>) = None"
  by (rule huge_threshold_overreads) simp


text \<open>
  Other control characters are written as they are, which JSON does not allow inside a string.
\<close>

theorem control_character_unescaped:
  assumes "of_char c < (32 :: nat)" and "c \<notin> {CHR 0x08, CHR 0x09, CHR 0x0A, CHR 0x0C, CHR 0x0D}"
  shows "append_json_string [] [c] = [CHR 0x22, c, CHR 0x22]"
proof -
  have "c \<noteq> CHR 0x22" "c \<noteq> CHR 0x5C" using assms(1) by auto
  then show ?thesis using assms(2) by (simp add: append_json_string_def escape_def escape_char_def)
qed

theorem control_character_unescaped_witness: "append_json_string [] [CHR 0x1B] = [CHR 0x22, CHR 0x1B, CHR 0x22]"
  by (rule control_character_unescaped) simp_all

end
