(* ===== verification/Files.thy ===== *)
theory Files
  imports Text "HOL-Library.AList"
begin

text \<open>
  Files as the sinks use them: a directory is an association list from names to contents; joining and
  taking apart paths; appending to a file; texts whose lines are all ended.
\<close>

section \<open>Paths\<close>

definition join_path :: "string \<Rightarrow> string \<Rightarrow> string" where
  "join_path base name = (if base = [] \<or> last base = CHR ''/'' then base @ name else base @ ''/'' @ name)"

text \<open>\<open>stem\<close> and \<open>extension\<close> of a file name: split at the last dot, unless the name starts with it.\<close>

definition path_stem :: "string \<Rightarrow> string" where
  "path_stem name = (case split_last (CHR ''.'') name of Some (a, b) \<Rightarrow> if a = [] then name else a | None \<Rightarrow> name)"

definition path_extension :: "string \<Rightarrow> string" where
  "path_extension name =
     (case split_last (CHR ''.'') name of Some (a, b) \<Rightarrow> if a = [] then [] else CHR ''.'' # b | None \<Rightarrow> [])"

lemma split_last_append: "c \<notin> set b \<Longrightarrow> split_last c (a @ c # b) = Some (a, b)"
  using split_first_Some [of c "rev b @ c # rev a" "rev b" "rev a"] by (simp add: split_last_def)

lemma path_parts:
  assumes "CHR ''.'' \<notin> set b" and "a \<noteq> []"
  shows "path_stem (a @ CHR ''.'' # b) = a" and "path_extension (a @ CHR ''.'' # b) = CHR ''.'' # b"
  using split_last_append [OF assms(1), of a] assms(2) by (simp_all add: path_stem_def path_extension_def)

lemma digits_value_append: "digits_value (a @ b) = digits_value a * 10 ^ length b + digits_value b"
proof (induction b rule: rev_induct)
  case (snoc c b)
  then show ?case by (simp flip: append_assoc add: algebra_simps)
qed simp

lemma digits_value_zeros: "digits_value (replicate n (CHR ''0'')) = 0"
proof (induction n)
  case (Suc n)
  have "replicate (Suc n) (CHR ''0'') = replicate n (CHR ''0'') @ [CHR ''0'']"
    by (simp add: replicate_append_same)
  then show ?case using Suc by (simp only: digits_value_snoc) (simp add: digit_value_def)
qed simp

lemma digits_value_pad_zero [simp]: "digits_value (pad_zero n s) = digits_value s"
  by (simp add: pad_zero_def digits_value_append digits_value_zeros)

lemma join_path_inject [simp]: "join_path base a = join_path base b \<longleftrightarrow> a = b"
  by (simp add: join_path_def)

section \<open>Directories\<close>

type_synonym directory = "(string \<times> string) list"

definition append_file :: "string \<Rightarrow> string \<Rightarrow> directory \<Rightarrow> directory" where
  "append_file name text dir =
     AList.update name ((case map_of dir name of None \<Rightarrow> [] | Some content \<Rightarrow> content) @ text) dir"

lemma delete_nonkey: "name \<notin> fst ` set dir \<Longrightarrow> AList.delete name dir = dir"
  by (induction dir) auto

lemma set_update_subset: "set (AList.update name content dir) \<subseteq> insert (name, content) (set dir)"
  by (induction dir) auto

lemma map_of_append_file:
  "map_of (append_file name content dir) path =
     (if path = name then Some ((case map_of dir name of None \<Rightarrow> [] | Some old \<Rightarrow> old) @ content) else map_of dir path)"
  by (simp add: append_file_def update_conv)

section \<open>Ended lines\<close>

definition complete :: "string \<Rightarrow> bool" where
  "complete text \<longleftrightarrow> text = [] \<or> last text = CHR 0x0A"

lemma complete_append [simp]: "complete a \<Longrightarrow> complete b \<Longrightarrow> complete (a @ b)"
  by (cases "b = []") (simp_all add: complete_def)

lemma complete_Nil [simp]: "complete []"
  by (simp add: complete_def)

lemma get_lines_append: "complete a \<Longrightarrow> get_lines (a @ b) = get_lines a @ get_lines b"
proof (induction a rule: get_lines.induct)
  case (1 a)
  show ?case
  proof (cases "a = []")
    case False
    then have last: "last a = CHR 0x0A" using 1 by (simp add: complete_def)
    then obtain l rest where split: "split_first (CHR 0x0A) a = Some (l, rest)"
      using False last_in_set [OF False] split_first_None [of "CHR 0x0A" a] by (cases "split_first (CHR 0x0A) a") auto
    then have a: "a = l @ CHR 0x0A # rest" and l: "CHR 0x0A \<notin> set l" by (simp_all add: split_first_Some)
    have "complete rest" using last a by (cases "rest = []") (simp_all add: complete_def)
    then show ?thesis using 1(1) [OF False split refl]  a l by simp
  qed simp
qed

lemma get_lines_no_newline: "line \<in> set (get_lines content) \<Longrightarrow> CHR 0x0A \<notin> set line"
proof (induction content rule: get_lines.induct)
  case (1 content)
  show ?case
  proof (cases "split_first (CHR 0x0A) content")
    case None
    then have "CHR 0x0A \<notin> set content" by (simp add: split_first_None)
    then show ?thesis using 1(2) None by (simp add: get_lines.simps [of content] split: if_splits)
  next
    case (Some parts)
    then obtain l rest where parts: "split_first (CHR 0x0A) content = Some (l, rest)" by (cases parts) simp
    then have content: "content = l @ CHR 0x0A # rest" "CHR 0x0A \<notin> set l" by (simp_all add: split_first_Some)
    have "CHR 0x0A \<notin> set line" if "line \<in> set (get_lines rest)"
      using 1(1) [OF _ parts refl that] content(1) by simp
    then show ?thesis using 1(2) content by auto
  qed
qed

end
