(* ===== verification/Dispatcher.thy ===== *)
theory Dispatcher
  imports Ring_Buffer Config_Data
begin

text \<open>
  \<^verbatim>\<open>src/runtime/event_dispatcher.cpp\<close> with \<open>SinkStats\<close> of \<^verbatim>\<open>interfaces/event_sink.hpp\<close>: a dispatcher moves the events
  of one source queue into the input queue of every sink; the group builds one dispatcher per
  source queue, starts and stops sinks and dispatchers, and adds up their statistics.

  A queue pointer that may be null is an option. The worker loop is a sequence of iterations; the
  argument lists the events that other threads push into the source queue before each of them. The
  loop that drains the source after the stop is proved to end, under the contract \<open>level_queue\<close>.
\<close>

section \<open>Statistics\<close>

record dispatcher_stats =
  ds_consumed_events :: u64
  ds_sink_queue_push_failures :: u64
  ds_sink_queue_dropped_events :: u64
  ds_sink_queue_dropped_critical_events :: u64
  ds_sink_queue_reserve_reject_events :: u64
  ds_sink_queue_depth :: size_t
  ds_sink_queue_capacity :: size_t
  ds_sink_queue_high_watermark :: size_t

definition empty_dispatcher_stats :: dispatcher_stats where
  "empty_dispatcher_stats = \<lparr>ds_consumed_events = 0, ds_sink_queue_push_failures = 0,
     ds_sink_queue_dropped_events = 0, ds_sink_queue_dropped_critical_events = 0,
     ds_sink_queue_reserve_reject_events = 0, ds_sink_queue_depth = 0, ds_sink_queue_capacity = 0,
     ds_sink_queue_high_watermark = 0\<rparr>"

record sink_stats =
  ss_accepted_events :: u64
  ss_dropped_events :: u64
  ss_dropped_critical_events :: u64
  ss_reserve_reject_events :: u64
  ss_written_events :: u64
  ss_write_errors :: u64
  ss_rotated_files :: u64
  ss_fsync_count :: u64
  ss_fsync_failures :: u64
  ss_fsync_rate_limited :: u64
  ss_sent_events :: u64
  ss_send_errors :: u64
  ss_retry_count :: u64
  ss_wal_pending_events :: u64
  ss_wal_bytes :: u64
  ss_wal_overflow_dropped_events :: u64
  ss_queue_depth :: size_t
  ss_queue_capacity :: size_t
  ss_queue_high_watermark :: size_t

section \<open>A dispatcher\<close>

record dispatcher =
  dp_sink_queues :: "internal_event ring option list"
  dp_consumed_events :: u64
  dp_sink_queue_push_failures :: u64

definition new_dispatcher :: "internal_event ring option list \<Rightarrow> dispatcher" where
  "new_dispatcher queues = \<lparr>dp_sink_queues = queues, dp_consumed_events = 0, dp_sink_queue_push_failures = 0\<rparr>"

text \<open>The loop over the sink queues: the queues afterwards and the failures counted.\<close>

fun dispatch_to ::
  "internal_event \<Rightarrow> internal_event ring option list \<Rightarrow> u64 \<Rightarrow> internal_event ring option list \<times> u64" where
  "dispatch_to event [] failures = ([], failures)"
| "dispatch_to event (None # queues) failures =
     (let (queues', failures') = dispatch_to event queues failures in (None # queues', failures'))"
| "dispatch_to event (Some q # queues) failures =
     (let (q', ok) = push (ev_level event) event q;
          (queues', failures') = dispatch_to event queues (if ok then failures else failures + 1)
      in (Some q' # queues', failures'))"

definition dispatch :: "internal_event \<Rightarrow> dispatcher \<Rightarrow> dispatcher" where
  "dispatch event d =
     (let (queues, failures) = dispatch_to event (dp_sink_queues d) (dp_sink_queue_push_failures d)
      in d\<lparr>dp_consumed_events := dp_consumed_events d + 1, dp_sink_queues := queues,
           dp_sink_queue_push_failures := failures\<rparr>)"

definition dispatcher_stats_of :: "dispatcher \<Rightarrow> dispatcher_stats" where
  "dispatcher_stats_of d = empty_dispatcher_stats\<lparr>
     ds_consumed_events := dp_consumed_events d,
     ds_sink_queue_push_failures := dp_sink_queue_push_failures d\<rparr>"

text \<open>Popping a queue until it is empty, handling each item.\<close>

partial_function (option) drain ::
  "('q \<Rightarrow> 'q \<times> 'a option) \<Rightarrow> ('a \<Rightarrow> 's \<Rightarrow> 's) \<Rightarrow> 'q \<Rightarrow> 's \<Rightarrow> ('q \<times> 's) option" where
  "drain dequeue handle q s =
     (case dequeue q of
        (q', None) \<Rightarrow> Some (q', s)
      | (q', Some x) \<Rightarrow> drain dequeue handle q' (handle x s))"

definition drain_source :: "internal_event ring \<Rightarrow> dispatcher \<Rightarrow> (internal_event ring \<times> dispatcher) option" where
  "drain_source source d = drain pop dispatch source d"

text \<open>One iteration of the worker loop while \<open>running_\<close> is set; an empty source only sleeps.\<close>

definition run_iteration :: "internal_event ring \<times> dispatcher \<Rightarrow> internal_event ring \<times> dispatcher" where
  "run_iteration = (\<lambda>(source, d).
     case pop source of
       (source', None) \<Rightarrow> (source', d)
     | (source', Some event) \<Rightarrow> (source', dispatch event d))"

definition arrive :: "internal_event list \<Rightarrow> internal_event ring \<Rightarrow> internal_event ring" where
  "arrive events source = fold (\<lambda>event q. fst (push (ev_level event) event q)) events source"

text \<open>The worker: one iteration per element of \<open>arrivals\<close>, then the drain.\<close>

definition dispatcher_run ::
  "internal_event list list \<Rightarrow> internal_event ring \<Rightarrow> dispatcher \<Rightarrow> (internal_event ring \<times> dispatcher) option" where
  "dispatcher_run arrivals source d =
     (let (source', d') = fold (\<lambda>events (source, d). run_iteration (arrive events source, d)) arrivals (source, d)
      in drain_source source' d')"

section \<open>The group\<close>

text \<open>Both sinks create their input queues alike.\<close>

definition add_input_queue :: "monitor_config \<Rightarrow> size_t \<Rightarrow> internal_event ring" where
  "add_input_queue cfg capacity =
     new_ring default_event capacity (critical_reserved_slots cfg) (drop_info_when_full cfg)
       (drop_warning_when_full cfg)"

text \<open>What both sinks report of their input queues.\<close>

definition empty_sink_stats :: sink_stats where
  "empty_sink_stats = \<lparr>ss_accepted_events = 0, ss_dropped_events = 0, ss_dropped_critical_events = 0,
     ss_reserve_reject_events = 0, ss_written_events = 0, ss_write_errors = 0, ss_rotated_files = 0,
     ss_fsync_count = 0, ss_fsync_failures = 0, ss_fsync_rate_limited = 0, ss_sent_events = 0, ss_send_errors = 0,
     ss_retry_count = 0, ss_wal_pending_events = 0, ss_wal_bytes = 0, ss_wal_overflow_dropped_events = 0,
     ss_queue_depth = 0, ss_queue_capacity = 0, ss_queue_high_watermark = 0\<rparr>"

definition queue_totals :: "internal_event ring option list \<Rightarrow> sink_stats" where
  "queue_totals queues =
     fold (\<lambda>queue total. case queue of None \<Rightarrow> total | Some q \<Rightarrow> total\<lparr>
         ss_dropped_events := ss_dropped_events total + st_push_fail_count (stats q),
         ss_dropped_critical_events := ss_dropped_critical_events total + st_dropped_critical_count (stats q),
         ss_reserve_reject_events := ss_reserve_reject_events total + st_reserve_reject_count (stats q),
         ss_queue_depth := ss_queue_depth total + depth q,
         ss_queue_capacity := ss_queue_capacity total + usable_capacity q,
         ss_queue_high_watermark := max (ss_queue_high_watermark total) (st_high_watermark (stats q))\<rparr>)
       queues empty_sink_stats"

text \<open>Both sinks take everything out of their input queues, one queue after the other.\<close>

fun drain_queues ::
  "(internal_event \<Rightarrow> 's \<Rightarrow> 's) \<Rightarrow> internal_event ring option list \<Rightarrow> 's \<Rightarrow> (internal_event ring option list \<times> 's) option" where
  "drain_queues handle [] s = Some ([], s)"
| "drain_queues handle (None # queues) s =
     map_option (\<lambda>(queues, s). (None # queues, s)) (drain_queues handle queues s)"
| "drain_queues handle (Some q # queues) s =
     (case drain pop handle q s of
        None \<Rightarrow> None
      | Some (q, s) \<Rightarrow> map_option (\<lambda>(queues, s). (Some q # queues, s)) (drain_queues handle queues s))"

text \<open>
  The constructor: for every source queue that is there, a dispatcher with a new input queue in every
  sink that is there.
\<close>

definition group_dispatchers :: "monitor_config \<Rightarrow> bool list \<Rightarrow> bool list \<Rightarrow> dispatcher list" where
  "group_dispatchers cfg source_present sink_present =
     map (\<lambda>_. new_dispatcher (map (\<lambda>_. Some (add_input_queue cfg (event_queue_capacity cfg))) (filter id sink_present)))
       (filter id source_present)"

definition group_stats :: "dispatcher option list \<Rightarrow> sink_stats option list \<Rightarrow> dispatcher_stats" where
  "group_stats dispatchers sinks =
     fold (\<lambda>sink total. case sink of None \<Rightarrow> total | Some current \<Rightarrow> total\<lparr>
         ds_sink_queue_dropped_events := ds_sink_queue_dropped_events total + ss_dropped_events current,
         ds_sink_queue_dropped_critical_events :=
           ds_sink_queue_dropped_critical_events total + ss_dropped_critical_events current,
         ds_sink_queue_reserve_reject_events :=
           ds_sink_queue_reserve_reject_events total + ss_reserve_reject_events current,
         ds_sink_queue_depth := ds_sink_queue_depth total + ss_queue_depth current,
         ds_sink_queue_capacity := ds_sink_queue_capacity total + ss_queue_capacity current,
         ds_sink_queue_high_watermark := max (ds_sink_queue_high_watermark total) (ss_queue_high_watermark current)\<rparr>)
       sinks
       (fold (\<lambda>d total. case d of None \<Rightarrow> total | Some d \<Rightarrow> total\<lparr>
           ds_consumed_events := ds_consumed_events total + ds_consumed_events (dispatcher_stats_of d),
           ds_sink_queue_push_failures :=
             ds_sink_queue_push_failures total + ds_sink_queue_push_failures (dispatcher_stats_of d)\<rparr>)
         dispatchers empty_dispatcher_stats)"

text \<open>The calls the group makes on its members, by index.\<close>

datatype lifecycle_call = StartSink nat | StartDispatcher nat | StopDispatcher nat | StopSink nat

definition stop_components :: "nat \<Rightarrow> nat \<Rightarrow> lifecycle_call list" where
  "stop_components sinks dispatchers = map StopDispatcher [0..<dispatchers] @ map StopSink [0..<sinks]"

text \<open>The start loops: the outcomes of the members' \<open>start\<close> calls decide how far they get.\<close>

fun start_each :: "(nat \<Rightarrow> lifecycle_call) \<Rightarrow> nat \<Rightarrow> bool list \<Rightarrow> lifecycle_call list \<times> bool" where
  "start_each call i [] = ([], True)"
| "start_each call i (ok # oks) =
     (if ok then (let (calls, all_ok) = start_each call (Suc i) oks in (call i # calls, all_ok))
      else ([call i], False))"

definition group_start ::
  "bool list \<Rightarrow> bool list \<Rightarrow> bool \<Rightarrow> lifecycle_call list \<times> bool \<times> bool" where
  "group_start sink_outcomes dispatcher_outcomes running =
     (if running then ([], running, True)
      else
        let (sink_calls, sinks_ok) = start_each StartSink 0 sink_outcomes;
            cleanup = stop_components (length sink_outcomes) (length dispatcher_outcomes)
        in if \<not> sinks_ok then (sink_calls @ cleanup, False, False)
           else
             let (dispatcher_calls, dispatchers_ok) = start_each StartDispatcher 0 dispatcher_outcomes
             in if \<not> dispatchers_ok then (sink_calls @ dispatcher_calls @ cleanup, False, False)
                else (sink_calls @ dispatcher_calls, True, True))"

definition group_stop :: "nat \<Rightarrow> nat \<Rightarrow> bool \<Rightarrow> lifecycle_call list \<times> bool" where
  "group_stop sinks dispatchers running =
     (if running then (stop_components sinks dispatchers, False) else ([], False))"

section \<open>Draining ends\<close>

context level_queue
begin

text \<open>Under the contract of the queue, draining ends and handles exactly the queued items, in order.\<close>

lemma drain_handles_all:
  assumes "inv q"
  shows "\<exists>q'. drain dequeue handle q s = Some (q', fold handle (items q) s) \<and> items q' = [] \<and> inv q'"
  using assms
proof (induction "items q" arbitrary: q s)
  case Nil
  then have "snd (dequeue q) = None" using dequeue_result [OF Nil.prems] by simp
  then have eq: "dequeue q = (fst (dequeue q), None)" by (metis prod.collapse)
  have "drain dequeue handle q s = Some (fst (dequeue q), s)"
    by (subst drain.simps, subst eq) simp
  moreover have "items (fst (dequeue q)) = []" using dequeue_items [OF Nil.prems] Nil.hyps by simp
  ultimately show ?case using dequeue_inv [OF Nil.prems] Nil.hyps by simp
next
  case (Cons x xs)
  have eq: "dequeue q = (fst (dequeue q), Some x)"
    using dequeue_result [OF Cons.prems] Cons.hyps(2) by (metis list.simps(5) prod.collapse)
  have rest: "xs = items (fst (dequeue q))"
    using dequeue_items [OF Cons.prems] Cons.hyps(2) by (metis list.sel(3))
  have "drain dequeue handle q s = drain dequeue handle (fst (dequeue q)) (handle x s)"
    by (subst drain.simps, subst eq) simp
  then show ?case
    using Cons.hyps(1) [OF rest dequeue_inv [OF Cons.prems], of "handle x s"] Cons.hyps(2) rest
    by (metis fold_simps(2))
qed

end

section \<open>Delivery\<close>

text \<open>One sink queue that is offered a list of events, on its own.\<close>

definition offer :: "internal_event list \<Rightarrow> internal_event ring \<Rightarrow> internal_event ring" where
  "offer events q = fold (\<lambda>event q. fst (push (ev_level event) event q)) events q"

fun offer_failures :: "internal_event list \<Rightarrow> internal_event ring \<Rightarrow> nat" where
  "offer_failures [] q = 0"
| "offer_failures (event # events) q =
     (if snd (push (ev_level event) event q) then 0 else 1) + offer_failures events (fst (push (ev_level event) event q))"

lemma offer_Nil [simp]: "offer [] q = q"
  by (simp add: offer_def)

lemma offer_Cons [simp]: "offer (event # events) q = offer events (fst (push (ev_level event) event q))"
  by (simp add: offer_def)

lemma dispatch_to_queues:
  "fst (dispatch_to event queues n) = map (map_option (offer [event])) queues"
proof (induction queues arbitrary: n)
  case (Cons q queues)
  then show ?case by (cases q) (simp_all add: case_prod_beta)
qed simp

lemma dispatch_to_failures:
  "snd (dispatch_to event queues n) =
     n + of_nat (sum_list (map (\<lambda>q. case q of None \<Rightarrow> 0 | Some q \<Rightarrow> offer_failures [event] q) queues))"
proof (induction queues arbitrary: n)
  case (Cons q queues)
  then show ?case by (cases q) (simp_all add: case_prod_beta)
qed simp

text \<open>Handling a list of events: every sink queue is offered exactly that list, independently of the others.\<close>

definition total_failures :: "internal_event list \<Rightarrow> internal_event ring option list \<Rightarrow> nat" where
  "total_failures events queues =
     sum_list (map (\<lambda>q. case q of None \<Rightarrow> 0 | Some q \<Rightarrow> offer_failures events q) queues)"

lemma total_failures_Cons:
  "total_failures (event # events) queues =
     total_failures [event] queues + total_failures events (map (map_option (offer [event])) queues)"
proof (induction queues)
  case (Cons q queues)
  then show ?case by (cases q) (simp_all add: total_failures_def)
qed (simp add: total_failures_def)

lemma fold_dispatch:
  "fold dispatch events d = d\<lparr>
     dp_sink_queues := map (map_option (offer events)) (dp_sink_queues d),
     dp_consumed_events := dp_consumed_events d + of_nat (length events),
     dp_sink_queue_push_failures :=
       dp_sink_queue_push_failures d + of_nat (total_failures events (dp_sink_queues d))\<rparr>"
proof (induction events arbitrary: d)
  case Nil
  have "map_option (offer []) q = q" for q by (cases q) simp_all
  then have "map_option (offer []) = id" by auto
  then have same: "map (map_option (offer [])) queues = queues" for queues by (simp only: list.map_id)
  have "total_failures [] queues = 0" for queues
    by (induction queues) (auto simp: total_failures_def split: option.split)
  then show ?case unfolding same by simp
next
  case (Cons event events)
  have one: "dispatch event d = d\<lparr>
     dp_sink_queues := map (map_option (offer [event])) (dp_sink_queues d),
     dp_consumed_events := dp_consumed_events d + 1,
     dp_sink_queue_push_failures :=
       dp_sink_queue_push_failures d + of_nat (total_failures [event] (dp_sink_queues d))\<rparr>"
    by (simp add: dispatch_def case_prod_beta dispatch_to_queues dispatch_to_failures total_failures_def)
  have "map_option (offer events) \<circ> map_option (offer [event]) = map_option (offer (event # events))"
  proof (rule ext)
    show "(map_option (offer events) \<circ> map_option (offer [event])) q = map_option (offer (event # events)) q" for q
      by (cases q) simp_all
  qed
  then show ?case
    using total_failures_Cons [of event events "dp_sink_queues d"]
    by (simp add: Cons.IH one del: offer_Cons)
qed

lemma drain_source_total:
  assumes "ring_wf source"
  shows "\<exists>source'. drain_source source d = Some (source', fold dispatch (ring_items source) d) \<and>
    ring_items source' = [] \<and> ring_wf source'"
  unfolding drain_source_def using rb.drain_handles_all [OF assms] .

text \<open>The events a source accepts and those the worker takes, over a run.\<close>

fun accepted_events :: "internal_event list \<Rightarrow> internal_event ring \<Rightarrow> internal_event list" where
  "accepted_events [] q = []"
| "accepted_events (event # events) q =
     (if snd (push (ev_level event) event q) then [event] else []) @
     accepted_events events (fst (push (ev_level event) event q))"

lemma arrive_items:
  "ring_wf q \<Longrightarrow> ring_wf (arrive events q) \<and> ring_items (arrive events q) = ring_items q @ accepted_events events q"
proof (induction events arbitrary: q)
  case (Cons event events)
  then show ?case
    using Cons.IH [OF push_wf [OF Cons.prems, of "ev_level event" event]] push_items [OF Cons.prems, of "ev_level event" event]
    by (simp add: arrive_def push_eq)
qed (simp add: arrive_def)

fun run_accepted :: "internal_event list list \<Rightarrow> internal_event ring \<Rightarrow> internal_event list" where
  "run_accepted [] q = []"
| "run_accepted (events # rest) q = accepted_events events q @ run_accepted rest (fst (pop (arrive events q)))"

lemma run_iterations:
  assumes "ring_wf source"
  shows "\<exists>taken source'. fold (\<lambda>events (source, d). run_iteration (arrive events source, d)) arrivals (source, d) =
      (source', fold dispatch taken d) \<and> ring_wf source' \<and>
      ring_items source @ run_accepted arrivals source = taken @ ring_items source'"
  using assms
proof (induction arrivals arbitrary: source d)
  case Nil
  then show ?case by (intro exI [of _ "[]"]) simp
next
  case (Cons events rest)
  let ?a = "arrive events source"
  have a: "ring_wf ?a" "ring_items ?a = ring_items source @ accepted_events events source"
    using arrive_items [OF Cons.prems] by simp_all
  let ?taken = "case snd (pop ?a) of None \<Rightarrow> [] | Some event \<Rightarrow> [event]"
  have step: "run_iteration (?a, d) = (fst (pop ?a), fold dispatch ?taken d)"
    by (cases "snd (pop ?a)") (auto simp: run_iteration_def split: prod.splits)
  have items: "ring_items ?a = ?taken @ ring_items (fst (pop ?a))"
    using pop_result [OF a(1)] pop_items(1) [OF a(1)] by (cases "ring_items ?a") simp_all
  obtain taken source' where IH:
    "fold (\<lambda>events (source, d). run_iteration (arrive events source, d)) rest (fst (pop ?a), fold dispatch ?taken d) =
      (source', fold dispatch taken (fold dispatch ?taken d))"
    "ring_wf source'" "ring_items (fst (pop ?a)) @ run_accepted rest (fst (pop ?a)) = taken @ ring_items source'"
    using Cons.IH [OF pop_items(2) [OF a(1)], of "fold dispatch ?taken d"] by blast
  have "ring_items source @ run_accepted (events # rest) source = (?taken @ taken) @ ring_items source'"
    using a(2) items IH(3) by (metis append.assoc run_accepted.simps(2))
  then show ?case using IH(1,2) step by (intro exI [of _ "?taken @ taken"] exI [of _ source']) simp
qed

lemma start_each_result:
  "snd (start_each call i oks) = list_all id oks \<and>
   (list_all id oks \<longrightarrow> fst (start_each call i oks) = map call [i..<i + length oks]) \<and>
   set (fst (start_each call i oks)) \<subseteq> call ` {i..<i + length oks}"
proof (induction call i oks rule: start_each.induct)
  case (2 call i ok oks)
  then show ?case
    by (cases ok) (auto simp: case_prod_beta upt_conv_Cons simp del: upt_Suc)
qed simp

section \<open>Properties\<close>

text \<open>
  C20: a dispatcher that runs and is then stopped ends, with its source empty; every event the source accepted has
  been offered to every sink queue once and in order, each queue independently of the others, and
  the counters are the numbers of events consumed and of refused offers.
\<close>

theorem dispatcher_delivers_all:
  assumes "ring_wf source"
  shows "\<exists>source' d'. dispatcher_run arrivals source d = Some (source', d') \<and> ring_items source' = [] \<and>
    (let events = ring_items source @ run_accepted arrivals source
     in dp_sink_queues d' = map (map_option (offer events)) (dp_sink_queues d) \<and>
        dp_consumed_events d' = dp_consumed_events d + of_nat (length events) \<and>
        dp_sink_queue_push_failures d' =
          dp_sink_queue_push_failures d + of_nat (total_failures events (dp_sink_queues d)))"
proof -
  obtain taken source1 where run:
    "fold (\<lambda>events (source, d). run_iteration (arrive events source, d)) arrivals (source, d) = (source1, fold dispatch taken d)"
    "ring_wf source1" "ring_items source @ run_accepted arrivals source = taken @ ring_items source1"
    using run_iterations [OF assms, of arrivals d] by blast
  obtain source' where drained:
    "drain_source source1 (fold dispatch taken d) = Some (source', fold dispatch (ring_items source1) (fold dispatch taken d))"
    "ring_items source' = []"
    using drain_source_total [OF run(2)] by blast
  define events where "events = ring_items source @ run_accepted arrivals source"
  have "fold dispatch (ring_items source1) (fold dispatch taken d) = fold dispatch events d"
    using run(3) unfolding events_def by (metis fold_append comp_apply)
  then have "dispatcher_run arrivals source d = Some (source', fold dispatch events d)"
    using run(1) drained(1) by (simp add: dispatcher_run_def)
  then show ?thesis using drained(2) unfolding events_def [symmetric] by (simp add: fold_dispatch Let_def)
qed

theorem dispatcher_delivers_all_witness:
  "\<exists>source' d'. dispatcher_run [[default_event]] (add_input_queue default_config 4)
      (new_dispatcher [None, Some (add_input_queue default_config 2)]) = Some (source', d') \<and> ring_items source' = []"
proof -
  have "ring_wf (add_input_queue default_config 4)" by (simp add: add_input_queue_def new_ring_wf)
  from dispatcher_delivers_all [OF this, of "[[default_event]]" "new_dispatcher [None, Some (add_input_queue default_config 2)]"]
  show ?thesis by blast
qed

text \<open>
  Starting the group starts all sinks and then all dispatchers; when a member fails, no dispatcher is started
  before all sinks are, every member is stopped, dispatchers before sinks, and the group is not
  running.
\<close>

theorem group_lifecycle_order:
  "group_start sink_outcomes dispatcher_outcomes False =
     (if list_all id sink_outcomes \<and> list_all id dispatcher_outcomes
      then (map StartSink [0..<length sink_outcomes] @ map StartDispatcher [0..<length dispatcher_outcomes], True, True)
      else (fst (start_each StartSink 0 sink_outcomes) @
            (if list_all id sink_outcomes then fst (start_each StartDispatcher 0 dispatcher_outcomes) else []) @
            map StopDispatcher [0..<length dispatcher_outcomes] @ map StopSink [0..<length sink_outcomes], False, False)) \<and>
   group_stop sinks dispatchers True = (map StopDispatcher [0..<dispatchers] @ map StopSink [0..<sinks], False) \<and>
   group_stop sinks dispatchers False = ([], False)"
  using start_each_result [of StartSink 0 sink_outcomes] start_each_result [of StartDispatcher 0 dispatcher_outcomes]
  by (simp add: group_start_def group_stop_def stop_components_def case_prod_beta Let_def)

theorem group_lifecycle_order_witness:
  "group_start [True, False] [True] False =
     ([StartSink 0, StartSink 1, StopDispatcher 0, StopSink 0, StopSink 1], False, False)"
  using group_lifecycle_order [of "[True, False]" "[True]" 2 1] by simp

end
