(* ===== verification/Network_Sink.thy ===== *)
theory Network_Sink
  imports Files Dispatcher Serializer "HOL-Library.Multiset" "HOL-Library.Char_ord" "HOL-Library.List_Lexorder"
begin

text \<open>
  \<^verbatim>\<open>src/storage/network_event_sink.cpp\<close>: the write-ahead log of events that wait for delivery, its loading,
  compaction and limits, the batch that is posted, the endpoint syntax and the retry delay. Sockets
  and name resolution are not modelled: the bytes a post receives, and which operation on a file
  fails, are arguments.

  A directory is an association list from file names to contents. Publishing a staged segment is one
  operation that makes a synced file appear under its name; a crash keeps what a directory sync made
  durable and any part of the later operations.

  The lemmas show that a log written by the sink loads back as the same records, that an accepted
  event stays in the log until it has been posted, whatever fails and wherever the program crashes
  during a compaction (delivery at least once), and the case in which this is not so: an append
  that fails after writing part of a record.
\<close>

section \<open>Names of segments\<close>

definition wal_name :: "u64 \<Rightarrow> string" where
  "wal_name index = ''events_'' @ pad_zero 6 (show_word index) @ ''.wal''"

definition is_wal :: "string \<Rightarrow> bool" where
  "is_wal name \<longleftrightarrow> path_extension name = ''.wal''"

definition wal_index_from_name :: "string \<Rightarrow> u64 option" where
  "wal_index_from_name name =
     (case split_last (CHR ''_'') (path_stem name) of
        None \<Rightarrow> None
      | Some (_, digits) \<Rightarrow> (case stoull digits of Inl _ \<Rightarrow> None | Inr (index, _) \<Rightarrow> Some index))"

section \<open>State\<close>

record wal_record =
  wr_path :: string
  wr_json_line :: string

record network_sink =
  ns_pending :: "wal_record list"
  ns_current_wal_path :: string
  ns_current_wal_size :: u64
  ns_current_wal_index :: u64
  ns_accepted_events :: u64
  ns_write_errors :: u64
  ns_sent_events :: u64
  ns_send_errors :: u64
  ns_retry_count :: u64
  ns_wal_overflow_dropped_events :: u64
  ns_directory :: directory

definition new_network_sink :: "directory \<Rightarrow> network_sink" where
  "new_network_sink dir = \<lparr>ns_pending = [], ns_current_wal_path = [], ns_current_wal_size = 0,
     ns_current_wal_index = 1, ns_accepted_events = 0, ns_write_errors = 0, ns_sent_events = 0,
     ns_send_errors = 0, ns_retry_count = 0, ns_wal_overflow_dropped_events = 0, ns_directory = dir\<rparr>"

definition segment_bytes :: "monitor_config \<Rightarrow> u64" where
  "segment_bytes cfg = network_wal_segment_mb cfg * 1024 * 1024"

text \<open>The sizes of the \<open>.wal\<close> files.\<close>

definition wal_bytes :: "directory \<Rightarrow> u64" where
  "wal_bytes dir = of_nat (sum_list (map (\<lambda>(name, content). length content) (filter (\<lambda>(name, _). is_wal name) dir)))"

definition wal_over_limit :: "monitor_config \<Rightarrow> directory \<Rightarrow> bool" where
  "wal_over_limit cfg dir \<longleftrightarrow> network_wal_max_mb cfg * 1024 * 1024 \<le> wal_bytes dir"

text \<open>The name of the next segment, and the counter after it.\<close>

definition next_wal_path :: "network_sink \<Rightarrow> network_sink \<times> string" where
  "next_wal_path s = (s\<lparr>ns_current_wal_index := ns_current_wal_index s + 1\<rparr>, wal_name (ns_current_wal_index s))"

section \<open>Appending\<close>

text \<open>
  The outcome of an append: it succeeds, the file does not open, or the stream fails after part of
  the record has reached the file.
\<close>

datatype append_outcome = AppendOk | AppendNotOpened | AppendTorn nat

definition record_text :: "string \<Rightarrow> string" where
  "record_text json_line = ''0'' @ [CHR 0x09] @ json_line"

definition append_wal :: "monitor_config \<Rightarrow> append_outcome \<Rightarrow> string \<Rightarrow> network_sink \<Rightarrow> network_sink \<times> bool" where
  "append_wal cfg outcome json_line s =
     (let s = (if ns_current_wal_path s = [] then (let (s, path) = next_wal_path s in s\<lparr>ns_current_wal_path := path\<rparr>) else s);
          s = (if segment_bytes cfg \<le> ns_current_wal_size s
               then (let (s, path) = next_wal_path s in s\<lparr>ns_current_wal_path := path, ns_current_wal_size := 0\<rparr>)
               else s)
      in case outcome of
           AppendNotOpened \<Rightarrow> (s, False)
         | AppendTorn n \<Rightarrow>
             (s\<lparr>ns_directory := append_file (ns_current_wal_path s) (take n (record_text json_line)) (ns_directory s)\<rparr>, False)
         | AppendOk \<Rightarrow>
             (s\<lparr>ns_directory := append_file (ns_current_wal_path s) (record_text json_line) (ns_directory s),
                ns_current_wal_size := ns_current_wal_size s + of_nat (length json_line) + 2\<rparr>, True))"

text \<open>
  One popped event in \<open>drain_queues_once\<close>. The line is undefined where the serializer is.
\<close>

definition accept_event ::
  "monitor_config \<Rightarrow> append_outcome \<Rightarrow> internal_event \<Rightarrow> network_sink \<Rightarrow> network_sink option" where
  "accept_event cfg outcome event s =
     (if wal_over_limit cfg (ns_directory s) \<and> ev_level event \<noteq> LevelCritical
      then Some (s\<lparr>ns_wal_overflow_dropped_events := ns_wal_overflow_dropped_events s + 1\<rparr>)
      else
        case to_json_line cfg event of
          None \<Rightarrow> None
        | Some line \<Rightarrow>
            (let (s, ok) = append_wal cfg outcome line s
             in if \<not> ok then Some (s\<lparr>ns_write_errors := ns_write_errors s + 1\<rparr>)
                else Some (s\<lparr>
                  ns_pending := ns_pending s @ [\<lparr>wr_path = ns_current_wal_path s, wr_json_line = line\<rparr>],
                  ns_accepted_events := ns_accepted_events s + 1\<rparr>)))"

section \<open>Loading\<close>

definition line_record :: "string \<Rightarrow> string option" where
  "line_record line =
     (if 2 < length line \<and> line ! 0 = CHR ''0'' \<and> line ! 1 = CHR 0x09 then Some (drop 2 line @ [CHR 0x0A]) else None)"

definition load_segment :: "string \<Rightarrow> string list" where
  "load_segment content = List.map_filter line_record (get_lines content)"

definition wal_segments :: "directory \<Rightarrow> string list" where
  "wal_segments dir = sort (filter is_wal (map fst dir))"

definition segment_records :: "directory \<Rightarrow> string \<Rightarrow> wal_record list" where
  "segment_records dir name =
     (case map_of dir name of
        None \<Rightarrow> []
      | Some content \<Rightarrow> map (\<lambda>line. \<lparr>wr_path = name, wr_json_line = line\<rparr>) (load_segment content))"

definition max_index :: "string list \<Rightarrow> u64" where
  "max_index names = fold (\<lambda>name m. case wal_index_from_name name of None \<Rightarrow> m | Some i \<Rightarrow> max m i) names 0"

definition load_wal :: "network_sink \<Rightarrow> network_sink" where
  "load_wal s =
     (let segments = wal_segments (ns_directory s);
          s = s\<lparr>ns_pending := concat (map (segment_records (ns_directory s)) segments),
                ns_current_wal_index := max_index segments + 1\<rparr>;
          (s, path) = next_wal_path s
      in s\<lparr>ns_current_wal_path := path, ns_current_wal_size := 0\<rparr>)"

section \<open>Compaction\<close>

text \<open>
  The records that go into one staged segment: the first one always, then while the segment is
  smaller than the limit (no limit when that is 0). The size is counted on 64 bits.
\<close>

fun take_segment :: "u64 \<Rightarrow> u64 \<Rightarrow> wal_record list \<Rightarrow> wal_record list \<times> u64 \<times> wal_record list" where
  "take_segment limit used [] = ([], used, [])"
| "take_segment limit used (r # rs) =
     (if used = 0 \<or> limit = 0 \<or> used < limit then
        (let (taken, total, rest) = take_segment limit (used + (of_nat (length (wr_json_line r)) + 2)) rs
         in (r # taken, total, rest))
      else ([], used, r # rs))"

lemma take_segment_append:
  "rs = fst (take_segment limit used rs) @ snd (snd (take_segment limit used rs))"
  by (induction limit used rs rule: take_segment.induct) (auto simp: case_prod_beta)

lemma take_segment_first: "rs \<noteq> [] \<Longrightarrow> fst (take_segment limit 0 rs) \<noteq> []"
  by (cases rs) (simp_all add: case_prod_beta)

lemma take_segment_shorter:
  assumes "snd (snd (take_segment limit 0 rs)) \<noteq> []"
  shows "length (snd (snd (take_segment limit 0 rs))) < length rs"
proof -
  have "rs \<noteq> []" using assms by auto
  then have "0 < length (fst (take_segment limit 0 rs))" using take_segment_first by simp
  then show ?thesis using take_segment_append [of rs limit 0] by (metis length_append less_add_same_cancel2)
qed

record staged_segment =
  sg_name :: string
  sg_records :: "wal_record list"
  sg_size :: u64

text \<open>The staging loop: at least one segment, then more while records are left.\<close>

function stage_segments :: "u64 \<Rightarrow> u64 \<Rightarrow> wal_record list \<Rightarrow> staged_segment list" where
  "stage_segments limit index rs =
     (let segment = take_segment limit 0 rs; rest = snd (snd segment)
      in \<lparr>sg_name = wal_name index, sg_records = map (wr_path_update (\<lambda>_. wal_name index)) (fst segment),
          sg_size = fst (snd segment)\<rparr> #
         (if rest = [] then [] else stage_segments limit (index + 1) rest))"
  by pat_completeness auto
termination
  by (relation "measure (\<lambda>(limit, index, rs). length rs)") (simp_all add: take_segment_shorter)

declare stage_segments.simps [simp del]

definition segment_text :: "staged_segment \<Rightarrow> string" where
  "segment_text segment = concat (map (\<lambda>r. record_text (wr_json_line r)) (sg_records segment))"

text \<open>
  The operations on the directory. A temporary file is synced before it is renamed, so
  publishing a segment gives its name a complete content.
\<close>

datatype wal_op =
    Stage string string
  | Unstage string
  | Publish string string
  | SyncDirectory
  | Unlink string

fun apply_op :: "wal_op \<Rightarrow> directory \<Rightarrow> directory" where
  "apply_op (Stage name content) dir = AList.update (name @ ''.tmp'') content dir"
| "apply_op (Unstage name) dir = AList.delete (name @ ''.tmp'') dir"
| "apply_op (Publish name content) dir = AList.update name content (AList.delete (name @ ''.tmp'') dir)"
| "apply_op SyncDirectory dir = dir"
| "apply_op (Unlink name) dir = AList.delete name dir"

definition run_ops :: "wal_op list \<Rightarrow> directory \<Rightarrow> directory" where
  "run_ops ops dir = fold apply_op ops dir"

text \<open>Which operations fail: by number of the segment, by name of the old segment.\<close>

datatype stage_outcome = StageOk | StageNotCreated | StageFailed

record wal_outcomes =
  wo_stage :: "nat \<Rightarrow> stage_outcome"
  wo_rename :: "nat \<Rightarrow> bool"
  wo_sync :: bool
  wo_unlink :: "string \<Rightarrow> bool"
  wo_final_sync :: bool

fun stage_all :: "wal_outcomes \<Rightarrow> nat \<Rightarrow> staged_segment list \<Rightarrow> wal_op list \<times> bool" where
  "stage_all outcomes i [] = ([], True)"
| "stage_all outcomes i (segment # segments) =
     (case wo_stage outcomes i of
        StageNotCreated \<Rightarrow> ([], False)
      | StageFailed \<Rightarrow> ([Unstage (sg_name segment)], False)
      | StageOk \<Rightarrow>
          (let (ops, ok) = stage_all outcomes (Suc i) segments
           in (Stage (sg_name segment) (segment_text segment) # ops, ok)))"

fun publish_all :: "wal_outcomes \<Rightarrow> nat \<Rightarrow> staged_segment list \<Rightarrow> wal_op list \<times> bool" where
  "publish_all outcomes i [] = ([], True)"
| "publish_all outcomes i (segment # segments) =
     (if wo_rename outcomes i then
        (let (ops, ok) = publish_all outcomes (Suc i) segments
         in (Publish (sg_name segment) (segment_text segment) # ops, ok))
      else (map (\<lambda>segment. Unstage (sg_name segment)) (segment # segments), False))"

definition old_segments :: "directory \<Rightarrow> string list" where
  "old_segments dir = filter is_wal (map fst dir)"

definition first_free_index :: "network_sink \<Rightarrow> u64" where
  "first_free_index s =
     fold (\<lambda>name m. case wal_index_from_name name of None \<Rightarrow> m | Some i \<Rightarrow> max m (i + 1))
       (old_segments (ns_directory s)) (ns_current_wal_index s)"

definition rewrite_wal ::
  "monitor_config \<Rightarrow> wal_outcomes \<Rightarrow> nat \<Rightarrow> network_sink \<Rightarrow> network_sink \<times> wal_op list \<times> bool" where
  "rewrite_wal cfg outcomes acked s =
     (let dir = ns_directory s;
          remaining = drop (min acked (length (ns_pending s))) (ns_pending s);
          old = old_segments dir;
          next_index = first_free_index s;
          staged = stage_segments (segment_bytes cfg) next_index remaining;
          (stage_ops, staged_ok) = stage_all outcomes 0 staged
      in if \<not> staged_ok then (s\<lparr>ns_directory := run_ops stage_ops dir\<rparr>, stage_ops, False)
         else
           let (publish_ops, published) = publish_all outcomes 0 staged;
               ops = stage_ops @ publish_ops
           in if \<not> published \<or> \<not> wo_sync outcomes then (s\<lparr>ns_directory := run_ops ops dir\<rparr>, ops, False)
              else
                let ops = ops @ SyncDirectory # map Unlink (filter (wo_unlink outcomes) old) @
                          (if wo_final_sync outcomes then [SyncDirectory] else [])
                in (s\<lparr>ns_pending := concat (map sg_records staged),
                      ns_current_wal_path := sg_name (last staged),
                      ns_current_wal_size := sg_size (last staged),
                      ns_current_wal_index := next_index + of_nat (length staged),
                      ns_directory := run_ops ops dir\<rparr>, ops, True))"

definition enforce_wal_limit :: "monitor_config \<Rightarrow> wal_outcomes \<Rightarrow> network_sink \<Rightarrow> network_sink" where
  "enforce_wal_limit cfg outcomes s =
     (if wal_over_limit cfg (ns_directory s) then fst (rewrite_wal cfg outcomes 0 s) else s)"

section \<open>Posting\<close>

record endpoint =
  ep_host :: string
  ep_port :: u16
  ep_path :: string
  ep_valid :: bool

definition empty_endpoint :: endpoint where
  "empty_endpoint = \<lparr>ep_host = [], ep_port = 80, ep_path = ''/events'', ep_valid = False\<rparr>"

text \<open>The port is read by \<open>std::stoi\<close>, whose exception leaves the constructor.\<close>

definition parse_endpoint :: "string \<Rightarrow> conv_error + endpoint" where
  "parse_endpoint text =
     (if take 7 text \<noteq> ''http://'' then Inr empty_endpoint
      else
        let rest = drop 7 text;
            (host_port, path) =
              (case split_first (CHR ''/'') rest of None \<Rightarrow> (rest, ''/events'') | Some (a, b) \<Rightarrow> (a, CHR ''/'' # b))
        in case split_last (CHR '':'') host_port of
             None \<Rightarrow> Inr \<lparr>ep_host = host_port, ep_port = 80, ep_path = path, ep_valid = host_port \<noteq> [] \<and> path \<noteq> []\<rparr>
           | Some (host, port) \<Rightarrow>
               (case stoi port of
                  Inl e \<Rightarrow> Inl e
                | Inr (n, _) \<Rightarrow>
                    Inr \<lparr>ep_host = host, ep_port = ucast n, ep_path = path, ep_valid = host \<noteq> [] \<and> path \<noteq> []\<rparr>))"

definition body_item :: "string \<Rightarrow> string" where
  "body_item line = (if line \<noteq> [] \<and> last line = CHR 0x0A then butlast line else line)"

fun body_items :: "nat \<Rightarrow> string list \<Rightarrow> string \<Rightarrow> string" where
  "body_items i [] body = body"
| "body_items i (line # lines) body =
     body_items (Suc i) lines ((if i \<noteq> 0 then body @ '','' else body) @ body_item line)"

definition post_body :: "string list \<Rightarrow> string" where
  "post_body batch = body_items 0 batch ''['' @ '']''"

definition crlf :: string where
  "crlf = [CHR 0x0D, CHR 0x0A]"

definition post_request :: "endpoint \<Rightarrow> string list \<Rightarrow> string" where
  "post_request endpoint batch =
     (let body = post_body batch
      in ''POST '' @ ep_path endpoint @ '' HTTP/1.1'' @ crlf @
         ''Host: '' @ ep_host endpoint @ crlf @
         ''Content-Type: application/json'' @ crlf @
         ''Content-Length: '' @ show_nat (length body) @ crlf @
         ''Connection: close'' @ crlf @ crlf @ body)"

text \<open>
  The answer: nothing when resolving, connecting or sending failed, otherwise the bytes of the one
  \<open>recv\<close> of at most 127 bytes.
\<close>

definition response_ok :: "string option \<Rightarrow> bool" where
  "response_ok response =
     (case response of
        None \<Rightarrow> False
      | Some bytes \<Rightarrow> (let received = take 127 bytes in received \<noteq> [] \<and> take 10 received = ''HTTP/1.1 2''))"

text \<open>
  One exchange with the server, as the outcomes of the calls: resolving, creating the socket, connecting, the
  results of \<open>send\<close> (no result left stands for a call that fails), and the bytes of \<open>recv\<close>. The payload
  is what the calls of \<open>send\<close> have taken.
\<close>

record connect_outcome =
  co_connected :: bool
  co_in_progress :: bool
  co_poll_ready :: bool
  co_socket_error :: bool

definition connect_with_timeout :: "connect_outcome \<Rightarrow> bool" where
  "connect_with_timeout c \<longleftrightarrow>
     co_connected c \<or> co_in_progress c \<and> co_poll_ready c \<and> \<not> co_socket_error c"

record exchange =
  xc_resolved :: bool
  xc_socket :: bool
  xc_connect :: connect_outcome
  xc_sends :: "int list"
  xc_received :: string

fun send_all :: "int list \<Rightarrow> string \<Rightarrow> string \<times> bool" where
  "send_all results [] = ([], True)"
| "send_all [] (c # data) = ([], False)"
| "send_all (result # results) (c # data) =
     (if result \<le> 0 then ([], False)
      else (let (sent, ok) = send_all results (drop (nat result) (c # data)) in (take (nat result) (c # data) @ sent, ok)))"

definition post_batch :: "endpoint \<Rightarrow> exchange \<Rightarrow> string list \<Rightarrow> string option" where
  "post_batch endpoint x batch =
     (if \<not> xc_resolved x \<or> \<not> xc_socket x \<or> \<not> connect_with_timeout (xc_connect x) then None
      else if \<not> snd (send_all (xc_sends x) (post_request endpoint batch)) then None
      else Some (xc_received x))"

text \<open>The payload goes out once and whole, whatever pieces the calls take, or the post fails.\<close>

lemma send_all_prefix: "prefix (fst (send_all results data)) data \<and> (snd (send_all results data) \<longleftrightarrow> fst (send_all results data) = data)"
proof (induction results data rule: send_all.induct)
  case (3 result results c data)
  show ?case
  proof (cases "result \<le> 0")
    case False
    then have IH: "prefix (fst (send_all results (drop (nat result) (c # data)))) (drop (nat result) (c # data))"
      "snd (send_all results (drop (nat result) (c # data))) \<longleftrightarrow>
         fst (send_all results (drop (nat result) (c # data))) = drop (nat result) (c # data)"
      using 3 by blast+
    show ?thesis
      using False IH append_take_drop_id [of "nat result" "c # data"]
      by (simp add: case_prod_beta del: take_Cons' drop_Cons' append_take_drop_id)
        (metis append_take_drop_id same_append_eq same_prefix_prefix)
  qed simp
qed simp_all

definition batch_of :: "monitor_config \<Rightarrow> network_sink \<Rightarrow> string list" where
  "batch_of cfg s =
     map wr_json_line (take (min (length (ns_pending s)) (unat (network_batch_size cfg))) (ns_pending s))"

text \<open>One flush, given the answer of \<open>post_batch\<close> to the batch: the sink afterwards, the operations on the directory and the result.\<close>

definition flush_pending ::
  "monitor_config \<Rightarrow> string option \<Rightarrow> wal_outcomes \<Rightarrow> network_sink \<Rightarrow> network_sink \<times> wal_op list \<times> bool" where
  "flush_pending cfg response outcomes s =
     (let batch = batch_of cfg s
      in if batch = [] then (s, [], True)
         else if \<not> response_ok response then (s\<lparr>ns_send_errors := ns_send_errors s + 1\<rparr>, [], False)
         else rewrite_wal cfg outcomes (length batch)
                (s\<lparr>ns_sent_events := ns_sent_events s + of_nat (length batch)\<rparr>))"

section \<open>The worker\<close>

record flush_timer =
  ft_retry_ms :: u32
  ft_next_flush :: nat

definition flush_turn ::
  "monitor_config \<Rightarrow> nat \<Rightarrow> string option \<Rightarrow> wal_outcomes \<Rightarrow> network_sink \<times> flush_timer \<Rightarrow> network_sink \<times> flush_timer" where
  "flush_turn cfg now_ms response outcomes st =
     (let (s, t) = st
      in if ns_pending s \<noteq> [] \<and> ft_next_flush t \<le> now_ms then
           let (s', _, ok) = flush_pending cfg response outcomes s
           in if ok
              then (s', \<lparr>ft_retry_ms = network_retry_base_ms cfg,
                         ft_next_flush = now_ms + unat (network_flush_interval_ms cfg)\<rparr>)
              else (s'\<lparr>ns_retry_count := ns_retry_count s' + 1\<rparr>,
                    \<lparr>ft_retry_ms = min (ft_retry_ms t * 2) (network_retry_max_ms cfg),
                     ft_next_flush = now_ms + unat (ft_retry_ms t)\<rparr>)
         else (s, t))"

text \<open>
  Draining the input queues: the outcome of each append is given by its number. The sink is \<open>None\<close>
  from the first undefined line on.
\<close>

definition accept_next ::
  "monitor_config \<Rightarrow> (nat \<Rightarrow> append_outcome) \<Rightarrow> internal_event \<Rightarrow> nat \<times> network_sink option \<Rightarrow> nat \<times> network_sink option" where
  "accept_next cfg appends event st =
     (case st of (n, so) \<Rightarrow> (Suc n, Option.bind so (accept_event cfg (appends n) event)))"

definition drain_queues_once ::
  "monitor_config \<Rightarrow> (nat \<Rightarrow> append_outcome) \<Rightarrow> wal_outcomes \<Rightarrow> internal_event ring option list \<times> network_sink \<Rightarrow>
   (internal_event ring option list \<times> network_sink option) option" where
  "drain_queues_once cfg appends outcomes st =
     (case st of (queues, s) \<Rightarrow>
        map_option (\<lambda>(queues, _, so). (queues, map_option (enforce_wal_limit cfg outcomes) so))
          (drain_queues (accept_next cfg appends) queues (0, Some s)))"

text \<open>The flushes after the stop, until nothing is pending or one fails.\<close>

partial_function (option) final_flush ::
  "monitor_config \<Rightarrow> (nat \<Rightarrow> string option) \<Rightarrow> (nat \<Rightarrow> wal_outcomes) \<Rightarrow> nat \<Rightarrow> network_sink \<Rightarrow> network_sink option" where
  "final_flush cfg responses outcomes n s =
     (if ns_pending s = [] then Some s
      else
        let result = flush_pending cfg (responses n) (outcomes n) s
        in if snd (snd result) then final_flush cfg responses outcomes (Suc n) (fst result) else Some (fst result))"

section \<open>Start and statistics\<close>

datatype start_result = SinkDisabled | EndpointInvalid | SinkStarted network_sink

definition start_network_sink :: "monitor_config \<Rightarrow> endpoint \<Rightarrow> network_sink \<Rightarrow> start_result" where
  "start_network_sink cfg endpoint s =
     (if \<not> network_sink_enable cfg then SinkDisabled
      else if \<not> ep_valid endpoint then EndpointInvalid
      else
        let s = load_wal s
        in SinkStarted (if ns_current_wal_path s = []
                        then (let (s, path) = next_wal_path s in s\<lparr>ns_current_wal_path := path\<rparr>) else s))"

definition network_stats :: "network_sink \<Rightarrow> internal_event ring option list \<Rightarrow> sink_stats" where
  "network_stats s queues =
     (let totals = queue_totals queues
      in totals\<lparr>
          ss_accepted_events := ns_accepted_events s + ss_queue_depth totals,
          ss_write_errors := ns_write_errors s,
          ss_sent_events := ns_sent_events s,
          ss_send_errors := ns_send_errors s,
          ss_retry_count := ns_retry_count s,
          ss_wal_pending_events := of_nat (length (ns_pending s)),
          ss_wal_bytes := wal_bytes (ns_directory s),
          ss_wal_overflow_dropped_events := ns_wal_overflow_dropped_events s\<rparr>)"

section \<open>Names\<close>

definition wal_digits :: "u64 \<Rightarrow> string" where
  "wal_digits index = pad_zero 6 (show_word index)"

lemma wal_digits_value: "digits_value (wal_digits index) = unat index"
  by (simp add: wal_digits_def show_word_def)

lemma wal_digits_digits: "c \<in> set (wal_digits index) \<Longrightarrow> is_digit c"
  using show_nat_digits [of c] by (auto simp: wal_digits_def pad_zero_def show_word_def is_digit_def)

lemma wal_digits_not_Nil: "wal_digits index \<noteq> []"
  by (simp add: wal_digits_def pad_zero_def show_word_def)

lemma stoull_digits:
  assumes "ds \<noteq> []" and "\<forall>c \<in> set ds. is_digit c" and "digits_value ds < 2 ^ 64"
  shows "stoull ds = Inr (of_nat (digits_value ds), [])"
proof -
  obtain c cs where ds: "ds = c # cs" using assms(1) by (cases ds) auto
  have "is_digit c" using assms(2) ds by simp
  then have "\<not> is_space c" "c \<noteq> CHR ''-''" "c \<noteq> CHR ''+''"
    by (auto simp: is_digit_def is_space_def)
  moreover have all: "takeWhile is_digit cs = cs" "dropWhile is_digit cs = []"
    using assms(2) ds by simp_all
  ultimately show ?thesis
    using assms(3) ds \<open>is_digit c\<close>
    by (simp add: stoull_def Let_def all del: takeWhile_eq_all_conv dropWhile_eq_Nil_conv)
qed

lemma wal_name_digits: "wal_name index = (''events_'' @ wal_digits index) @ CHR ''.'' # ''wal''"
  by (simp add: wal_name_def wal_digits_def)

lemma is_wal_name [simp]: "is_wal (wal_name index)"
  unfolding is_wal_def wal_name_digits by (subst path_parts) simp_all

lemma wal_name_not_Nil [simp]: "wal_name index \<noteq> []"
  by (simp add: wal_name_def)

lemma wal_index_from_wal_name [simp]: "wal_index_from_name (wal_name index) = Some index"
proof -
  have "CHR ''_'' \<notin> set (wal_digits index)"
    using wal_digits_digits [of "CHR ''_''" index] by (auto simp: is_digit_def)
  then have "split_last (CHR ''_'') (''events'' @ CHR ''_'' # wal_digits index) = Some (''events'', wal_digits index)"
    by (rule split_last_append)
  moreover have "path_stem (wal_name index) = ''events'' @ CHR ''_'' # wal_digits index"
    unfolding wal_name_digits by (subst path_parts) simp_all
  moreover have "stoull (wal_digits index) = Inr (index, [])"
    using stoull_digits [OF wal_digits_not_Nil, of index] wal_digits_digits unat_less_64 [of index]
    by (simp add: wal_digits_value)
  ultimately show ?thesis by (simp add: wal_index_from_name_def)
qed

lemma wal_name_inject [simp]: "wal_name i = wal_name j \<longleftrightarrow> i = j"
  by (metis option.inject wal_index_from_wal_name)

lemma not_wal_tmp [simp]: "\<not> is_wal (name @ ''.tmp'')" if "name \<noteq> []"
  using path_parts(2) [of "''tmp''" name] that by (simp add: is_wal_def)

section \<open>The records of a directory\<close>

definition one_line :: "string \<Rightarrow> bool" where
  "one_line line \<longleftrightarrow> (\<exists>body. line = body @ [CHR 0x0A] \<and> body \<noteq> [] \<and> CHR 0x0A \<notin> set body)"

lemma load_segment_append: "complete a \<Longrightarrow> load_segment (a @ b) = load_segment a @ load_segment b"
  by (simp add: load_segment_def get_lines_append List.map_filter_def)

lemma load_segment_record [simp]: "one_line line \<Longrightarrow> load_segment (record_text line) = [line]"
proof -
  assume "one_line line"
  then obtain body where line: "line = body @ [CHR 0x0A]" and "body \<noteq> []" "CHR 0x0A \<notin> set body"
    by (auto simp: one_line_def)
  then have "get_lines (record_text line) = [''0'' @ CHR 0x09 # body]"
    using get_lines_append_line [of "''0'' @ CHR 0x09 # body" "[]"] by (simp add: record_text_def)
  then show ?thesis
    using line \<open>body \<noteq> []\<close> by (simp add: load_segment_def line_record_def map_filter_simps)
qed

lemma complete_record [simp]: "one_line line \<Longrightarrow> complete (record_text line)"
  by (auto simp: one_line_def record_text_def complete_def)

lemma load_segment_Nil [simp]: "load_segment [] = []"
  by (simp add: load_segment_def map_filter_simps)

lemma load_segment_records:
  "\<forall>line \<in> set lines. one_line line \<Longrightarrow>
   load_segment (concat (map record_text lines)) = lines \<and> complete (concat (map record_text lines))"
  by (induction lines) (simp_all add: load_segment_append)

text \<open>The records that loading finds in the segments with names in a set, as a multiset.\<close>

definition log_of :: "string set \<Rightarrow> directory \<Rightarrow> string multiset" where
  "log_of P dir = sum_list (map (\<lambda>(name, content). if name \<in> P \<and> is_wal name then mset (load_segment content) else {#}) dir)"

abbreviation log_lines :: "directory \<Rightarrow> string multiset" where
  "log_lines dir \<equiv> log_of UNIV dir"

definition directory_ok :: "directory \<Rightarrow> bool" where
  "directory_ok dir \<longleftrightarrow> distinct (map fst dir) \<and> (\<forall>(name, content) \<in> set dir. is_wal name \<longrightarrow> complete content)"

lemma log_of_Nil [simp]: "log_of P [] = {#}"
  by (simp add: log_of_def)

lemma log_of_Cons [simp]:
  "log_of P ((name, content) # dir) = (if name \<in> P \<and> is_wal name then mset (load_segment content) else {#}) + log_of P dir"
  by (simp add: log_of_def)

lemma log_of_subset: "log_of P dir \<subseteq># log_lines dir"
  by (induction dir) (auto simp: subset_mset.add_increasing add_mono)

lemma log_of_delete:
  "distinct (map fst dir) \<Longrightarrow>
   log_of P dir = (if name \<in> P \<and> is_wal name then mset (load_segment (case map_of dir name of None \<Rightarrow> [] | Some content \<Rightarrow> content)) else {#}) +
     log_of P (AList.delete name dir)"
  by (induction dir) (auto simp: delete_nonkey add.left_commute dest: map_of_SomeD)

lemma log_of_delete_outside: "name \<notin> P \<or> \<not> is_wal name \<Longrightarrow> log_of P (AList.delete name dir) = log_of P dir"
  by (induction dir) auto

lemma log_of_update:
  "distinct (map fst dir) \<Longrightarrow>
   log_of P (AList.update name content dir) =
     (if name \<in> P \<and> is_wal name then mset (load_segment content) else {#}) + log_of P (AList.delete name dir)"
  by (induction dir) (auto simp: delete_nonkey add.left_commute)

lemma directory_ok_update:
  "directory_ok dir \<Longrightarrow> (is_wal name \<Longrightarrow> complete content) \<Longrightarrow> directory_ok (AList.update name content dir)"
  using set_update_subset [of name content dir] distinct_update [of dir name content]
  by (auto simp: directory_ok_def)

lemma directory_ok_delete: "directory_ok dir \<Longrightarrow> directory_ok (AList.delete name dir)"
  using distinct_delete [of dir name] by (auto simp: directory_ok_def AList.delete_eq)

lemma append_file_log:
  assumes "directory_ok dir" and "is_wal name" and "one_line line"
  shows "directory_ok (append_file name (record_text line) dir)"
    and "log_lines (append_file name (record_text line) dir) = add_mset line (log_lines dir)"
proof -
  let ?old = "case map_of dir name of None \<Rightarrow> [] | Some content \<Rightarrow> content"
  have old: "complete ?old"
    using assms(1,2) by (auto simp: directory_ok_def split: option.split dest: map_of_SomeD)
  then show "directory_ok (append_file name (record_text line) dir)"
    using assms by (simp add: append_file_def directory_ok_update)
  have "distinct (map fst dir)" using assms(1) by (simp add: directory_ok_def)
  then show "log_lines (append_file name (record_text line) dir) = add_mset line (log_lines dir)"
    using log_of_delete [of dir UNIV name] old assms(2,3)
    by (simp add: append_file_def log_of_update load_segment_append)
qed

definition records_of :: "directory \<Rightarrow> string \<Rightarrow> string multiset" where
  "records_of dir name = mset (map wr_json_line (segment_records dir name))"

lemma records_of_eq:
  "records_of dir name = (case map_of dir name of None \<Rightarrow> {#} | Some content \<Rightarrow> mset (load_segment content))"
  by (simp add: records_of_def segment_records_def comp_def split: option.split del: mset_map)

lemma log_of_map_of:
  "distinct (map fst dir) \<Longrightarrow> log_lines dir = sum_list (map (records_of dir) (filter is_wal (map fst dir)))"
proof (induction dir)
  case (Cons entry dir)
  obtain name content where entry: "entry = (name, content)" by fastforce
  have same: "map (records_of ((name, content) # dir)) (filter is_wal (map fst dir)) = map (records_of dir) (filter is_wal (map fst dir))"
    using Cons.prems entry by (intro map_cong refl) (auto simp: records_of_eq)
  have "records_of ((name, content) # dir) name = mset (load_segment content)" by (simp add: records_of_eq)
  then show ?case using Cons.IH Cons.prems entry same by (simp add: same del: map_eq_conv)
qed simp

lemma mset_concat: "mset (concat xss) = sum_list (map mset xss)"
  by (induction xss) simp_all

lemma load_wal_pending:
  "ns_pending (load_wal s) = concat (map (segment_records (ns_directory s)) (wal_segments (ns_directory s)))"
  "ns_directory (load_wal s) = ns_directory s"
  by (simp_all add: load_wal_def next_wal_path_def Let_def)

lemma sum_list_sort: "sum_list (map f (sort xs)) = sum_list (map f xs)" for f :: "'a::linorder \<Rightarrow> 'b::comm_monoid_add"
  by (metis mset_map mset_sort sum_mset_sum_list)

lemma load_wal_log:
  assumes "distinct (map fst (ns_directory s))"
  shows "mset (map wr_json_line (ns_pending (load_wal s))) = log_lines (ns_directory s)"
proof -
  have "mset (map wr_json_line (concat (map (segment_records dir) names))) = sum_list (map (records_of dir) names)" for dir names
    by (induction names) (simp_all add: records_of_def)
  then show ?thesis
    unfolding load_wal_pending wal_segments_def log_of_map_of [OF assms] by (simp only: sum_list_sort)
qed

section \<open>Compaction\<close>

lemma stage_segments_lines:
  "concat (map (\<lambda>segment. map wr_json_line (sg_records segment)) (stage_segments limit index rs)) = map wr_json_line rs"
proof (induction limit index rs rule: stage_segments.induct)
  case (1 limit index rs)
  let ?t = "take_segment limit 0 rs"
  have rs: "map wr_json_line rs = map wr_json_line (fst ?t) @ map wr_json_line (snd (snd ?t))"
    by (metis map_append take_segment_append)
  then show ?case
    using 1 by (cases "snd (snd ?t) = []") (simp_all add: stage_segments.simps [of limit index rs] Let_def comp_def)
qed

lemma stage_segments_names:
  "map sg_name (stage_segments limit index rs) =
     map (\<lambda>k. wal_name (index + of_nat k)) [0..<length (stage_segments limit index rs)]"
proof (induction limit index rs rule: stage_segments.induct)
  case (1 limit index rs)
  show ?case
  proof (cases "snd (snd (take_segment limit 0 rs)) = []")
    case False
    let ?rest = "stage_segments limit (index + 1) (snd (snd (take_segment limit 0 rs)))"
    have "map sg_name ?rest = map (\<lambda>k. wal_name (index + of_nat (Suc k))) [0..<length ?rest]"
      using 1 False by (simp add: add.assoc)
    then have "map sg_name ?rest = map (\<lambda>k. wal_name (index + of_nat k)) [Suc 0..<Suc (length ?rest)]"
      by (simp only: map_Suc_upt [symmetric] map_map comp_def)
    then show ?thesis
      using False by (simp add: stage_segments.simps [of limit index rs] Let_def upt_conv_Cons del: upt_Suc)
  qed (simp add: stage_segments.simps [of limit index rs] Let_def)
qed

lemma stage_segments_length: "length (stage_segments limit index rs) \<le> max 1 (length rs)"
proof (induction limit index rs rule: stage_segments.induct)
  case (1 limit index rs)
  show ?case
  proof (cases "snd (snd (take_segment limit 0 rs)) = []")
    case False
    then have "length (stage_segments limit (index + 1) (snd (snd (take_segment limit 0 rs)))) \<le>
        length (snd (snd (take_segment limit 0 rs)))"
      using 1 [OF refl refl False] by (simp add: max_def Suc_le_eq split: if_splits)
    then show ?thesis
      using False take_segment_shorter [OF False]
      by (simp add: stage_segments.simps [of limit index rs] Let_def)
  qed (simp add: stage_segments.simps [of limit index rs] Let_def)
qed

lemma stage_segments_not_Nil [simp]: "stage_segments limit index rs \<noteq> []"
  by (subst stage_segments.simps) (simp add: Let_def)

text \<open>Operations that only add segments, and what they publish.\<close>

fun adding_op :: "wal_op \<Rightarrow> bool" where
  "adding_op (Stage name content) \<longleftrightarrow> name \<noteq> []"
| "adding_op (Unstage name) \<longleftrightarrow> name \<noteq> []"
| "adding_op (Publish name content) \<longleftrightarrow> name \<noteq> [] \<and> is_wal name \<and> complete content"
| "adding_op _ \<longleftrightarrow> False"

fun published :: "wal_op list \<Rightarrow> (string \<times> string) list" where
  "published [] = []"
| "published (Publish name content # ops) = (name, content) # published ops"
| "published (_ # ops) = published ops"

lemma published_append [simp]: "published (a @ b) = published a @ published b"
  by (induction a rule: published.induct) simp_all

lemma run_ops_simps [simp]:
  "run_ops [] dir = dir" "run_ops (op # ops) dir = run_ops ops (apply_op op dir)"
  "run_ops (a @ b) dir = run_ops b (run_ops a dir)"
  by (simp_all add: run_ops_def)

lemma apply_adding_op:
  assumes "directory_ok dir" and "adding_op op" and "fst ` set (published [op]) \<inter> fst ` set dir = {}"
  shows "directory_ok (apply_op op dir)"
    and "log_of P (apply_op op dir) = log_of P dir + log_of P (published [op])"
    and "\<And>name. is_wal name \<Longrightarrow> name \<in> fst ` set (apply_op op dir) \<Longrightarrow> name \<in> fst ` set dir \<union> fst ` set (published [op])"
proof -
  have distinct: "distinct (map fst dir)" using assms(1) by (simp add: directory_ok_def)
  show "directory_ok (apply_op op dir)" using assms(1,2) by (cases op) (auto intro!: directory_ok_update directory_ok_delete)
  show "log_of P (apply_op op dir) = log_of P dir + log_of P (published [op])"
  proof (cases op)
    case (Publish name content)
    have "name \<notin> fst ` set (AList.delete (name @ ''.tmp'') dir)"
      using assms(3) Publish AList.dom_delete_subset [of "name @ ''.tmp''" dir] by auto
    then show ?thesis
      using assms(2) Publish distinct by (simp add: log_of_update distinct_delete log_of_delete_outside delete_nonkey)
  qed (use assms(2) distinct in \<open>simp_all add: log_of_update log_of_delete_outside\<close>)
  show "name \<in> fst ` set dir \<union> fst ` set (published [op])" if "is_wal name" "name \<in> fst ` set (apply_op op dir)" for name
    using that assms(2) by (cases op) (auto simp: dom_update AList.delete_eq)
qed

lemma run_adding_ops:
  assumes "directory_ok dir" and "\<forall>op \<in> set ops. adding_op op"
    and "distinct (map fst (published ops))" and "fst ` set (published ops) \<inter> fst ` set dir = {}"
  shows "directory_ok (run_ops ops dir) \<and> log_of P (run_ops ops dir) = log_of P dir + log_of P (published ops)"
  using assms
proof (induction ops arbitrary: dir)
  case (Cons op ops)
  obtain pub where pub: "published [op] = pub" by simp
  have parts: "published (op # ops) = pub @ published ops" using pub by (cases op) auto
  have fresh: "fst ` set (published [op]) \<inter> fst ` set dir = {}" using Cons.prems(4) unfolding parts pub by auto
  have wal: "is_wal name" if "name \<in> fst ` set (published ops)" for name
    using that Cons.prems(2) by (induction ops rule: published.induct) auto
  have op: "adding_op op" using Cons.prems(2) by simp
  note step = apply_adding_op [OF Cons.prems(1) op fresh, unfolded pub]
  have apart: "fst ` set pub \<inter> fst ` set (published ops) = {}" "distinct (map fst (published ops))"
    using Cons.prems(3) unfolding parts by simp_all
  have "fst ` set (published ops) \<inter> fst ` set dir = {}"
    using Cons.prems(4) unfolding parts by auto
  then have "name \<notin> fst ` set (apply_op op dir)" if "name \<in> fst ` set (published ops)" for name
    using that step(3) [OF wal [OF that]] apart(1) by (metis UnE disjoint_iff)
  then have "fst ` set (published ops) \<inter> fst ` set (apply_op op dir) = {}" by (metis disjoint_iff)
  then have "directory_ok (run_ops ops (apply_op op dir)) \<and>
      log_of P (run_ops ops (apply_op op dir)) = log_of P (apply_op op dir) + log_of P (published ops)"
    using Cons.IH [OF step(1)] Cons.prems(2) apart(2) by simp
  moreover have "log_of P (pub @ published ops) = log_of P pub + log_of P (published ops)"
    by (simp add: log_of_def)
  ultimately show ?case unfolding parts using step(2) [of P] by (simp add: add.assoc)
qed simp

text \<open>
  What is left of a sequence of operations when the machine stops: all operations up to a directory
  sync, and any of the later ones that were begun. When only the process stops it is a prefix.
\<close>

definition survives_power_loss :: "wal_op list \<Rightarrow> wal_op list \<Rightarrow> bool" where
  "survives_power_loss kept ops \<longleftrightarrow>
     (\<exists>durable later rest some. ops = durable @ later @ rest \<and> (durable = [] \<or> last durable = SyncDirectory) \<and>
        SyncDirectory \<notin> set later \<and> subseq some later \<and> kept = durable @ some)"

definition partial_run :: "wal_op list \<Rightarrow> wal_op list \<Rightarrow> wal_op list \<Rightarrow> bool" where
  "partial_run before after kept \<longleftrightarrow> subseq kept before \<or> (\<exists>us. kept = before @ us \<and> set us \<subseteq> set after)"

lemma partial_run_take: "partial_run before after (take n (before @ after))"
proof (cases "n \<le> length before")
  case True
  then show ?thesis by (simp add: partial_run_def prefix_imp_subseq take_is_prefix)
qed (auto simp: partial_run_def dest: in_set_takeD)

lemma partial_run_power_loss:
  assumes "survives_power_loss kept (before @ after)" and "SyncDirectory \<notin> set before"
    and "after = [] \<or> hd after = SyncDirectory"
  shows "partial_run before after kept"
proof -
  obtain durable later rest some where ops: "before @ after = durable @ later @ rest"
    "durable = [] \<or> last durable = SyncDirectory" "SyncDirectory \<notin> set later" "subseq some later" "kept = durable @ some"
    using assms(1) by (auto simp: survives_power_loss_def)
  show ?thesis
  proof (cases "durable = []")
    case True
    have "prefix later before"
    proof (rule ccontr)
      assume "\<not> prefix later before"
      then obtain us where us: "later = before @ us" "us @ rest = after" "us \<noteq> []"
        using ops(1) True by (auto simp: append_eq_append_conv2 prefix_def)
      then have "hd after = hd us" "after \<noteq> []" by auto
      then show False using assms(3) us(1,3) ops(3) hd_in_set [of us] by auto
    qed
    then show ?thesis
      using ops(4,5) True by (auto simp: partial_run_def intro: subseq_order.trans prefix_imp_subseq)
  next
    case False
    then have "SyncDirectory \<in> set durable" using ops(2) last_in_set by metis
    then obtain us where "durable = before @ us" "us @ later @ rest = after"
      using ops(1) assms(2) by (auto simp: append_eq_append_conv2)
    moreover have "set some \<subseteq> set later" using ops(4) by (auto dest: list_emb_set)
    ultimately show ?thesis using ops(5) by (auto simp: partial_run_def)
  qed
qed

lemma subseq_published: "subseq a b \<Longrightarrow> subseq (published a) (published b)"
proof (induction rule: list_emb.induct)
  case (list_emb_Cons xs ys y)
  then show ?case by (cases y) auto
next
  case (list_emb_Cons2 x y xs ys)
  then show ?case by (cases y) auto
qed simp

definition segment_entry :: "staged_segment \<Rightarrow> string \<times> string" where
  "segment_entry segment = (sg_name segment, segment_text segment)"

definition segment_good :: "staged_segment \<Rightarrow> bool" where
  "segment_good segment \<longleftrightarrow> sg_name segment \<noteq> [] \<and> is_wal (sg_name segment) \<and>
     (\<forall>r \<in> set (sg_records segment). one_line (wr_json_line r))"

lemma segment_good_text:
  "segment_good segment \<Longrightarrow> complete (segment_text segment) \<and>
   load_segment (segment_text segment) = map wr_json_line (sg_records segment)"
  using load_segment_records [of "map wr_json_line (sg_records segment)"]
  by (auto simp: segment_good_def segment_text_def comp_def)

lemma stage_all_ops:
  "\<forall>segment \<in> set segments. segment_good segment \<Longrightarrow>
   (\<forall>op \<in> set (fst (stage_all outcomes i segments)). adding_op op) \<and>
   published (fst (stage_all outcomes i segments)) = []"
  by (induction outcomes i segments rule: stage_all.induct)
    (auto simp: segment_good_def case_prod_beta split: stage_outcome.split)

lemma publish_all_ops:
  "\<forall>segment \<in> set segments. segment_good segment \<Longrightarrow>
   (\<forall>op \<in> set (fst (publish_all outcomes i segments)). adding_op op) \<and>
   prefix (published (fst (publish_all outcomes i segments))) (map segment_entry segments) \<and>
   (snd (publish_all outcomes i segments) \<longrightarrow>
      published (fst (publish_all outcomes i segments)) = map segment_entry segments)"
proof (induction outcomes i segments rule: publish_all.induct)
  case (2 outcomes i segment segments)
  have "published (map (\<lambda>segment. Unstage (sg_name segment)) xs) = []" for xs :: "staged_segment list"
    by (induction xs) simp_all
  then show ?case
    using 2 segment_good_text [of segment]
    by (auto simp: case_prod_beta segment_entry_def) (auto simp: segment_good_def)
qed simp

lemma adding_op_not_sync: "\<forall>op \<in> set ops. adding_op op \<Longrightarrow> SyncDirectory \<notin> set ops"
  by auto

text \<open>The segment counter is far enough from wrapping.\<close>

definition index_room :: "network_sink \<Rightarrow> bool" where
  "index_room s \<longleftrightarrow>
     unat (first_free_index s) + length (ns_pending s) + 1 < 2 ^ 64 \<and>
     (\<forall>name \<in> set (old_segments (ns_directory s)). wal_index_from_name name \<noteq> Some (- 1))"

lemma unat_of_nat_64: "k < 2 ^ 64 \<Longrightarrow> unat (of_nat k :: u64) = k"
  by (simp add: unsigned_of_nat take_bit_nat_eq_self_iff)

lemma fold_max_index:
  fixes start :: u64
  shows "start \<le> fold (\<lambda>name m. case f name of None \<Rightarrow> m | Some i \<Rightarrow> max m (i + 1)) names start \<and>
    (\<forall>name \<in> set names. \<forall>i. f name = Some i \<longrightarrow>
       i + 1 \<le> fold (\<lambda>name m. case f name of None \<Rightarrow> m | Some i \<Rightarrow> max m (i + 1)) names start)"
proof (induction names arbitrary: start)
  case (Cons name names)
  let ?start = "case f name of None \<Rightarrow> start | Some i \<Rightarrow> max start (i + 1)"
  have "start \<le> ?start" "\<forall>i. f name = Some i \<longrightarrow> i + 1 \<le> ?start" by (auto split: option.split)
  then show ?case using Cons.IH [of ?start] by (auto intro: order_trans)
qed simp

lemma fresh_segment_names:
  assumes "index_room s" and "k < length (ns_pending s) + 1"
  shows "wal_name (first_free_index s + of_nat k) \<notin> fst ` set (ns_directory s)"
proof
  let ?next = "first_free_index s"
  assume "wal_name (?next + of_nat k) \<in> fst ` set (ns_directory s)"
  then have old: "wal_name (?next + of_nat k) \<in> set (old_segments (ns_directory s))"
    by (simp add: old_segments_def)
  have room: "unat ?next + k < 2 ^ 64" using assms by (simp add: index_room_def)
  then have "unat (of_nat k :: u64) = k" by (simp add: unat_of_nat_64)
  then have sum: "unat (?next + of_nat k) = unat ?next + k"
    using room by (subst unat_add_no_overflow) simp_all
  have "?next + of_nat k \<noteq> - 1" using old assms(1) by (force simp: index_room_def)
  then have "unat (?next + of_nat k + 1) = unat ?next + k + 1"
    using unat_add_1 [of "?next + of_nat k" "- 1"] sum by (simp add: word_order.not_eq_extremum)
  moreover have "?next + of_nat k + 1 \<le> ?next"
    using old fold_max_index [of "ns_current_wal_index s" wal_index_from_name "old_segments (ns_directory s)"]
    unfolding first_free_index_def by simp
  ultimately show False by (simp add: word_le_nat_alt)
qed

lemma distinct_segment_names:
  assumes "unat next_index + length segments < 2 ^ 64"
    and "map sg_name segments = map (\<lambda>k. wal_name (next_index + of_nat k)) [0..<length segments]"
  shows "distinct (map sg_name segments)"
proof -
  have "inj_on (\<lambda>k. wal_name (next_index + of_nat k)) {0..<length segments}"
  proof (rule inj_onI)
    fix k l
    assume "k \<in> {0..<length segments}" "l \<in> {0..<length segments}"
      and "wal_name (next_index + of_nat k) = wal_name (next_index + of_nat l)"
    then have "k < 2 ^ 64" "l < 2 ^ 64" "(of_nat k :: u64) = of_nat l" using assms(1) by simp_all
    then show "k = l" by (metis unat_of_nat_64)
  qed
  then show ?thesis unfolding assms(2) by (simp add: distinct_map)
qed

text \<open>What the compaction is given and does.\<close>

definition remaining_lines :: "nat \<Rightarrow> network_sink \<Rightarrow> string list" where
  "remaining_lines acked s = map wr_json_line (drop (min acked (length (ns_pending s))) (ns_pending s))"

definition staged_of :: "monitor_config \<Rightarrow> nat \<Rightarrow> network_sink \<Rightarrow> staged_segment list" where
  "staged_of cfg acked s =
     stage_segments (segment_bytes cfg) (first_free_index s) (drop (min acked (length (ns_pending s))) (ns_pending s))"

definition sink_ok :: "network_sink \<Rightarrow> bool" where
  "sink_ok s \<longleftrightarrow> directory_ok (ns_directory s) \<and>
     (\<forall>r \<in> set (ns_pending s). one_line (wr_json_line r)) \<and>
     mset (map wr_json_line (ns_pending s)) \<subseteq># log_lines (ns_directory s) \<and>
     (ns_current_wal_path s = [] \<or> is_wal (ns_current_wal_path s))"

lemma staged_of_lines:
  "concat (map (\<lambda>segment. map wr_json_line (sg_records segment)) (staged_of cfg acked s)) = remaining_lines acked s"
  by (simp add: staged_of_def remaining_lines_def stage_segments_lines)

lemma staged_of_good:
  assumes "\<forall>r \<in> set (ns_pending s). one_line (wr_json_line r)" and "segment \<in> set (staged_of cfg acked s)"
  shows "segment_good segment"
proof -
  have "sg_name segment \<in> set (map sg_name (staged_of cfg acked s))" using assms(2) by simp
  then obtain k where "sg_name segment = wal_name k"
    unfolding staged_of_def stage_segments_names by auto
  moreover have "one_line (wr_json_line r)" if "r \<in> set (sg_records segment)" for r
  proof -
    have "wr_json_line r \<in> set (remaining_lines acked s)"
      unfolding staged_of_lines [of cfg acked s, symmetric] using assms(2) that by auto
    then show ?thesis using assms(1) by (auto simp: remaining_lines_def dest: in_set_dropD)
  qed
  ultimately show ?thesis by (simp add: segment_good_def)
qed

lemma staged_entries:
  assumes "\<forall>r \<in> set (ns_pending s). one_line (wr_json_line r)" and "index_room s"
  shows "distinct (map fst (map segment_entry (staged_of cfg acked s)))"
    and "fst ` set (map segment_entry (staged_of cfg acked s)) \<inter> fst ` set (ns_directory s) = {}"
    and "log_lines (map segment_entry (staged_of cfg acked s)) = mset (remaining_lines acked s)"
proof -
  let ?staged = "staged_of cfg acked s"
  have names: "map sg_name ?staged = map (\<lambda>k. wal_name (first_free_index s + of_nat k)) [0..<length ?staged]"
    unfolding staged_of_def by (rule stage_segments_names)
  have length: "length ?staged \<le> max 1 (length (ns_pending s))"
    unfolding staged_of_def by (rule order_trans [OF stage_segments_length]) auto
  then have room: "unat (first_free_index s) + length ?staged < 2 ^ 64"
    using assms(2) by (auto simp: index_room_def max_def split: if_splits)
  have fst: "map fst (map segment_entry ?staged) = map sg_name ?staged" by (simp add: segment_entry_def comp_def)
  show "distinct (map fst (map segment_entry ?staged))"
    unfolding fst using room names by (rule distinct_segment_names)
  have "wal_name (first_free_index s + of_nat k) \<notin> fst ` set (ns_directory s)" if "k < length ?staged" for k
    using fresh_segment_names [OF assms(2)] that length by simp
  then have "set (map sg_name ?staged) \<inter> fst ` set (ns_directory s) = {}" unfolding names by (force simp: image_iff)
  then show "fst ` set (map segment_entry ?staged) \<inter> fst ` set (ns_directory s) = {}"
    by (metis fst set_map)
  have "log_lines (map segment_entry xs) = mset (concat (map (\<lambda>segment. map wr_json_line (sg_records segment)) xs))"
    if "\<forall>segment \<in> set xs. segment_good segment" for xs
    using that segment_good_text by (induction xs) (auto simp: segment_entry_def segment_good_def)
  then show "log_lines (map segment_entry ?staged) = mset (remaining_lines acked s)"
    using staged_of_good [OF assms(1)] staged_of_lines by metis
qed

definition rewrite_ops :: "monitor_config \<Rightarrow> wal_outcomes \<Rightarrow> nat \<Rightarrow> network_sink \<Rightarrow> wal_op list" where
  "rewrite_ops cfg outcomes acked s = fst (snd (rewrite_wal cfg outcomes acked s))"

lemma rewrite_shape:
  assumes "\<forall>r \<in> set (ns_pending s). one_line (wr_json_line r)"
  obtains before after where
    "rewrite_ops cfg outcomes acked s = before @ after"
    "\<forall>op \<in> set before. adding_op op"
    "prefix (published before) (map segment_entry (staged_of cfg acked s))"
    "if snd (snd (rewrite_wal cfg outcomes acked s))
     then published before = map segment_entry (staged_of cfg acked s) \<and>
          after = SyncDirectory # map Unlink (filter (wo_unlink outcomes) (old_segments (ns_directory s))) @
                  (if wo_final_sync outcomes then [SyncDirectory] else [])
     else after = []"
proof -
  let ?staged = "staged_of cfg acked s"
  let ?stage = "stage_all outcomes 0 ?staged" and ?publish = "publish_all outcomes 0 ?staged"
  let ?old = "map Unlink (filter (wo_unlink outcomes) (old_segments (ns_directory s)))"
  have good: "\<forall>segment \<in> set ?staged. segment_good segment" using staged_of_good [OF assms] by blast
  note stage = stage_all_ops [OF good, of outcomes 0] and publish = publish_all_ops [OF good, of outcomes 0]
  have result: "snd (rewrite_wal cfg outcomes acked s) =
      (if \<not> snd ?stage then (fst ?stage, False)
       else if \<not> snd ?publish \<or> \<not> wo_sync outcomes then (fst ?stage @ fst ?publish, False)
       else ((fst ?stage @ fst ?publish) @ SyncDirectory # ?old @ (if wo_final_sync outcomes then [SyncDirectory] else []), True))"
    by (simp add: rewrite_wal_def staged_of_def Let_def case_prod_beta)
  let ?before = "if snd ?stage then fst ?stage @ fst ?publish else fst ?stage"
  let ?after = "if snd ?stage \<and> snd ?publish \<and> wo_sync outcomes
    then SyncDirectory # ?old @ (if wo_final_sync outcomes then [SyncDirectory] else []) else []"
  show ?thesis
  proof (rule that [of ?before ?after])
    show "rewrite_ops cfg outcomes acked s = ?before @ ?after"
      unfolding rewrite_ops_def result by auto
    show "\<forall>op \<in> set ?before. adding_op op" using stage publish by auto
    show "prefix (published ?before) (map segment_entry ?staged)" using stage publish by auto
    show "if snd (snd (rewrite_wal cfg outcomes acked s))
     then published ?before = map segment_entry ?staged \<and>
          ?after = SyncDirectory # ?old @ (if wo_final_sync outcomes then [SyncDirectory] else [])
     else ?after = []"
      unfolding result using stage publish by auto
  qed
qed

lemma rewrite_result:
  "ns_directory (fst (rewrite_wal cfg outcomes acked s)) = run_ops (rewrite_ops cfg outcomes acked s) (ns_directory s)"
  "\<not> snd (snd (rewrite_wal cfg outcomes acked s)) \<Longrightarrow>
     fst (rewrite_wal cfg outcomes acked s) = s\<lparr>ns_directory := run_ops (rewrite_ops cfg outcomes acked s) (ns_directory s)\<rparr>"
  "snd (snd (rewrite_wal cfg outcomes acked s)) \<Longrightarrow>
     ns_pending (fst (rewrite_wal cfg outcomes acked s)) = concat (map sg_records (staged_of cfg acked s)) \<and>
     ns_current_wal_path (fst (rewrite_wal cfg outcomes acked s)) = sg_name (last (staged_of cfg acked s))"
  by (auto simp: rewrite_wal_def rewrite_ops_def staged_of_def Let_def case_prod_beta)

text \<open>Unlinking other names leaves the log of a set of names.\<close>

lemma run_unlinks:
  assumes "directory_ok dir" and "set ops \<subseteq> insert SyncDirectory (Unlink ` names)" and "names \<inter> P = {}"
  shows "directory_ok (run_ops ops dir) \<and> log_of P (run_ops ops dir) = log_of P dir"
  using assms(1,2)
proof (induction ops arbitrary: dir)
  case (Cons op ops)
  have "directory_ok (apply_op op dir) \<and> log_of P (apply_op op dir) = log_of P dir"
    using Cons.prems assms(3) by (auto intro!: directory_ok_delete log_of_delete_outside)
  then show ?case using Cons.IH [of "apply_op op dir"] Cons.prems(2) by simp
qed simp

lemma log_of_outside: "\<forall>name \<in> P. is_wal name \<longrightarrow> name \<notin> fst ` set dir \<Longrightarrow> log_of P dir = {#}"
  by (induction dir) auto

lemma log_of_all: "\<forall>name \<in> fst ` set dir. is_wal name \<longrightarrow> name \<in> P \<Longrightarrow> log_of P dir = log_lines dir"
  by (induction dir) auto

lemma partial_rewrite_keeps:
  assumes ok: "sink_ok s" and room: "index_room s"
    and ops: "rewrite_ops cfg outcomes acked s = before @ after" "\<forall>op \<in> set before. adding_op op"
      "prefix (published before) (map segment_entry (staged_of cfg acked s))"
      "after = [] \<or> published before = map segment_entry (staged_of cfg acked s) \<and>
         set after \<subseteq> insert SyncDirectory (Unlink ` set (old_segments (ns_directory s)))"
    and part: "partial_run before after kept"
  shows "directory_ok (run_ops kept (ns_directory s)) \<and>
    mset (remaining_lines acked s) \<subseteq># log_lines (run_ops kept (ns_directory s)) \<and>
    (subseq kept before \<longrightarrow> log_lines (ns_directory s) \<subseteq># log_lines (run_ops kept (ns_directory s))) \<and>
    (\<not> subseq kept before \<longrightarrow>
       log_of (- set (old_segments (ns_directory s))) (run_ops kept (ns_directory s)) = mset (remaining_lines acked s))"
proof -
  let ?dir = "ns_directory s" and ?entries = "map segment_entry (staged_of cfg acked s)"
  have lines: "\<forall>r \<in> set (ns_pending s). one_line (wr_json_line r)" and dir: "directory_ok ?dir"
    using ok by (simp_all add: sink_ok_def)
  note entries = staged_entries [OF lines room, of cfg acked]
  have add: "directory_ok (run_ops xs ?dir) \<and> (\<forall>P. log_of P (run_ops xs ?dir) = log_of P ?dir + log_of P (published xs))"
    if xs: "subseq xs before" for xs
  proof -
    have sub: "subseq (published xs) ?entries"
      using subseq_published [OF xs] ops(3) by (meson prefix_imp_subseq subseq_order.trans)
    then have "subseq (map fst (published xs)) (map fst ?entries)" by (rule subseq_map)
    then have a: "distinct (map fst (published xs))"
      using entries(1) by (metis distinct_nthsI subseq_conv_nths)
    have "set (published xs) \<subseteq> set ?entries" using list_emb_set [OF sub] by auto
    then have b: "fst ` set (published xs) \<inter> fst ` set ?dir = {}" using entries(2) by blast
    have c: "\<forall>op \<in> set xs. adding_op op"
      using ops(2) list_emb_set [OF xs] by blast
    show ?thesis using run_adding_ops [OF dir c a b] by simp
  qed
  have pending: "mset (remaining_lines acked s) \<subseteq># log_lines ?dir"
  proof -
    have "mset (drop n xs) \<subseteq># mset xs" for n and xs :: "string list"
      by (metis append_take_drop_id mset_append mset_subset_eq_add_right)
    then have "mset (remaining_lines acked s) \<subseteq># mset (map wr_json_line (ns_pending s))"
      unfolding remaining_lines_def drop_map [symmetric] .
    then show ?thesis using ok unfolding sink_ok_def by (meson subset_mset.order_trans)
  qed
  show ?thesis
  proof (cases "subseq kept before")
    case True
    then show ?thesis using add [OF True] pending by (auto intro: subset_mset.add_increasing2)
  next
    case False
    then obtain us where us: "kept = before @ us" "set us \<subseteq> set after"
      using part by (auto simp: partial_run_def)
    then have "after \<noteq> []" using False by auto
    then have after: "published before = ?entries" "set us \<subseteq> insert SyncDirectory (Unlink ` set (old_segments ?dir))"
      using ops(4) us(2) by auto
    let ?P = "- set (old_segments ?dir)"
    have base: "directory_ok (run_ops before ?dir)" "log_of ?P (run_ops before ?dir) = log_of ?P ?dir + log_of ?P ?entries"
      using add [of before] after(1) by simp_all
    have "log_of ?P ?dir = {#}" by (rule log_of_outside) (auto simp: old_segments_def)
    moreover have "log_of ?P ?entries = log_lines ?entries"
      using entries(2) by (intro log_of_all) (auto simp: old_segments_def)
    ultimately have "log_of ?P (run_ops before ?dir) = mset (remaining_lines acked s)"
      using base(2) entries(3) by simp
    then have "directory_ok (run_ops kept ?dir) \<and> log_of ?P (run_ops kept ?dir) = mset (remaining_lines acked s)"
      using run_unlinks [OF base(1) after(2), of ?P] us(1) by simp
    then show ?thesis using log_of_subset [of ?P "run_ops kept ?dir"] False by simp
  qed
qed

section \<open>Runs of the sink\<close>

text \<open>
  A run of a system that takes items in and delivers items, with all that was taken and delivered. It
  is \<open>None\<close> where a step is undefined or the room for it is gone.
\<close>

fun tracked_run ::
  "('a \<Rightarrow> 's \<Rightarrow> 's option) \<Rightarrow> ('s \<Rightarrow> bool) \<Rightarrow> ('a \<Rightarrow> 's \<Rightarrow> 'l multiset) \<Rightarrow> ('a \<Rightarrow> 's \<Rightarrow> 'l multiset) \<Rightarrow>
   'a list \<Rightarrow> 's \<Rightarrow> ('s \<times> 'l multiset \<times> 'l multiset) option" where
  "tracked_run step room taken delivered [] s = Some (s, {#}, {#})"
| "tracked_run step room taken delivered (a # as) s =
     (if room s then
        case step a s of
          None \<Rightarrow> None
        | Some s' \<Rightarrow> map_option (\<lambda>(t, i, out). (t, taken a s + i, delivered a s + out))
                      (tracked_run step room taken delivered as s')
      else None)"

text \<open>
  A log of things to be delivered: each step takes new items in or delivers some, and may leave
  items both delivered and pending.
\<close>

locale delivery_log =
  fixes step :: "'a \<Rightarrow> 's \<Rightarrow> 's option"
    and inv :: "'s \<Rightarrow> bool"
    and room :: "'s \<Rightarrow> bool"
    and pending :: "'s \<Rightarrow> 'l multiset"
    and taken :: "'a \<Rightarrow> 's \<Rightarrow> 'l multiset"
    and delivered :: "'a \<Rightarrow> 's \<Rightarrow> 'l multiset"
  assumes step_inv: "inv s \<Longrightarrow> room s \<Longrightarrow> step a s = Some s' \<Longrightarrow> inv s'"
    and step_keeps: "inv s \<Longrightarrow> room s \<Longrightarrow> step a s = Some s' \<Longrightarrow> pending s + taken a s \<subseteq># pending s' + delivered a s"
begin

lemma run_keeps:
  "inv s \<Longrightarrow> tracked_run step room taken delivered as s = Some (t, i, out) \<Longrightarrow> inv t \<and> pending s + i \<subseteq># pending t + out"
proof (induction as arbitrary: s i out)
  case (Cons a as)
  then obtain s' i' out' where step: "room s" "step a s = Some s'" "tracked_run step room taken delivered as s' = Some (t, i', out')"
    "i = taken a s + i'" "out = delivered a s + out'"
    by (auto split: if_splits option.splits)
  have IH: "inv t \<and> pending s' + i' \<subseteq># pending t + out'"
    using Cons.IH [OF step_inv [OF Cons.prems(1) step(1,2)] step(3)] .
  have "pending s + taken a s + i' \<subseteq># pending s' + delivered a s + i'"
    using step_keeps [OF Cons.prems(1) step(1,2)] by simp
  also have "\<dots> = delivered a s + (pending s' + i')" by simp
  also have "\<dots> \<subseteq># delivered a s + (pending t + out')" using IH by simp
  finally show ?case using IH step(4,5) by (simp add: ac_simps)
qed simp

end

text \<open>
  The steps of the sink: an event is accepted, a batch is flushed, the log is compacted over its limit,
  the program is restarted, or it is killed in a flush after some operations on the directory and
  restarted.
\<close>

datatype network_step =
    AcceptEvent internal_event append_outcome
  | FlushBatch "string option" wal_outcomes
  | CompactLog wal_outcomes
  | RestartSink
  | KilledInFlush "string option" wal_outcomes nat

definition restart :: "directory \<Rightarrow> network_sink" where
  "restart dir = load_wal (new_network_sink dir)"

definition network_step :: "monitor_config \<Rightarrow> network_step \<Rightarrow> network_sink \<Rightarrow> network_sink option" where
  "network_step cfg a s =
     (case a of
        AcceptEvent event outcome \<Rightarrow> accept_event cfg outcome event s
      | FlushBatch response outcomes \<Rightarrow> Some (fst (flush_pending cfg response outcomes s))
      | CompactLog outcomes \<Rightarrow> Some (enforce_wal_limit cfg outcomes s)
      | RestartSink \<Rightarrow> Some (restart (ns_directory s))
      | KilledInFlush response outcomes n \<Rightarrow>
          Some (restart (run_ops (take n (fst (snd (flush_pending cfg response outcomes s)))) (ns_directory s))))"

text \<open>The lines a step has accepted, and those the server has acknowledged in it.\<close>

definition step_accepts :: "monitor_config \<Rightarrow> network_step \<Rightarrow> network_sink \<Rightarrow> string multiset" where
  "step_accepts cfg a s =
     (case a of
        AcceptEvent event outcome \<Rightarrow>
          (case accept_event cfg outcome event s of
             None \<Rightarrow> {#}
           | Some s' \<Rightarrow>
               if ns_accepted_events s' \<noteq> ns_accepted_events s
               then mset (map wr_json_line (drop (length (ns_pending s)) (ns_pending s'))) else {#})
      | _ \<Rightarrow> {#})"

definition step_delivers :: "monitor_config \<Rightarrow> network_step \<Rightarrow> network_sink \<Rightarrow> string multiset" where
  "step_delivers cfg a s =
     (case a of
        FlushBatch response outcomes \<Rightarrow> if response_ok response then mset (batch_of cfg s) else {#}
      | KilledInFlush response outcomes n \<Rightarrow> if response_ok response then mset (batch_of cfg s) else {#}
      | _ \<Rightarrow> {#})"

definition tears :: "network_step \<Rightarrow> bool" where
  "tears a \<longleftrightarrow> (case a of AcceptEvent event (AppendTorn n) \<Rightarrow> True | _ \<Rightarrow> False)"

abbreviation pending_lines :: "network_sink \<Rightarrow> string multiset" where
  "pending_lines s \<equiv> mset (map wr_json_line (ns_pending s))"

lemma to_json_line_one_line: "to_json_line cfg event = Some line \<Longrightarrow> one_line line"
  using to_json_line_body by (simp add: one_line_def)

text \<open>Choosing the segment to append to changes names and counters only.\<close>

definition current_segment :: "monitor_config \<Rightarrow> network_sink \<Rightarrow> network_sink" where
  "current_segment cfg s =
     (let s = (if ns_current_wal_path s = [] then (let (s, path) = next_wal_path s in s\<lparr>ns_current_wal_path := path\<rparr>) else s)
      in if segment_bytes cfg \<le> ns_current_wal_size s
         then (let (s, path) = next_wal_path s in s\<lparr>ns_current_wal_path := path, ns_current_wal_size := 0\<rparr>)
         else s)"

lemma current_segment_fields [simp]:
  "ns_pending (current_segment cfg s) = ns_pending s"
  "ns_directory (current_segment cfg s) = ns_directory s"
  "ns_accepted_events (current_segment cfg s) = ns_accepted_events s"
  "ns_write_errors (current_segment cfg s) = ns_write_errors s"
  by (simp_all add: current_segment_def next_wal_path_def Let_def)

lemma current_segment_wal:
  "ns_current_wal_path s = [] \<or> is_wal (ns_current_wal_path s) \<Longrightarrow> is_wal (ns_current_wal_path (current_segment cfg s))"
  by (auto simp: current_segment_def next_wal_path_def Let_def)

lemma append_wal_eq:
  "append_wal cfg outcome line s =
     (let t = current_segment cfg s
      in case outcome of
           AppendNotOpened \<Rightarrow> (t, False)
         | AppendTorn n \<Rightarrow>
             (t\<lparr>ns_directory := append_file (ns_current_wal_path t) (take n (record_text line)) (ns_directory t)\<rparr>, False)
         | AppendOk \<Rightarrow>
             (t\<lparr>ns_directory := append_file (ns_current_wal_path t) (record_text line) (ns_directory t),
                ns_current_wal_size := ns_current_wal_size t + of_nat (length line) + 2\<rparr>, True))"
  by (simp add: append_wal_def current_segment_def Let_def)

lemma accept_event_cases:
  assumes "accept_event cfg outcome event s = Some s'"
  obtains (dropped) "wal_over_limit cfg (ns_directory s)" "ev_level event \<noteq> LevelCritical"
      "s' = s\<lparr>ns_wal_overflow_dropped_events := ns_wal_overflow_dropped_events s + 1\<rparr>"
  | (failed) line where "to_json_line cfg event = Some line" "outcome \<noteq> AppendOk"
      "s' = fst (append_wal cfg outcome line s)\<lparr>ns_write_errors := ns_write_errors s + 1\<rparr>"
  | (accepted) line where "to_json_line cfg event = Some line" "outcome = AppendOk"
      "s' = (fst (append_wal cfg AppendOk line s))\<lparr>
         ns_pending := ns_pending s @ [\<lparr>wr_path = ns_current_wal_path (current_segment cfg s), wr_json_line = line\<rparr>],
         ns_accepted_events := ns_accepted_events s + 1\<rparr>"
proof (cases "wal_over_limit cfg (ns_directory s) \<and> ev_level event \<noteq> LevelCritical")
  case True
  then show ?thesis using assms dropped by (simp add: accept_event_def)
next
  case False
  then obtain line where line: "to_json_line cfg event = Some line"
    using assms by (auto simp: accept_event_def split: option.splits)
  show ?thesis
  proof (cases outcome)
    case AppendOk
    then show ?thesis
      using assms accepted [OF line] False line by (simp add: accept_event_def append_wal_eq Let_def)
  qed (use assms failed [OF line] False line in \<open>simp_all add: accept_event_def append_wal_eq Let_def\<close>)
qed

lemma accept_event_ok:
  assumes "sink_ok s" and "accept_event cfg outcome event s = Some s'" and "\<not> tears (AcceptEvent event outcome)"
  shows "sink_ok s' \<and> pending_lines s' = pending_lines s + step_accepts cfg (AcceptEvent event outcome) s"
  using assms(2)
proof (cases rule: accept_event_cases)
  case dropped
  then show ?thesis using assms(1,2) by (simp add: sink_ok_def step_accepts_def)
next
  case (failed line)
  then have "outcome = AppendNotOpened" using assms(3) by (cases outcome) (simp_all add: tears_def)
  then show ?thesis
    using failed(3) assms(1,2) current_segment_wal [of s cfg] by (simp add: sink_ok_def step_accepts_def append_wal_eq Let_def)
next
  case (accepted line)
  have line: "one_line line" using to_json_line_one_line [OF accepted(1)] .
  have wal: "is_wal (ns_current_wal_path (current_segment cfg s))"
    using assms(1) current_segment_wal [of s cfg] by (simp add: sink_ok_def)
  note appended = append_file_log [OF _ wal line, of "ns_directory s"]
  show ?thesis
    using accepted(3) assms(1,2) appended line wal
    by (simp add: sink_ok_def step_accepts_def append_wal_eq Let_def)
qed

lemma load_segment_one_line: "line \<in> set (load_segment content) \<Longrightarrow> one_line line"
  using in_set_dropD [of "CHR 0x0A" 2]
  by (auto simp: load_segment_def List.map_filter_def line_record_def one_line_def
      split: if_splits dest!: get_lines_no_newline)

lemma restart_ok:
  assumes "directory_ok dir"
  shows "sink_ok (restart dir)" and "pending_lines (restart dir) = log_lines dir" and "ns_directory (restart dir) = dir"
proof -
  show "ns_directory (restart dir) = dir" by (simp add: restart_def load_wal_pending new_network_sink_def)
  show log: "pending_lines (restart dir) = log_lines dir"
    using load_wal_log [of "new_network_sink dir"] assms
    by (simp add: restart_def new_network_sink_def directory_ok_def del: mset_map)
  have "one_line (wr_json_line r)" if "r \<in> set (ns_pending (restart dir))" for r
    using that load_segment_one_line
    by (auto simp: restart_def load_wal_pending segment_records_def split: option.splits)
  moreover have "ns_current_wal_path (restart dir) = wal_name (max_index (wal_segments dir) + 1)"
    by (simp add: restart_def load_wal_def next_wal_path_def new_network_sink_def Let_def)
  ultimately show "sink_ok (restart dir)"
    using assms log by (simp add: sink_ok_def restart_def load_wal_pending new_network_sink_def del: mset_map)
qed

lemma rewrite_keeps:
  assumes "sink_ok s" and "index_room s"
  shows "sink_ok (fst (rewrite_wal cfg outcomes acked s))"
    and "pending_lines (fst (rewrite_wal cfg outcomes acked s)) =
      (if snd (snd (rewrite_wal cfg outcomes acked s)) then mset (remaining_lines acked s) else pending_lines s)"
    and "directory_ok (run_ops (take n (rewrite_ops cfg outcomes acked s)) (ns_directory s)) \<and>
      mset (remaining_lines acked s) \<subseteq># log_lines (run_ops (take n (rewrite_ops cfg outcomes acked s)) (ns_directory s))"
    and "survives_power_loss kept (rewrite_ops cfg outcomes acked s) \<Longrightarrow>
      directory_ok (run_ops kept (ns_directory s)) \<and>
      mset (remaining_lines acked s) \<subseteq># log_lines (run_ops kept (ns_directory s))"
proof -
  have lines: "\<forall>r \<in> set (ns_pending s). one_line (wr_json_line r)" using assms(1) by (simp add: sink_ok_def)
  obtain before after where shape: "rewrite_ops cfg outcomes acked s = before @ after"
      "\<forall>op \<in> set before. adding_op op"
      "prefix (published before) (map segment_entry (staged_of cfg acked s))"
      "if snd (snd (rewrite_wal cfg outcomes acked s))
       then published before = map segment_entry (staged_of cfg acked s) \<and>
            after = SyncDirectory # map Unlink (filter (wo_unlink outcomes) (old_segments (ns_directory s))) @
                    (if wo_final_sync outcomes then [SyncDirectory] else [])
       else after = []"
    using rewrite_shape [OF lines] by blast
  have after: "after = [] \<or> published before = map segment_entry (staged_of cfg acked s) \<and>
         set after \<subseteq> insert SyncDirectory (Unlink ` set (old_segments (ns_directory s)))"
    using shape(4) by (auto split: if_splits)
  note keeps = partial_rewrite_keeps [OF assms shape(1-3) after]
  show taken: "directory_ok (run_ops (take n (rewrite_ops cfg outcomes acked s)) (ns_directory s)) \<and>
      mset (remaining_lines acked s) \<subseteq># log_lines (run_ops (take n (rewrite_ops cfg outcomes acked s)) (ns_directory s))" for n
    using keeps [OF partial_run_take [of before after n]] shape(1) by simp
  show "directory_ok (run_ops kept (ns_directory s)) \<and>
      mset (remaining_lines acked s) \<subseteq># log_lines (run_ops kept (ns_directory s))"
    if "survives_power_loss kept (rewrite_ops cfg outcomes acked s)"
  proof -
    have "SyncDirectory \<notin> set before" using shape(2) by (rule adding_op_not_sync)
    moreover have "after = [] \<or> hd after = SyncDirectory" using shape(4) by (auto split: if_splits)
    ultimately show ?thesis using keeps [OF partial_run_power_loss] that shape(1) by simp
  qed
  let ?r = "rewrite_wal cfg outcomes acked s"
  show pending: "pending_lines (fst ?r) = (if snd (snd ?r) then mset (remaining_lines acked s) else pending_lines s)"
    using rewrite_result(2,3) [of cfg outcomes acked s] staged_of_lines [of cfg acked s]
    by (simp add: map_concat comp_def del: mset_map)
  have whole: "partial_run before after (before @ after)" by (auto simp: partial_run_def)
  have dir: "ns_directory (fst ?r) = run_ops (before @ after) (ns_directory s)"
    using rewrite_result(1) shape(1) by simp
  show "sink_ok (fst ?r)"
  proof (cases "snd (snd ?r)")
    case True
    have good: "segment_good segment" if "segment \<in> set (staged_of cfg acked s)" for segment
      using staged_of_good [OF lines that] .
    have "staged_of cfg acked s \<noteq> []" by (simp add: staged_of_def)
    then have "segment_good (last (staged_of cfg acked s))" using good by simp
    then show ?thesis
      using True rewrite_result(3) [OF True] keeps [OF whole] pending dir good
      by (auto simp: sink_ok_def segment_good_def simp del: mset_map)
  next
    case False
    then have "after = []" using shape(4) by simp
    then have "log_lines (ns_directory s) \<subseteq># log_lines (ns_directory (fst ?r))" "directory_ok (ns_directory (fst ?r))"
      using keeps [OF whole] dir by simp_all
    then show ?thesis
      using assms(1) rewrite_result(2) [OF False]
      by (auto simp: sink_ok_def simp del: mset_map intro: subset_mset.order_trans)
  qed
qed

lemma remaining_lines_all: "mset (remaining_lines 0 s) = pending_lines s"
  by (simp add: remaining_lines_def)

lemma batch_and_remaining:
  "pending_lines s = mset (batch_of cfg s) + mset (remaining_lines (length (batch_of cfg s)) s)"
proof -
  let ?n = "min (length (ns_pending s)) (unat (network_batch_size cfg))"
  have "batch_of cfg s = map wr_json_line (take ?n (ns_pending s))" by (simp add: batch_of_def)
  moreover have "remaining_lines (length (batch_of cfg s)) s = map wr_json_line (drop ?n (ns_pending s))"
    by (simp add: remaining_lines_def batch_of_def)
  ultimately show ?thesis by (metis append_take_drop_id map_append mset_append)
qed

text \<open>The steps of the sink are a delivery log, as long as no append is torn.\<close>

definition untorn_step :: "monitor_config \<Rightarrow> network_step \<Rightarrow> network_sink \<Rightarrow> network_sink option" where
  "untorn_step cfg a s = (if tears a then None else network_step cfg a s)"

lemma index_room_sent [simp]: "index_room (s\<lparr>ns_sent_events := n\<rparr>) = index_room s"
  by (simp add: index_room_def first_free_index_def)

lemma sink_ok_counters [simp]:
  "sink_ok (s\<lparr>ns_sent_events := n\<rparr>) = sink_ok s" "sink_ok (s\<lparr>ns_send_errors := n\<rparr>) = sink_ok s"
  by (simp_all add: sink_ok_def)

lemma remaining_lines_sent [simp]: "remaining_lines acked (s\<lparr>ns_sent_events := n\<rparr>) = remaining_lines acked s"
  by (simp add: remaining_lines_def)

lemma flush_keeps:
  assumes "sink_ok s" and "index_room s"
  shows "sink_ok (fst (flush_pending cfg response outcomes s)) \<and>
      pending_lines s \<subseteq># pending_lines (fst (flush_pending cfg response outcomes s)) +
        (if response_ok response then mset (batch_of cfg s) else {#})"
    and "sink_ok (restart (run_ops (take n (fst (snd (flush_pending cfg response outcomes s)))) (ns_directory s))) \<and>
      pending_lines s \<subseteq># pending_lines (restart (run_ops (take n (fst (snd (flush_pending cfg response outcomes s)))) (ns_directory s))) +
        (if response_ok response then mset (batch_of cfg s) else {#})"
proof -
  let ?s = "s\<lparr>ns_sent_events := ns_sent_events s + of_nat (length (batch_of cfg s))\<rparr>"
  let ?acked = "length (batch_of cfg s)"
  let ?f = "flush_pending cfg response outcomes s"
  have ok: "sink_ok ?s" and room: "index_room ?s" using assms by simp_all
  note keeps = rewrite_keeps [OF ok room, where cfg = cfg and outcomes = outcomes and acked = ?acked]
  have dir: "directory_ok (ns_directory s)" and log: "pending_lines s \<subseteq># log_lines (ns_directory s)"
    using assms(1) by (simp_all add: sink_ok_def)
  consider "?f = (s, [], True)" | "?f = (s\<lparr>ns_send_errors := ns_send_errors s + 1\<rparr>, [], False)"
    | "response_ok response" "?f = rewrite_wal cfg outcomes ?acked ?s"
    by (cases "batch_of cfg s = []"; cases "response_ok response") (simp_all add: flush_pending_def Let_def)
  then have "sink_ok (fst ?f) \<and>
      pending_lines s \<subseteq># pending_lines (fst ?f) + (if response_ok response then mset (batch_of cfg s) else {#}) \<and>
      (directory_ok (run_ops (take n (fst (snd ?f))) (ns_directory s)) \<and>
      pending_lines s \<subseteq># log_lines (run_ops (take n (fst (snd ?f))) (ns_directory s)) +
        (if response_ok response then mset (batch_of cfg s) else {#}))"
  proof cases
    case 3
    have "mset (remaining_lines ?acked s) \<subseteq># log_lines (run_ops (take n (rewrite_ops cfg outcomes ?acked ?s)) (ns_directory s))"
      using keeps(3) [where n = n] by simp
    then show ?thesis
      using 3 keeps(1,2) keeps(3) [where n = n] batch_and_remaining [of s cfg]
      by (simp add: rewrite_ops_def del: mset_map)
  qed (use assms(1) dir log in \<open>simp_all add: subset_mset.add_increasing2 del: mset_map\<close>)
  then show "sink_ok (fst ?f) \<and>
      pending_lines s \<subseteq># pending_lines (fst ?f) + (if response_ok response then mset (batch_of cfg s) else {#})"
    and "sink_ok (restart (run_ops (take n (fst (snd ?f))) (ns_directory s))) \<and>
      pending_lines s \<subseteq># pending_lines (restart (run_ops (take n (fst (snd ?f))) (ns_directory s))) +
        (if response_ok response then mset (batch_of cfg s) else {#})"
    using restart_ok(1,2) by (simp_all del: mset_map)
qed

lemma enforce_keeps:
  assumes "sink_ok s" and "index_room s"
  shows "sink_ok (enforce_wal_limit cfg outcomes s) \<and> pending_lines (enforce_wal_limit cfg outcomes s) = pending_lines s"
  using rewrite_keeps(1,2) [OF assms, of cfg outcomes 0] assms(1)
  by (simp add: enforce_wal_limit_def remaining_lines_all del: mset_map)

lemma untorn_step_keeps:
  assumes "sink_ok s" and "index_room s" and "untorn_step cfg a s = Some s'"
  shows "sink_ok s' \<and> pending_lines s + step_accepts cfg a s \<subseteq># pending_lines s' + step_delivers cfg a s"
proof (cases a)
  case (AcceptEvent event outcome)
  then show ?thesis
    using accept_event_ok [OF assms(1), of cfg outcome event s'] assms(3)
    by (auto simp: untorn_step_def network_step_def step_delivers_def simp del: mset_map split: if_splits)
next
  case (FlushBatch response outcomes)
  then show ?thesis
    using flush_keeps(1) [OF assms(1,2), of cfg response outcomes] assms(3)
    by (auto simp: untorn_step_def network_step_def step_delivers_def step_accepts_def tears_def simp del: mset_map)
next
  case (CompactLog outcomes)
  then show ?thesis
    using enforce_keeps [OF assms(1,2), of cfg outcomes] assms(3)
    by (auto simp: untorn_step_def network_step_def step_delivers_def step_accepts_def tears_def simp del: mset_map)
next
  case RestartSink
  then show ?thesis
    using restart_ok [of "ns_directory s"] assms(1,3)
    by (auto simp: untorn_step_def network_step_def step_delivers_def step_accepts_def tears_def sink_ok_def simp del: mset_map)
next
  case (KilledInFlush response outcomes n)
  then show ?thesis
    using flush_keeps(2) [OF assms(1,2), of n cfg response outcomes] assms(3)
    by (auto simp: untorn_step_def network_step_def step_delivers_def step_accepts_def tears_def simp del: mset_map)
qed

interpretation sink_log: delivery_log "untorn_step cfg" sink_ok index_room pending_lines "step_accepts cfg" "step_delivers cfg"
  for cfg
  using untorn_step_keeps by unfold_locales blast+

section \<open>Properties\<close>

definition all_succeed :: wal_outcomes where
  "all_succeed = \<lparr>wo_stage = (\<lambda>_. StageOk), wo_rename = (\<lambda>_. True), wo_sync = True,
     wo_unlink = (\<lambda>_. True), wo_final_sync = True\<rparr>"

definition sample_directory :: directory where
  "sample_directory = [(wal_name 1, concat (map record_text [''{}'' @ [CHR 0x0A], ''[]'' @ [CHR 0x0A]]))]"

lemma sample_lines: "\<forall>line \<in> set [''{}'' @ [CHR 0x0A], ''[]'' @ [CHR 0x0A]]. one_line line"
  by (auto simp: one_line_def)

lemma sample_ok: "directory_ok sample_directory"
  using load_segment_records [OF sample_lines] by (simp add: sample_directory_def directory_ok_def)

lemma sample_room: "index_room (restart sample_directory)"
proof -
  have "load_segment (snd (hd sample_directory)) = [''{}'' @ [CHR 0x0A], ''[]'' @ [CHR 0x0A]]"
    using load_segment_records [OF sample_lines] by (simp add: sample_directory_def)
  then show ?thesis
    by (simp add: sample_directory_def index_room_def restart_def load_wal_def next_wal_path_def new_network_sink_def
        wal_segments_def max_index_def segment_records_def first_free_index_def old_segments_def Let_def)
qed





lemma run_unlinks_keys:
  "set ops \<subseteq> insert SyncDirectory (Unlink ` names) \<Longrightarrow> Unlink name \<in> set ops \<or> name \<notin> fst ` set dir \<Longrightarrow>
   name \<notin> fst ` set (run_ops ops dir)"
proof (induction ops arbitrary: dir)
  case (Cons op ops)
  have "Unlink name \<in> set ops \<or> name \<notin> fst ` set (apply_op op dir)"
    using Cons.prems by (cases op) (auto simp: AList.delete_eq)
  then show ?case using Cons.IH [of "apply_op op dir"] Cons.prems(1) by simp
qed simp

text \<open>
  A compaction in which no operation fails leaves in the log exactly the records that were not
  acknowledged, and the sink has the same ones pending, in their order.
\<close>

theorem compaction_exact:
  assumes "sink_ok s" and "index_room s"
    and "\<forall>i. wo_stage outcomes i = StageOk" "\<forall>i. wo_rename outcomes i" "wo_sync outcomes" "\<forall>name. wo_unlink outcomes name"
  shows "snd (snd (rewrite_wal cfg outcomes acked s)) \<and>
    map wr_json_line (ns_pending (fst (rewrite_wal cfg outcomes acked s))) = drop acked (map wr_json_line (ns_pending s)) \<and>
    log_lines (ns_directory (fst (rewrite_wal cfg outcomes acked s))) = mset (drop acked (map wr_json_line (ns_pending s)))"
proof -
  let ?old = "old_segments (ns_directory s)" and ?r = "rewrite_wal cfg outcomes acked s"
  have lines: "\<forall>r \<in> set (ns_pending s). one_line (wr_json_line r)" using assms(1) by (simp add: sink_ok_def)
  have "snd (stage_all outcomes i xs)" "snd (publish_all outcomes i xs)" for i xs
    using assms(3,4) by (induction xs arbitrary: i) (simp_all add: case_prod_beta)
  then have succeeded: "snd (snd ?r)" using assms(5) by (simp add: rewrite_wal_def Let_def case_prod_beta)
  obtain before after where shape: "rewrite_ops cfg outcomes acked s = before @ after"
      "\<forall>op \<in> set before. adding_op op"
      "prefix (published before) (map segment_entry (staged_of cfg acked s))"
    and whole: "published before = map segment_entry (staged_of cfg acked s) \<and>
      after = SyncDirectory # map Unlink (filter (wo_unlink outcomes) ?old) @ (if wo_final_sync outcomes then [SyncDirectory] else [])"
    using succeeded by (metis rewrite_shape [OF lines, of cfg outcomes acked])
  have "filter (wo_unlink outcomes) ?old = ?old" using assms(6) by simp
  then have after: "published before = map segment_entry (staged_of cfg acked s)"
      "after = SyncDirectory # map Unlink ?old @ (if wo_final_sync outcomes then [SyncDirectory] else [])"
    using whole by simp_all
  have sub: "set after \<subseteq> insert SyncDirectory (Unlink ` set ?old)" using after(2) by auto
  have "\<not> subseq (before @ after) before"
    using after(2) list_emb_length [of "(=)" "before @ after" before] by auto
  moreover have "partial_run before after (before @ after)" by (auto simp: partial_run_def)
  ultimately have log: "log_of (- set ?old) (run_ops (before @ after) (ns_directory s)) = mset (remaining_lines acked s)"
    using partial_rewrite_keeps [OF assms(1,2) shape(1-3)] after(1) sub by blast
  have "name \<notin> fst ` set (run_ops after dir)" if "name \<in> set ?old" for name dir
    using run_unlinks_keys [OF sub] that after(2) by auto
  then have gone: "\<forall>name \<in> fst ` set (run_ops (before @ after) (ns_directory s)). is_wal name \<longrightarrow> name \<in> - set ?old"
    unfolding run_ops_simps by blast
  have "log_lines (run_ops (before @ after) (ns_directory s)) = mset (remaining_lines acked s)"
    using log log_of_all [OF gone] by simp
  moreover have "remaining_lines acked s = drop acked (map wr_json_line (ns_pending s))"
    by (auto simp: remaining_lines_def drop_map min_def)
  ultimately show ?thesis
    using succeeded rewrite_result(1) [of cfg outcomes acked s] rewrite_result(3) [OF succeeded] staged_of_lines [of cfg acked s] shape(1)
    by (simp add: map_concat comp_def)
qed

theorem compaction_exact_witness:
  "map wr_json_line (ns_pending (fst (rewrite_wal default_config all_succeed 1 (restart sample_directory)))) =
     drop 1 (map wr_json_line (ns_pending (restart sample_directory)))"
  using compaction_exact [OF restart_ok(1) [OF sample_ok] sample_room, of all_succeed default_config 1]
  by (simp add: all_succeed_def)

text \<open>
  C32: the limit of the log never costs a critical event: while the log is over its limit a critical
  event is appended like any other, and only events of lower levels are dropped and counted.
\<close>

theorem critical_survives_full_wal:
  assumes "to_json_line cfg event = Some line"
  shows "\<exists>s'. accept_event cfg AppendOk event s = Some s' \<and>
    (if wal_over_limit cfg (ns_directory s) \<and> ev_level event \<noteq> LevelCritical
     then ns_pending s' = ns_pending s \<and> ns_directory s' = ns_directory s \<and>
          ns_wal_overflow_dropped_events s' = ns_wal_overflow_dropped_events s + 1
     else map wr_json_line (ns_pending s') = map wr_json_line (ns_pending s) @ [line] \<and>
          ns_accepted_events s' = ns_accepted_events s + 1 \<and>
          (sink_ok s \<longrightarrow> line \<in># log_lines (ns_directory s')))"
proof (cases "wal_over_limit cfg (ns_directory s) \<and> ev_level event \<noteq> LevelCritical")
  case False
  have "line \<in># log_lines (append_file (ns_current_wal_path (current_segment cfg s)) (record_text line) (ns_directory s))"
    if "sink_ok s"
    using that append_file_log(2) [OF _ current_segment_wal [of s cfg] to_json_line_one_line [OF assms], of "ns_directory s"]
    by (simp add: sink_ok_def)
  then show ?thesis using False assms by (auto simp: accept_event_def append_wal_eq Let_def)
qed (simp add: accept_event_def)

theorem critical_survives_full_wal_witness:
  "\<exists>s'. accept_event default_config AppendOk default_event (restart sample_directory) = Some s'"
proof -
  have "to_json_line default_config default_event \<noteq> None" by code_simp
  then obtain line where "to_json_line default_config default_event = Some line" by blast
  from critical_survives_full_wal [OF this, of "restart sample_directory"] show ?thesis by blast
qed

text \<open>
  C33: an append that fails after part of the record has reached the file makes the next accepted event
  unreadable: it is counted as accepted and reported as stored, but the log joins the two and a
  restart does not find it.
\<close>

theorem torn_append_loses_next:
  assumes "to_json_line cfg event = Some line" and "to_json_line cfg event' = Some line'"
    and "ev_level event = LevelCritical" and "ev_level event' = LevelCritical" and "segment_bytes cfg \<noteq> 0"
    and "0 < n" and "n < length (record_text line)"
  shows "\<exists>s. Option.bind (accept_event cfg (AppendTorn n) event (restart [])) (accept_event cfg AppendOk event') = Some s \<and>
    ns_accepted_events s = 1 \<and> ns_write_errors s = 1 \<and>
    line' \<notin> set (map wr_json_line (ns_pending (restart (ns_directory s))))"
proof -
  define torn where "torn = take n (record_text line)"
  obtain body where line: "line = body @ [CHR 0x0A]" "CHR 0x0A \<notin> set body"
    using to_json_line_one_line [OF assms(1)] by (auto simp: one_line_def)
  obtain body' where line': "line' = body' @ [CHR 0x0A]" "CHR 0x0A \<notin> set body'"
    using to_json_line_one_line [OF assms(2)] by (auto simp: one_line_def)
  have "record_text line = (''0'' @ CHR 0x09 # body) @ [CHR 0x0A]" using line by (simp add: record_text_def)
  then have "torn = take n (''0'' @ CHR 0x09 # body)" using assms(7) unfolding torn_def by (simp only: take_append) simp
  then have torn: "CHR 0x0A \<notin> set torn" "torn \<noteq> []" "hd torn = CHR ''0''"
    using assms(6) line(2) by (auto simp: take_Cons dest: in_set_takeD split: nat.splits)
  have "get_lines (torn @ record_text line') = [torn @ ''0'' @ CHR 0x09 # body']"
    using get_lines_append_line [of "torn @ ''0'' @ CHR 0x09 # body'" "[]"] torn line' by (simp add: record_text_def)
  moreover have "line_record (torn @ ''0'' @ CHR 0x09 # body') \<noteq> Some line'"
  proof (cases "length torn = 1")
    case True
    then have "torn = ''0''" using torn(3) by (cases torn) auto
    then show ?thesis by (simp add: line_record_def)
  next
    case False
    then have "2 \<le> length torn" using torn(2) by (cases torn) (auto simp: Suc_le_eq)
    then have "length (drop 2 (torn @ ''0'' @ CHR 0x09 # body') @ [CHR 0x0A]) \<noteq> length line'" using line' by simp
    then show ?thesis by (auto simp: line_record_def)
  qed
  ultimately have lost: "line' \<notin> set (load_segment (torn @ record_text line'))"
    by (auto simp: load_segment_def List.map_filter_def)
  have start: "restart [] = (new_network_sink [])\<lparr>ns_current_wal_path := wal_name 1, ns_current_wal_index := 2\<rparr>"
    by (simp add: restart_def load_wal_def next_wal_path_def new_network_sink_def wal_segments_def max_index_def Let_def)
  let ?s = "\<lparr>ns_pending = [\<lparr>wr_path = wal_name 1, wr_json_line = line'\<rparr>], ns_current_wal_path = wal_name 1,
     ns_current_wal_size = of_nat (length line') + 2, ns_current_wal_index = 2, ns_accepted_events = 1,
     ns_write_errors = 1, ns_sent_events = 0, ns_send_errors = 0, ns_retry_count = 0,
     ns_wal_overflow_dropped_events = 0, ns_directory = [(wal_name 1, torn @ record_text line')]\<rparr>"
  have "Option.bind (accept_event cfg (AppendTorn n) event (restart [])) (accept_event cfg AppendOk event') = Some ?s"
    using assms(1-5)
    by (simp add: start accept_event_def append_wal_eq current_segment_def new_network_sink_def append_file_def
        torn_def Let_def)
  moreover have "map wr_json_line (ns_pending (restart (ns_directory ?s))) = load_segment (torn @ record_text line')"
    by (simp add: restart_def load_wal_pending wal_segments_def segment_records_def new_network_sink_def comp_def)
  ultimately show ?thesis using lost by (intro exI [of _ ?s]) simp
qed

theorem torn_append_loses_next_witness:
  "\<exists>s. Option.bind (accept_event default_config (AppendTorn 1) (default_event\<lparr>ev_level := LevelCritical\<rparr>) (restart []))
      (accept_event default_config AppendOk (default_event\<lparr>ev_level := LevelCritical\<rparr>)) = Some s"
proof -
  let ?event = "default_event\<lparr>ev_level := LevelCritical\<rparr>"
  have "to_json_line default_config ?event \<noteq> None" by code_simp
  then obtain line where "to_json_line default_config ?event = Some line" by blast
  from torn_append_loses_next [OF this this, of 1] show ?thesis
    by (auto simp: segment_bytes_def default_config_def record_text_def)
qed

lemma failed_flush:
  assumes "batch_of cfg s \<noteq> []" and "\<not> response_ok response"
  shows "flush_pending cfg response outcomes s = (s\<lparr>ns_send_errors := ns_send_errors s + 1\<rparr>, [], False)"
  using assms by (simp add: flush_pending_def Let_def)

lemma doubled_delay:
  fixes retry limit :: u32
  assumes "2 * unat limit < 2 ^ 32" and "retry \<le> limit"
  shows "unat (min (retry * 2) limit) = min (2 * unat retry) (unat limit)"
proof -
  have "unat retry \<le> unat limit" using assms(2) by (simp add: word_le_nat_alt)
  then have "unat (retry * 2) = 2 * unat retry"
    using assms(1) by (subst unat_mult_lem [THEN iffD1]) simp_all
  then show ?thesis by (simp add: min_def word_le_nat_alt)
qed

text \<open>
  Over a series of turns in which the server does not acknowledge, nothing that is pending is
  lost, and the delay before the next attempt doubles with every attempt up to the configured maximum, provided
  that twice the maximum is a 32-bit number.
\<close>

theorem retry_backoff:
  assumes "\<forall>(now, response, outcomes) \<in> set turns. \<not> response_ok response"
    and "network_batch_size cfg \<noteq> 0" and "2 * unat (network_retry_max_ms cfg) < 2 ^ 32"
    and "ft_retry_ms t \<le> network_retry_max_ms cfg"
    and "fold (\<lambda>(now, response, outcomes). flush_turn cfg now response outcomes) turns (s, t) = (s', t')"
  shows "ns_pending s' = ns_pending s \<and> ns_directory s' = ns_directory s \<and>
    (\<exists>k \<le> length turns. ns_retry_count s' = ns_retry_count s + of_nat k \<and>
       unat (ft_retry_ms t') = min (unat (ft_retry_ms t) * 2 ^ k) (unat (network_retry_max_ms cfg)))"
  using assms(1,4,5)
proof (induction turns arbitrary: s t)
  case Nil
  then show ?case by (simp add: word_le_nat_alt)
next
  case (Cons turn turns)
  obtain now response outcomes where turn: "turn = (now, response, outcomes)" by (cases turn)
  have failing: "\<not> response_ok response" using Cons.prems(1) turn by simp
  show ?case
  proof (cases "ns_pending s \<noteq> [] \<and> ft_next_flush t \<le> now")
    case False
    then have "flush_turn cfg now response outcomes (s, t) = (s, t)" by (auto simp: flush_turn_def)
    then show ?thesis using Cons.IH [of t s] Cons.prems turn by (auto intro: le_SucI)
  next
    case True
    have "0 < unat (network_batch_size cfg)" using assms(2) by (simp add: unat_gt_0)
    then have batch: "batch_of cfg s \<noteq> []" using True by (simp add: batch_of_def)
    let ?s = "s\<lparr>ns_send_errors := ns_send_errors s + 1, ns_retry_count := ns_retry_count s + 1\<rparr>"
    let ?t = "\<lparr>ft_retry_ms = min (ft_retry_ms t * 2) (network_retry_max_ms cfg), ft_next_flush = now + unat (ft_retry_ms t)\<rparr>"
    have "flush_turn cfg now response outcomes (s, t) = (?s, ?t)"
      using True failed_flush [OF batch failing] by (simp add: flush_turn_def)
    then have rest: "fold (\<lambda>(now, response, outcomes). flush_turn cfg now response outcomes) turns (?s, ?t) = (s', t')"
      using Cons.prems(3) turn by simp
    obtain k where k: "k \<le> length turns" "ns_retry_count s' = ns_retry_count s + 1 + of_nat k"
      "unat (ft_retry_ms t') = min (unat (ft_retry_ms ?t) * 2 ^ k) (unat (network_retry_max_ms cfg))"
      "ns_pending s' = ns_pending s" "ns_directory s' = ns_directory s"
      using Cons.IH [OF _ _ rest] Cons.prems(1) by auto
    have "min (min (2 * a) b * 2 ^ k) b = min (a * 2 ^ Suc k) b" for a b :: nat
    proof (cases "2 * a \<le> b")
      case False
      have "(1 :: nat) \<le> 2 ^ k" by simp
      then have "b * 1 \<le> b * 2 ^ k" "2 * a * 1 \<le> 2 * a * 2 ^ k" by (simp_all only: mult_le_mono2)
      moreover have "a * 2 ^ Suc k = 2 * a * 2 ^ k" by simp
      ultimately have "b \<le> b * 2 ^ k" "b \<le> a * 2 ^ Suc k" "b \<le> 2 * a" using False by linarith+
      then show ?thesis by (simp only: min_absorb2)
    qed (simp add: mult.commute mult.left_commute)
    then have "unat (ft_retry_ms t') = min (unat (ft_retry_ms t) * 2 ^ Suc k) (unat (network_retry_max_ms cfg))"
      using k(3) doubled_delay [OF assms(3) Cons.prems(2)] by simp
    then show ?thesis using k by (intro conjI exI [of _ "Suc k"]) simp_all
  qed
qed

theorem retry_backoff_witness:
  "\<exists>k \<le> Suc (Suc 0). unat (ft_retry_ms (snd (fold (\<lambda>(now, response, outcomes). flush_turn default_config now response outcomes)
       [(0, None, all_succeed), (1000, None, all_succeed)] (restart sample_directory, \<lparr>ft_retry_ms = 1000, ft_next_flush = 0\<rparr>)))) =
     min (1000 * 2 ^ k) 60000"
proof -
  let ?turns = "[(0, None, all_succeed), (1000, None, all_succeed)]"
  let ?start = "(restart sample_directory, \<lparr>ft_retry_ms = 1000, ft_next_flush = 0\<rparr>)"
  have fields: "network_retry_max_ms default_config = 60000" "network_batch_size default_config = 128"
    by (simp_all add: default_config_def)
  show ?thesis
    using retry_backoff [OF _ _ _ _ prod.collapse [symmetric], of ?turns default_config "snd ?start" "fst ?start"]
    by (auto simp: response_ok_def fields word_le_nat_alt simp del: fold_simps)
qed

lemma flush_success_shorter:
  assumes "snd (snd (flush_pending cfg response outcomes s))" and "ns_pending s \<noteq> []" and "network_batch_size cfg \<noteq> 0"
  shows "length (ns_pending (fst (flush_pending cfg response outcomes s))) < length (ns_pending s)"
proof -
  have "0 < unat (network_batch_size cfg)" using assms(3) by (simp add: unat_gt_0)
  then have batch: "batch_of cfg s \<noteq> []" using assms(2) by (simp add: batch_of_def)
  let ?s = "s\<lparr>ns_sent_events := ns_sent_events s + of_nat (length (batch_of cfg s))\<rparr>"
  have flush: "flush_pending cfg response outcomes s = rewrite_wal cfg outcomes (length (batch_of cfg s)) ?s"
    using assms(1) batch by (auto simp: flush_pending_def Let_def split: if_splits)
  have lines: "map wr_json_line (ns_pending (fst (rewrite_wal cfg outcomes (length (batch_of cfg s)) ?s))) =
      remaining_lines (length (batch_of cfg s)) s"
    using rewrite_result(3) [of cfg outcomes "length (batch_of cfg s)" ?s] assms(1) staged_of_lines [of cfg "length (batch_of cfg s)" ?s]
    unfolding flush by (simp add: map_concat comp_def)
  have "length (remaining_lines (length (batch_of cfg s)) s) < length (ns_pending s)"
    using batch assms(2) by (simp add: remaining_lines_def)
  then show ?thesis unfolding flush using lines by (metis length_map)
qed

lemma final_flush_total:
  assumes "network_batch_size cfg \<noteq> 0"
  shows "\<exists>s'. final_flush cfg responses outcomes n s = Some s'"
proof (induction "length (ns_pending s)" arbitrary: n s rule: less_induct)
  case less
  show ?case
  proof (cases "ns_pending s \<noteq> [] \<and> snd (snd (flush_pending cfg (responses n) (outcomes n) s))")
    case True
    then show ?thesis
      using less [where s = "fst (flush_pending cfg (responses n) (outcomes n) s)" and n = "Suc n"]
        flush_success_shorter [of cfg "responses n" "outcomes n" s] assms
      by (subst final_flush.simps) (simp add: Let_def)
  qed (subst final_flush.simps, auto simp: Let_def)
qed

lemma final_flush_stuck:
  "final_flush cfg responses outcomes n s = Some s' \<Longrightarrow> \<not> (ns_pending s \<noteq> [] \<and> network_batch_size cfg = 0)"
proof (erule final_flush.raw_induct [rotated], rule notI, goal_cases)
  case (1 flush cfg responses outcomes n s s')
  then have "flush_pending cfg (responses n) (outcomes n) s = (s, [], True)"
    by (simp add: flush_pending_def batch_of_def)
  then have "flush cfg responses outcomes (Suc n) s = Some s'" using 1(2,3) by (simp add: Let_def)
  then show False using 1(1,3) by blast
qed

text \<open>
  C34: the flushes at the stop of the sink end, whatever the server answers and the file operations do, exactly when
  something is sent per batch or nothing is pending; with a batch size of 0 and pending records the loop
  never ends. (\<open>validate\<close> raises a batch size of 0 to 1, unless it returns early for a refused client address.)
\<close>

theorem final_flush_returns:
  "final_flush cfg responses outcomes n s = None \<longleftrightarrow> network_batch_size cfg = 0 \<and> ns_pending s \<noteq> []"
proof (cases "ns_pending s = []")
  case True
  then show ?thesis by (subst final_flush.simps) simp
next
  case False
  then show ?thesis using final_flush_stuck [of cfg responses outcomes n s] final_flush_total [of cfg responses outcomes n s]
    by (cases "final_flush cfg responses outcomes n s"; cases "network_batch_size cfg = 0") auto
qed

lemma stoi_show_nat: "n < 2 ^ 31 \<Longrightarrow> stoi (show_nat n) = Inr (of_nat n, [])"
proof -
  assume "n < 2 ^ 31"
  let ?ds = "show_nat n"
  have no_digit: "c = CHR ''-'' \<or> c = CHR ''+'' \<or> is_space c \<Longrightarrow> \<not> is_digit c" for c
    by (auto simp: is_digit_def is_space_def)
  have "is_digit (hd ?ds)" using show_nat_digits [of "hd ?ds" n] by simp
  then have hd: "\<not> is_space (hd ?ds)" "hd ?ds \<noteq> CHR ''-''" "hd ?ds \<noteq> CHR ''+''" using no_digit by blast+
  then have space: "dropWhile is_space ?ds = ?ds" by (cases ?ds) simp_all
  have digits: "takeWhile is_digit ?ds = ?ds" "dropWhile is_digit ?ds = []"
    using takeWhile_show_nat [of "[]" n] by simp_all
  show ?thesis
    using \<open>n < 2 ^ 31\<close>
    by (simp add: stoi_def Let_def space hd digits del: takeWhile_eq_all_conv dropWhile_eq_Nil_conv)
qed

lemma split_first_slash:
  "CHR ''/'' \<notin> set host_port \<Longrightarrow> path = [] \<or> hd path = CHR ''/'' \<Longrightarrow>
   (case split_first (CHR ''/'') (host_port @ path) of None \<Rightarrow> (host_port @ path, ''/events'') | Some (a, b) \<Rightarrow> (a, CHR ''/'' # b)) =
   (host_port, if path = [] then ''/events'' else path)"
  using split_first_Some [of "CHR ''/''" "host_port @ path" host_port "tl path"] split_first_None [of "CHR ''/''" host_port]
  by (cases path) auto

lemma parse_endpoint_split:
  assumes "CHR ''/'' \<notin> set host_port" and "path = [] \<or> hd path = CHR ''/''"
  shows "parse_endpoint (''http://'' @ host_port @ path) =
    (let path = (if path = [] then ''/events'' else path)
     in case split_last (CHR '':'') host_port of
          None \<Rightarrow> Inr \<lparr>ep_host = host_port, ep_port = 80, ep_path = path, ep_valid = host_port \<noteq> []\<rparr>
        | Some (host, port) \<Rightarrow>
            (case stoi port of
               Inl e \<Rightarrow> Inl e
             | Inr (n, _) \<Rightarrow> Inr \<lparr>ep_host = host, ep_port = ucast n, ep_path = path, ep_valid = host \<noteq> []\<rparr>))"
proof -
  have parts: "take 7 (''http://'' @ x) = ''http://''" "drop 7 (''http://'' @ x) = x" for x :: string by simp_all
  have "(if path = [] then ''/events'' else path) \<noteq> []" by simp
  then show ?thesis
    unfolding parse_endpoint_def parts split_first_slash [OF assms] Let_def
    by (simp split: option.split sum.split prod.split)
qed

text \<open>
  An endpoint written as \<open>http://host:port/path\<close> is read back as its parts, without a path as the
  path \<open>/events\<close>, without a port as port 80; the port number is reduced modulo \<open>2 ^ 16\<close>; a text that does not start with \<open>http://\<close> is not valid, and a
  port that is no number makes the constructor throw.
\<close>

theorem endpoint_roundtrip:
  assumes "n < 2 ^ 31" and "CHR ''/'' \<notin> set host" and "path = [] \<or> hd path = CHR ''/''"
  shows "parse_endpoint (''http://'' @ (host @ '':'' @ show_nat n) @ path) =
      Inr \<lparr>ep_host = host, ep_port = of_nat n, ep_path = if path = [] then ''/events'' else path, ep_valid = host \<noteq> []\<rparr> \<and>
    (CHR '':'' \<notin> set host \<longrightarrow> parse_endpoint (''http://'' @ host @ path) =
      Inr \<lparr>ep_host = host, ep_port = 80, ep_path = if path = [] then ''/events'' else path, ep_valid = host \<noteq> []\<rparr>) \<and>
    (take 7 other \<noteq> ''http://'' \<longrightarrow> parse_endpoint other = Inr empty_endpoint \<and> \<not> ep_valid empty_endpoint) \<and>
    parse_endpoint (''http://'' @ (host @ '':'') @ path) = Inl InvalidArgument"
proof -
  have not_slash: "CHR ''/'' \<notin> set (show_nat n)" and not_colon: "CHR '':'' \<notin> set (show_nat n)"
    using show_nat_digits [of "CHR ''/''"] show_nat_digits [of "CHR '':''"] by (auto simp: is_digit_def)
  have split: "split_last (CHR '':'') (host @ '':'' @ show_nat n) = Some (host, show_nat n)"
    "split_last (CHR '':'') (host @ '':'') = Some (host, [])"
    using split_last_append [OF not_colon] split_last_append [of "CHR '':''" "[]" host] by simp_all
  have "(ucast (of_nat n :: i32) :: u16) = of_nat n" by (rule bit_word_eqI) (auto simp: bit_simps)
  then have "parse_endpoint (''http://'' @ (host @ '':'' @ show_nat n) @ path) =
      Inr \<lparr>ep_host = host, ep_port = of_nat n, ep_path = if path = [] then ''/events'' else path, ep_valid = host \<noteq> []\<rparr>"
    using assms not_slash by (subst parse_endpoint_split) (simp_all add: split(1)[simplified] stoi_show_nat)
  moreover have "CHR '':'' \<notin> set host \<Longrightarrow> split_last (CHR '':'') host = None"
    using split_first_None [of "CHR '':''" "rev host"] by (simp add: split_last_def)
  then have "CHR '':'' \<notin> set host \<Longrightarrow> parse_endpoint (''http://'' @ host @ path) =
      Inr \<lparr>ep_host = host, ep_port = 80, ep_path = if path = [] then ''/events'' else path, ep_valid = host \<noteq> []\<rparr>"
    using assms by (subst parse_endpoint_split) simp_all
  moreover have "stoi [] = Inl InvalidArgument" by (simp add: stoi_def)
  then have "parse_endpoint (''http://'' @ (host @ '':'') @ path) = Inl InvalidArgument"
    using assms by (subst parse_endpoint_split) (simp_all add: split(2)[simplified])
  ultimately show ?thesis by (simp add: parse_endpoint_def empty_endpoint_def)
qed

theorem endpoint_roundtrip_witness:
  "parse_endpoint (''http://'' @ (''collector'' @ '':'' @ show_nat 8080) @ ''/v1'') =
     Inr \<lparr>ep_host = ''collector'', ep_port = 8080, ep_path = ''/v1'', ep_valid = True\<rparr>"
  using endpoint_roundtrip [of 8080 "''collector''" "''/v1''"] by simp

end
