(* ===== verification/Summary_Text.thy ===== *)
theory Summary_Text
  imports Serializer Files
begin

text \<open>
  The human-readable summary of \<^verbatim>\<open>src/storage/jsonl_event_sink.cpp\<close>: the Chinese names (as the bytes of the
  UTF-8 literals), and one entry of the summary file. Rendering a time in the local time zone is the C library's: the
  date text is an argument of the functions.
\<close>

definition bytes :: "nat list \<Rightarrow> string" where
  "bytes codes = map char_of codes"

section \<open>Names\<close>

definition color_for :: "event_level \<Rightarrow> string" where
  "color_for level = CHR 0x1B # (case level of
     LevelCritical \<Rightarrow> ''[1;31m'' | LevelWarning \<Rightarrow> ''[1;33m'' | LevelRecovery \<Rightarrow> ''[1;32m'' | LevelInfo \<Rightarrow> ''[0;36m'')"

fun event_type_cn :: "event_type \<Rightarrow> string" where
  "event_type_cn MonitorStarted =
     bytes [0xE7, 0x9B, 0x91, 0xE6, 0x8E, 0xA7, 0xE5, 0x90, 0xAF, 0xE5, 0x8A, 0xA8]"
| "event_type_cn MemoryPressure =
     bytes [0xE7, 0xB3, 0xBB, 0xE7, 0xBB, 0x9F, 0xE5, 0x86, 0x85, 0xE5, 0xAD, 0x98, 0xE5, 0x8E, 0x8B,
      0xE5, 0x8A, 0x9B]"
| "event_type_cn MonitorOverrun =
     bytes [0xE7, 0x9B, 0x91, 0xE6, 0x8E, 0xA7, 0xE9, 0x87, 0x87, 0xE9, 0x9B, 0x86, 0xE8, 0xB6, 0x85,
      0xE6, 0x97, 0xB6]"
| "event_type_cn QueuePressure =
     bytes [0xE7, 0x9B, 0x91, 0xE6, 0x8E, 0xA7, 0xE9, 0x98, 0x9F, 0xE5, 0x88, 0x97, 0xE5, 0x8E, 0x8B,
      0xE5, 0x8A, 0x9B]"
| "event_type_cn StoragePressure =
     bytes [0xE6, 0x9C, 0xAC, 0xE5, 0x9C, 0xB0, 0xE5, 0xAD, 0x98, 0xE5, 0x82, 0xA8, 0xE5, 0x8E, 0x8B,
      0xE5, 0x8A, 0x9B]"
| "event_type_cn CollectorFailure =
     bytes [0xE9, 0x87, 0x87, 0xE9, 0x9B, 0x86, 0xE5, 0x99, 0xA8, 0xE5, 0xA4, 0xB1, 0xE8, 0xB4, 0xA5]"
| "event_type_cn MonitorMemoryPressure =
     bytes [0xE7, 0x9B, 0x91, 0xE6, 0x8E, 0xA7, 0xE8, 0x87, 0xAA, 0xE8, 0xBA, 0xAB, 0xE5, 0x86, 0x85,
      0xE5, 0xAD, 0x98, 0xE5, 0x8E, 0x8B, 0xE5, 0x8A, 0x9B]"
| "event_type_cn SchedDelayRisk =
     bytes [0xE8, 0xB0, 0x83, 0xE5, 0xBA, 0xA6, 0xE5, 0xBB, 0xB6, 0xE8, 0xBF, 0x9F, 0xE9, 0xA3, 0x8E,
      0xE9, 0x99, 0xA9]"
| "event_type_cn IoDelayRisk =
     ''I/O '' @ bytes [0xE5, 0xBB, 0xB6, 0xE8, 0xBF, 0x9F, 0xE9, 0xA3, 0x8E, 0xE9, 0x99, 0xA9]"
| "event_type_cn CpuUsageRisk =
     ''CPU '' @ bytes [0xE5, 0x8D, 0xA0, 0xE7, 0x94, 0xA8, 0xE9, 0xA3, 0x8E, 0xE9, 0x99, 0xA9]"
| "event_type_cn WhitelistedProcessMemoryRisk =
     bytes [0xE7, 0x99, 0xBD, 0xE5, 0x90, 0x8D, 0xE5, 0x8D, 0x95, 0xE8, 0xBF, 0x9B, 0xE7, 0xA8, 0x8B,
      0xE5, 0x86, 0x85, 0xE5, 0xAD, 0x98, 0xE5, 0xA2, 0x9E, 0xE9, 0x95, 0xBF, 0xE9, 0xA3, 0x8E, 0xE9,
      0x99, 0xA9]"

definition evidence_key_cn :: "string \<Rightarrow> string" where
  "evidence_key_cn key =
     (if key = ''recovery_threshold_mb'' then
        bytes [0xE6, 0x81, 0xA2, 0xE5, 0xA4, 0x8D, 0xE9, 0x98, 0x88, 0xE5, 0x80, 0xBC] @ ''(MB)''
      else if key = ''max_observed_rss_mb'' then
        bytes [0xE6, 0x9C, 0x80, 0xE5, 0xA4, 0xA7, 0xE8, 0xA7, 0x82, 0xE6, 0xB5, 0x8B] @ '' RSS(MB)''
      else if key = ''max_observed_available_mb'' then
        bytes [0xE6, 0x9C, 0x80, 0xE5, 0xA4, 0xA7, 0xE8, 0xA7, 0x82, 0xE6, 0xB5, 0x8B, 0xE5, 0x8F, 0xAF,
        0xE7, 0x94, 0xA8, 0xE5, 0x86, 0x85, 0xE5, 0xAD, 0x98] @ ''(MB)''
      else if key = ''source_queue_percent'' then
        bytes [0xE6, 0xBA, 0x90, 0xE9, 0x98, 0x9F, 0xE5, 0x88, 0x97, 0xE5, 0x8D, 0xA0, 0xE7, 0x94, 0xA8] @
        ''(%)''
      else if key = ''sink_queue_percent'' then
        bytes [0xE8, 0x90, 0xBD, 0xE5, 0x9C, 0xB0, 0xE9, 0x98, 0x9F, 0xE5, 0x88, 0x97, 0xE5, 0x8D, 0xA0,
        0xE7, 0x94, 0xA8] @ ''(%)''
      else if key = ''total_dropped_count'' then
        bytes [0xE6, 0x80, 0xBB, 0xE4, 0xB8, 0xA2, 0xE5, 0xBC, 0x83, 0xE4, 0xBA, 0x8B, 0xE4, 0xBB, 0xB6,
        0xE6, 0x95, 0xB0]
      else if key = ''dispatcher_failures'' then
        bytes [0xE5, 0x88, 0x86, 0xE5, 0x8F, 0x91, 0xE5, 0xA4, 0xB1, 0xE8, 0xB4, 0xA5, 0xE6, 0x95, 0xB0]
      else if key = ''critical_dropped_count'' then
        bytes [0xE4, 0xB8, 0xA5, 0xE9, 0x87, 0x8D, 0xE4, 0xBA, 0x8B, 0xE4, 0xBB, 0xB6, 0xE4, 0xB8, 0xA2,
        0xE5, 0xBC, 0x83, 0xE6, 0x95, 0xB0]
      else if key = ''high_watermark_percent'' then
        bytes [0xE9, 0x98, 0x9F, 0xE5, 0x88, 0x97, 0xE6, 0x9C, 0x80, 0xE9, 0xAB, 0x98, 0xE6, 0xB0, 0xB4,
        0xE4, 0xBD, 0x8D] @ ''(%)''
      else if key = ''delta_involuntary_switches'' then
        bytes [0xE9, 0x9D, 0x9E, 0xE8, 0x87, 0xAA, 0xE6, 0x84, 0xBF, 0xE4, 0xB8, 0x8A, 0xE4, 0xB8, 0x8B,
        0xE6, 0x96, 0x87, 0xE5, 0x88, 0x87, 0xE6, 0x8D, 0xA2, 0xE5, 0xA2, 0x9E, 0xE9, 0x87, 0x8F]
      else if key = ''recovery_wait_sum_us'' then
        bytes [0xE6, 0x81, 0xA2, 0xE5, 0xA4, 0x8D, 0xE7, 0xAD, 0x89, 0xE5, 0xBE, 0x85, 0xE6, 0x97, 0xB6,
        0xE9, 0x97, 0xB4, 0xE9, 0x98, 0x88, 0xE5, 0x80, 0xBC] @ ''(us)''
      else if key = ''max_observed_wait_sum_us'' then
        bytes [0xE6, 0x9C, 0x80, 0xE5, 0xA4, 0xA7, 0xE8, 0xA7, 0x82, 0xE6, 0xB5, 0x8B, 0xE7, 0xAD, 0x89,
        0xE5, 0xBE, 0x85, 0xE6, 0x97, 0xB6, 0xE9, 0x97, 0xB4] @ ''(us)''
      else if key = ''max_wait_us'' then
        bytes [0xE6, 0x9C, 0x80, 0xE5, 0xA4, 0xA7, 0xE5, 0x8D, 0x95, 0xE6, 0xAC, 0xA1, 0xE7, 0xAD, 0x89,
        0xE5, 0xBE, 0x85] @ ''(us)''
      else if key = ''avg_wait_us'' then
        bytes [0xE5, 0xB9, 0xB3, 0xE5, 0x9D, 0x87, 0xE7, 0xAD, 0x89, 0xE5, 0xBE, 0x85] @ ''(us)''
      else if key = ''aggregate_count'' then
        bytes [0xE8, 0x81, 0x9A, 0xE5, 0x90, 0x88, 0xE6, 0xA0, 0xB7, 0xE6, 0x9C, 0xAC, 0xE6, 0x95, 0xB0]
      else if key = ''delta_io_count'' then
        ''I/O '' @ bytes [0xE5, 0xAE, 0x8C, 0xE6, 0x88, 0x90, 0xE6, 0x95, 0xB0, 0xE5, 0xA2, 0x9E, 0xE9,
        0x87, 0x8F]
      else if key = ''util_percent'' then
        bytes [0xE8, 0xAE, 0xBE, 0xE5, 0xA4, 0x87, 0xE5, 0xBF, 0x99, 0xE7, 0xA2, 0x8C, 0xE7, 0x8E, 0x87] @
        ''(%)''
      else if key = ''in_flight'' then
        bytes [0xE5, 0xBD, 0x93, 0xE5, 0x89, 0x8D, 0xE6, 0x9C, 0xAA, 0xE5, 0xAE, 0x8C, 0xE6, 0x88, 0x90] @
        '' I/O '' @ bytes [0xE6, 0x95, 0xB0]
      else if key = ''recovery_await_ms'' then
        bytes [0xE6, 0x81, 0xA2, 0xE5, 0xA4, 0x8D] @ '' await '' @ bytes [0xE9, 0x98, 0x88, 0xE5, 0x80,
        0xBC] @ ''(ms)''
      else if key = ''max_observed_await_ms'' then
        bytes [0xE6, 0x9C, 0x80, 0xE5, 0xA4, 0xA7, 0xE8, 0xA7, 0x82, 0xE6, 0xB5, 0x8B] @ '' await(ms)''
      else if key = ''recovery_percent'' then
        bytes [0xE6, 0x81, 0xA2, 0xE5, 0xA4, 0x8D, 0xE9, 0x98, 0x88, 0xE5, 0x80, 0xBC] @ ''(%)''
      else if key = ''max_observed_percent'' then
        bytes [0xE6, 0x9C, 0x80, 0xE5, 0xA4, 0xA7, 0xE8, 0xA7, 0x82, 0xE6, 0xB5, 0x8B, 0xE5, 0x8D, 0xA0,
        0xE7, 0x94, 0xA8, 0xE7, 0x8E, 0x87] @ ''(%)''
      else if key = ''delta_total_jiffies'' then
        ''CPU '' @ bytes [0xE6, 0x80, 0xBB] @ '' jiffies '' @ bytes [0xE5, 0xA2, 0x9E, 0xE9, 0x87, 0x8F]
      else if key = ''delta_idle_jiffies'' then
        ''CPU '' @ bytes [0xE7, 0xA9, 0xBA, 0xE9, 0x97, 0xB2] @ '' jiffies '' @ bytes [0xE5, 0xA2, 0x9E,
        0xE9, 0x87, 0x8F]
      else if key = ''collector_id'' then
        bytes [0xE9, 0x87, 0x87, 0xE9, 0x9B, 0x86, 0xE5, 0x99, 0xA8] @ '' ID''
      else key)"

section \<open>An entry\<close>

text \<open>\<open>realtime_string\<close>: the local date and time of the second, then the milliseconds.\<close>

definition realtime_string :: "(u64 \<Rightarrow> string) \<Rightarrow> u64 \<Rightarrow> string" where
  "realtime_string put_time timestamp_ms =
     put_time (timestamp_ms div 1000) @ ''.'' @ pad_zero 3 (show_word (timestamp_ms mod 1000))"

definition newline :: string where
  "newline = [CHR 0x0A]"

definition summary_heading :: "monitor_config \<Rightarrow> (u64 \<Rightarrow> string) \<Rightarrow> internal_event \<Rightarrow> string" where
  "summary_heading cfg put_time event =
     (if summary_color cfg then color_for (ev_level event) else []) @
     realtime_string put_time (ev_realtime_ms event) @ '' ['' @ level_to_string (ev_level event) @ ''] '' @
     event_type_cn (ev_event_type event) @ '' ('' @ type_to_string (ev_event_type event) @ '')'' @
     '' status='' @ status_to_string (ev_status event) @
     '' '' @ bytes [0xE4, 0xBA, 0x8B, 0xE4, 0xBB, 0xB6] @ ''ID='' @
     device_id cfg @ ''-'' @ show_word (ev_sequence event) @
     (if summary_color cfg then CHR 0x1B # ''[0m'' else []) @ newline"

definition summary_values :: "internal_event \<Rightarrow> string" where
  "summary_values event =
     ''  '' @ bytes [0xE5, 0xBD, 0x93, 0xE5, 0x89, 0x8D, 0xE5, 0x80, 0xBC] @ ''(value)='' @ printf_3 (ev_value event) @
     (if \<not> deq (ev_warning_threshold event) (Fin 0)
      then '' '' @ bytes [0xE8, 0xAD, 0xA6, 0xE5, 0x91, 0x8A, 0xE9, 0x98, 0x88, 0xE5, 0x80, 0xBC] @ ''(warn)='' @ printf_3 (ev_warning_threshold event) else []) @
     (if \<not> deq (ev_critical_threshold event) (Fin 0)
      then '' '' @ bytes [0xE4, 0xB8, 0xA5, 0xE9, 0x87, 0x8D, 0xE9, 0x98, 0x88, 0xE5, 0x80, 0xBC] @ ''(crit)='' @ printf_3 (ev_critical_threshold event) else []) @
     (if ev_window_sec event \<noteq> 0
      then '' '' @ bytes [0xE7, 0xBB, 0x9F, 0xE8, 0xAE, 0xA1, 0xE7, 0xAA, 0x97, 0xE5, 0x8F, 0xA3] @
      ''(window)='' @
        show_word (ev_window_sec event) @ bytes [0xE7, 0xA7, 0x92] else []) @
     (if ev_continuous_hit_count event \<noteq> 0
      then '' '' @ bytes [0xE8, 0xBF, 0x9E, 0xE7, 0xBB, 0xAD, 0xE5, 0x91, 0xBD, 0xE4, 0xB8, 0xAD] @ ''(hits)='' @
        show_word (ev_continuous_hit_count event) @ bytes [0xE6, 0xAC, 0xA1] else []) @
     newline"

definition summary_target :: "internal_event \<Rightarrow> string" where
  "summary_target event =
     (if ev_target event \<noteq> [] then ''  '' @ bytes [0xE7, 0x9B, 0xAE, 0xE6, 0xA0, 0x87] @ ''='' @ ev_target event else []) @
     (if 0 \<le> sint (ev_pid event) then '' '' @ bytes [0xE8, 0xBF, 0x9B, 0xE7, 0xA8, 0x8B] @ ''PID='' @ show_sword (ev_pid event) else []) @
     (if 0 \<le> sint (ev_tid event) then '' '' @ bytes [0xE7, 0xBA, 0xBF, 0xE7, 0xA8, 0x8B] @ ''TID='' @ show_sword (ev_tid event) else []) @
     (if ev_target event \<noteq> [] \<or> 0 \<le> sint (ev_pid event) \<or> 0 \<le> sint (ev_tid event) then newline else [])"

fun summary_items :: "nat \<Rightarrow> evidence_item list \<Rightarrow> string" where
  "summary_items i [] = []"
| "summary_items i (item # items) =
     (if i \<noteq> 0 then '', '' else []) @ evidence_key_cn (item_key item) @ ''('' @ item_key item @ '')='' @
     printf_3 (item_value item) @ summary_items (Suc i) items"

definition make_summary_line :: "monitor_config \<Rightarrow> (u64 \<Rightarrow> string) \<Rightarrow> internal_event \<Rightarrow> string" where
  "make_summary_line cfg put_time event =
     summary_heading cfg put_time event @ summary_values event @ summary_target event @
     (if 0 < ev_evidence_count event
      then ''  '' @ bytes [0xE8, 0xAF, 0x81, 0xE6, 0x8D, 0xAE] @ '': '' @
        summary_items 0 (take (min (unat (ev_evidence_count event)) (length (ev_evidence event))) (ev_evidence event)) @ newline
      else []) @ newline"

end
