(* ===== verification/Jsonl_Sink.thy ===== *)
theory Jsonl_Sink
  imports Summary_Text Dispatcher "HOL-Library.Multiset"
begin

text \<open>
  \<^verbatim>\<open>src/storage/jsonl_event_sink.cpp\<close>: the event log on disk. An event is written as one line, summarised,
  synced when it is critical (within a limit per minute), and the file is rotated by size; then
  old files are removed while the cache is over its limit.

  What the library and the operating system answer to one call of \<open>write_event\<close> is a record: whether files
  open, how much of a write succeeds, whether syncs succeed, the clock, and the files found below the
  cache path. File contents are what the program has handed to its streams.

  The lemmas show that the log holds the written events as whole lines in order, that a critical event is
  counted once as synced, failed or limited and that the syncs keep their rate, that eviction never
  removes the current files and stops at the limit, and that the worker takes the input queues in turn.
\<close>

section \<open>State\<close>

record jsonl_sink =
  js_file_prefix :: string
  js_open :: bool
  js_good :: bool
  js_summary_open :: bool
  js_current_path :: string
  js_current_summary_path :: string
  js_current_size :: u64
  js_file_index :: u32
  js_written_events :: u64
  js_write_errors :: u64
  js_rotated_files :: u64
  js_fsync_count :: u64
  js_fsync_failures :: u64
  js_fsync_rate_limited :: u64
  js_fsync_window_start_ms :: u64
  js_fsync_in_window :: u32
  js_needs_directory_sync :: bool
  js_files :: directory

definition new_jsonl_sink :: "string \<Rightarrow> directory \<Rightarrow> jsonl_sink" where
  "new_jsonl_sink file_prefix files = \<lparr>js_file_prefix = file_prefix, js_open = False, js_good = True, js_summary_open = False,
     js_current_path = [], js_current_summary_path = [], js_current_size = 0, js_file_index = 0,
     js_written_events = 0, js_write_errors = 0, js_rotated_files = 0, js_fsync_count = 0, js_fsync_failures = 0,
     js_fsync_rate_limited = 0, js_fsync_window_start_ms = 0, js_fsync_in_window = 0,
     js_needs_directory_sync = False, js_files = files\<rparr>"

text \<open>\<open>make_file_prefix\<close>, given the rendered start time and the process id.\<close>

definition make_file_prefix :: "string \<Rightarrow> int \<Rightarrow> string" where
  "make_file_prefix start_time pid = ''minilisysm-events-'' @ start_time @ ''-p'' @ show_int pid"

record cached_file =
  cf_path :: string
  cf_size :: u64
  cf_modified :: int

record write_answers =
  wa_open :: bool
  wa_open_summary :: bool
  wa_written :: "nat option"
  wa_summary_written :: bool
  wa_now_ms :: u64
  wa_flush :: bool
  wa_sync_open :: bool
  wa_fdatasync :: bool
  wa_directory_open :: bool
  wa_directory_sync :: bool
  wa_rotate_open :: bool
  wa_rotate_open_summary :: bool
  wa_listing :: "cached_file list"
  wa_removable :: "string \<Rightarrow> bool"

section \<open>Opening files\<close>

definition part_name :: "jsonl_sink \<Rightarrow> string \<Rightarrow> string" where
  "part_name s ending = js_file_prefix s @ ''-part'' @ pad_zero 6 (show_word (js_file_index s)) @ ending"

definition event_path :: "monitor_config \<Rightarrow> jsonl_sink \<Rightarrow> string" where
  "event_path cfg s = join_path (join_path (cache_path cfg) ''jsonl'') (part_name s ''.jsonl'')"

definition summary_path :: "monitor_config \<Rightarrow> jsonl_sink \<Rightarrow> string" where
  "summary_path cfg s = join_path (join_path (cache_path cfg) ''summary'') (part_name s ''.summary.log'')"

text \<open>
  A stream that is still open does not open again: the summary stream then fails and is closed.
\<close>

definition open_summary :: "monitor_config \<Rightarrow> bool \<Rightarrow> jsonl_sink \<Rightarrow> jsonl_sink" where
  "open_summary cfg opens s =
     (let s = s\<lparr>js_current_summary_path := summary_path cfg s\<rparr>
      in if opens \<and> \<not> js_summary_open s then s\<lparr>js_summary_open := True\<rparr>
         else s\<lparr>js_write_errors := js_write_errors s + 1, js_summary_open := False\<rparr>)"

definition open_next_file :: "monitor_config \<Rightarrow> bool \<Rightarrow> bool \<Rightarrow> jsonl_sink \<Rightarrow> jsonl_sink \<times> bool" where
  "open_next_file cfg opens summary_opens s =
     (let s = s\<lparr>js_file_index := js_file_index s + 1\<rparr>;
          path = event_path cfg s;
          existing = map_of (js_files s) path;
          s = s\<lparr>js_current_path := path,
                js_open := opens,
                js_good := opens,
                js_current_size := (if opens then (case existing of None \<Rightarrow> 0 | Some content \<Rightarrow> of_nat (length content)) else 0),
                js_needs_directory_sync := opens \<and> existing = None,
                js_files := (if opens then append_file path [] (js_files s) else js_files s)\<rparr>;
          s = (if summary_enable cfg then open_summary cfg summary_opens s else s)
      in (s, opens))"

section \<open>The steps of writing an event\<close>

definition write_summary :: "monitor_config \<Rightarrow> bool \<Rightarrow> jsonl_sink \<Rightarrow> jsonl_sink" where
  "write_summary cfg written s =
     (if \<not> summary_enable cfg \<or> \<not> js_summary_open s \<or> written then s
      else s\<lparr>js_write_errors := js_write_errors s + 1, js_summary_open := False\<rparr>)"

text \<open>\<open>fdatasync\<close> on the file, and \<open>fsync\<close> on its directory the first time.\<close>

definition sync_current :: "write_answers \<Rightarrow> jsonl_sink \<Rightarrow> jsonl_sink" where
  "sync_current ans s =
     (let failed = s\<lparr>js_fsync_failures := js_fsync_failures s + 1\<rparr>
      in if \<not> wa_sync_open ans \<or> \<not> wa_fdatasync ans then failed
         else if js_needs_directory_sync s \<and> (\<not> wa_directory_open ans \<or> \<not> wa_directory_sync ans) then failed
         else s\<lparr>js_needs_directory_sync := False, js_fsync_count := js_fsync_count s + 1\<rparr>)"

definition fsync_if_allowed :: "monitor_config \<Rightarrow> write_answers \<Rightarrow> event_level \<Rightarrow> jsonl_sink \<Rightarrow> jsonl_sink" where
  "fsync_if_allowed cfg ans level s =
     (if \<not> critical_fsync cfg \<or> level \<noteq> LevelCritical then s
      else if \<not> (js_good s \<and> wa_flush ans)
      then s\<lparr>js_good := False, js_fsync_failures := js_fsync_failures s + 1\<rparr>
      else
        let now = wa_now_ms ans;
            s = (if 60000 \<le> now - js_fsync_window_start_ms s
                 then s\<lparr>js_fsync_window_start_ms := now, js_fsync_in_window := 0\<rparr> else s)
        in if max_fsync_per_minute cfg \<le> js_fsync_in_window s
           then s\<lparr>js_fsync_rate_limited := js_fsync_rate_limited s + 1\<rparr>
           else sync_current ans (s\<lparr>js_fsync_in_window := js_fsync_in_window s + 1\<rparr>))"

definition rotate_if_needed :: "monitor_config \<Rightarrow> write_answers \<Rightarrow> jsonl_sink \<Rightarrow> jsonl_sink" where
  "rotate_if_needed cfg ans s =
     (if js_current_size s < file_rotate_mb cfg * 1024 * 1024 then s
      else fst (open_next_file cfg (wa_rotate_open ans) (wa_rotate_open_summary ans)
                 (s\<lparr>js_open := False, js_summary_open := False, js_rotated_files := js_rotated_files s + 1\<rparr>)))"

text \<open>
  The eviction loop over the files sorted by age: the paths it tries to remove. The used is lowered
  by the size of the file whether the removal succeeds or not.
\<close>

fun evict :: "u64 \<Rightarrow> string set \<Rightarrow> u64 \<Rightarrow> cached_file list \<Rightarrow> string list" where
  "evict max_bytes current used [] = []"
| "evict max_bytes current used (f # fs) =
     (if cf_path f \<in> current then evict max_bytes current used fs
      else
        let used = (if cf_size f < used then used - cf_size f else 0)
        in cf_path f # (if used \<le> max_bytes then [] else evict max_bytes current used fs))"

definition evicted :: "monitor_config \<Rightarrow> jsonl_sink \<Rightarrow> cached_file list \<Rightarrow> string list" where
  "evicted cfg s listing =
     (let max_bytes = cache_max_mb cfg * 1024 * 1024;
          used = sum_list (map cf_size listing)
      in if used \<le> max_bytes \<or> listing = [] then []
         else evict max_bytes {js_current_path s, js_current_summary_path s} used (sort_key cf_modified listing))"

definition enforce_cache_limit :: "monitor_config \<Rightarrow> write_answers \<Rightarrow> jsonl_sink \<Rightarrow> jsonl_sink" where
  "enforce_cache_limit cfg ans s =
     s\<lparr>js_files := filter (\<lambda>(path, _). \<not> (path \<in> set (evicted cfg s (wa_listing ans)) \<and> wa_removable ans path)) (js_files s)\<rparr>"

text \<open>
  One event; \<open>None\<close> where the line is undefined. A failed write leaves a part of the line in the file.
\<close>

definition write_event ::
  "monitor_config \<Rightarrow> write_answers \<Rightarrow> internal_event \<Rightarrow> jsonl_sink \<Rightarrow> (jsonl_sink \<times> bool) option" where
  "write_event cfg ans event s =
     (let (s, opened) = (if js_open s then (s, True) else open_next_file cfg (wa_open ans) (wa_open_summary ans) s)
      in if \<not> opened then Some (s\<lparr>js_write_errors := js_write_errors s + 1\<rparr>, False)
         else
           case to_json_line cfg event of
             None \<Rightarrow> None
           | Some line \<Rightarrow>
               if \<not> js_good s \<or> wa_written ans \<noteq> None
               then Some (s\<lparr>
                   js_write_errors := js_write_errors s + 1,
                   js_open := False,
                   js_files := append_file (js_current_path s)
                     (if js_good s then take (the (wa_written ans)) line else []) (js_files s)\<rparr>, False)
               else
                 let s = s\<lparr>js_files := append_file (js_current_path s) line (js_files s),
                           js_current_size := js_current_size s + of_nat (length line)\<rparr>;
                     s = write_summary cfg (wa_summary_written ans) s;
                     s = s\<lparr>js_written_events := js_written_events s + 1\<rparr>;
                     s = fsync_if_allowed cfg ans (ev_level event) s;
                     s = rotate_if_needed cfg ans s
                 in Some (enforce_cache_limit cfg ans s, True))"

section \<open>The worker\<close>

text \<open>The loop over the queues, from the one after the last served: its index and the event.\<close>

fun poll_queues ::
  "nat \<Rightarrow> nat \<Rightarrow> internal_event ring option list \<Rightarrow> internal_event ring option list \<times> nat \<times> internal_event option" where
  "poll_queues 0 queue_index queues = (queues, queue_index, None)"
| "poll_queues (Suc tries) queue_index queues =
     (let queue_index = (queue_index + 1) mod length queues
      in case queues ! queue_index of
           None \<Rightarrow> poll_queues tries queue_index queues
         | Some q \<Rightarrow>
             (case pop q of
                (q', None) \<Rightarrow> poll_queues tries queue_index (queues[queue_index := Some q'])
              | (q', Some event) \<Rightarrow> (queues[queue_index := Some q'], queue_index, Some event)))"

text \<open>The start of the worker and one iteration of its loop; without an event it only sleeps.\<close>

definition start_worker :: "monitor_config \<Rightarrow> bool \<Rightarrow> bool \<Rightarrow> jsonl_sink \<Rightarrow> jsonl_sink" where
  "start_worker cfg opens summary_opens s =
     (let (s, ok) = open_next_file cfg opens summary_opens s
      in if ok then s else s\<lparr>js_write_errors := js_write_errors s + 1\<rparr>)"

definition worker_iteration ::
  "monitor_config \<Rightarrow> write_answers \<Rightarrow> internal_event ring option list \<times> nat \<times> jsonl_sink \<Rightarrow>
   (internal_event ring option list \<times> nat \<times> jsonl_sink) option" where
  "worker_iteration cfg ans st =
     (case st of (queues, queue_index, s) \<Rightarrow>
        case poll_queues (length queues) queue_index queues of
          (queues, queue_index, None) \<Rightarrow> Some (queues, queue_index, s)
        | (queues, queue_index, Some event) \<Rightarrow>
            map_option (\<lambda>(s, _). (queues, queue_index, s)) (write_event cfg ans event s))"

text \<open>Writing the drained events: the answers to each by its number.\<close>

definition write_next ::
  "monitor_config \<Rightarrow> (nat \<Rightarrow> write_answers) \<Rightarrow> internal_event \<Rightarrow> nat \<times> jsonl_sink option \<Rightarrow> nat \<times> jsonl_sink option" where
  "write_next cfg answers event st =
     (case st of (n, so) \<Rightarrow> (Suc n, Option.bind so (\<lambda>s. map_option fst (write_event cfg (answers n) event s))))"

definition all_empty :: "internal_event ring option list \<Rightarrow> bool" where
  "all_empty queues \<longleftrightarrow> list_all (\<lambda>q. case q of None \<Rightarrow> True | Some q \<Rightarrow> snd (pop q) = None) queues"

text \<open>The drain after the stop repeats its pass until one finds nothing.\<close>

partial_function (option) drain_repeat ::
  "(internal_event \<Rightarrow> 's \<Rightarrow> 's) \<Rightarrow> internal_event ring option list \<Rightarrow> 's \<Rightarrow> (internal_event ring option list \<times> 's) option" where
  "drain_repeat handle queues s =
     (case drain_queues handle queues s of
        None \<Rightarrow> None
      | Some (queues', s') \<Rightarrow> if all_empty queues then Some (queues', s') else drain_repeat handle queues' s')"

definition jsonl_stats :: "jsonl_sink \<Rightarrow> internal_event ring option list \<Rightarrow> sink_stats" where
  "jsonl_stats s queues =
     (let totals = queue_totals queues
      in totals\<lparr>
          ss_accepted_events := js_written_events s + ss_queue_depth totals,
          ss_written_events := js_written_events s,
          ss_write_errors := js_write_errors s,
          ss_rotated_files := js_rotated_files s,
          ss_fsync_count := js_fsync_count s,
          ss_fsync_failures := js_fsync_failures s,
          ss_fsync_rate_limited := js_fsync_rate_limited s\<rparr>)"

definition stop_jsonl_sink :: "jsonl_sink \<Rightarrow> jsonl_sink" where
  "stop_jsonl_sink s = s\<lparr>js_open := False, js_summary_open := False\<rparr>"

section \<open>Syncing critical events\<close>

definition sync_total :: "jsonl_sink \<Rightarrow> u64" where
  "sync_total s = js_fsync_count s + js_fsync_failures s + js_fsync_rate_limited s"

lemma open_next_file_fields [simp]:
  "js_written_events (fst (open_next_file cfg a b s)) = js_written_events s"
  "js_fsync_count (fst (open_next_file cfg a b s)) = js_fsync_count s"
  "js_fsync_failures (fst (open_next_file cfg a b s)) = js_fsync_failures s"
  "js_fsync_rate_limited (fst (open_next_file cfg a b s)) = js_fsync_rate_limited s"
  "js_fsync_window_start_ms (fst (open_next_file cfg a b s)) = js_fsync_window_start_ms s"
  "js_fsync_in_window (fst (open_next_file cfg a b s)) = js_fsync_in_window s"
  "js_file_prefix (fst (open_next_file cfg a b s)) = js_file_prefix s"
  "js_file_index (fst (open_next_file cfg a b s)) = js_file_index s + 1"
  "js_open (fst (open_next_file cfg a b s)) = a"
  "js_good (fst (open_next_file cfg a b s)) = a"
  "snd (open_next_file cfg a b s) = a"
  by (simp_all add: open_next_file_def open_summary_def Let_def)

lemma open_next_file_files:
  "js_current_path (fst (open_next_file cfg a b s)) = event_path cfg (s\<lparr>js_file_index := js_file_index s + 1\<rparr>)"
  "js_files (fst (open_next_file cfg a b s)) =
     (if a then append_file (event_path cfg (s\<lparr>js_file_index := js_file_index s + 1\<rparr>)) [] (js_files s) else js_files s)"
  by (simp_all add: open_next_file_def open_summary_def Let_def)

lemma write_summary_fields [simp]:
  "js_written_events (write_summary cfg w s) = js_written_events s"
  "js_files (write_summary cfg w s) = js_files s" "js_current_path (write_summary cfg w s) = js_current_path s"
  "js_file_index (write_summary cfg w s) = js_file_index s" "js_open (write_summary cfg w s) = js_open s"
  "js_good (write_summary cfg w s) = js_good s" "js_file_prefix (write_summary cfg w s) = js_file_prefix s"
  "js_fsync_window_start_ms (write_summary cfg w s) = js_fsync_window_start_ms s"
  "js_fsync_in_window (write_summary cfg w s) = js_fsync_in_window s"
  "sync_total (write_summary cfg w s) = sync_total s"
  by (simp_all add: write_summary_def sync_total_def)

lemma fsync_fields [simp]:
  "js_written_events (fsync_if_allowed cfg ans level s) = js_written_events s"
  "js_files (fsync_if_allowed cfg ans level s) = js_files s"
  "js_current_path (fsync_if_allowed cfg ans level s) = js_current_path s"
  "js_file_index (fsync_if_allowed cfg ans level s) = js_file_index s"
  "js_open (fsync_if_allowed cfg ans level s) = js_open s"
  "js_file_prefix (fsync_if_allowed cfg ans level s) = js_file_prefix s"
  by (simp_all add: fsync_if_allowed_def sync_current_def Let_def)

lemma fsync_good: "js_good (fsync_if_allowed cfg ans level s) \<Longrightarrow> js_good s"
  by (simp add: fsync_if_allowed_def sync_current_def Let_def split: if_splits)

lemma fsync_total:
  "sync_total (fsync_if_allowed cfg ans level s) =
     sync_total s + (if critical_fsync cfg \<and> level = LevelCritical then 1 else 0)"
  by (simp add: fsync_if_allowed_def sync_current_def sync_total_def Let_def)

lemma rotate_fields [simp]:
  "js_written_events (rotate_if_needed cfg ans s) = js_written_events s"
  "js_file_prefix (rotate_if_needed cfg ans s) = js_file_prefix s"
  "js_fsync_window_start_ms (rotate_if_needed cfg ans s) = js_fsync_window_start_ms s"
  "js_fsync_in_window (rotate_if_needed cfg ans s) = js_fsync_in_window s"
  "sync_total (rotate_if_needed cfg ans s) = sync_total s"
  by (simp_all add: rotate_if_needed_def sync_total_def)

lemma enforce_fields [simp]:
  "js_written_events (enforce_cache_limit cfg ans s) = js_written_events s"
  "js_file_prefix (enforce_cache_limit cfg ans s) = js_file_prefix s"
  "js_fsync_window_start_ms (enforce_cache_limit cfg ans s) = js_fsync_window_start_ms s"
  "js_fsync_in_window (enforce_cache_limit cfg ans s) = js_fsync_in_window s"
  "sync_total (enforce_cache_limit cfg ans s) = sync_total s"
  "js_current_path (enforce_cache_limit cfg ans s) = js_current_path s"
  "js_open (enforce_cache_limit cfg ans s) = js_open s" "js_good (enforce_cache_limit cfg ans s) = js_good s"
  "js_file_index (enforce_cache_limit cfg ans s) = js_file_index s"
  by (simp_all add: enforce_cache_limit_def sync_total_def)

section \<open>A written event\<close>

text \<open>The sink when the line is written: opened if it was not.\<close>

definition ready_sink :: "monitor_config \<Rightarrow> write_answers \<Rightarrow> jsonl_sink \<Rightarrow> jsonl_sink" where
  "ready_sink cfg ans s = (if js_open s then s else fst (open_next_file cfg (wa_open ans) (wa_open_summary ans) s))"

definition after_line :: "monitor_config \<Rightarrow> write_answers \<Rightarrow> string \<Rightarrow> jsonl_sink \<Rightarrow> jsonl_sink" where
  "after_line cfg ans line s =
     (write_summary cfg (wa_summary_written ans) (s\<lparr>js_files := append_file (js_current_path s) line (js_files s),
        js_current_size := js_current_size s + of_nat (length line)\<rparr>))
     \<lparr>js_written_events := js_written_events s + 1\<rparr>"

lemma ready_sink_fields [simp]:
  "js_written_events (ready_sink cfg ans s) = js_written_events s"
  "js_file_prefix (ready_sink cfg ans s) = js_file_prefix s"
  "js_fsync_window_start_ms (ready_sink cfg ans s) = js_fsync_window_start_ms s"
  "js_fsync_in_window (ready_sink cfg ans s) = js_fsync_in_window s"
  "sync_total (ready_sink cfg ans s) = sync_total s"
  by (simp_all add: ready_sink_def sync_total_def)

lemma after_line_fields [simp]:
  "js_written_events (after_line cfg ans line s) = js_written_events s + 1"
  "js_files (after_line cfg ans line s) = append_file (js_current_path s) line (js_files s)"
  "js_current_path (after_line cfg ans line s) = js_current_path s"
  "js_file_index (after_line cfg ans line s) = js_file_index s"
  "js_open (after_line cfg ans line s) = js_open s" "js_good (after_line cfg ans line s) = js_good s"
  "js_file_prefix (after_line cfg ans line s) = js_file_prefix s"
  "js_fsync_window_start_ms (after_line cfg ans line s) = js_fsync_window_start_ms s"
  "js_fsync_in_window (after_line cfg ans line s) = js_fsync_in_window s"
  "sync_total (after_line cfg ans line s) = sync_total s"
  by (simp_all add: after_line_def sync_total_def write_summary_def)

lemma write_event_cases:
  assumes "write_event cfg ans event s = Some (s', ok)"
  obtains (closed) "\<not> ok" "\<not> js_open (ready_sink cfg ans s)"
      "s' = (ready_sink cfg ans s)\<lparr>js_write_errors := js_write_errors (ready_sink cfg ans s) + 1\<rparr>"
  | (torn) line part where "\<not> ok" "js_open (ready_sink cfg ans s)" "to_json_line cfg event = Some line"
      "part = (if js_good (ready_sink cfg ans s) then take (the (wa_written ans)) line else [])"
      "s' = (ready_sink cfg ans s)\<lparr>js_write_errors := js_write_errors (ready_sink cfg ans s) + 1, js_open := False,
         js_files := append_file (js_current_path (ready_sink cfg ans s)) part (js_files (ready_sink cfg ans s))\<rparr>"
  | (written) line where "ok" "js_open (ready_sink cfg ans s)" "js_good (ready_sink cfg ans s)"
      "to_json_line cfg event = Some line"
      "s' = enforce_cache_limit cfg ans (rotate_if_needed cfg ans (fsync_if_allowed cfg ans (ev_level event)
             (after_line cfg ans line (ready_sink cfg ans s))))"
proof -
  let ?r = "ready_sink cfg ans s"
  have r: "(if js_open s then (s, True) else open_next_file cfg (wa_open ans) (wa_open_summary ans) s) = (?r, js_open ?r)"
    by (cases "js_open s") (simp_all add: ready_sink_def prod_eq_iff)
  show ?thesis
  proof (cases "js_open ?r")
    case False
    then show ?thesis using assms closed r by (simp add: write_event_def)
  next
    case True
    then obtain line where line: "to_json_line cfg event = Some line"
      using assms r by (auto simp: write_event_def split: option.splits)
    show ?thesis
    proof (cases "js_good ?r \<and> wa_written ans = None")
      case True
      then show ?thesis
        using assms written [OF _ \<open>js_open ?r\<close> _ line] r \<open>js_open ?r\<close> line
        by (simp add: write_event_def after_line_def Let_def)
    next
      case False
      then show ?thesis
        using assms torn [OF _ \<open>js_open ?r\<close> line refl] r \<open>js_open ?r\<close> line
        by (auto simp: write_event_def Let_def)
    qed
  qed
qed

text \<open>A run: one event after the other, with the entries of what was written, by number of the file.\<close>

definition written_index :: "jsonl_sink \<Rightarrow> u32" where
  "written_index s = (if js_open s then js_file_index s else js_file_index s + 1)"

fun jsonl_run ::
  "monitor_config \<Rightarrow> (write_answers \<times> internal_event) list \<Rightarrow> jsonl_sink \<Rightarrow> (jsonl_sink \<times> (u32 \<times> internal_event) list) option" where
  "jsonl_run cfg [] s = Some (s, [])"
| "jsonl_run cfg ((ans, event) # steps) s =
     (case write_event cfg ans event s of
        None \<Rightarrow> None
      | Some (s', ok) \<Rightarrow>
          map_option (\<lambda>(t, entries). (t, if ok then (written_index s, event) # entries else entries)) (jsonl_run cfg steps s'))"

lemma write_event_counters:
  assumes "write_event cfg ans event s = Some (s', ok)"
  shows "js_written_events s' = js_written_events s + (if ok then 1 else 0) \<and>
    sync_total s' = sync_total s + (if ok \<and> critical_fsync cfg \<and> ev_level event = LevelCritical then 1 else 0)"
  using assms
proof (cases rule: write_event_cases)
  case closed
  then show ?thesis using ready_sink_fields(5) [of cfg ans s] by (simp add: sync_total_def)
next
  case (torn line part)
  then show ?thesis using ready_sink_fields(5) [of cfg ans s] by (simp add: sync_total_def)
next
  case (written line)
  then show ?thesis by (simp add: fsync_total)
qed

section \<open>The entries on disk\<close>

definition event_path_of :: "monitor_config \<Rightarrow> string \<Rightarrow> u32 \<Rightarrow> string" where
  "event_path_of cfg file_prefix index =
     join_path (join_path (cache_path cfg) ''jsonl'') (file_prefix @ ''-part'' @ pad_zero 6 (show_word index) @ ''.jsonl'')"

lemma event_path_eq: "event_path cfg s = event_path_of cfg (js_file_prefix s) (js_file_index s)"
  by (simp add: event_path_def event_path_of_def part_name_def)

lemma event_path_of_inject [simp]: "event_path_of cfg p i = event_path_of cfg p j \<longleftrightarrow> i = j"
proof
  assume "event_path_of cfg p i = event_path_of cfg p j"
  then have "pad_zero 6 (show_word i) = pad_zero 6 (show_word j)" by (simp add: event_path_of_def)
  then have "digits_value (pad_zero 6 (show_word i)) = digits_value (pad_zero 6 (show_word j))" by simp
  then show "i = j" by (simp add: show_word_def word_unat_eq_iff)
qed simp

text \<open>The lines of the entries that went to a file.\<close>

definition lines_of :: "monitor_config \<Rightarrow> (u32 \<times> internal_event) list \<Rightarrow> u32 \<Rightarrow> string list" where
  "lines_of cfg entries i = map (\<lambda>(_, event). the (to_json_line cfg event)) (filter (\<lambda>(j, _). j = i) entries)"

text \<open>The content of a file: its lines, and what a failed write left when the file is not written any more.\<close>

definition file_log :: "monitor_config \<Rightarrow> (u32 \<times> internal_event) list \<Rightarrow> u32 \<Rightarrow> bool \<Rightarrow> string \<Rightarrow> bool" where
  "file_log cfg entries i being_written content \<longleftrightarrow>
     (\<exists>torn. content = concat (lines_of cfg entries i) @ torn \<and> CHR 0x0A \<notin> set (butlast torn) \<and> (being_written \<longrightarrow> torn = []))"

definition log_inv :: "monitor_config \<Rightarrow> jsonl_sink \<Rightarrow> (u32 \<times> internal_event) list \<Rightarrow> bool" where
  "log_inv cfg s entries \<longleftrightarrow>
     (\<forall>i content. map_of (js_files s) (event_path_of cfg (js_file_prefix s) i) = Some content \<longrightarrow>
        i \<le> js_file_index s \<and> file_log cfg entries i (js_open s \<and> i = js_file_index s) content) \<and>
     (\<forall>(i, _) \<in> set entries. i \<le> js_file_index s) \<and>
     (js_open s \<longrightarrow> js_current_path s = event_path_of cfg (js_file_prefix s) (js_file_index s) \<and>
        map_of (js_files s) (js_current_path s) \<noteq> None) \<and>
     sorted (map (\<lambda>(i, _). unat i) entries)"

lemma file_log_closed: "file_log cfg entries i b content \<Longrightarrow> file_log cfg entries i False content"
  by (auto simp: file_log_def)

lemma log_invD:
  "log_inv cfg s entries \<Longrightarrow> map_of (js_files s) (event_path_of cfg (js_file_prefix s) i) = Some content \<Longrightarrow>
   i \<le> js_file_index s \<and> file_log cfg entries i (js_open s \<and> i = js_file_index s) content"
  by (simp add: log_inv_def)

lemma log_inv_current:
  assumes "log_inv cfg s entries" and "js_open s"
  obtains old where "js_current_path s = event_path_of cfg (js_file_prefix s) (js_file_index s)"
    "map_of (js_files s) (event_path_of cfg (js_file_prefix s) (js_file_index s)) = Some old"
    "file_log cfg entries (js_file_index s) True old"
proof -
  have current: "js_current_path s = event_path_of cfg (js_file_prefix s) (js_file_index s)"
    and some: "map_of (js_files s) (js_current_path s) \<noteq> None"
    using assms unfolding log_inv_def by blast+
  obtain old where old: "map_of (js_files s) (event_path_of cfg (js_file_prefix s) (js_file_index s)) = Some old"
    using some unfolding current by blast
  show ?thesis using that [OF current old] log_invD [OF assms(1) old] assms(2) by simp
qed

lemma log_inv_cong:
  "js_files s = js_files t \<Longrightarrow> js_file_prefix s = js_file_prefix t \<Longrightarrow> js_file_index s = js_file_index t \<Longrightarrow>
   js_open s = js_open t \<Longrightarrow> js_current_path s = js_current_path t \<Longrightarrow> log_inv cfg s entries = log_inv cfg t entries"
  by (simp add: log_inv_def)

lemma log_inv_close:
  "log_inv cfg s entries \<Longrightarrow> log_inv cfg (s\<lparr>js_open := False, js_summary_open := b, js_rotated_files := n\<rparr>) entries"
  by (auto simp: log_inv_def intro: file_log_closed)

lemma log_inv_open:
  assumes "log_inv cfg s entries" and "unat (js_file_index s) + 1 < 2 ^ 32"
  shows "log_inv cfg (fst (open_next_file cfg a b s)) entries"
proof -
  let ?next = "js_file_index s + 1" and ?t = "fst (open_next_file cfg a b s)" and ?P = "event_path_of cfg (js_file_prefix s)"
  have index: "unat ?next = unat (js_file_index s) + 1"
    using assms(2) by (subst unat_add_no_overflow) simp_all
  then have above: "i < ?next" if "i \<le> js_file_index s" for i
    using that by (simp add: word_le_nat_alt word_less_nat_alt)
  have path: "js_current_path ?t = ?P ?next"
    by (simp add: open_next_file_files event_path_eq)
  have old: "i \<le> js_file_index s \<and> file_log cfg entries i False content"
    if "map_of (js_files s) (?P i) = Some content" for i content
    using assms(1) that by (auto simp: log_inv_def intro: file_log_closed)
  have none: "map_of (js_files s) (?P ?next) = None"
    using old [of ?next] above [of ?next] by (cases "map_of (js_files s) (?P ?next)") auto
  have entries: "i \<le> js_file_index s" if "(i, event) \<in> set entries" for i event
    using assms(1) that by (auto simp: log_inv_def)
  then have "lines_of cfg entries ?next = []" using above by (fastforce simp: lines_of_def filter_empty_conv)
  then have new: "file_log cfg entries ?next True []" by (simp add: file_log_def)
  have files: "js_files ?t = (if a then append_file (?P ?next) [] (js_files s) else js_files s)"
    by (simp add: open_next_file_files event_path_eq)
  have all: "i \<le> ?next \<and> file_log cfg entries i (a \<and> i = ?next) content"
    if "map_of (js_files ?t) (?P i) = Some content" for i content
  proof (cases "i = ?next")
    case True
    then show ?thesis using that none new unfolding files by (simp add: map_of_append_file split: if_splits)
  next
    case False
    then have "map_of (js_files s) (?P i) = Some content"
      using that unfolding files by (simp add: map_of_append_file split: if_splits)
    then show ?thesis using old [of i content] above [of i] False by simp
  qed
  have opened: "a \<Longrightarrow> map_of (js_files ?t) (?P ?next) \<noteq> None" unfolding files by (simp add: map_of_append_file)
  have "i \<le> ?next" if "(i, event) \<in> set entries" for i event using entries [OF that] above less_imp_le by blast
  then show ?thesis
    using all opened assms(1) unfolding log_inv_def path open_next_file_fields by (intro conjI allI impI) auto
qed

lemma log_inv_line:
  assumes "log_inv cfg s entries" and "js_open s" and "to_json_line cfg event = Some line"
  shows "log_inv cfg (after_line cfg ans line s) (entries @ [(js_file_index s, event)])"
proof -
  let ?P = "event_path_of cfg (js_file_prefix s)" and ?i = "js_file_index s"
  obtain old where current: "js_current_path s = ?P ?i" and old: "map_of (js_files s) (?P ?i) = Some old"
    and "file_log cfg entries ?i True old"
    using log_inv_current [OF assms(1,2)] .
  then have "old = concat (lines_of cfg entries ?i)" by (simp add: file_log_def)
  then have here: "file_log cfg (entries @ [(?i, event)]) ?i True (old @ line)"
    using assms(3) by (simp add: file_log_def lines_of_def)
  have other: "file_log cfg (entries @ [(?i, event)]) i b content = file_log cfg entries i b content" if "i \<noteq> ?i" for i b content
    using that by (simp add: file_log_def lines_of_def)
  have "i \<le> ?i \<and> file_log cfg (entries @ [(?i, event)]) i (i = ?i) content"
    if "map_of (append_file (?P ?i) line (js_files s)) (?P i) = Some content" for i content
  proof (cases "i = ?i")
    case True
    then show ?thesis using that old here by (simp add: map_of_append_file)
  next
    case False
    then have "map_of (js_files s) (?P i) = Some content" using that by (simp add: map_of_append_file)
    then have "i \<le> ?i" "file_log cfg entries i False content"
      using assms(1) by (auto simp: log_inv_def intro: file_log_closed)
    then show ?thesis using other [OF False] False by simp
  qed
  moreover have "sorted (map (\<lambda>(i, _). unat i) (entries @ [(?i, event)]))"
    using assms(1) by (auto simp: log_inv_def sorted_append word_le_nat_alt)
  ultimately show ?thesis
    using assms(1,2) current by (auto simp: log_inv_def map_of_append_file)
qed

lemma evict_not_current: "path \<in> set (evict limit current used fs) \<Longrightarrow> path \<notin> current"
  by (induction limit current used fs rule: evict.induct) (auto simp: Let_def split: if_splits)

lemma evicted_not_current:
  "path \<in> set (evicted cfg s listing) \<Longrightarrow> path \<noteq> js_current_path s \<and> path \<noteq> js_current_summary_path s"
  by (auto simp: evicted_def Let_def split: if_splits dest: evict_not_current)

lemma map_of_filter_keys: "map_of (filter (\<lambda>(k, _). Q k) xs) k = (if Q k then map_of xs k else None)"
  by (induction xs) auto

lemma log_inv_enforce:
  assumes "log_inv cfg s entries"
  shows "log_inv cfg (enforce_cache_limit cfg ans s) entries"
proof -
  define t where "t = enforce_cache_limit cfg ans s"
  define keep where "keep = (\<lambda>path. \<not> (path \<in> set (evicted cfg s (wa_listing ans)) \<and> wa_removable ans path))"
  have files: "map_of (js_files t) path = (if keep path then map_of (js_files s) path else None)" for path
    using map_of_filter_keys [of keep "js_files s" path] by (simp add: t_def keep_def enforce_cache_limit_def)
  have "keep (js_current_path s)"
    using evicted_not_current [of "js_current_path s" cfg s "wa_listing ans"] by (auto simp: keep_def)
  then have current: "map_of (js_files t) (js_current_path s) = map_of (js_files s) (js_current_path s)"
    by (simp add: files)
  have less: "map_of (js_files t) path = Some content \<Longrightarrow> map_of (js_files s) path = Some content" for path content
    by (simp add: files split: if_splits)
  have fields: "js_file_prefix t = js_file_prefix s" "js_file_index t = js_file_index s" "js_open t = js_open s"
    "js_current_path t = js_current_path s"
    by (simp_all add: t_def)
  have a: "i \<le> js_file_index s \<and> file_log cfg entries i (js_open s \<and> i = js_file_index s) content"
    if "map_of (js_files t) (event_path_of cfg (js_file_prefix s) i) = Some content" for i content
    using assms less [OF that] by (simp add: log_inv_def)
  have b: "js_open s \<longrightarrow> js_current_path s = event_path_of cfg (js_file_prefix s) (js_file_index s) \<and>
      map_of (js_files t) (js_current_path s) \<noteq> None"
    using assms unfolding log_inv_def current by blast
  have c: "(\<forall>(i, _) \<in> set entries. i \<le> js_file_index s) \<and> sorted (map (\<lambda>(i, _). unat i) entries)"
    using assms unfolding log_inv_def by blast
  show ?thesis
    unfolding t_def [symmetric] log_inv_def fields using a b c by blast
qed

lemma log_inv_rotate:
  assumes "log_inv cfg s entries" and "unat (js_file_index s) + 1 < 2 ^ 32"
  shows "log_inv cfg (rotate_if_needed cfg ans s) entries"
  using log_inv_open [OF log_inv_close [OF assms(1), where b = False and n = "js_rotated_files s + 1"]] assms
  by (simp add: rotate_if_needed_def)

lemma after_event_index: "unat (js_file_index s) + 2 < 2 ^ 32 \<Longrightarrow>
  write_event cfg ans event s = Some (s', ok) \<Longrightarrow> unat (js_file_index s') \<le> unat (js_file_index s) + 2"
proof -
  assume room: "unat (js_file_index s) + 2 < 2 ^ 32" and step: "write_event cfg ans event s = Some (s', ok)"
  have one: "unat (js_file_index s + 1) = unat (js_file_index s) + 1"
    using room by (subst unat_add_no_overflow) simp_all
  have ready: "unat (js_file_index (ready_sink cfg ans s)) \<le> unat (js_file_index s) + 1"
    using one by (simp add: ready_sink_def)
  have rotate: "unat (js_file_index (rotate_if_needed cfg ans t)) \<le> unat (js_file_index t) + 1"
    if "unat (js_file_index t) + 1 < 2 ^ 32" for t
    using that by (simp add: rotate_if_needed_def unat_add_no_overflow)
  show ?thesis
    using step
  proof (cases rule: write_event_cases)
    case (written line)
    let ?t = "fsync_if_allowed cfg ans (ev_level event) (after_line cfg ans line (ready_sink cfg ans s))"
    have "unat (js_file_index ?t) + 1 < 2 ^ 32" using ready room by simp
    then show ?thesis using rotate [of ?t] ready written by simp
  qed (use ready in simp_all)
qed

lemma written_index_ready: "js_open (ready_sink cfg ans s) \<Longrightarrow> written_index s = js_file_index (ready_sink cfg ans s)"
  by (simp add: written_index_def ready_sink_def)

lemma log_inv_write:
  assumes "log_inv cfg s entries" and "unat (js_file_index s) + 2 < 2 ^ 32" and "write_event cfg ans event s = Some (s', ok)"
  shows "log_inv cfg s' (if ok then entries @ [(written_index s, event)] else entries)"
proof -
  let ?r = "ready_sink cfg ans s"
  have room: "unat (js_file_index s) + 1 < 2 ^ 32" using assms(2) by simp
  have ready: "log_inv cfg ?r entries" using assms(1) log_inv_open [OF assms(1) room] by (simp add: ready_sink_def)
  have index: "unat (js_file_index ?r) + 1 < 2 ^ 32"
    using assms(2) unat_add_no_overflow [of "js_file_index s" 1] by (simp add: ready_sink_def)
  show ?thesis
    using assms(3)
  proof (cases rule: write_event_cases)
    case closed
    then show ?thesis using ready by (simp add: log_inv_def)
  next
    case (torn line part)
    obtain old where current: "js_current_path ?r = event_path_of cfg (js_file_prefix ?r) (js_file_index ?r)"
      and old: "map_of (js_files ?r) (event_path_of cfg (js_file_prefix ?r) (js_file_index ?r)) = Some old"
      and old_log: "file_log cfg entries (js_file_index ?r) True old"
      using log_inv_current [OF ready torn(2)] .
    obtain body where body: "line = body @ [CHR 0x0A]" "CHR 0x0A \<notin> set body"
      using to_json_line_body [OF torn(3)] by blast
    have "CHR 0x0A \<notin> set (butlast (take n line))" for n
      using body by (cases "n \<le> length body") (auto dest: in_set_takeD in_set_butlastD simp: butlast_append)
    then have "CHR 0x0A \<notin> set (butlast part)" using torn(4) by simp
    then have part: "file_log cfg entries (js_file_index ?r) False (old @ part)"
      using old_log by (auto simp: file_log_def)
    have "i \<le> js_file_index ?r \<and> file_log cfg entries i False content"
      if "map_of (append_file (js_current_path ?r) part (js_files ?r)) (event_path_of cfg (js_file_prefix ?r) i) = Some content"
      for i content
    proof (cases "i = js_file_index ?r")
      case True
      then show ?thesis using that part old current by (simp add: map_of_append_file)
    next
      case False
      then have "map_of (js_files ?r) (event_path_of cfg (js_file_prefix ?r) i) = Some content"
        using that current by (simp add: map_of_append_file)
      then show ?thesis using log_invD [OF ready] file_log_closed by blast
    qed
    then show ?thesis using torn(1,5) ready by (simp add: log_inv_def)
  next
    case (written line)
    let ?a = "after_line cfg ans line ?r"
    have "log_inv cfg ?a (entries @ [(written_index s, event)])"
      using log_inv_line [OF ready written(2,4)] written_index_ready [OF written(2)] by simp
    then have "log_inv cfg (fsync_if_allowed cfg ans (ev_level event) ?a) (entries @ [(written_index s, event)])"
      by (subst log_inv_cong [of _ ?a]) simp_all
    then show ?thesis using written index by (auto intro!: log_inv_enforce log_inv_rotate)
  qed
qed

lemma jsonl_run_inv:
  assumes "log_inv cfg s entries" and "unat (js_file_index s) + 2 * length steps < 2 ^ 32"
    and "jsonl_run cfg steps s = Some (t, new_entries)"
  shows "log_inv cfg t (entries @ new_entries) \<and> js_file_prefix t = js_file_prefix s \<and>
    js_written_events t = js_written_events s + of_nat (length new_entries) \<and>
    sync_total t = sync_total s +
      of_nat (length (filter (\<lambda>(_, event). critical_fsync cfg \<and> ev_level event = LevelCritical) new_entries))"
  using assms
proof (induction steps arbitrary: s entries new_entries)
  case (Cons step steps)
  obtain ans event where step: "step = (ans, event)" by fastforce
  obtain s' ok where wrote: "write_event cfg ans event s = Some (s', ok)"
    using Cons.prems(3) step by (auto split: option.splits)
  obtain rest where rest: "jsonl_run cfg steps s' = Some (t, rest)"
    "new_entries = (if ok then (written_index s, event) # rest else rest)"
    using Cons.prems(3) step wrote by auto
  have room: "unat (js_file_index s) + 2 < 2 ^ 32" using Cons.prems(2) by simp
  have "unat (js_file_index s') + 2 * length steps < 2 ^ 32"
    using after_event_index [OF room wrote] Cons.prems(2) by simp
  then have IH: "log_inv cfg t ((if ok then entries @ [(written_index s, event)] else entries) @ rest) \<and>
      js_file_prefix t = js_file_prefix s' \<and> js_written_events t = js_written_events s' + of_nat (length rest) \<and>
      sync_total t = sync_total s' +
        of_nat (length (filter (\<lambda>(_, event). critical_fsync cfg \<and> ev_level event = LevelCritical) rest))"
    using Cons.IH [OF log_inv_write [OF Cons.prems(1) room wrote]] rest(1) by blast
  have "js_file_prefix s' = js_file_prefix s"
    using wrote by (cases rule: write_event_cases) simp_all
  then show ?case
    using IH rest(2) write_event_counters [OF wrote] by (simp split: if_splits)
qed simp

section \<open>Syncs per minute\<close>

text \<open>The times of the attempts to sync in a run of \<open>fsync_if_allowed\<close>.\<close>

definition attempts_sync :: "monitor_config \<Rightarrow> write_answers \<Rightarrow> event_level \<Rightarrow> jsonl_sink \<Rightarrow> bool" where
  "attempts_sync cfg ans level s \<longleftrightarrow>
     critical_fsync cfg \<and> level = LevelCritical \<and> js_good s \<and> wa_flush ans \<and>
     (60000 \<le> wa_now_ms ans - js_fsync_window_start_ms s \<and> 0 < max_fsync_per_minute cfg \<or>
      wa_now_ms ans - js_fsync_window_start_ms s < 60000 \<and> js_fsync_in_window s < max_fsync_per_minute cfg)"

fun sync_times :: "monitor_config \<Rightarrow> (write_answers \<times> event_level) list \<Rightarrow> jsonl_sink \<Rightarrow> nat list" where
  "sync_times cfg [] s = []"
| "sync_times cfg ((ans, level) # steps) s =
     (if attempts_sync cfg ans level s then [unat (wa_now_ms ans)] else []) @
     sync_times cfg steps (fsync_if_allowed cfg ans level s)"

lemma fsync_window:
  "js_fsync_window_start_ms (fsync_if_allowed cfg ans level s) =
     (if critical_fsync cfg \<and> level = LevelCritical \<and> js_good s \<and> wa_flush ans \<and> 60000 \<le> wa_now_ms ans - js_fsync_window_start_ms s
      then wa_now_ms ans else js_fsync_window_start_ms s)"
  "js_fsync_in_window (fsync_if_allowed cfg ans level s) =
     (if critical_fsync cfg \<and> level = LevelCritical \<and> js_good s \<and> wa_flush ans \<and> 60000 \<le> wa_now_ms ans - js_fsync_window_start_ms s
      then (if attempts_sync cfg ans level s then 1 else 0)
      else if attempts_sync cfg ans level s then js_fsync_in_window s + 1 else js_fsync_in_window s)"
  by (auto simp: fsync_if_allowed_def sync_current_def attempts_sync_def Let_def not_le word_neq_0_conv not_less)

definition count_within :: "nat list \<Rightarrow> nat \<Rightarrow> nat" where
  "count_within ts t = length (filter (\<lambda>u. t \<le> u \<and> u < t + 60000) ts)"

text \<open>What a window promises of the attempts so far: all at most at the last time.\<close>

definition window_ok :: "nat \<Rightarrow> jsonl_sink \<Rightarrow> nat \<Rightarrow> nat list \<Rightarrow> bool" where
  "window_ok limit s last_time ts \<longleftrightarrow>
     (let start = unat (js_fsync_window_start_ms s)
      in start \<le> last_time \<and> (\<forall>u \<in> set ts. u \<le> last_time \<and> u < start + 60000) \<and>
         length (filter (\<lambda>u. start \<le> u) ts) \<le> unat (js_fsync_in_window s) \<and> unat (js_fsync_in_window s) \<le> limit \<and>
         length (filter (\<lambda>u. u < start \<and> start < u + 60000) ts) \<le> limit \<and>
         (\<forall>t. count_within ts t \<le> 2 * limit))"

lemma filter_length_mono: "(\<And>x. x \<in> set xs \<Longrightarrow> P x \<Longrightarrow> Q x) \<Longrightarrow> length (filter P xs) \<le> length (filter Q xs)"
  by (induction xs) auto

lemma filter_length_or: "length (filter (\<lambda>x. P x \<or> Q x) xs) \<le> length (filter P xs) + length (filter Q xs)"
  by (induction xs) auto

lemma window_ok_step:
  assumes ok: "window_ok (unat (max_fsync_per_minute cfg)) s last_time ts" and now: "last_time \<le> unat (wa_now_ms ans)"
  shows "window_ok (unat (max_fsync_per_minute cfg)) (fsync_if_allowed cfg ans level s) (unat (wa_now_ms ans))
    (ts @ (if attempts_sync cfg ans level s then [unat (wa_now_ms ans)] else []))"
proof -
  let ?L = "unat (max_fsync_per_minute cfg)" and ?start = "unat (js_fsync_window_start_ms s)"
  let ?w = "unat (wa_now_ms ans)" and ?n = "unat (js_fsync_in_window s)"
  let ?since = "length (filter (\<lambda>u. ?start \<le> u) ts)"
  let ?before = "length (filter (\<lambda>u. u < ?start \<and> ?start < u + 60000) ts)"
  have facts: "?start \<le> ?w" "\<forall>u \<in> set ts. u \<le> ?w \<and> u < ?start + 60000" "?since \<le> ?n" "?n \<le> ?L" "?before \<le> ?L"
    "\<forall>t. count_within ts t \<le> 2 * ?L"
    using ok now by (auto simp: window_ok_def Let_def)
  have diff: "unat (wa_now_ms ans - js_fsync_window_start_ms s) = ?w - ?start"
    using facts(1) by (simp add: unat_sub word_le_nat_alt)
  let ?active = "critical_fsync cfg \<and> level = LevelCritical \<and> js_good s \<and> wa_flush ans"
  let ?reset = "critical_fsync cfg \<and> level = LevelCritical \<and> js_good s \<and> wa_flush ans \<and> 60000 \<le> wa_now_ms ans - js_fsync_window_start_ms s"
  have reset: "?reset \<longleftrightarrow> ?active \<and> ?start + 60000 \<le> ?w"
    using diff by (auto simp: word_le_nat_alt)
  have counted: "count_within (ts @ [?w]) t \<le> 2 * ?L"
    if "?w < t + 60000 \<Longrightarrow> t \<le> ?w \<Longrightarrow> count_within ts t + 1 \<le> 2 * ?L" for t
    using that facts(6) by (auto simp: count_within_def)
  consider (reset) "?reset" | (attempt) "\<not> ?reset" "attempts_sync cfg ans level s" | (rest) "\<not> ?reset" "\<not> attempts_sync cfg ans level s"
    by blast
  then show ?thesis
  proof cases
    case reset
    then have far: "?start + 60000 \<le> ?w" using \<open>?reset \<longleftrightarrow> _\<close> by blast
    have none: "filter (\<lambda>u. ?w \<le> u) ts = []" using facts(2) far by (fastforce simp: filter_empty_conv)
    have recent: "length (filter (\<lambda>u. u < ?w \<and> ?w < u + 60000) ts) \<le> ?since"
      using far by (intro filter_length_mono) simp
    have within: "count_within ts t \<le> ?since" if "?w < t + 60000" for t
      unfolding count_within_def using far that by (intro filter_length_mono) simp
    have attempted: "attempts_sync cfg ans level s \<longleftrightarrow> 0 < ?L"
      using reset by (auto simp: attempts_sync_def word_less_nat_alt word_le_nat_alt)
    then have "count_within (ts @ (if attempts_sync cfg ans level s then [?w] else [])) t \<le> 2 * ?L" for t
      using counted [of t] within [of t] facts(3,4,6) by (cases "0 < ?L") fastforce+
    moreover have "\<forall>u \<in> set ts. u \<le> ?w \<and> u < ?w + 60000" using facts(2) by fastforce
    moreover have "js_fsync_window_start_ms (fsync_if_allowed cfg ans level s) = wa_now_ms ans"
      "js_fsync_in_window (fsync_if_allowed cfg ans level s) = (if attempts_sync cfg ans level s then 1 else 0)"
      by (simp_all only: fsync_window if_P [OF reset])
    ultimately show ?thesis
      using facts(3,4) none recent attempted by (simp add: window_ok_def Let_def)
  next
    case attempt
    then have less: "?n < ?L" using reset diff by (auto simp: attempts_sync_def word_less_nat_alt word_le_nat_alt not_le)
    then have suc: "unat (js_fsync_in_window s + 1) = ?n + 1"
      by (intro unat_add_1 [of _ "max_fsync_per_minute cfg"]) (simp add: word_less_nat_alt)
    have near: "?w < ?start + 60000" using attempt reset by (auto simp: attempts_sync_def)
    have "count_within ts t \<le> ?since + ?before" if "?w < t + 60000" for t
    proof -
      have "count_within ts t \<le> length (filter (\<lambda>u. ?start \<le> u \<or> u < ?start \<and> ?start < u + 60000) ts)"
        unfolding count_within_def using that facts(1) by (intro filter_length_mono) linarith
      also have "\<dots> \<le> ?since + ?before" by (rule filter_length_or)
      finally show ?thesis .
    qed
    then have "count_within (ts @ [?w]) t \<le> 2 * ?L" for t
      using counted [of t] facts(3,5) less by fastforce
    moreover have "js_fsync_window_start_ms (fsync_if_allowed cfg ans level s) = js_fsync_window_start_ms s"
      "js_fsync_in_window (fsync_if_allowed cfg ans level s) = js_fsync_in_window s + 1"
      by (simp_all only: fsync_window if_not_P [OF attempt(1)] if_P [OF attempt(2)])
    ultimately show ?thesis
      using attempt(2) facts suc less near by (simp add: window_ok_def Let_def)
  next
    case rest
    then have "js_fsync_window_start_ms (fsync_if_allowed cfg ans level s) = js_fsync_window_start_ms s"
      "js_fsync_in_window (fsync_if_allowed cfg ans level s) = js_fsync_in_window s"
      by (simp_all only: fsync_window if_not_P [OF rest(1)] if_not_P [OF rest(2)] if_False)
    then show ?thesis using rest(2) facts by (simp add: window_ok_def Let_def)
  qed
qed

lemma sync_times_window:
  assumes "window_ok (unat (max_fsync_per_minute cfg)) s last_time ts"
    and "sorted (last_time # map (\<lambda>(ans, _). unat (wa_now_ms ans)) steps)"
  shows "count_within (ts @ sync_times cfg steps s) t \<le> 2 * unat (max_fsync_per_minute cfg)"
  using assms
proof (induction steps arbitrary: s last_time ts)
  case Nil
  then show ?case by (simp add: window_ok_def Let_def)
next
  case (Cons step steps)
  obtain ans level where step: "step = (ans, level)" by fastforce
  have "window_ok (unat (max_fsync_per_minute cfg)) (fsync_if_allowed cfg ans level s) (unat (wa_now_ms ans))
      (ts @ (if attempts_sync cfg ans level s then [unat (wa_now_ms ans)] else []))"
    using Cons.prems step by (intro window_ok_step [OF Cons.prems(1)]) simp
  from Cons.IH [OF this] show ?case using Cons.prems(2) step by (simp split: if_splits)
qed

section \<open>Eviction\<close>

definition others :: "jsonl_sink \<Rightarrow> cached_file list \<Rightarrow> cached_file list" where
  "others s listing =
     filter (\<lambda>f. cf_path f \<notin> {js_current_path s, js_current_summary_path s}) (sort_key cf_modified listing)"

lemma evict_prefix:
  fixes current :: "string set" and fs :: "cached_file list"
  assumes "sum_list (map (\<lambda>f. unat (cf_size f)) fs) \<le> unat used"
  defines "os \<equiv> filter (\<lambda>f. cf_path f \<notin> current) fs"
  shows "\<exists>n \<le> length os. evict limit current used fs = map cf_path (take n os) \<and>
    (n < length os \<longrightarrow> 0 < n \<and> unat used - sum_list (map (\<lambda>f. unat (cf_size f)) (take n os)) \<le> unat limit) \<and>
    (\<forall>m. 0 < m \<and> m < n \<longrightarrow> unat limit < unat used - sum_list (map (\<lambda>f. unat (cf_size f)) (take m os)))"
  using assms(1) unfolding os_def
proof (induction fs arbitrary: used)
  case (Cons f fs)
  show ?case
  proof (cases "cf_path f \<in> current")
    case True
    then show ?thesis using Cons by simp
  next
    case False
    let ?used = "if cf_size f < used then used - cf_size f else 0"
    let ?os = "filter (\<lambda>f. cf_path f \<notin> current) fs"
    have size: "unat (cf_size f) \<le> unat used" using Cons.prems by simp
    then have used: "unat ?used = unat used - unat (cf_size f)"
      by (auto simp: unat_sub word_le_nat_alt word_less_nat_alt)
    show ?thesis
    proof (cases "?used \<le> limit")
      case True
      then show ?thesis using False used
        by (intro exI [of _ 1]) (auto simp: Let_def word_le_nat_alt)
    next
      case over: False
      have "sum_list (map (\<lambda>f. unat (cf_size f)) fs) \<le> unat ?used" using Cons.prems used by simp
      from Cons.IH [OF this] obtain n where n: "n \<le> length ?os" "evict limit current ?used fs = map cf_path (take n ?os)"
        "n < length ?os \<longrightarrow> 0 < n \<and> unat ?used - sum_list (map (\<lambda>f. unat (cf_size f)) (take n ?os)) \<le> unat limit"
        "\<forall>m. 0 < m \<and> m < n \<longrightarrow> unat limit < unat ?used - sum_list (map (\<lambda>f. unat (cf_size f)) (take m ?os))"
        by blast
      have "unat limit < unat used - sum_list (map (\<lambda>f. unat (cf_size f)) (take m (f # ?os)))" if "0 < m" "m < Suc n" for m
      proof (cases m)
        case (Suc k)
        have "0 < k \<Longrightarrow> unat limit < unat ?used - sum_list (map (\<lambda>f. unat (cf_size f)) (take k ?os))"
          using n(4) that Suc by simp
        then show ?thesis using Suc over used by (cases k) (simp_all add: word_le_nat_alt)
      qed (use that in simp)
      then show ?thesis
        using False over n(1-3) used by (intro exI [of _ "Suc n"]) (simp add: Let_def)
    qed
  qed
qed simp

section \<open>Taking turns\<close>

definition queue_items :: "internal_event ring option list \<Rightarrow> internal_event list list" where
  "queue_items queues = map (\<lambda>q. case q of None \<Rightarrow> [] | Some q \<Rightarrow> ring_items q) queues"

definition queues_wf :: "internal_event ring option list \<Rightarrow> bool" where
  "queues_wf queues \<longleftrightarrow> (\<forall>q. Some q \<in> set queues \<longrightarrow> ring_wf q)"

text \<open>The distance to the turn of a queue: from 1 for the next one to the number of queues for the last served.\<close>

definition turn_distance :: "nat \<Rightarrow> nat \<Rightarrow> nat \<Rightarrow> nat" where
  "turn_distance n i j = (if i < j then j - i else j + n - i)"

lemma pop_in_queues:
  assumes "queues_wf queues" and "k < length queues" and "queues ! k = Some q"
  shows "queues_wf (queues[k := Some (fst (pop q))])"
    and "queue_items (queues[k := Some (fst (pop q))]) = (queue_items queues)[k := tl (queue_items queues ! k)]"
    and "snd (pop q) = (case queue_items queues ! k of [] \<Rightarrow> None | x # _ \<Rightarrow> Some x)"
proof -
  have wf: "ring_wf q" using assms by (metis nth_mem queues_wf_def)
  show "queues_wf (queues[k := Some (fst (pop q))])"
    using assms(1) pop_items(2) [OF wf] set_update_subset_insert [of queues k] by (fastforce simp: queues_wf_def)
  show "queue_items (queues[k := Some (fst (pop q))]) = (queue_items queues)[k := tl (queue_items queues ! k)]"
    using assms(2,3) pop_items(1) [OF wf] by (simp add: queue_items_def map_update)
  show "snd (pop q) = (case queue_items queues ! k of [] \<Rightarrow> None | x # _ \<Rightarrow> Some x)"
    using assms(2,3) pop_result [OF wf] by (simp add: queue_items_def)
qed

text \<open>One poll takes the head of the first queue after the last one served that has something.\<close>

definition poll_ok ::
  "internal_event ring option list \<Rightarrow> nat \<Rightarrow> nat \<Rightarrow> internal_event ring option list \<times> nat \<times> internal_event option \<Rightarrow> bool" where
  "poll_ok queues i tries r \<longleftrightarrow>
     (case r of (queues', i', result) \<Rightarrow>
        queues_wf queues' \<and> length queues' = length queues \<and>
        (case result of
           None \<Rightarrow> queue_items queues' = queue_items queues \<and>
             (\<forall>d. 0 < d \<and> d \<le> tries \<longrightarrow> queue_items queues ! ((i + d) mod length queues) = [])
         | Some event \<Rightarrow> (\<exists>d rest. 0 < d \<and> d \<le> tries \<and> i' = (i + d) mod length queues \<and>
             queue_items queues ! i' = event # rest \<and> queue_items queues' = (queue_items queues)[i' := rest] \<and>
             (\<forall>e. 0 < e \<and> e < d \<longrightarrow> queue_items queues ! ((i + e) mod length queues) = []))))"

lemma poll_ok_skip:
  assumes "queue_items qs = queue_items queues" and "length qs = length queues"
    and "queue_items queues ! ((i + 1) mod length queues) = []"
    and "poll_ok qs ((i + 1) mod length queues) tries r"
  shows "poll_ok queues i (Suc tries) r"
proof -
  let ?n = "length queues"
  obtain queues' i' result where r: "r = (queues', i', result)" by (cases r)
  have shift: "((i + 1) mod ?n + d) mod ?n = (i + Suc d) mod ?n" for d by (simp add: mod_add_left_eq)
  have all: "queue_items queues ! ((i + e) mod ?n) = []"
    if "\<forall>e. 0 < e \<and> e < d \<longrightarrow> queue_items queues ! ((i + Suc e) mod ?n) = []" "0 < e" "e < Suc d" for d e
    using that assms(3) by (cases e; cases "e = 1") auto
  show ?thesis
  proof (cases result)
    case None
    then have none: "\<forall>e. 0 < e \<and> e < Suc tries \<longrightarrow> queue_items queues ! ((i + Suc e) mod ?n) = []"
      using assms(1,2,4) r shift by (simp add: poll_ok_def less_Suc_eq_le)
    then show ?thesis using all [OF none] assms(1,2,4) r None by (simp add: poll_ok_def less_Suc_eq_le)
  next
    case (Some event)
    then obtain d rest where d: "0 < d" "d \<le> tries" "i' = (i + Suc d) mod ?n" "queue_items queues ! i' = event # rest"
      "queue_items queues' = (queue_items queues)[i' := rest]"
      "\<forall>e. 0 < e \<and> e < d \<longrightarrow> queue_items queues ! ((i + Suc e) mod ?n) = []" "queues_wf queues'" "length queues' = ?n"
      using assms(1,2,4) r shift by (auto simp: poll_ok_def)
    then show ?thesis using all [OF d(6)] r Some unfolding poll_ok_def by (auto intro!: exI [of _ "Suc d"])
  qed
qed

lemma poll_result:
  assumes "queues_wf queues" and "i < length queues"
  shows "poll_ok queues i tries (poll_queues tries i queues)"
  using assms
proof (induction tries arbitrary: i queues)
  case (Suc tries)
  let ?n = "length queues" and ?k = "(i + 1) mod length queues"
  have "0 < ?n" using Suc.prems(2) by linarith
  then have k: "?k < ?n" by simp
  show ?case
  proof (cases "queues ! ?k")
    case None
    then have "queue_items queues ! ?k = []" using k by (simp add: queue_items_def)
    then show ?thesis using poll_ok_skip [OF refl refl] Suc.IH [OF Suc.prems(1) k] None by simp
  next
    case (Some q)
    note popped = pop_in_queues [OF Suc.prems(1) k Some]
    let ?qs = "queues[?k := Some (fst (pop q))]"
    show ?thesis
    proof (cases "queue_items queues ! ?k")
      case Nil
      then have same: "queue_items ?qs = queue_items queues" using popped(2) by (metis list.sel(2) list_update_id)
      have "poll_queues (Suc tries) i queues = poll_queues tries ?k ?qs"
        using popped(3) Nil Some by (simp add: prod.case_eq_if Let_def)
      moreover have "poll_ok ?qs ?k tries (poll_queues tries ?k ?qs)" using Suc.IH [of ?qs ?k] popped(1) k by simp
      ultimately show ?thesis using poll_ok_skip [OF same _ Nil] by simp
    next
      case (Cons event rest)
      then have "poll_queues (Suc tries) i queues = (?qs, ?k, Some event)"
        using popped(3) Some by (simp add: prod.case_eq_if Let_def)
      then show ?thesis using popped(1,2) Cons by (auto simp: poll_ok_def intro!: exI [of _ 1])
    qed
  qed
qed (simp add: poll_ok_def)

text \<open>The indices served by a sequence of polls; other threads may push between them.\<close>

fun served_indices :: "nat \<Rightarrow> internal_event ring option list list \<Rightarrow> nat list" where
  "served_indices i [] = []"
| "served_indices i (queues # snapshots) =
     (let i' = fst (snd (poll_queues (length queues) i queues)) in i' # served_indices i' snapshots)"

lemma poll_approaches:
  assumes "queues_wf queues" and "i < length queues" and "j < length queues" and "queue_items queues ! j \<noteq> []"
  defines "i' \<equiv> fst (snd (poll_queues (length queues) i queues))"
  shows "i' < length queues \<and> (i' = j \<or> turn_distance (length queues) i' j < turn_distance (length queues) i j)"
proof -
  let ?n = "length queues" and ?D = "turn_distance (length queues) i j"
  have D: "0 < ?D" "?D \<le> ?n" "(i + ?D) mod ?n = j" using assms(2,3) by (auto simp: turn_distance_def)
  obtain queues' result where r: "poll_queues ?n i queues = (queues', i', result)"
    unfolding i'_def by (metis prod.collapse)
  have ok: "poll_ok queues i ?n (queues', i', result)" using poll_result [OF assms(1,2), of ?n] r by simp
  have "result \<noteq> None"
  proof
    assume "result = None"
    then have "\<forall>d. 0 < d \<and> d \<le> ?n \<longrightarrow> queue_items queues ! ((i + d) mod ?n) = []" using ok by (simp add: poll_ok_def)
    then show False using D assms(4) by metis
  qed
  then obtain event where "result = Some event" by auto
  then obtain d where d: "0 < d" "d \<le> ?n" "i' = (i + d) mod ?n" "\<forall>e. 0 < e \<and> e < d \<longrightarrow> queue_items queues ! ((i + e) mod ?n) = []"
    using ok by (auto simp: poll_ok_def)
  have "d \<le> ?D" using d(4) D(1,3) assms(4) by (metis not_le)
  moreover have "0 < ?n" using assms(2) by linarith
  then have "i' < ?n" using d(3) by simp
  moreover have "turn_distance ?n ((i + d) mod ?n) j < ?D" if "d < ?D"
  proof (cases "i + d < ?n")
    case True
    then show ?thesis using that d(1) by (auto simp: turn_distance_def split: if_splits)
  next
    case False
    then have "(i + d) mod ?n = (i + d - ?n) mod ?n" by (intro le_mod_geq) simp
    moreover have "i + d - ?n < ?n" using d(2) assms(2) by linarith
    ultimately have wrapped: "(i + d) mod ?n = i + d - ?n" by (simp only: mod_less)
    have "\<not> i < j" using that False assms(3) by (auto simp: turn_distance_def)
    moreover from this have "i + d - ?n < j" using that False by (simp add: turn_distance_def)
    ultimately show ?thesis
      unfolding wrapped turn_distance_def using False d(1,2) assms(2,3) by simp
  qed
  ultimately show ?thesis using d(3) D(3) by (metis le_neq_implies_less)
qed

section \<open>Draining at the stop\<close>

lemma drain_queues_total:
  assumes "queues_wf queues"
  shows "\<exists>queues'. drain_queues handle queues s = Some (queues', fold handle (concat (queue_items queues)) s) \<and>
    queues_wf queues' \<and> concat (queue_items queues') = []"
  using assms
proof (induction handle queues s rule: drain_queues.induct)
  case (1 handle s)
  then show ?case by (simp add: queue_items_def)
next
  case (2 handle queues s)
  then obtain queues' where "drain_queues handle queues s = Some (queues', fold handle (concat (queue_items queues)) s)"
    "queues_wf queues'" "concat (queue_items queues') = []"
    by (auto simp: queues_wf_def)
  then show ?case by (auto simp: queue_items_def queues_wf_def)
next
  case (3 handle q queues s)
  have wf: "ring_wf q" and rest: "queues_wf queues" using "3.prems" by (auto simp: queues_wf_def)
  obtain q' where q': "drain pop handle q s = Some (q', fold handle (ring_items q) s)" "ring_items q' = []" "ring_wf q'"
    using rb.drain_handles_all [OF wf, of handle s] by blast
  obtain queues' where "drain_queues handle queues (fold handle (ring_items q) s) =
      Some (queues', fold handle (concat (queue_items queues)) (fold handle (ring_items q) s))"
    "queues_wf queues'" "concat (queue_items queues') = []"
    using "3.IH" [OF q'(1) refl rest] by blast
  then show ?case using q' by (auto simp: queue_items_def queues_wf_def)
qed

lemma all_empty_items: "queues_wf queues \<Longrightarrow> all_empty queues \<longleftrightarrow> concat (queue_items queues) = []"
proof (induction queues)
  case (Cons q queues)
  then have "all_empty queues \<longleftrightarrow> concat (queue_items queues) = []" by (auto simp: queues_wf_def)
  then show ?case
    using Cons.prems pop_result by (cases q) (auto simp: all_empty_def queue_items_def queues_wf_def split: list.splits)
qed (simp add: all_empty_def queue_items_def)

lemma served_within_distance:
  assumes "\<forall>queues \<in> set snapshots. queues_wf queues \<and> length queues = n \<and> queue_items queues ! j \<noteq> []"
    and "i < n" and "j < n" and "turn_distance n i j \<le> length snapshots"
  shows "j \<in> set (take (turn_distance n i j) (served_indices i snapshots))"
  using assms
proof (induction snapshots arbitrary: i)
  case Nil
  then show ?case by (auto simp: turn_distance_def split: if_splits)
next
  case (Cons queues snapshots)
  let ?i' = "fst (snd (poll_queues (length queues) i queues))"
  have near: "?i' < n \<and> (?i' = j \<or> turn_distance n ?i' j < turn_distance n i j)"
    using poll_approaches [of queues i j] Cons.prems by simp
  obtain m where m: "turn_distance n i j = Suc m" using Cons.prems(2,3) by (cases "turn_distance n i j") (auto simp: turn_distance_def split: if_splits)
  show ?case
  proof (cases "?i' = j")
    case True
    then show ?thesis using m by (simp add: Let_def)
  next
    case False
    then have le: "turn_distance n ?i' j \<le> m" using near m by simp
    then have "j \<in> set (take (turn_distance n ?i' j) (served_indices ?i' snapshots))"
      using Cons.IH [of ?i'] Cons.prems near m by simp
    then have "j \<in> set (take m (served_indices ?i' snapshots))" 
      using set_take_subset_set_take [OF le] by (rule rev_subsetD)
    then show ?thesis using m by (simp add: Let_def)
  qed
qed

definition total_size :: "cached_file list \<Rightarrow> nat" where
  "total_size fs = sum_list (map (\<lambda>f. unat (cf_size f)) fs)"

section \<open>Properties\<close>


definition good_answers :: write_answers where
  "good_answers = \<lparr>wa_open = True, wa_open_summary = True, wa_written = None, wa_summary_written = True,
     wa_now_ms = 100000, wa_flush = True, wa_sync_open = True, wa_fdatasync = True, wa_directory_open = True,
     wa_directory_sync = True, wa_rotate_open = True, wa_rotate_open_summary = True, wa_listing = [],
     wa_removable = (\<lambda>_. True)\<rparr>"

lemma sample_run:
  "\<exists>s entries. jsonl_run default_config [(good_answers, default_event\<lparr>ev_level := LevelCritical\<rparr>)] (new_jsonl_sink ''m'' []) = Some (s, entries)"
proof -
  have "to_json_line default_config (default_event\<lparr>ev_level := LevelCritical\<rparr>) \<noteq> None" by code_simp
  then have "write_event default_config good_answers (default_event\<lparr>ev_level := LevelCritical\<rparr>) (new_jsonl_sink ''m'' []) \<noteq> None"
    by (auto simp: write_event_def Let_def case_prod_beta)
  then show ?thesis by (auto split: option.split)
qed


text \<open>
  Every critical event that is written is counted exactly once as synced, as failed to sync or as limited, and no other
  event is counted; with syncing switched off none is.
\<close>

theorem critical_sync_accounted:
  assumes "2 * length steps < 2 ^ 32" and "jsonl_run cfg steps (new_jsonl_sink file_prefix []) = Some (s, entries)"
  shows "js_fsync_count s + js_fsync_failures s + js_fsync_rate_limited s =
    of_nat (length (filter (\<lambda>(_, event). critical_fsync cfg \<and> ev_level event = LevelCritical) entries))"
proof -
  have start: "log_inv cfg (new_jsonl_sink file_prefix []) []" by (simp add: log_inv_def new_jsonl_sink_def)
  show ?thesis
    using jsonl_run_inv [OF start _ assms(2)] assms(1) by (simp add: new_jsonl_sink_def sync_total_def)
qed

theorem critical_sync_accounted_witness:
  "\<exists>s entries. jsonl_run default_config [(good_answers, default_event\<lparr>ev_level := LevelCritical\<rparr>)] (new_jsonl_sink ''m'' []) = Some (s, entries) \<and>
     js_fsync_count s + js_fsync_failures s + js_fsync_rate_limited s =
       of_nat (length (filter (\<lambda>(_, event). critical_fsync default_config \<and> ev_level event = LevelCritical) entries))"
  using sample_run critical_sync_accounted
    [of "[(good_answers, default_event\<lparr>ev_level := LevelCritical\<rparr>)]" default_config "''m''"] by auto

text \<open>
  With a clock that does not run backwards, in no interval of one minute are there more than twice the configured number of
  attempts to sync, counted from the start of the sink.
\<close>

theorem sync_rate_bounded:
  assumes "sorted (map (\<lambda>(ans, _). unat (wa_now_ms ans)) steps)"
  shows "length (filter (\<lambda>u. t \<le> u \<and> u < t + 60000) (sync_times cfg steps (new_jsonl_sink file_prefix files)))
    \<le> 2 * unat (max_fsync_per_minute cfg)"
proof -
  have "window_ok (unat (max_fsync_per_minute cfg)) (new_jsonl_sink file_prefix files) 0 []"
    by (simp add: window_ok_def new_jsonl_sink_def count_within_def)
  from sync_times_window [OF this, of steps t] show ?thesis using assms by (simp add: count_within_def)
qed

theorem sync_rate_bounded_witness:
  "length (filter (\<lambda>u. 0 \<le> u \<and> u < 0 + 60000)
     (sync_times default_config [(good_answers, LevelCritical), (good_answers, LevelCritical)] (new_jsonl_sink ''m'' []))) \<le> 12"
  using sync_rate_bounded [of "[(good_answers, LevelCritical), (good_answers, LevelCritical)]" 0 default_config "''m''" "[]"]
  by (simp add: good_answers_def default_config_def)

text \<open>
  The files removed when the cache is over its limit are the oldest ones apart from the two current files, in the order of
  their age; no fewer would do, and the loop stops as soon as the rest is within the limit or only the
  current files are left. Nothing is removed within the limit.
\<close>

theorem eviction_oldest_first:
  assumes "total_size listing < 2 ^ 64"
  shows "(total_size listing \<le> unat (cache_max_mb cfg * 1024 * 1024) \<longrightarrow> evicted cfg s listing = []) \<and>
    (unat (cache_max_mb cfg * 1024 * 1024) < total_size listing \<longrightarrow>
      (\<exists>n \<le> length (others s listing). evicted cfg s listing = map cf_path (take n (others s listing)) \<and>
        (n < length (others s listing) \<longrightarrow>
           total_size listing - total_size (take n (others s listing)) \<le> unat (cache_max_mb cfg * 1024 * 1024)) \<and>
        (\<forall>m. 0 < m \<and> m < n \<longrightarrow>
           unat (cache_max_mb cfg * 1024 * 1024) < total_size listing - total_size (take m (others s listing)))))"
proof -
  let ?limit = "cache_max_mb cfg * 1024 * 1024 :: u64" and ?used = "sum_list (map cf_size listing)"
  have "unat (sum_list (map cf_size fs)) = total_size fs" if "total_size fs < 2 ^ 64" for fs
    using that by (induction fs) (auto simp: total_size_def unat_add_no_overflow)
  then have used: "unat ?used = total_size listing" using assms by blast
  have "total_size (sort_key cf_modified listing) = total_size listing"
    by (simp only: total_size_def sum_mset_sum_list [symmetric] mset_map mset_sort)
  then have "sum_list (map (\<lambda>f. unat (cf_size f)) (sort_key cf_modified listing)) \<le> unat ?used"
    using used by (simp add: total_size_def)
  from evict_prefix [OF this, of "{js_current_path s, js_current_summary_path s}" ?limit]
  show ?thesis
    using used by (auto simp: evicted_def others_def total_size_def Let_def word_le_nat_alt)
qed

theorem eviction_oldest_first_witness:
  "evicted (default_config\<lparr>cache_max_mb := 1\<rparr>) (new_jsonl_sink ''m'' [])
     [\<lparr>cf_path = ''old'', cf_size = 2000000, cf_modified = 1\<rparr>] = [''old'']"
proof -
  let ?f = "\<lparr>cf_path = ''old'', cf_size = 2000000, cf_modified = 1\<rparr>"
  have "total_size [?f] < 2 ^ 64" by (simp add: total_size_def)
  from eviction_oldest_first [OF this, of "default_config\<lparr>cache_max_mb := 1\<rparr>" "new_jsonl_sink ''m'' []"]
  obtain n where "n \<le> 1" "evicted (default_config\<lparr>cache_max_mb := 1\<rparr>) (new_jsonl_sink ''m'' []) [?f] = map cf_path (take n [?f])"
    "n < 1 \<longrightarrow> total_size [?f] - total_size (take n [?f]) \<le> 1048576"
    by (auto simp: others_def total_size_def new_jsonl_sink_def default_config_def)
  then show ?thesis by (cases n) (auto simp: total_size_def)
qed

text \<open>
  An input queue that is not empty is served by the worker within as many polls as there are queues, whatever the other
  queues hold and other threads push meanwhile.
\<close>

theorem queues_take_turns:
  assumes "\<forall>queues \<in> set snapshots. queues_wf queues \<and> length queues = n \<and> queue_items queues ! j \<noteq> []"
    and "i < n" and "j < n" and "n \<le> length snapshots"
  shows "j \<in> set (take n (served_indices i snapshots))"
proof -
  have "turn_distance n i j \<le> n" using assms(2,3) by (auto simp: turn_distance_def)
  then have "turn_distance n i j \<le> length snapshots" using assms(4) by simp
  then have "j \<in> set (take (turn_distance n i j) (served_indices i snapshots))"
    by (intro served_within_distance assms(1-3))
  then show ?thesis using set_take_subset_set_take [OF \<open>turn_distance n i j \<le> n\<close>] by (rule rev_subsetD)
qed

theorem queues_take_turns_witness:
  "0 \<in> set (take 1 (served_indices 0 [[Some (fst (push LevelInfo default_event (add_input_queue default_config 2)))]]))"
proof -
  let ?q = "fst (push LevelInfo default_event (add_input_queue default_config 2))"
  have start: "ring_wf (add_input_queue default_config 2)" by (simp add: add_input_queue_def new_ring_wf)
  have "ring_accepts LevelInfo (add_input_queue default_config 2)" by code_simp
  then have "ring_items ?q \<noteq> []" using push_items [OF start, of LevelInfo default_event] by simp
  then have "\<forall>queues \<in> set [[Some ?q]]. queues_wf queues \<and> length queues = 1 \<and> queue_items queues ! 0 \<noteq> []"
    using push_wf [OF start] by (simp add: queues_wf_def queue_items_def)
  from queues_take_turns [OF this] show ?thesis by simp
qed

text \<open>
  C36: the drain after the stop ends, and it writes every event that is left in the queues, queue by queue and in order.
\<close>

theorem stop_drains_all:
  assumes "queues_wf queues"
  shows "\<exists>queues'. drain_repeat handle queues st = Some (queues', fold handle (concat (queue_items queues)) st) \<and>
    concat (queue_items queues') = []"
proof -
  obtain queues' where first: "drain_queues handle queues st = Some (queues', fold handle (concat (queue_items queues)) st)"
    "queues_wf queues'" "concat (queue_items queues') = []"
    using drain_queues_total [OF assms, of handle st] by blast
  let ?t = "fold handle (concat (queue_items queues)) st"
  obtain queues'' where second: "drain_queues handle queues' ?t = Some (queues'', ?t)" "concat (queue_items queues'') = []"
    using drain_queues_total [OF first(2), of handle ?t] first(3) by auto
  have "all_empty queues'" using all_empty_items [OF first(2)] first(3) by simp
  then have again: "drain_repeat handle queues' ?t = Some (queues'', ?t)"
    using second(1) by (subst drain_repeat.simps) simp
  show ?thesis
  proof (cases "all_empty queues")
    case True
    then show ?thesis using first by (subst drain_repeat.simps) simp
  next
    case False
    then show ?thesis using first(1) again second(2) by (subst drain_repeat.simps) simp
  qed
qed

theorem stop_drains_all_witness:
  "\<exists>queues'. drain_repeat (\<lambda>event n. n + 1) [None, Some (add_input_queue default_config 2)] (0 :: nat) =
     Some (queues', fold (\<lambda>event n. n + 1) (concat (queue_items [None, Some (add_input_queue default_config 2)])) 0)"
proof -
  have "queues_wf [None, Some (add_input_queue default_config 2)]"
    by (simp add: queues_wf_def add_input_queue_def new_ring_wf)
  from stop_drains_all [OF this, of "\<lambda>event n. n + 1" "0 :: nat"] show ?thesis by blast
qed

end
