(* ===== verification/Proc_Collectors.thy ===== *)
theory Proc_Collectors
  imports Config_Data Events "HOL-Library.Multiset" "HOL-Library.Monad_Syntax"
begin

text \<open>
  The collectors that read one text file of \<^verbatim>\<open>/proc\<close>: \<^verbatim>\<open>src/collectors/linux_proc_reader.cpp\<close>,
  \<^verbatim>\<open>meminfo_collector.cpp\<close>, \<^verbatim>\<open>self_status_collector.cpp\<close>, \<^verbatim>\<open>cpu_usage_collector.cpp\<close> and
  \<^verbatim>\<open>io_delay_collector.cpp\<close>. The file is an argument (\<open>None\<close> when it cannot be opened), and so are the
  clock reading and the order in which a hash map is iterated. A hash map that is filled and then
  iterated is the association list of its entries; a hash map used by key is a partial function.
\<close>

section \<open>Reading a file into a fixed buffer\<close>

text \<open>
  The descriptor is kept open between calls. What the operating system answers to the calls of one
  \<open>read\<close> is an argument; a successful \<open>read\<close> returns the beginning of the file, cut to the buffer.
\<close>

record proc_answers =
  pa_open :: bool
  pa_seek :: bool
  pa_reopen :: bool
  pa_content :: "string option"

definition buffer_limit :: nat where
  "buffer_limit = 8192 - 1"

definition proc_read :: "proc_answers \<Rightarrow> bool \<Rightarrow> bool \<times> string option" where
  "proc_read os is_open =
     (if \<not> is_open \<and> \<not> pa_open os then (False, None)
      else if \<not> pa_seek os \<and> \<not> pa_reopen os then (False, None)
      else case pa_content os of
             None \<Rightarrow> (False, None)
           | Some content \<Rightarrow>
               let view = take buffer_limit content
               in if view = [] then (False, None) else (True, Some view))"

section \<open>Memory of the machine and of the monitor\<close>

text \<open>A pointer that is not written keeps its old value: the result is the new value if there is one.\<close>

definition parse_kb_line :: "string \<Rightarrow> string \<Rightarrow> u64 option" where
  "parse_kb_line line key =
     (if length line \<le> length key \<or> take (length key) line \<noteq> key then None
      else case from_chars_unsigned
                  (dropWhile (\<lambda>c. c = CHR '':'' \<or> c = CHR '' '' \<or> c = CHR 0x09) (drop (length key) line)) of
             Inl e \<Rightarrow> None
           | Inr (parsed, rest) \<Rightarrow> Some parsed)"

definition meminfo_line :: "string \<Rightarrow> meminfo_sample \<Rightarrow> meminfo_sample" where
  "meminfo_line line sample =
     (case parse_kb_line line ''MemTotal'' of Some v \<Rightarrow> sample\<lparr>mem_total_kb := v\<rparr> | None \<Rightarrow>
      case parse_kb_line line ''MemAvailable'' of Some v \<Rightarrow> sample\<lparr>mem_available_kb := v\<rparr> | None \<Rightarrow>
      case parse_kb_line line ''SwapFree'' of Some v \<Rightarrow> sample\<lparr>swap_free_kb := v\<rparr> | None \<Rightarrow>
      case parse_kb_line line ''SReclaimable'' of Some v \<Rightarrow> sample\<lparr>sreclaimable_kb := v\<rparr> | None \<Rightarrow>
      case parse_kb_line line ''SUnreclaim'' of Some v \<Rightarrow> sample\<lparr>sunreclaim_kb := v\<rparr> | None \<Rightarrow> sample)"

definition meminfo_collect :: "proc_answers \<Rightarrow> bool \<Rightarrow> bool \<times> meminfo_sample" where
  "meminfo_collect os is_open =
     (case proc_read os is_open of
        (is_open, None) \<Rightarrow> (is_open, empty_meminfo_sample)
      | (is_open, Some content) \<Rightarrow>
          let sample = fold meminfo_line (get_lines content) empty_meminfo_sample
          in (is_open, sample\<lparr>mem_valid := 0 < mem_total_kb sample \<and> 0 < mem_available_kb sample\<rparr>))"

record self_status_sample =
  vm_rss_kb :: u64
  self_valid :: bool

fun self_status_lines :: "string list \<Rightarrow> self_status_sample" where
  "self_status_lines [] = \<lparr>vm_rss_kb = 0, self_valid = False\<rparr>"
| "self_status_lines (line # rest) =
     (case parse_kb_line line ''VmRSS'' of
        Some v \<Rightarrow> \<lparr>vm_rss_kb = v, self_valid = True\<rparr>
      | None \<Rightarrow> self_status_lines rest)"

definition self_status_collect :: "proc_answers \<Rightarrow> bool \<Rightarrow> bool \<times> self_status_sample" where
  "self_status_collect os is_open =
     (case proc_read os is_open of
        (is_open, None) \<Rightarrow> (is_open, \<lparr>vm_rss_kb = 0, self_valid = False\<rparr>)
      | (is_open, Some content) \<Rightarrow> (is_open, self_status_lines (get_lines content)))"

section \<open>Stream extraction\<close>

text \<open>
  An extraction that fails stores zero, or the largest value when the digits overflow, and every
  later extraction of the same stream leaves its variable as it is, here zero.
\<close>

definition digits_ahead :: "string \<Rightarrow> string" where
  "digits_ahead s =
     (let t = dropWhile is_space s
      in takeWhile is_digit (if t \<noteq> [] \<and> hd t \<in> {CHR ''-'', CHR ''+''} then tl t else t))"

definition extract_next :: "string option \<Rightarrow> u64 \<times> string option" where
  "extract_next stream =
     (case stream of
        None \<Rightarrow> (0, None)
      | Some s \<Rightarrow> (case extract_u64 s of
                    Some (v, rest) \<Rightarrow> (v, Some rest)
                  | None \<Rightarrow> (if digits_ahead s = [] then 0 else - 1, None)))"

text \<open>Extraction of an unsigned 32-bit number whose value is not used: what is left of the stream.\<close>

definition skip_u32 :: "string \<Rightarrow> string option" where
  "skip_u32 s =
     (let ds = digits_ahead s; t = dropWhile is_space s
      in if ds = [] \<or> 2 ^ 32 \<le> digits_value ds then None
         else Some (drop (length ds) (if hd t \<in> {CHR ''-'', CHR ''+''} then tl t else t)))"

section \<open>CPU usage\<close>

record cpu_stats =
  cs_user :: u64
  cs_nice :: u64
  cs_system :: u64
  cs_idle :: u64
  cs_iowait :: u64
  cs_irq :: u64
  cs_softirq :: u64
  cs_steal :: u64
  cs_guest :: u64
  cs_guest_nice :: u64

record cpu_collector =
  cc_baselines :: "string \<rightharpoonup> cpu_stats"
  cc_last_seen_ms :: "string \<rightharpoonup> u64"
  cc_failures :: u64

definition new_cpu_collector :: cpu_collector where
  "new_cpu_collector = \<lparr>cc_baselines = Map.empty, cc_last_seen_ms = Map.empty, cc_failures = 0\<rparr>"

definition total_jiffies :: "cpu_stats \<Rightarrow> u64" where
  "total_jiffies s =
     cs_user s + cs_nice s + cs_system s + cs_idle s + cs_iowait s + cs_irq s + cs_softirq s + cs_steal s"

definition idle_jiffies :: "cpu_stats \<Rightarrow> u64" where
  "idle_jiffies s = cs_idle s + cs_iowait s"

definition should_emit_total :: "monitor_config \<Rightarrow> bool" where
  "should_emit_total cfg \<longleftrightarrow> cpu_usage_mode cfg = ''total'' \<or> cpu_usage_mode cfg = ''both''"

definition should_emit_per_core :: "monitor_config \<Rightarrow> bool" where
  "should_emit_per_core cfg \<longleftrightarrow> cpu_usage_mode cfg = ''per_core'' \<or> cpu_usage_mode cfg = ''both''"

definition should_scan_cpu :: "monitor_config \<Rightarrow> string \<Rightarrow> bool" where
  "should_scan_cpu cfg cpu =
     (if cpu = ''total'' then should_emit_total cfg
      else if \<not> should_emit_per_core cfg then False
      else if cpu_usage_core_whitelist cfg = [] then True
      else cpu \<in> set (cpu_usage_core_whitelist cfg))"

definition cpu_label :: "string \<Rightarrow> string option" where
  "cpu_label label =
     (if label = ''cpu'' then Some ''total'' else if take 3 label = ''cpu'' then Some label else None)"

definition parse_cpu_stats :: "string \<Rightarrow> cpu_stats option" where
  "parse_cpu_stats rest = do {
     (user, r1) \<leftarrow> extract_u64 rest;
     (nice, r2) \<leftarrow> extract_u64 r1;
     (sys, r3) \<leftarrow> extract_u64 r2;
     (idle, r4) \<leftarrow> extract_u64 r3;
     let (iowait, s1) = extract_next (Some r4);
     let (irq, s2) = extract_next s1;
     let (softirq, s3) = extract_next s2;
     let (steal, s4) = extract_next s3;
     let (guest, s5) = extract_next s4;
     let (guest_nice, s6) = extract_next s5;
     Some \<lparr>cs_user = user, cs_nice = nice, cs_system = sys, cs_idle = idle, cs_iowait = iowait,
       cs_irq = irq, cs_softirq = softirq, cs_steal = steal, cs_guest = guest, cs_guest_nice = guest_nice\<rparr>
   }"

definition parse_cpu_line :: "monitor_config \<Rightarrow> string \<Rightarrow> (string \<times> cpu_stats) option" where
  "parse_cpu_line cfg line =
     (case extract_word line of None \<Rightarrow> None | Some (word, rest) \<Rightarrow>
      case cpu_label word of None \<Rightarrow> None | Some label \<Rightarrow>
        if \<not> should_scan_cpu cfg label then None
        else map_option (\<lambda>stats. (label, stats)) (parse_cpu_stats rest))"

text \<open>\<open>emplace\<close> keeps the first entry of a key.\<close>

definition emplace :: "(string \<times> 'v) option \<Rightarrow> (string \<times> 'v) list \<Rightarrow> (string \<times> 'v) list" where
  "emplace entry m =
     (case entry of None \<Rightarrow> m | Some (k, v) \<Rightarrow> if k \<in> fst ` set m then m else m @ [(k, v)])"

definition read_proc_stat :: "monitor_config \<Rightarrow> string option \<Rightarrow> (string \<times> cpu_stats) list" where
  "read_proc_stat cfg file =
     (case file of
        None \<Rightarrow> []
      | Some content \<Rightarrow> fold (\<lambda>line. emplace (parse_cpu_line cfg line)) (get_lines content) [])"

definition ttl_ms :: "monitor_config \<Rightarrow> u64" where
  "ttl_ms cfg = (if state_ttl_sec cfg = 0 then 3600 else ucast (state_ttl_sec cfg)) * 1000"

definition prune_cpu_baselines :: "monitor_config \<Rightarrow> u64 \<Rightarrow> cpu_collector \<Rightarrow> cpu_collector" where
  "prune_cpu_baselines cfg now_ms c =
     c\<lparr>cc_baselines := (\<lambda>cpu. case cc_last_seen_ms c cpu of
          None \<Rightarrow> cc_baselines c cpu
        | Some seen \<Rightarrow> if ttl_ms cfg \<le> now_ms - seen then None else cc_baselines c cpu),
       cc_last_seen_ms := map_filter_vals (\<lambda>seen. \<not> ttl_ms cfg \<le> now_ms - seen) (cc_last_seen_ms c)\<rparr>"

definition mark_seen :: "(string \<times> 'v) list \<Rightarrow> u64 \<Rightarrow> (string \<rightharpoonup> u64) \<Rightarrow> (string \<rightharpoonup> u64)" where
  "mark_seen current now_ms seen = fold (\<lambda>(key, stats) m. m(key \<mapsto> now_ms)) current seen"

text \<open>\<open>std::min (100.0, part * 100.0 / whole)\<close>, where \<open>std::min\<close> of a NaN is 100.\<close>

definition percent_of :: "u64 \<Rightarrow> u64 \<Rightarrow> double" where
  "percent_of part whole = dmin (Fin 100) (ddiv (dmul (double_of_u64 part) (Fin 100)) (double_of_u64 whole))"

definition cpu_delta :: "string \<Rightarrow> cpu_stats \<Rightarrow> cpu_stats \<Rightarrow> cpu_usage_sample option" where
  "cpu_delta cpu previous stats =
     (let current_total = total_jiffies stats; previous_total = total_jiffies previous;
          current_idle = idle_jiffies stats; previous_idle = idle_jiffies previous
      in if current_total \<le> previous_total \<or> current_idle < previous_idle then None
         else let delta_total = current_total - previous_total; delta_idle = current_idle - previous_idle
         in if delta_total < delta_idle then None
            else Some \<lparr>cpu_name = cpu,
              cpu_usage_percent = percent_of (delta_total - delta_idle) delta_total,
              delta_total_jiffies = delta_total, delta_idle_jiffies = delta_idle, cpu_valid = True\<rparr>)"

fun cpu_scan ::
  "(string \<times> cpu_stats) list \<Rightarrow> cpu_collector \<Rightarrow> cpu_usage_sample list \<Rightarrow> cpu_collector \<times> cpu_usage_sample list" where
  "cpu_scan [] c samples = (c, samples)"
| "cpu_scan ((cpu, stats) # rest) c samples =
     (let c' = c\<lparr>cc_baselines := (cc_baselines c)(cpu \<mapsto> stats)\<rparr>
      in case cc_baselines c cpu of
           None \<Rightarrow> cpu_scan rest c' samples
         | Some previous \<Rightarrow>
             (case cpu_delta cpu previous stats of
                None \<Rightarrow> cpu_scan rest c' samples
              | Some sample \<Rightarrow> cpu_scan rest c' (samples @ [sample])))"

text \<open>One reading: the content of the file, the clock and the iteration order of the map.\<close>

record 'v reading =
  rd_file :: "string option"
  rd_now_ms :: u64
  rd_order :: "(string \<times> 'v) list \<Rightarrow> (string \<times> 'v) list"

definition cpu_collect ::
  "monitor_config \<Rightarrow> cpu_stats reading \<Rightarrow> cpu_collector \<Rightarrow> cpu_collector \<times> cpu_usage_sample list" where
  "cpu_collect cfg r c =
     (let c = c\<lparr>cc_failures := 0\<rparr>
      in if \<not> cpu_usage_enable cfg then (c, [])
         else let current = read_proc_stat cfg (rd_file r)
         in if current = [] then (c\<lparr>cc_failures := cc_failures c + 1\<rparr>, [])
            else let now_ms = rd_now_ms r;
                     c = c\<lparr>cc_last_seen_ms := mark_seen (rd_order r current) now_ms (cc_last_seen_ms c)\<rparr>;
                     c = prune_cpu_baselines cfg now_ms c
                 in cpu_scan (rd_order r current) c [])"

section \<open>Disk delays\<close>

record disk_stats =
  ds_read_ios :: u64
  ds_read_time_ms :: u64
  ds_write_ios :: u64
  ds_write_time_ms :: u64
  ds_in_flight :: u64
  ds_io_time_ms :: u64
  ds_timestamp_ms :: u64

record io_collector =
  ic_baselines :: "string \<rightharpoonup> disk_stats"
  ic_last_seen_ms :: "string \<rightharpoonup> u64"
  ic_failures :: u64

definition new_io_collector :: io_collector where
  "new_io_collector = \<lparr>ic_baselines = Map.empty, ic_last_seen_ms = Map.empty, ic_failures = 0\<rparr>"

definition starts_with :: "string \<Rightarrow> string \<Rightarrow> bool" where
  "starts_with value wanted \<longleftrightarrow> length wanted \<le> length value \<and> take (length wanted) value = wanted"

definition should_scan_device :: "monitor_config \<Rightarrow> string \<Rightarrow> bool" where
  "should_scan_device cfg device =
     (if io_device_whitelist cfg \<noteq> [] then device \<in> set (io_device_whitelist cfg)
      else \<not> starts_with device ''loop'' \<and> \<not> starts_with device ''ram'' \<and> \<not> starts_with device ''fd'')"

definition parse_disk_line :: "monitor_config \<Rightarrow> u64 \<Rightarrow> string \<Rightarrow> (string \<times> disk_stats) option" where
  "parse_disk_line cfg now_ms line = do {
     r1 \<leftarrow> skip_u32 line;
     r2 \<leftarrow> skip_u32 r1;
     (device, r3) \<leftarrow> extract_word r2;
     (read_ios, r4) \<leftarrow> extract_u64 r3;
     (read_merges, r5) \<leftarrow> extract_u64 r4;
     (read_sectors, r6) \<leftarrow> extract_u64 r5;
     (read_time, r7) \<leftarrow> extract_u64 r6;
     (write_ios, r8) \<leftarrow> extract_u64 r7;
     (write_merges, r9) \<leftarrow> extract_u64 r8;
     (write_sectors, r10) \<leftarrow> extract_u64 r9;
     (write_time, r11) \<leftarrow> extract_u64 r10;
     (in_flight, r12) \<leftarrow> extract_u64 r11;
     (io_time, r13) \<leftarrow> extract_u64 r12;
     if \<not> should_scan_device cfg device then None
     else Some (device, \<lparr>ds_read_ios = read_ios, ds_read_time_ms = read_time, ds_write_ios = write_ios,
            ds_write_time_ms = write_time, ds_in_flight = in_flight, ds_io_time_ms = io_time,
            ds_timestamp_ms = now_ms\<rparr>)
   }"

definition read_diskstats :: "monitor_config \<Rightarrow> u64 \<Rightarrow> string option \<Rightarrow> (string \<times> disk_stats) list" where
  "read_diskstats cfg now_ms file =
     (case file of
        None \<Rightarrow> []
      | Some content \<Rightarrow> fold (\<lambda>line. emplace (parse_disk_line cfg now_ms line)) (get_lines content) [])"

definition prune_io_baselines :: "monitor_config \<Rightarrow> u64 \<Rightarrow> io_collector \<Rightarrow> io_collector" where
  "prune_io_baselines cfg now_ms c =
     c\<lparr>ic_baselines := (\<lambda>device. case ic_last_seen_ms c device of
          None \<Rightarrow> ic_baselines c device
        | Some seen \<Rightarrow> if ttl_ms cfg \<le> now_ms - seen then None else ic_baselines c device),
       ic_last_seen_ms := map_filter_vals (\<lambda>seen. \<not> ttl_ms cfg \<le> now_ms - seen) (ic_last_seen_ms c)\<rparr>"

definition io_delta :: "string \<Rightarrow> disk_stats \<Rightarrow> disk_stats \<Rightarrow> io_delay_sample option" where
  "io_delta device previous stats =
     (if ds_timestamp_ms stats \<le> ds_timestamp_ms previous then None
      else if ds_read_ios stats < ds_read_ios previous \<or> ds_write_ios stats < ds_write_ios previous \<or>
              ds_read_time_ms stats < ds_read_time_ms previous \<or> ds_write_time_ms stats < ds_write_time_ms previous \<or>
              ds_io_time_ms stats < ds_io_time_ms previous then None
      else let delta_ios = (ds_read_ios stats - ds_read_ios previous) + (ds_write_ios stats - ds_write_ios previous)
      in if delta_ios = 0 then None
         else let delta_read_time = ds_read_time_ms stats - ds_read_time_ms previous;
                  delta_write_time = ds_write_time_ms stats - ds_write_time_ms previous;
                  delta_io_time = ds_io_time_ms stats - ds_io_time_ms previous;
                  elapsed_ms = ds_timestamp_ms stats - ds_timestamp_ms previous
              in Some \<lparr>io_device = device, io_delta_io_count = delta_ios,
                   io_avg_await_ms =
                     ddiv (double_of_u64 (delta_read_time + delta_write_time)) (double_of_u64 delta_ios),
                   io_util_percent = percent_of delta_io_time elapsed_ms,
                   io_in_flight = ds_in_flight stats, io_valid = True\<rparr>)"

fun io_scan ::
  "nat \<Rightarrow> (string \<times> disk_stats) list \<Rightarrow> io_collector \<Rightarrow> io_delay_sample list \<Rightarrow> io_collector \<times> io_delay_sample list" where
  "io_scan limit [] c samples = (c, samples)"
| "io_scan limit ((device, stats) # rest) c samples =
     (let c' = c\<lparr>ic_baselines := (ic_baselines c)(device \<mapsto> stats)\<rparr>
      in case ic_baselines c device of
           None \<Rightarrow> io_scan limit rest c' samples
         | Some previous \<Rightarrow>
             (case io_delta device previous stats of
                None \<Rightarrow> io_scan limit rest c' samples
              | Some sample \<Rightarrow>
                  let samples = samples @ [sample]
                  in if limit \<le> length samples then (c', samples) else io_scan limit rest c' samples))"

text \<open>The clock is read twice: for the time stamps of the readings and, later, for the age of the baselines.\<close>

definition io_collect ::
  "monitor_config \<Rightarrow> u64 \<Rightarrow> disk_stats reading \<Rightarrow> io_collector \<Rightarrow> io_collector \<times> io_delay_sample list" where
  "io_collect cfg stamp_ms r c =
     (let c = c\<lparr>ic_failures := 0\<rparr>
      in if \<not> io_delay_enable cfg then (c, [])
         else let current = read_diskstats cfg stamp_ms (rd_file r)
         in if current = [] then (c\<lparr>ic_failures := ic_failures c + 1\<rparr>, [])
            else let now_ms = rd_now_ms r;
                     c = c\<lparr>ic_last_seen_ms := mark_seen (rd_order r current) now_ms (ic_last_seen_ms c)\<rparr>;
                     c = prune_io_baselines cfg now_ms c
                 in io_scan (unat (io_max_targets cfg)) (rd_order r current) c [])"

section \<open>Reading the files\<close>

lemma emplace_distinct: "distinct (map fst m) \<Longrightarrow> distinct (map fst (emplace entry m))"
  by (auto simp: emplace_def split: option.splits prod.splits)

lemma fold_emplace_distinct: "distinct (map fst m) \<Longrightarrow> distinct (map fst (fold (\<lambda>l. emplace (f l)) ls m))"
  by (induction ls arbitrary: m) (simp_all add: emplace_distinct)

lemma read_proc_stat_distinct: "distinct (map fst (read_proc_stat cfg file))"
  by (simp add: read_proc_stat_def fold_emplace_distinct split: option.split)

lemma read_diskstats_distinct: "distinct (map fst (read_diskstats cfg now_ms file))"
  by (simp add: read_diskstats_def fold_emplace_distinct split: option.split)

lemma mark_seen_apply: "mark_seen current now_ms seen k = (if k \<in> fst ` set current then Some now_ms else seen k)"
  unfolding mark_seen_def by (induction current arbitrary: seen) auto

lemma ttl_ms_pos: "0 < ttl_ms cfg"
proof -
  have "unat (state_ttl_sec cfg) * 1000 < 2 ^ 64" using unat_less_32 [of "state_ttl_sec cfg"] by simp
  then have "unat (ucast (state_ttl_sec cfg) * 1000 :: u64) = unat (state_ttl_sec cfg) * 1000"
    by (subst unat_mult_lem [THEN iffD1]) (simp_all add: unat_ucast_u32)
  then have "state_ttl_sec cfg \<noteq> 0 \<Longrightarrow> ucast (state_ttl_sec cfg) * 1000 \<noteq> (0 :: u64)"
    by (metis mult_is_0 unat_eq_zero unsigned_0 zero_neq_numeral)
  then show ?thesis by (auto simp: ttl_ms_def word_neq_0_conv)
qed

text \<open>A percentage of two counters lies between 0 and 100 and, for counters up to \<open>2 ^ 46\<close>, is the exact one rounded once.\<close>

lemma dmul_100_nonneg: "dle (Fin 0) x \<Longrightarrow> dle (Fin 0) (dmul x (Fin 100))"
  by (cases x) (auto simp: round_double_nonneg signed_inf_def)

lemma ddiv_nonneg: "dle (Fin 0) x \<Longrightarrow> dle (Fin 0) y \<Longrightarrow> \<not> dlt (ddiv x y) (Fin 0)"
proof -
  have "\<not> dlt (round_double (a / b)) (Fin 0)" if "0 \<le> a" "0 \<le> b" for a b
    using that round_double_nonneg [of "a / b"] by (simp add: dle_def)
  then show "dle (Fin 0) x \<Longrightarrow> dle (Fin 0) y \<Longrightarrow> \<not> dlt (ddiv x y) (Fin 0)"
    by (cases x; cases y) (auto simp: signed_inf_def)
qed

lemma percent_of_range: "dle (Fin 0) (percent_of part whole) \<and> dle (percent_of part whole) (Fin 100)"
proof -
  let ?x = "ddiv (dmul (double_of_u64 part) (Fin 100)) (double_of_u64 whole)"
  have "\<not> dlt ?x (Fin 0)" by (intro ddiv_nonneg dmul_100_nonneg double_of_u64_nonneg)
  then show ?thesis unfolding percent_of_def by (cases ?x) (auto simp: dmin_def)
qed

lemma percent_of_exact:
  assumes "0 < whole" and "part \<le> whole" and "unat whole \<le> 2 ^ 46"
  shows "percent_of part whole = round_double (100 * of_nat (unat part) / of_nat (unat whole))"
proof -
  let ?p = "unat part" and ?w = "unat whole"
  have pw: "?p \<le> ?w" using assms(2) by (simp add: word_le_nat_alt)
  have w: "0 < ?w" using assms(1) by (simp add: word_less_nat_alt)
  have d: "double_of_u64 part = Fin (of_nat ?p)" "double_of_u64 whole = Fin (of_nat ?w)"
    using pw assms(3) by (auto intro!: double_of_u64_exact)
  have "round_double (of_nat ?p * 100) = Fin (of_nat (?p * 100))"
    using round_double_of_nat [of "?p * 100"] pw assms(3) by simp
  then have div: "ddiv (dmul (double_of_u64 part) (Fin 100)) (double_of_u64 whole) = round_double (100 * of_nat ?p / of_nat ?w)"
    using w by (simp add: d mult.commute)
  have "(100 * of_nat ?p / of_nat ?w :: rat) \<le> 100" using w pw by (simp add: divide_le_eq)
  then have le: "dle (round_double (100 * of_nat ?p / of_nat ?w)) (Fin 100)"
    using round_double_mono [of "100 * of_nat ?p / of_nat ?w" "of_int 100"] round_double_of_int [of 100] by simp
  have "dmin (Fin 100) x = x" if "dle x (Fin 100)" for x
    using that by (cases x) (auto simp: dmin_def dle_def deq_def)
  then show ?thesis using le by (simp add: percent_of_def div)
qed

section \<open>Tables of baselines\<close>

text \<open>
  What the collectors with baselines have in common. \<open>reads e k\<close>: the reading \<open>e\<close> contains the target \<open>k\<close>;
  \<open>expires e t\<close>: during \<open>e\<close> a target last seen at \<open>t\<close> is too old to be kept.
\<close>

locale baseline_table =
  fixes collect :: "'e \<Rightarrow> 's \<Rightarrow> 's \<times> 'x list"
    and regular :: "'e \<Rightarrow> bool"
    and reads :: "'e \<Rightarrow> 'k \<Rightarrow> bool"
    and expires :: "'e \<Rightarrow> u64 \<Rightarrow> bool"
    and seen :: "'s \<Rightarrow> 'k \<rightharpoonup> u64"
    and has_baseline :: "'s \<Rightarrow> 'k \<Rightarrow> bool"
    and target :: "'x \<Rightarrow> 'k"
  assumes unread: "regular e \<Longrightarrow> \<not> reads e k \<Longrightarrow>
      seen (fst (collect e s)) k = (case seen s k of Some t \<Rightarrow> if expires e t then None else Some t | None \<Rightarrow> None)"
    and baseline_seen: "regular e \<Longrightarrow> \<forall>k. has_baseline s k \<longrightarrow> seen s k \<noteq> None \<Longrightarrow>
      has_baseline (fst (collect e s)) k \<Longrightarrow> seen (fst (collect e s)) k \<noteq> None"
    and sampled: "regular e \<Longrightarrow> x \<in> set (snd (collect e s)) \<Longrightarrow> reads e (target x) \<and> has_baseline s (target x)"
begin

definition run :: "'e list \<Rightarrow> 's \<Rightarrow> 's" where
  "run es s = fold (\<lambda>e s. fst (collect e s)) es s"

definition tracked :: "'s \<Rightarrow> bool" where
  "tracked s \<longleftrightarrow> (\<forall>k. has_baseline s k \<longrightarrow> seen s k \<noteq> None)"

lemma run_Cons [simp]: "run (e # es) s = run es (fst (collect e s))"
  by (simp add: run_def)

lemma run_Nil [simp]: "run [] s = s"
  by (simp add: run_def)

lemma run_append: "run (es @ fs) s = run fs (run es s)"
  by (simp add: run_def)

lemma tracked_run: "tracked s \<Longrightarrow> \<forall>e \<in> set es. regular e \<Longrightarrow> tracked (run es s)"
proof (induction es arbitrary: s)
  case (Cons e es)
  then have "tracked (fst (collect e s))" using baseline_seen unfolding tracked_def by fastforce
  then show ?case using Cons by simp
qed simp

lemma forgotten_stays: "\<forall>e \<in> set es. regular e \<and> \<not> reads e k \<Longrightarrow> seen s k = None \<Longrightarrow> seen (run es s) k = None"
  by (induction es arbitrary: s) (simp_all add: unread)

lemma expired_forgotten:
  assumes "\<forall>e \<in> set es. regular e \<and> \<not> reads e k" and "e \<in> set es" and "seen s k = Some t" and "expires e t"
  shows "seen (run es s) k = None"
  using assms
proof (induction es arbitrary: s)
  case (Cons f es)
  show ?case
  proof (cases "e = f \<or> expires f t")
    case True
    then have "seen (fst (collect f s)) k = None" using Cons.prems unread [of f k s] by auto
    then show ?thesis using Cons.prems by (simp add: forgotten_stays)
  next
    case False
    then have "seen (fst (collect f s)) k = Some t" using Cons.prems unread [of f k s] by auto
    then show ?thesis using Cons False by simp
  qed
qed simp

text \<open>A target that was away for longer than the time to live gives no sample when it comes back.\<close>

lemma no_stale_sample:
  assumes "tracked s" and "\<forall>e \<in> set es. regular e \<and> \<not> reads e k" and "e \<in> set es" and "seen s k = Some t"
    and "expires e t" and "regular f" and "x \<in> set (snd (collect f (run es s)))"
  shows "target x \<noteq> k"
proof
  assume k: "target x = k"
  have "tracked (run es s)" using assms(1,2) by (simp add: tracked_run)
  then show False using sampled [OF assms(6,7)] expired_forgotten [OF assms(2-5)] k by (auto simp: tracked_def)
qed

lemma first_reading_no_sample:
  assumes "tracked s" and "seen s k = None" and "regular f" and "x \<in> set (snd (collect f s))"
  shows "target x \<noteq> k"
  using assms sampled [OF assms(3,4)] by (auto simp: tracked_def)

end

section \<open>CPU usage\<close>

definition cpu_samples :: "(string \<times> cpu_stats) list \<Rightarrow> cpu_collector \<Rightarrow> cpu_usage_sample list" where
  "cpu_samples current c = concat (map (\<lambda>(cpu, stats). case cc_baselines c cpu of None \<Rightarrow> []
     | Some previous \<Rightarrow> (case cpu_delta cpu previous stats of None \<Rightarrow> [] | Some sample \<Rightarrow> [sample])) current)"

lemma cpu_samples_other:
  assumes "cpu \<notin> fst ` set current"
  shows "cpu_samples current (c\<lparr>cc_baselines := (cc_baselines c)(cpu \<mapsto> stats)\<rparr>) = cpu_samples current c"
  unfolding cpu_samples_def using assms by (intro arg_cong [of _ _ concat] map_cong) (auto simp: image_iff)

lemma cpu_scan_result:
  assumes "distinct (map fst current)"
  shows "cpu_scan current c samples = (c\<lparr>cc_baselines := cc_baselines c ++ map_of current\<rparr>, samples @ cpu_samples current c)"
  using assms
proof (induction current arbitrary: c samples)
  case Nil
  then show ?case by (simp add: cpu_samples_def)
next
  case (Cons entry current)
  obtain cpu stats where entry [simp]: "entry = (cpu, stats)" by (cases entry)
  let ?c = "c\<lparr>cc_baselines := (cc_baselines c)(cpu \<mapsto> stats)\<rparr>"
  have notin: "cpu \<notin> fst ` set current" using Cons.prems by simp
  have map: "cc_baselines ?c ++ map_of current = cc_baselines c ++ map_of (entry # current)"
    using notin map_of_eq_None_iff [of current cpu] by (auto simp: map_add_def fun_eq_iff split: option.split)
  have step: "cpu_scan current ?c xs = (c\<lparr>cc_baselines := cc_baselines c ++ map_of (entry # current)\<rparr>, xs @ cpu_samples current c)" for xs
    using Cons map by (simp add: cpu_samples_other [OF notin])
  show ?case
    by (simp add: Let_def step del: map_of.simps split: option.split) (simp add: cpu_samples_def)
qed

definition keeps_entries :: "'v reading \<Rightarrow> bool" where
  "keeps_entries r \<longleftrightarrow> (\<forall>m. mset (rd_order r m) = mset m)"

lemma order_keys: "keeps_entries r \<Longrightarrow> set (rd_order r m) = set m"
  unfolding keeps_entries_def by (metis set_mset_mset)

lemma order_distinct: "keeps_entries r \<Longrightarrow> distinct (map fst m) \<Longrightarrow> distinct (map fst (rd_order r m))"
  unfolding keeps_entries_def by (metis distinct_count_atmost_1 mset_map set_mset_mset)

lemma order_map_of:
  assumes "keeps_entries r" and "distinct (map fst m)"
  shows "map_of (rd_order r m) = map_of m"
  using assms by (intro map_of_inject_set [THEN iffD2]) (simp_all add: order_distinct order_keys)

definition cpu_aged :: "monitor_config \<Rightarrow> cpu_stats reading \<Rightarrow> cpu_collector \<Rightarrow> cpu_collector" where
  "cpu_aged cfg r c = (let current = read_proc_stat cfg (rd_file r) in
     prune_cpu_baselines cfg (rd_now_ms r) (c\<lparr>cc_failures := 0, cc_last_seen_ms := mark_seen (rd_order r current) (rd_now_ms r) (cc_last_seen_ms c)\<rparr>))"

lemma cpu_collect_result:
  assumes "keeps_entries r"
  shows "cpu_collect cfg r c =
    (let current = read_proc_stat cfg (rd_file r); a = cpu_aged cfg r c in
     if \<not> cpu_usage_enable cfg then (c\<lparr>cc_failures := 0\<rparr>, [])
     else if current = [] then (c\<lparr>cc_failures := 1\<rparr>, [])
     else (a\<lparr>cc_baselines := cc_baselines a ++ map_of current\<rparr>, cpu_samples (rd_order r current) a))"
proof -
  have "cpu_scan (rd_order r (read_proc_stat cfg (rd_file r))) a [] =
      (a\<lparr>cc_baselines := cc_baselines a ++ map_of (read_proc_stat cfg (rd_file r))\<rparr>,
       cpu_samples (rd_order r (read_proc_stat cfg (rd_file r))) a)" for a
    using assms by (simp add: cpu_scan_result order_distinct order_map_of read_proc_stat_distinct)
  then show ?thesis by (simp add: cpu_collect_def cpu_aged_def Let_def)
qed

lemma cpu_aged_baseline:
  assumes "keeps_entries r"
  shows "cc_last_seen_ms (cpu_aged cfg r c) k =
      (if k \<in> fst ` set (read_proc_stat cfg (rd_file r)) then Some (rd_now_ms r)
       else case cc_last_seen_ms c k of None \<Rightarrow> None | Some t \<Rightarrow> if ttl_ms cfg \<le> rd_now_ms r - t then None else Some t)"
    and "cc_baselines (cpu_aged cfg r c) k =
      (if k \<in> fst ` set (read_proc_stat cfg (rd_file r)) then cc_baselines c k
       else case cc_last_seen_ms c k of None \<Rightarrow> cc_baselines c k
         | Some t \<Rightarrow> if ttl_ms cfg \<le> rd_now_ms r - t then None else cc_baselines c k)"
  using ttl_ms_pos [of cfg] order_keys [OF assms]
  by (auto simp: cpu_aged_def Let_def prune_cpu_baselines_def mark_seen_apply map_filter_vals_def split: option.split)

lemma cpu_delta_Some:
  assumes "cpu_delta cpu previous stats = Some x"
  shows "cpu_name x = cpu" and "total_jiffies previous < total_jiffies stats"
    and "unat (delta_total_jiffies x) = unat (total_jiffies stats) - unat (total_jiffies previous)"
    and "unat (delta_idle_jiffies x) = unat (idle_jiffies stats) - unat (idle_jiffies previous)"
    and "delta_idle_jiffies x \<le> delta_total_jiffies x"
    and "cpu_usage_percent x = percent_of (delta_total_jiffies x - delta_idle_jiffies x) (delta_total_jiffies x)"
  using assms by (auto simp: cpu_delta_def Let_def not_le not_less unat_sub_le split: if_splits)

lemma in_cpu_samples:
  "x \<in> set (cpu_samples current c) \<longleftrightarrow> (\<exists>cpu stats previous. (cpu, stats) \<in> set current \<and>
     cc_baselines c cpu = Some previous \<and> cpu_delta cpu previous stats = Some x)"
  by (force simp: cpu_samples_def split: option.splits)

lemma cpu_collect_samples:
  assumes "keeps_entries r" and "x \<in> set (snd (cpu_collect cfg r c))"
  obtains previous stats where "cpu_usage_enable cfg" and "map_of (read_proc_stat cfg (rd_file r)) (cpu_name x) = Some stats"
    and "cc_baselines c (cpu_name x) = Some previous" and "cpu_delta (cpu_name x) previous stats = Some x"
proof -
  obtain cpu stats previous where parts: "cpu_usage_enable cfg" "(cpu, stats) \<in> set (read_proc_stat cfg (rd_file r))"
      "cc_baselines (cpu_aged cfg r c) cpu = Some previous" "cpu_delta cpu previous stats = Some x"
    using assms(2) order_keys [OF assms(1)]
    by (auto simp: cpu_collect_result [OF assms(1)] Let_def in_cpu_samples split: if_splits)
  have "cpu \<in> fst ` set (read_proc_stat cfg (rd_file r))" using parts(2) by (rule rev_image_eqI) simp
  then have "cc_baselines c cpu = Some previous" using parts(3) by (simp add: cpu_aged_baseline [OF assms(1)])
  then show thesis
    using that [of stats previous] parts cpu_delta_Some(1) [OF parts(4)] read_proc_stat_distinct by simp
qed

interpretation cpu: baseline_table "cpu_collect cfg" keeps_entries
  "\<lambda>r k. cpu_usage_enable cfg \<and> k \<in> fst ` set (read_proc_stat cfg (rd_file r))"
  "\<lambda>r t. cpu_usage_enable cfg \<and> read_proc_stat cfg (rd_file r) \<noteq> [] \<and> ttl_ms cfg \<le> rd_now_ms r - t"
  cc_last_seen_ms "\<lambda>c k. cc_baselines c k \<noteq> None" cpu_name
  for cfg
proof
  fix r :: "cpu_stats reading" and c k
  assume r: "keeps_entries r"
  show "\<not> (cpu_usage_enable cfg \<and> k \<in> fst ` set (read_proc_stat cfg (rd_file r))) \<Longrightarrow>
      cc_last_seen_ms (fst (cpu_collect cfg r c)) k =
        (case cc_last_seen_ms c k of None \<Rightarrow> None
         | Some t \<Rightarrow> if cpu_usage_enable cfg \<and> read_proc_stat cfg (rd_file r) \<noteq> [] \<and> ttl_ms cfg \<le> rd_now_ms r - t
             then None else Some t)"
    by (auto simp: cpu_collect_result [OF r] cpu_aged_baseline [OF r] Let_def split: option.split)
next
  fix r :: "cpu_stats reading" and c k
  assume r: "keeps_entries r"
  show "\<forall>k. cc_baselines c k \<noteq> None \<longrightarrow> cc_last_seen_ms c k \<noteq> None \<Longrightarrow>
      cc_baselines (fst (cpu_collect cfg r c)) k \<noteq> None \<Longrightarrow> cc_last_seen_ms (fst (cpu_collect cfg r c)) k \<noteq> None"
    by (auto simp: cpu_collect_result [OF r] cpu_aged_baseline [OF r] Let_def map_add_def dom_map_of_conv_image_fst
        map_of_eq_None_iff split: option.splits if_splits dest!: map_of_SomeD intro: rev_image_eqI)
next
  fix r :: "cpu_stats reading" and c and x :: cpu_usage_sample
  assume r: "keeps_entries r" and x: "x \<in> set (snd (cpu_collect cfg r c))"
  show "(cpu_usage_enable cfg \<and> cpu_name x \<in> fst ` set (read_proc_stat cfg (rd_file r))) \<and> cc_baselines c (cpu_name x) \<noteq> None"
    using cpu_collect_samples [OF r x] by (metis map_of_eq_None_iff option.distinct(1))
qed

text \<open>
  C21: every CPU sample compares the reading just taken with the last one remembered for that CPU: the
  deltas are the differences of the two totals and of the two idle times, never wrapped around, idle does not exceed total,
  and the usage is the busy share of the delta in percent, between 0 and 100 and, up to \<open>2 ^ 46\<close> ticks, rounded once.
  The reading becomes the new baseline.
\<close>

theorem cpu_sample_exact:
  assumes "keeps_entries r" and "x \<in> set (snd (cpu_collect cfg r c))"
  shows "\<exists>previous stats.
      map_of (read_proc_stat cfg (rd_file r)) (cpu_name x) = Some stats \<and> cc_baselines c (cpu_name x) = Some previous \<and>
      cc_baselines (fst (cpu_collect cfg r c)) (cpu_name x) = Some stats \<and>
      unat (total_jiffies stats) = unat (total_jiffies previous) + unat (delta_total_jiffies x) \<and>
      unat (delta_idle_jiffies x) = unat (idle_jiffies stats) - unat (idle_jiffies previous) \<and>
      delta_idle_jiffies x \<le> delta_total_jiffies x \<and> 0 < delta_total_jiffies x \<and>
      dle (Fin 0) (cpu_usage_percent x) \<and> dle (cpu_usage_percent x) (Fin 100) \<and>
      (unat (delta_total_jiffies x) \<le> 2 ^ 46 \<longrightarrow>
        cpu_usage_percent x = round_double (100 * (of_nat (unat (delta_total_jiffies x)) - of_nat (unat (delta_idle_jiffies x)))
          / of_nat (unat (delta_total_jiffies x))))"
proof -
  obtain previous stats where parts: "cpu_usage_enable cfg" "map_of (read_proc_stat cfg (rd_file r)) (cpu_name x) = Some stats"
      "cc_baselines c (cpu_name x) = Some previous" "cpu_delta (cpu_name x) previous stats = Some x"
    using cpu_collect_samples [OF assms] .
  note delta = cpu_delta_Some [OF parts(4)]
  have total: "unat (total_jiffies stats) = unat (total_jiffies previous) + unat (delta_total_jiffies x)"
    using delta(2,3) by (simp add: word_less_nat_alt)
  then have pos: "0 < delta_total_jiffies x" using delta(2) by (simp add: word_less_nat_alt)
  have next_base: "cc_baselines (fst (cpu_collect cfg r c)) (cpu_name x) = Some stats"
    using parts(1,2) by (auto simp: cpu_collect_result [OF assms(1)] Let_def)
  have "of_nat (unat (delta_total_jiffies x - delta_idle_jiffies x)) =
      (of_nat (unat (delta_total_jiffies x)) - of_nat (unat (delta_idle_jiffies x)) :: rat)"
    using delta(5) by (simp add: unat_sub_le word_le_nat_alt of_nat_diff)
  moreover have "unat (delta_total_jiffies x) \<le> 2 ^ 46 \<Longrightarrow> cpu_usage_percent x =
      round_double (100 * of_nat (unat (delta_total_jiffies x - delta_idle_jiffies x)) / of_nat (unat (delta_total_jiffies x)))"
    unfolding delta(6) using pos delta(5) by (intro percent_of_exact) (simp_all add: unat_sub_le word_le_nat_alt)
  ultimately show ?thesis
    using parts(2,3) next_base total delta(4,5) pos percent_of_range by (metis delta(6))
qed

definition cpu_run :: "monitor_config \<Rightarrow> cpu_stats reading list \<Rightarrow> cpu_collector \<Rightarrow> cpu_collector" where
  "cpu_run cfg rs c = fold (\<lambda>r c. fst (cpu_collect cfg r c)) rs c"

text \<open>
  A CPU that is absent from \<^verbatim>\<open>/proc/stat\<close> for the time to live loses its baseline: its first
  reading after that gives no sample, whatever was read before.
\<close>

theorem cpu_no_stale_sample:
  assumes "\<forall>r \<in> set (rs @ r0 # away @ [r1]). keeps_entries r"
    and "cpu_usage_enable cfg" and "cpu \<in> fst ` set (read_proc_stat cfg (rd_file r0))"
    and "\<forall>r \<in> set away. cpu \<notin> fst ` set (read_proc_stat cfg (rd_file r))"
    and "r \<in> set away" and "read_proc_stat cfg (rd_file r) \<noteq> []" and "ttl_ms cfg \<le> rd_now_ms r - rd_now_ms r0"
  shows "cpu \<notin> cpu_name ` set (snd (cpu_collect cfg r1 (cpu_run cfg (rs @ r0 # away) new_cpu_collector)))"
proof -
  let ?c = "cpu.run cfg (rs @ [r0]) new_cpu_collector"
  have run: "cpu_run cfg (rs @ r0 # away) new_cpu_collector = cpu.run cfg away ?c"
    by (simp add: cpu_run_def cpu.run_def)
  have "cpu.tracked new_cpu_collector" unfolding cpu.tracked_def by (simp add: new_cpu_collector_def)
  then have tracked: "cpu.tracked ?c" using assms(1) by (intro cpu.tracked_run) auto
  have r0: "keeps_entries r0" using assms(1) by simp
  have "read_proc_stat cfg (rd_file r0) \<noteq> []" using assms(3) by auto
  then have seen: "cc_last_seen_ms ?c cpu = Some (rd_now_ms r0)"
    using assms(2,3) by (simp add: cpu.run_append cpu_collect_result [OF r0] cpu_aged_baseline [OF r0] Let_def)
  have "cpu_name x \<noteq> cpu" if "x \<in> set (snd (cpu_collect cfg r1 (cpu.run cfg away ?c)))" for x
    by (rule cpu.no_stale_sample [OF tracked _ assms(5) seen _ _ that]) (use assms in auto)
  then show ?thesis unfolding run by blast
qed

lemma mset_concat_map: "mset (concat (map f xs)) = \<Sum>\<^sub># (image_mset (\<lambda>x. mset (f x)) (mset xs))"
  by (induction xs) simp_all

lemma mark_seen_order:
  assumes "keeps_entries r" and "keeps_entries r'"
  shows "mark_seen (rd_order r m) = mark_seen (rd_order r' m)"
  by (intro ext) (simp add: mark_seen_apply order_keys assms)

text \<open>
  The order in which the hash map of the readings is iterated does not matter: the collector
  ends in the same state and returns the same samples, up to their order.
\<close>

theorem cpu_order_irrelevant:
  assumes "keeps_entries r" and "keeps_entries r'" and "rd_file r = rd_file r'" and "rd_now_ms r = rd_now_ms r'"
  shows "fst (cpu_collect cfg r c) = fst (cpu_collect cfg r' c) \<and>
    mset (snd (cpu_collect cfg r c)) = mset (snd (cpu_collect cfg r' c))"
proof -
  have aged: "cpu_aged cfg r c = cpu_aged cfg r' c"
    using assms by (simp add: cpu_aged_def mark_seen_order [of r r'])
  have "mset (concat (map f (rd_order r m))) = mset (concat (map f (rd_order r' m)))" for f :: "string \<times> cpu_stats \<Rightarrow> cpu_usage_sample list" and m
    using assms(1,2) by (simp add: mset_concat_map keeps_entries_def)
  then have "mset (cpu_samples (rd_order r m) a) = mset (cpu_samples (rd_order r' m) a)" for m a
    unfolding cpu_samples_def .
  then show ?thesis
    using assms by (simp add: cpu_collect_result aged Let_def)
qed

definition wit_cfg :: monitor_config where
  "wit_cfg = default_config\<lparr>cpu_usage_mode := ''both''\<rparr>"

definition wit_stats :: "u64 \<Rightarrow> u64 \<Rightarrow> cpu_stats" where
  "wit_stats user idle = \<lparr>cs_user = user, cs_nice = 0, cs_system = 0, cs_idle = idle, cs_iowait = 0,
     cs_irq = 0, cs_softirq = 0, cs_steal = 0, cs_guest = 0, cs_guest_nice = 0\<rparr>"

definition wit_reading :: "string \<Rightarrow> u64 \<Rightarrow> 'v reading" where
  "wit_reading line now_ms = \<lparr>rd_file = Some line, rd_now_ms = now_ms, rd_order = rev\<rparr>"

lemmas scan_simps = extract_u64_def extract_word_def extract_next_def digits_ahead_def is_space_def is_digit_def
  digits_value_def digit_value_def Let_def

lemma wit_scan: "should_scan_cpu wit_cfg l"
  by (simp add: wit_cfg_def default_config_def should_scan_cpu_def should_emit_total_def should_emit_per_core_def)

lemma wit_parse:
  "parse_cpu_stats '' 1 0 0 4'' = Some (wit_stats 1 4)" "parse_cpu_stats '' 5 0 0 5'' = Some (wit_stats 5 5)"
  by (simp_all add: parse_cpu_stats_def wit_stats_def scan_simps)

lemma wit_files:
  "read_proc_stat wit_cfg (Some ''cpu 1 0 0 4'') = [(''total'', wit_stats 1 4)]"
  "read_proc_stat wit_cfg (Some ''cpu0 1 0 0 4'') = [(''cpu0'', wit_stats 1 4)]"
  "read_proc_stat wit_cfg (Some ''cpu0 5 0 0 5'') = [(''cpu0'', wit_stats 5 5)]"
  by (simp_all add: read_proc_stat_def get_lines.simps parse_cpu_line_def wit_scan extract_word_def is_space_def
    cpu_label_def emplace_def wit_parse)

lemma wit_reading_simps [simp]: "keeps_entries (wit_reading line now_ms)" "rd_file (wit_reading line now_ms) = Some line"
  "rd_now_ms (wit_reading line now_ms) = now_ms"
  by (simp_all add: wit_reading_def keeps_entries_def)

theorem cpu_no_stale_sample_witness:
  "''total'' \<notin> cpu_name ` set (snd (cpu_collect wit_cfg (wit_reading ''cpu 1 0 0 4'' 4000000)
     (cpu_run wit_cfg ([] @ wit_reading ''cpu 1 0 0 4'' 1000 # [wit_reading ''cpu0 5 0 0 5'' 3700000]) new_cpu_collector)))"
  by (rule cpu_no_stale_sample [where r = "wit_reading ''cpu0 5 0 0 5'' 3700000"])
    (simp_all add: wit_files, simp_all add: wit_cfg_def default_config_def ttl_ms_def)

theorem cpu_order_irrelevant_witness:
  "fst (cpu_collect wit_cfg (wit_reading ''cpu 1 0 0 4'' 1000) new_cpu_collector) =
   fst (cpu_collect wit_cfg ((wit_reading ''cpu 1 0 0 4'' 1000)\<lparr>rd_order := id\<rparr>) new_cpu_collector)"
  by (rule cpu_order_irrelevant [THEN conjunct1]) (simp_all, simp_all add: keeps_entries_def wit_reading_def)

theorem cpu_sample_exact_witness:
  "\<exists>x. snd (cpu_collect wit_cfg (wit_reading ''cpu0 5 0 0 5'' 2000)
      (fst (cpu_collect wit_cfg (wit_reading ''cpu0 1 0 0 4'' 1000) new_cpu_collector))) = [x] \<and>
    dle (cpu_usage_percent x) (Fin 100)"
proof -
  define r where "r = (wit_reading ''cpu0 5 0 0 5'' 2000 :: cpu_stats reading)"
  define r0 where "r0 = (wit_reading ''cpu0 1 0 0 4'' 1000 :: cpu_stats reading)"
  define c where "c = fst (cpu_collect wit_cfg r0 new_cpu_collector)"
  have r: "keeps_entries r" "keeps_entries r0" by (simp_all add: r_def r0_def)
  have files: "read_proc_stat wit_cfg (rd_file r) = [(''cpu0'', wit_stats 5 5)]"
      "read_proc_stat wit_cfg (rd_file r0) = [(''cpu0'', wit_stats 1 4)]"
    by (simp_all add: r_def r0_def wit_files)
  have enabled: "cpu_usage_enable wit_cfg" by (simp add: wit_cfg_def default_config_def)
  have order: "rd_order r [e] = [e]" for e by (simp add: r_def wit_reading_def)
  have "cc_baselines c ''cpu0'' = Some (wit_stats 1 4)"
    by (simp add: c_def cpu_collect_result [OF r(2)] files enabled Let_def)
  then have base: "cc_baselines (cpu_aged wit_cfg r c) ''cpu0'' = Some (wit_stats 1 4)"
    by (simp add: cpu_aged_baseline [OF r(1)] files)
  have "\<exists>x. snd (cpu_collect wit_cfg r c) = [x]"
    by (simp add: cpu_collect_result [OF r(1)] files enabled Let_def order cpu_samples_def base)
      (simp add: cpu_delta_def total_jiffies_def idle_jiffies_def wit_stats_def)
  then obtain x where "snd (cpu_collect wit_cfg r c) = [x]" by blast
  then show ?thesis using cpu_sample_exact [OF r(1), of x wit_cfg c] by (auto simp: c_def r_def r0_def)
qed

section \<open>Disk delays\<close>

lemma io_scan_fields:
  "ic_last_seen_ms (fst (io_scan limit current c samples)) = ic_last_seen_ms c"
  "ic_failures (fst (io_scan limit current c samples)) = ic_failures c"
  by (induction limit current c samples rule: io_scan.induct) (simp_all add: Let_def split: option.split)

lemma io_scan_other: "k \<notin> fst ` set current \<Longrightarrow> ic_baselines (fst (io_scan limit current c samples)) k = ic_baselines c k"
  by (induction limit current c samples rule: io_scan.induct) (auto simp: Let_def split: option.splits)

lemma io_delta_device: "io_delta device previous stats = Some x \<Longrightarrow> io_device x = device"
  by (auto simp: io_delta_def Let_def split: if_splits)

lemma in_io_scan:
  assumes "distinct (map fst current)" and "x \<in> set (snd (io_scan limit current c samples))" and "x \<notin> set samples"
  shows "\<exists>stats previous. (io_device x, stats) \<in> set current \<and> ic_baselines c (io_device x) = Some previous \<and>
    io_delta (io_device x) previous stats = Some x"
  using assms
proof (induction limit current c samples rule: io_scan.induct)
  case (2 limit device stats rest c samples)
  let ?c = "c\<lparr>ic_baselines := (ic_baselines c)(device \<mapsto> stats)\<rparr>"
  have rest: ?case if "\<exists>stats previous. (io_device x, stats) \<in> set rest \<and> ic_baselines ?c (io_device x) = Some previous \<and>
    io_delta (io_device x) previous stats = Some x"
  proof -
    have "device \<notin> fst ` set rest" using 2(4) by simp
    with that show ?thesis by (auto simp: image_iff split: if_splits)
  qed
  show ?case
  proof (cases "ic_baselines c device")
    case None
    then show ?thesis using 2 rest by simp
  next
    case (Some previous)
    show ?thesis
    proof (cases "io_delta device previous stats")
      case None
      then show ?thesis using 2 rest Some by simp
    next
      case delta: (Some y)
      show ?thesis
      proof (cases "x = y")
        case True
        then show ?thesis using Some delta io_delta_device [OF delta] by auto
      next
        case False
        then show ?thesis using 2 rest Some delta by (auto simp: Let_def split: if_splits)
      qed
    qed
  qed
qed simp

lemma io_scan_limit: "length samples < limit \<Longrightarrow> length (snd (io_scan limit current c samples)) \<le> limit"
  by (induction limit current c samples rule: io_scan.induct) (auto simp: Let_def split: option.splits)

text \<open>The scan of a list that does not reach the limit goes on with what follows; one that reaches it stops there.\<close>

lemma io_scan_append:
  assumes "length samples < limit"
  shows "io_scan limit (front @ rest) c samples =
    (let (c', samples') = io_scan limit front c samples
     in if limit \<le> length samples' then (c', samples') else io_scan limit rest c' samples')"
  using assms
  by (induction limit front c samples rule: io_scan.induct) (auto simp: Let_def split: option.splits prod.splits)

definition io_aged :: "monitor_config \<Rightarrow> u64 \<Rightarrow> disk_stats reading \<Rightarrow> io_collector \<Rightarrow> io_collector" where
  "io_aged cfg stamp r c = (let current = read_diskstats cfg stamp (rd_file r) in
     prune_io_baselines cfg (rd_now_ms r) (c\<lparr>ic_failures := 0, ic_last_seen_ms := mark_seen (rd_order r current) (rd_now_ms r) (ic_last_seen_ms c)\<rparr>))"

lemma io_collect_result:
  "io_collect cfg stamp r c =
    (let current = read_diskstats cfg stamp (rd_file r) in
     if \<not> io_delay_enable cfg then (c\<lparr>ic_failures := 0\<rparr>, [])
     else if current = [] then (c\<lparr>ic_failures := 1\<rparr>, [])
     else io_scan (unat (io_max_targets cfg)) (rd_order r current) (io_aged cfg stamp r c) [])"
  by (simp add: io_collect_def io_aged_def Let_def)

lemma io_aged_baseline:
  assumes "keeps_entries r"
  shows "ic_last_seen_ms (io_aged cfg stamp r c) k =
      (if k \<in> fst ` set (read_diskstats cfg stamp (rd_file r)) then Some (rd_now_ms r)
       else case ic_last_seen_ms c k of None \<Rightarrow> None | Some t \<Rightarrow> if ttl_ms cfg \<le> rd_now_ms r - t then None else Some t)"
    and "ic_baselines (io_aged cfg stamp r c) k =
      (if k \<in> fst ` set (read_diskstats cfg stamp (rd_file r)) then ic_baselines c k
       else case ic_last_seen_ms c k of None \<Rightarrow> ic_baselines c k
         | Some t \<Rightarrow> if ttl_ms cfg \<le> rd_now_ms r - t then None else ic_baselines c k)"
  using ttl_ms_pos [of cfg] order_keys [OF assms]
  by (auto simp: io_aged_def Let_def prune_io_baselines_def mark_seen_apply map_filter_vals_def split: option.split)

lemma io_collect_samples:
  assumes "keeps_entries r" and "x \<in> set (snd (io_collect cfg stamp r c))"
  obtains previous stats where "io_delay_enable cfg" and "map_of (read_diskstats cfg stamp (rd_file r)) (io_device x) = Some stats"
    and "ic_baselines c (io_device x) = Some previous" and "io_delta (io_device x) previous stats = Some x"
proof -
  let ?current = "read_diskstats cfg stamp (rd_file r)"
  have "distinct (map fst (rd_order r ?current))" using assms(1) by (simp add: order_distinct read_diskstats_distinct)
  moreover have on: "io_delay_enable cfg"
    and "x \<in> set (snd (io_scan (unat (io_max_targets cfg)) (rd_order r ?current) (io_aged cfg stamp r c) []))"
    using assms(2) by (auto simp: io_collect_result Let_def split: if_splits)
  ultimately obtain stats previous where parts: "(io_device x, stats) \<in> set ?current"
      "ic_baselines (io_aged cfg stamp r c) (io_device x) = Some previous" "io_delta (io_device x) previous stats = Some x"
    using in_io_scan [of _ x] order_keys [OF assms(1)] by fastforce
  have "io_device x \<in> fst ` set ?current" using parts(1) by (rule rev_image_eqI) simp
  then have "ic_baselines c (io_device x) = Some previous" using parts(2) by (simp add: io_aged_baseline [OF assms(1)])
  then show thesis using that [of stats previous] parts on read_diskstats_distinct by simp
qed

interpretation io: baseline_table "\<lambda>(stamp, r). io_collect cfg stamp r" "\<lambda>(stamp, r). keeps_entries r"
  "\<lambda>(stamp, r) k. io_delay_enable cfg \<and> k \<in> fst ` set (read_diskstats cfg stamp (rd_file r))"
  "\<lambda>(stamp, r) t. io_delay_enable cfg \<and> read_diskstats cfg stamp (rd_file r) \<noteq> [] \<and> ttl_ms cfg \<le> rd_now_ms r - t"
  ic_last_seen_ms "\<lambda>c k. ic_baselines c k \<noteq> None" io_device
  for cfg
proof (unfold_locales, goal_cases)
  case (1 e k s)
  then show ?case
    by (cases e) (auto simp: io_collect_result io_scan_fields io_aged_baseline Let_def split: option.split)
next
  case (2 e s k)
  obtain stamp r where e: "e = (stamp, r)" by (cases e)
  have r: "keeps_entries r" using 2(1) e by simp
  let ?current = "read_diskstats cfg stamp (rd_file r)"
  show ?case
  proof (cases "io_delay_enable cfg \<and> ?current \<noteq> []")
    case False
    then show ?thesis using 2(2,3) by (auto simp: e io_collect_result Let_def)
  next
    case True
    then have collect: "io_collect cfg stamp r s = io_scan (unat (io_max_targets cfg)) (rd_order r ?current) (io_aged cfg stamp r s) []"
      by (simp add: io_collect_result Let_def)
    show ?thesis
    proof (cases "k \<in> fst ` set ?current")
      case True
      then show ?thesis by (simp add: e collect io_scan_fields io_aged_baseline(1) [OF r])
    next
      case False
      then have "ic_baselines (io_aged cfg stamp r s) k \<noteq> None"
        using 2(3) order_keys [OF r] by (simp add: e collect io_scan_other)
      then have "ic_last_seen_ms (io_aged cfg stamp r s) k \<noteq> None"
        using False spec [OF 2(2), of k] by (auto simp: io_aged_baseline [OF r] split: option.splits if_splits)
      then show ?thesis by (simp add: e collect io_scan_fields)
    qed
  qed
next
  case (3 e x s)
  obtain stamp r where e: "e = (stamp, r)" by (cases e)
  have r: "keeps_entries r" and x: "x \<in> set (snd (io_collect cfg stamp r s))" using 3 e by simp_all
  obtain stats where "io_delay_enable cfg" "map_of (read_diskstats cfg stamp (rd_file r)) (io_device x) = Some stats"
      "ic_baselines s (io_device x) \<noteq> None"
    by (rule io_collect_samples [OF r x]) simp
  then show ?case by (auto simp: e dest!: map_of_SomeD intro: rev_image_eqI)
qed

lemma io_scan_step:
  "io_scan limit ((device, stats) # rest) c samples =
    (case Option.bind (ic_baselines c device) (\<lambda>previous. io_delta device previous stats) of
       None \<Rightarrow> io_scan limit rest (c\<lparr>ic_baselines := (ic_baselines c)(device \<mapsto> stats)\<rparr>) samples
     | Some x \<Rightarrow>
         if limit \<le> Suc (length samples) then (c\<lparr>ic_baselines := (ic_baselines c)(device \<mapsto> stats)\<rparr>, samples @ [x])
         else io_scan limit rest (c\<lparr>ic_baselines := (ic_baselines c)(device \<mapsto> stats)\<rparr>) (samples @ [x]))"
  by (cases "ic_baselines c device"; cases "io_delta device (the (ic_baselines c device)) stats") (simp_all add: Let_def)

lemma io_scan_extends:
  "\<exists>new. snd (io_scan limit current c samples) = samples @ new \<and> io_device ` set new \<subseteq> fst ` set current"
proof (induction current arbitrary: c samples)
  case (Cons entry rest)
  obtain device stats where entry: "entry = (device, stats)" by (cases entry)
  let ?c = "c\<lparr>ic_baselines := (ic_baselines c)(device \<mapsto> stats)\<rparr>"
  show ?case
  proof (cases "Option.bind (ic_baselines c device) (\<lambda>previous. io_delta device previous stats)")
    case None
    then show ?thesis using Cons [of ?c samples] unfolding entry io_scan_step by auto
  next
    case (Some x)
    then have device: "io_device x = device" by (auto simp: bind_eq_Some_conv io_delta_device)
    obtain new where "snd (io_scan limit rest ?c (samples @ [x])) = (samples @ [x]) @ new" "io_device ` set new \<subseteq> fst ` set rest"
      using Cons [of ?c "samples @ [x]"] by blast
    then show ?thesis unfolding entry io_scan_step Some using device
      by (intro exI [of _ "if limit \<le> Suc (length samples) then [x] else x # new"]) auto
  qed
qed simp

lemma io_scan_complete:
  assumes "distinct (map fst current)" and "length (snd (io_scan limit current c samples)) < limit"
  shows "ic_baselines (fst (io_scan limit current c samples)) = ic_baselines c ++ map_of current"
  using assms
proof (induction current arbitrary: c samples)
  case (Cons entry rest)
  obtain device stats where entry: "entry = (device, stats)" by (cases entry)
  let ?c = "c\<lparr>ic_baselines := (ic_baselines c)(device \<mapsto> stats)\<rparr>"
  have "map_of rest device = None" using Cons(2) by (simp add: entry map_of_eq_None_iff)
  then have eq: "ic_baselines ?c ++ map_of rest = ic_baselines c ++ map_of (entry # rest)"
    by (auto simp: entry map_add_def fun_eq_iff split: option.split)
  have rest: "length (snd (io_scan limit rest ?c xs)) < limit \<Longrightarrow>
      ic_baselines (fst (io_scan limit rest ?c xs)) = ic_baselines c ++ map_of (entry # rest)" for xs
    using Cons(1) [THEN trans, OF _ _ eq] Cons(2) by (simp add: entry)
  show ?case
  proof (cases "Option.bind (ic_baselines c device) (\<lambda>previous. io_delta device previous stats)")
    case None
    then have scan: "io_scan limit (entry # rest) c samples = io_scan limit rest ?c samples"
      by (simp only: entry io_scan_step option.case)
    show ?thesis using Cons(3) unfolding scan by (rule rest)
  next
    case (Some x)
    have "length (snd (io_scan limit (entry # rest) c samples)) < limit" using Cons(3) .
    then have "\<not> limit \<le> Suc (length samples)" unfolding entry io_scan_step Some by (simp split: if_splits)
    then have scan: "io_scan limit (entry # rest) c samples = io_scan limit rest ?c (samples @ [x])"
      by (simp only: entry io_scan_step Some option.case if_False)
    show ?thesis using Cons(3) unfolding scan by (rule rest)
  qed
qed simp

lemma io_cut_off_parts:
  assumes "keeps_entries r" and "io_delay_enable cfg" and "io_max_targets cfg \<noteq> 0"
    and "io_collect cfg stamp r c = (c', samples)"
  shows "length samples \<le> unat (io_max_targets cfg)"
    and "length samples < unat (io_max_targets cfg) \<Longrightarrow>
      map_of (read_diskstats cfg stamp (rd_file r)) device = Some stats \<Longrightarrow> ic_baselines c' device = Some stats"
    and "length samples = unat (io_max_targets cfg) \<Longrightarrow>
      rd_order r (read_diskstats cfg stamp (rd_file r)) = front @ (device, stats) # rest \<Longrightarrow>
      io_device (last samples) \<in> fst ` set front \<Longrightarrow>
      device \<notin> io_device ` set samples \<and> ic_baselines c' device = ic_baselines c device"
proof -
  let ?limit = "unat (io_max_targets cfg)" and ?current = "read_diskstats cfg stamp (rd_file r)" and ?a = "io_aged cfg stamp r c"
  have pos: "0 < ?limit" using assms(3) by (simp add: unat_gt_0)
  have distinct: "distinct (map fst (rd_order r ?current))" using assms(1) by (simp add: order_distinct read_diskstats_distinct)
  have result: "?current \<noteq> [] \<Longrightarrow> (c', samples) = io_scan ?limit (rd_order r ?current) ?a []"
    using assms(2,4) by (simp add: io_collect_result Let_def)
  have empty: "?current = [] \<Longrightarrow> samples = []" using assms(2,4) by (simp add: io_collect_result Let_def)
  show "length samples \<le> ?limit"
    using io_scan_limit [of "[]" ?limit "rd_order r ?current" ?a] pos result empty
    by (cases "?current = []") (metis snd_conv list.size(3) zero_le)+
  show "ic_baselines c' device = Some stats"
    if "length samples < ?limit" and device: "map_of ?current device = Some stats"
  proof -
    have "?current \<noteq> []" using device by auto
    then have scan: "(c', samples) = io_scan ?limit (rd_order r ?current) ?a []" by (rule result)
    have "length (snd (io_scan ?limit (rd_order r ?current) ?a [])) < ?limit" using that(1) by (simp flip: scan)
    then have "ic_baselines c' = ic_baselines ?a ++ map_of (rd_order r ?current)"
      using io_scan_complete [OF distinct, of ?limit ?a "[]"] by (simp flip: scan)
    then show ?thesis using device by (simp add: order_map_of [OF assms(1) read_diskstats_distinct])
  qed
  show "device \<notin> io_device ` set samples \<and> ic_baselines c' device = ic_baselines c device"
    if full: "length samples = ?limit" and order: "rd_order r ?current = front @ (device, stats) # rest"
      and last: "io_device (last samples) \<in> fst ` set front"
  proof -
    obtain c1 s1 where front: "io_scan ?limit front ?a [] = (c1, s1)" by fastforce
    have "device \<in> fst ` set ?current" using order_keys [OF assms(1), of ?current] order by (metis image_eqI fst_conv in_set_conv_decomp)
    then have base: "ic_baselines ?a device = ic_baselines c device" by (simp add: io_aged_baseline(2) [OF assms(1)])
    have "?current \<noteq> []" using order order_keys [OF assms(1), of ?current] by auto
    then have scan: "(c', samples) = (if ?limit \<le> length s1 then (c1, s1) else io_scan ?limit ((device, stats) # rest) c1 s1)"
      using result pos io_scan_append [of "[]" ?limit front "(device, stats) # rest" ?a] order front by simp
    have apart: "fst ` set front \<inter> fst ` set ((device, stats) # rest) = {}" using distinct order by auto
    have reached: "?limit \<le> length s1"
    proof (rule ccontr)
      assume short: "\<not> ?limit \<le> length s1"
      obtain new where new: "samples = s1 @ new" "io_device ` set new \<subseteq> fst ` set ((device, stats) # rest)"
        using io_scan_extends [of ?limit "(device, stats) # rest" c1 s1] scan short by (metis snd_conv)
      then have "new \<noteq> []" using full short by auto
      then have "last samples \<in> set new" using new(1) by simp
      then have "io_device (last samples) \<in> fst ` set ((device, stats) # rest)" using new(2) by blast
      then show False using last apart by blast
    qed
    then have c1: "c' = c1" "samples = s1" using scan by simp_all
    have "device \<notin> fst ` set front" using apart by auto
    then have "ic_baselines c1 device = ic_baselines c device"
      using io_scan_other [of device front ?limit ?a "[]"] front base by simp
    moreover have "io_device ` set s1 \<subseteq> fst ` set front" using io_scan_extends [of ?limit front ?a "[]"] front by auto
    ultimately show ?thesis using c1 \<open>device \<notin> fst ` set front\<close> by blast
  qed
qed

text \<open>
  A round of the disk collector that returns fewer samples than \<open>io_max_targets\<close> has made every reading
  the new baseline of its device; a round that returns as many as that ends at once, and a device that the
  iteration of the hash map has not reached by then gives no sample and keeps its old baseline, again in every
  round in which the devices ahead of it are active.
\<close>

theorem io_cut_off:
  assumes "keeps_entries r" and "io_delay_enable cfg" and "io_max_targets cfg \<noteq> 0"
    and "io_collect cfg stamp r c = (c', samples)"
  shows "length samples \<le> unat (io_max_targets cfg) \<and>
    (if length samples < unat (io_max_targets cfg)
     then \<forall>device stats. map_of (read_diskstats cfg stamp (rd_file r)) device = Some stats \<longrightarrow> ic_baselines c' device = Some stats
     else \<forall>front device stats rest. rd_order r (read_diskstats cfg stamp (rd_file r)) = front @ (device, stats) # rest \<longrightarrow>
       io_device (last samples) \<in> fst ` set front \<longrightarrow>
       device \<notin> io_device ` set samples \<and> ic_baselines c' device = ic_baselines c device)"
proof (cases "length samples < unat (io_max_targets cfg)")
  case True
  then show ?thesis using io_cut_off_parts(1,2) [OF assms] by simp
next
  case False
  then have "length samples = unat (io_max_targets cfg)" using io_cut_off_parts(1) [OF assms] by simp
  then show ?thesis using False io_cut_off_parts(3) [OF assms] by (simp only: if_False) blast
qed

lemma io_delta_Some:
  assumes "io_delta device previous stats = Some x"
  shows "ds_timestamp_ms previous < ds_timestamp_ms stats" and "io_delta_io_count x \<noteq> 0"
    and "io_delta_io_count x = (ds_read_ios stats - ds_read_ios previous) + (ds_write_ios stats - ds_write_ios previous)"
    and "dle (Fin 0) (io_util_percent x)" and "dle (io_util_percent x) (Fin 100)"
  using assms percent_of_range by (auto simp: io_delta_def Let_def not_le not_less split: if_splits)

definition wit_io_cfg :: monitor_config where
  "wit_io_cfg = default_config\<lparr>io_max_targets := 1\<rparr>"

definition wit_disk :: "u64 \<Rightarrow> u64 \<Rightarrow> disk_stats" where
  "wit_disk ios now_ms = \<lparr>ds_read_ios = ios, ds_read_time_ms = 5, ds_write_ios = 0, ds_write_time_ms = 0, ds_in_flight = 0,
     ds_io_time_ms = 5, ds_timestamp_ms = now_ms\<rparr>"

definition wit_disk_reading :: "disk_stats reading" where
  "wit_disk_reading = \<lparr>rd_file = Some (''8 0 sda 1 0 0 5 0 0 0 0 0 5'' @ CHR 0x0A # ''8 1 sdb 1 0 0 5 0 0 0 0 0 5''),
     rd_now_ms = 9, rd_order = id\<rparr>"

definition wit_io_collector :: io_collector where
  "wit_io_collector = \<lparr>ic_baselines = [''sda'' \<mapsto> wit_disk 0 1, ''sdb'' \<mapsto> wit_disk 0 1],
     ic_last_seen_ms = [''sda'' \<mapsto> 1, ''sdb'' \<mapsto> 1], ic_failures = 0\<rparr>"

lemma wit_disk_lines:
  "parse_disk_line wit_io_cfg 9 ''8 0 sda 1 0 0 5 0 0 0 0 0 5'' = Some (''sda'', wit_disk 1 9)"
  "parse_disk_line wit_io_cfg 9 ''8 1 sdb 1 0 0 5 0 0 0 0 0 5'' = Some (''sdb'', wit_disk 1 9)"
  by (simp_all add: parse_disk_line_def wit_disk_def should_scan_device_def skip_u32_def
    scan_simps starts_with_def wit_io_cfg_def default_config_def)

lemma wit_disk_files:
  "read_diskstats wit_io_cfg 9 (rd_file wit_disk_reading) = [(''sda'', wit_disk 1 9), (''sdb'', wit_disk 1 9)]"
proof -
  have "get_lines (''8 0 sda 1 0 0 5 0 0 0 0 0 5'' @ CHR 0x0A # ''8 1 sdb 1 0 0 5 0 0 0 0 0 5'') =
      [''8 0 sda 1 0 0 5 0 0 0 0 0 5'', ''8 1 sdb 1 0 0 5 0 0 0 0 0 5'']"
    by (subst get_lines_append_line) (simp, simp add: get_lines.simps)
  then show ?thesis
    unfolding read_diskstats_def wit_disk_reading_def by (simp only: reading.simps option.case fold.simps wit_disk_lines) (simp add: emplace_def wit_disk_lines)
qed

theorem io_cut_off_witness:
  "\<exists>c' samples. io_collect wit_io_cfg 9 wit_disk_reading wit_io_collector = (c', samples) \<and>
    ''sdb'' \<notin> io_device ` set samples \<and> ic_baselines c' ''sdb'' = Some (wit_disk 0 1)"
proof -
  have r: "keeps_entries wit_disk_reading" by (simp add: keeps_entries_def wit_disk_reading_def)
  have cfg: "io_delay_enable wit_io_cfg" "io_max_targets wit_io_cfg = 1" by (simp_all add: wit_io_cfg_def default_config_def)
  have order: "rd_order wit_disk_reading m = m" for m by (simp add: wit_disk_reading_def)
  have base: "ic_baselines (io_aged wit_io_cfg 9 wit_disk_reading wit_io_collector) ''sda'' = Some (wit_disk 0 1)"
    by (simp add: io_aged_baseline(2) [OF r] wit_disk_files) (simp add: wit_io_collector_def)
  have "io_delta ''sda'' (wit_disk 0 1) (wit_disk 1 9) \<noteq> None" by (simp add: io_delta_def wit_disk_def Let_def word_le_nat_alt)
  then obtain x where x: "io_delta ''sda'' (wit_disk 0 1) (wit_disk 1 9) = Some x" by blast
  obtain c' where collect: "io_collect wit_io_cfg 9 wit_disk_reading wit_io_collector = (c', [x])"
    by (simp add: io_collect_result wit_disk_files Let_def cfg order base x)
  have "''sdb'' \<notin> io_device ` set [x] \<and> ic_baselines c' ''sdb'' = ic_baselines wit_io_collector ''sdb''"
    using io_cut_off [OF r cfg(1) _ collect] io_delta_device [OF x] cfg(2)
    by (simp add: order wit_disk_files) (metis append_Cons append_Nil fst_conv image_eqI list.set_intros(1))
  then show ?thesis using collect by (auto simp: wit_io_collector_def)
qed

section \<open>Lines of the kernel's memory files\<close>

text \<open>A line as the kernel prints it: the key, a colon, blanks, the number and the unit.\<close>

definition kb_line :: "string \<Rightarrow> nat \<Rightarrow> u64 \<Rightarrow> string" where
  "kb_line key blanks v = key @ CHR '':'' # replicate blanks (CHR '' '') @ show_word v @ '' kB''"

definition kb_text :: "(string \<times> nat \<times> u64) list \<Rightarrow> string" where
  "kb_text entries = concat (map (\<lambda>(key, blanks, v). kb_line key blanks v @ [CHR 0x0A]) entries)"

text \<open>A key of the file that is not a proper extension of the key looked for.\<close>

definition plain_key :: "string \<Rightarrow> string \<Rightarrow> bool" where
  "plain_key wanted key \<longleftrightarrow> CHR 0x0A \<notin> set key \<and> (take (length wanted) key = wanted \<longrightarrow> key = wanted)"

lemma dropWhile_digits:
  assumes "\<And>c. is_digit c \<Longrightarrow> \<not> P c"
  shows "dropWhile P (show_nat n @ rest) = show_nat n @ rest"
  using assms show_nat_digits [of "hd (show_nat n)" n] by (cases "show_nat n") simp_all

lemma parse_kb_line_kernel:
  assumes "plain_key wanted key" and "CHR '':'' \<notin> set wanted"
  shows "parse_kb_line (kb_line key blanks v) wanted = (if key = wanted then Some v else None)"
proof (cases "key = wanted")
  case True
  have "dropWhile (\<lambda>c. c = CHR '':'' \<or> c = CHR '' '' \<or> c = CHR 0x09) (replicate blanks (CHR '' '') @ show_word v @ '' kB'')
      = show_word v @ '' kB''"
    by (induction blanks) (auto simp: show_word_def intro!: dropWhile_digits simp: is_digit_def)
  then show ?thesis
    using True from_chars_show_word [of "'' kB''" v] by (simp add: parse_kb_line_def kb_line_def is_digit_def)
next
  case False
  have "take (length wanted) (kb_line key blanks v) \<noteq> wanted"
  proof
    assume eq: "take (length wanted) (kb_line key blanks v) = wanted"
    show False
    proof (cases "length wanted \<le> length key")
      case True
      then show False using eq assms(1) False by (simp add: kb_line_def plain_key_def)
    next
      case longer: False
      then have "wanted ! length key = CHR '':''"
        by (subst eq [symmetric]) (simp add: kb_line_def nth_append)
      then show False using assms(2) longer by (metis not_le nth_mem)
    qed
  qed
  then show ?thesis using False by (simp add: parse_kb_line_def)
qed

lemma get_lines_kb_text: "\<forall>(key, blanks, v) \<in> set entries. CHR 0x0A \<notin> set key \<Longrightarrow>
    get_lines (kb_text entries) = map (\<lambda>(key, blanks, v). kb_line key blanks v) entries"
proof (induction entries)
  case (Cons e entries)
  obtain key blanks v where e: "e = (key, blanks, v)" by (cases e)
  have "CHR 0x0A \<notin> set (kb_line key blanks v)" using Cons(2) by (auto simp: e kb_line_def show_word_def)
  then show ?case using Cons get_lines_append_line [of "kb_line key blanks v" "kb_text entries"]
    by (simp add: e kb_text_def)
qed (simp add: kb_text_def)

definition meminfo_keys :: "string list" where
  "meminfo_keys = [''MemTotal'', ''MemAvailable'', ''SwapFree'', ''SReclaimable'', ''SUnreclaim'']"

text \<open>The last value printed for a key, or zero.\<close>

definition last_value :: "(string \<times> nat \<times> u64) list \<Rightarrow> string \<Rightarrow> u64" where
  "last_value entries key = fold (\<lambda>(k, blanks, v) old. if k = key then v else old) entries 0"

lemma meminfo_fold:
  assumes "\<forall>(key, blanks, v) \<in> set entries. \<forall>w \<in> set meminfo_keys. plain_key w key"
  shows "fold meminfo_line (map (\<lambda>(key, blanks, v). kb_line key blanks v) entries) empty_meminfo_sample =
    empty_meminfo_sample\<lparr>mem_total_kb := last_value entries ''MemTotal'', mem_available_kb := last_value entries ''MemAvailable'',
      swap_free_kb := last_value entries ''SwapFree'', sreclaimable_kb := last_value entries ''SReclaimable'',
      sunreclaim_kb := last_value entries ''SUnreclaim''\<rparr>"
  using assms
proof (induction entries rule: rev_induct)
  case Nil
  then show ?case by (simp add: last_value_def empty_meminfo_sample_def)
next
  case (snoc e entries)
  obtain key blanks v where e: "e = (key, blanks, v)" by (cases e)
  have "parse_kb_line (kb_line key blanks v) w = (if key = w then Some v else None)" if "w \<in> set meminfo_keys" for w
    using that snoc(2) by (intro parse_kb_line_kernel) (auto simp: e meminfo_keys_def)
  then have parse: "parse_kb_line (kb_line key blanks v) ''MemTotal'' = (if key = ''MemTotal'' then Some v else None)"
    "parse_kb_line (kb_line key blanks v) ''MemAvailable'' = (if key = ''MemAvailable'' then Some v else None)"
    "parse_kb_line (kb_line key blanks v) ''SwapFree'' = (if key = ''SwapFree'' then Some v else None)"
    "parse_kb_line (kb_line key blanks v) ''SReclaimable'' = (if key = ''SReclaimable'' then Some v else None)"
    "parse_kb_line (kb_line key blanks v) ''SUnreclaim'' = (if key = ''SUnreclaim'' then Some v else None)"
    by (simp_all add: meminfo_keys_def)
  have last_value_snoc: "last_value (entries @ [e]) w = (if key = w then v else last_value entries w)" for w
    by (simp add: e last_value_def)
  have IH: "fold meminfo_line (map (\<lambda>(key, blanks, v). kb_line key blanks v) entries) empty_meminfo_sample =
      empty_meminfo_sample\<lparr>mem_total_kb := last_value entries ''MemTotal'', mem_available_kb := last_value entries ''MemAvailable'',
      swap_free_kb := last_value entries ''SwapFree'', sreclaimable_kb := last_value entries ''SReclaimable'',
      sunreclaim_kb := last_value entries ''SUnreclaim''\<rparr>"
    using snoc(1) snoc(2) by simp
  have "fold meminfo_line (map (\<lambda>(key, blanks, v). kb_line key blanks v) (entries @ [e])) empty_meminfo_sample =
      meminfo_line (kb_line key blanks v) (fold meminfo_line (map (\<lambda>(key, blanks, v). kb_line key blanks v) entries) empty_meminfo_sample)"
    by (simp add: e)
  also have "\<dots> = empty_meminfo_sample\<lparr>mem_total_kb := last_value (entries @ [e]) ''MemTotal'', mem_available_kb := last_value (entries @ [e]) ''MemAvailable'',
      swap_free_kb := last_value (entries @ [e]) ''SwapFree'', sreclaimable_kb := last_value (entries @ [e]) ''SReclaimable'',
      sunreclaim_kb := last_value (entries @ [e]) ''SUnreclaim''\<rparr>"
    unfolding IH using last_value_snoc by (simp add: meminfo_line_def parse)
  finally show ?case .
qed

text \<open>
  From a \<^verbatim>\<open>/proc/meminfo\<close> printed as the kernel prints it, in any order and with any other lines
  in between, the collector reads back the printed values, as long as the file fits the buffer; the sample is
  valid exactly when the total and the available memory are positive.
\<close>

theorem meminfo_roundtrip:
  assumes "\<forall>(key, blanks, v) \<in> set entries. \<forall>w \<in> set meminfo_keys. plain_key w key"
    and "entries \<noteq> []" and "length (kb_text entries) \<le> 8191" and "pa_open os" and "pa_seek os"
    and "pa_content os = Some (kb_text entries)"
  shows "meminfo_collect os is_open = (True, \<lparr>
      mem_total_kb = last_value entries ''MemTotal'', mem_available_kb = last_value entries ''MemAvailable'',
      swap_free_kb = last_value entries ''SwapFree'', sreclaimable_kb = last_value entries ''SReclaimable'',
      sunreclaim_kb = last_value entries ''SUnreclaim'',
      mem_valid = (0 < last_value entries ''MemTotal'' \<and> 0 < last_value entries ''MemAvailable'')\<rparr>)"
proof -
  have "kb_text entries \<noteq> []" using assms(2) by (cases entries) (auto simp: kb_text_def)
  then have "proc_read os is_open = (True, Some (kb_text entries))"
    using assms(3-6) by (simp add: proc_read_def buffer_limit_def)
  moreover have "get_lines (kb_text entries) = map (\<lambda>(key, blanks, v). kb_line key blanks v) entries"
    using assms(1) by (intro get_lines_kb_text) (auto simp: plain_key_def meminfo_keys_def)
  ultimately show ?thesis
    using meminfo_fold [OF assms(1)] by (simp add: meminfo_collect_def Let_def empty_meminfo_sample_def)
qed

theorem meminfo_roundtrip_witness:
  "meminfo_collect \<lparr>pa_open = True, pa_seek = True, pa_reopen = False, pa_content = Some (kb_text
      [(''MemTotal'', 8, 16000), (''MemFree'', 1, 10), (''MemAvailable'', 4, 9000)])\<rparr> False =
   (True, \<lparr>mem_total_kb = 16000, mem_available_kb = 9000, swap_free_kb = 0, sreclaimable_kb = 0, sunreclaim_kb = 0, mem_valid = True\<rparr>)"
proof -
  have "length (kb_text [(''MemTotal'', 8, 16000), (''MemFree'', 1, 10), (''MemAvailable'', 4, 9000)]) \<le> 8191"
    by (simp add: kb_text_def kb_line_def show_word_def show_nat.simps)
  then show ?thesis
    by (subst meminfo_roundtrip) (auto simp: plain_key_def meminfo_keys_def last_value_def)
qed

end
