(* ===== verification/Process_Tracker.thy ===== *)
theory Process_Tracker
  imports Rule_Engine Proc_Collectors "HOL-Library.AList"
begin

text \<open>
  Memory and CPU of the listed processes: \<^verbatim>\<open>src/runtime/whitelisted_process_reader.cpp\<close>, which reads them from
  \<^verbatim>\<open>/proc\<close>, and \<open>Monitor::record_whitelisted_process_metrics\<close> of \<^verbatim>\<open>src/runtime/monitor.cpp\<close>, which follows the growth of
  each process and hands it to the rule engine. The directory is an argument: its entries in the order of the
  iteration, with what the calls on them return. Times of the steady clock are nanoseconds.
\<close>

section \<open>Reading one process\<close>

text \<open>
  \<open>pd_tasks\<close>: for every entry of \<^verbatim>\<open>task\<close>, whether it is a directory; \<open>pd_tasks_failed\<close>: the iteration ends with an error.
\<close>

record process_dir =
  pd_name :: string
  pd_is_directory :: bool
  pd_comm :: "string option"
  pd_stat :: "string option"
  pd_tasks :: "bool list option"
  pd_tasks_failed :: bool
  pd_status :: "string option"

record process_sample =
  ps_pid :: i32
  ps_name :: string
  ps_starttime_ticks :: u64
  ps_cpu_ticks :: u64
  ps_rss_bytes :: u64
  ps_threads :: u64

record process_scan =
  sc_samples :: "process_sample list"
  sc_uncertain_pids :: "i32 list"
  sc_complete :: bool

definition parse_pid :: "string \<Rightarrow> i32 option" where
  "parse_pid filename =
     (case from_chars_signed filename of
        Inl e \<Rightarrow> None
      | Inr (pid, rest) \<Rightarrow> if rest \<noteq> [] \<or> sint pid \<le> 0 then None else Some pid)"

text \<open>What follows the last closing parenthesis with a blank.\<close>

fun after_last_paren :: "string \<Rightarrow> string option" where
  "after_last_paren [] = None"
| "after_last_paren (c # s) =
     (case after_last_paren s of
        Some rest \<Rightarrow> Some rest
      | None \<Rightarrow> if c = CHR '')'' \<and> s \<noteq> [] \<and> hd s = CHR '' '' then Some (tl s) else None)"

lemma extract_word_shorter:
  assumes "extract_word s = Some (w, rest)"
  shows "length rest < length s"
proof -
  let ?t = "dropWhile is_space s"
  have w: "takeWhile (\<lambda>c. \<not> is_space c) ?t \<noteq> []" "rest = dropWhile (\<lambda>c. \<not> is_space c) ?t"
    using assms by (auto simp: extract_word_def Let_def split: if_splits)
  have "length (takeWhile (\<lambda>c. \<not> is_space c) ?t) + length rest = length ?t"
    unfolding w(2) by (metis length_append takeWhile_dropWhile_id)
  then have "length rest < length ?t" using w(1) by (cases "takeWhile (\<lambda>c. \<not> is_space c) ?t") auto
  then show ?thesis using length_dropWhile_le [of is_space s] by linarith
qed

function words :: "string \<Rightarrow> string list" where
  "words s = (case extract_word s of None \<Rightarrow> [] | Some (w, rest) \<Rightarrow> w # words rest)"
  by pat_completeness auto
termination
  by (relation "measure length") (simp, simp, metis extract_word_shorter)

declare words.simps [simp del]

text \<open>Fields 14, 15 and 22 of \<^verbatim>\<open>stat\<close>, counted after the name: user time, system time and start time.\<close>

definition stat_times :: "string option \<Rightarrow> (u64 \<times> u64 \<times> u64) option" where
  "stat_times file =
     (case file of None \<Rightarrow> None | Some content \<Rightarrow>
      (case get_lines content of [] \<Rightarrow> None | stat # others \<Rightarrow>
       (case after_last_paren stat of None \<Rightarrow> None | Some rest \<Rightarrow>
          let fields = words rest
          in if length fields \<le> 19 then None
             else (case (stoull (fields ! 11), stoull (fields ! 12), stoull (fields ! 19)) of
                     (Inr (utime, r1), Inr (stime, r2), Inr (starttime, r3)) \<Rightarrow> Some (utime, stime, starttime)
                   | errors \<Rightarrow> None))))"

definition count_threads :: "process_dir \<Rightarrow> u64 option" where
  "count_threads d =
     (case pd_tasks d of
        None \<Rightarrow> None
      | Some tasks \<Rightarrow>
          if \<not> list_all id tasks \<or> pd_tasks_failed d \<or> tasks = [] then None else Some (of_nat (length tasks)))"

definition rss_of_line :: "string \<Rightarrow> u64 option" where
  "rss_of_line line =
     (case extract_u64 (drop 6 line) of None \<Rightarrow> None | Some (rss_kb, r1) \<Rightarrow>
      (case extract_word r1 of None \<Rightarrow> None | Some (unit, r2) \<Rightarrow>
         if unit \<noteq> ''kB'' \<or> (- 1) div 1024 < rss_kb then None else Some (rss_kb * 1024)))"

fun rss_of_lines :: "string list \<Rightarrow> u64 option" where
  "rss_of_lines [] = None"
| "rss_of_lines (line # rest) = (if take 6 line = ''VmRSS:'' then rss_of_line line else rss_of_lines rest)"

definition read_details :: "process_dir \<Rightarrow> i32 \<Rightarrow> string \<Rightarrow> process_sample option" where
  "read_details d pid name =
     (case stat_times (pd_stat d) of None \<Rightarrow> None | Some (utime, stime, starttime) \<Rightarrow>
      (case count_threads d of None \<Rightarrow> None | Some threads \<Rightarrow>
       (case pd_status d of None \<Rightarrow> None | Some status \<Rightarrow>
        (case rss_of_lines (get_lines status) of None \<Rightarrow> None | Some rss_bytes \<Rightarrow>
           Some \<lparr>ps_pid = pid, ps_name = name, ps_starttime_ticks = starttime, ps_cpu_ticks = utime + stime,
             ps_rss_bytes = rss_bytes, ps_threads = threads\<rparr>))))"

definition scan_entry :: "string list \<Rightarrow> process_dir \<Rightarrow> process_scan \<Rightarrow> process_scan" where
  "scan_entry whitelist d result =
     (case parse_pid (pd_name d) of
        None \<Rightarrow> result
      | Some pid \<Rightarrow>
          let uncertain = result\<lparr>sc_uncertain_pids := sc_uncertain_pids result @ [pid]\<rparr>
          in if \<not> pd_is_directory d then uncertain
             else (case pd_comm d of
                     None \<Rightarrow> uncertain
                   | Some comm \<Rightarrow>
                       (case get_lines comm of
                          [] \<Rightarrow> uncertain
                        | name # rest \<Rightarrow>
                            if name = [] then uncertain
                            else if name \<notin> set whitelist then result
                            else (case read_details d pid name of
                                    None \<Rightarrow> uncertain
                                  | Some sample \<Rightarrow> result\<lparr>sc_samples := sc_samples result @ [sample]\<rparr>))))"

definition scan_whitelisted_processes :: "string list \<Rightarrow> process_dir list \<times> bool \<Rightarrow> process_scan" where
  "scan_whitelisted_processes whitelist = (\<lambda>(entries, failed).
     (fold (scan_entry whitelist) entries \<lparr>sc_samples = [], sc_uncertain_pids = [], sc_complete = False\<rparr>)
       \<lparr>sc_complete := \<not> failed\<rparr>)"

section \<open>Following the processes\<close>

record process_instance =
  pi_name :: string
  pi_starttime_ticks :: u64

text \<open>The map of instances is iterated, so it is the list of its entries; the order does not matter.\<close>

record process_tracker =
  pt_instances :: "(i32 \<times> process_instance) list"
  pt_cpu_baselines :: "i32 \<rightharpoonup> u64 \<times> int"
  pt_history :: "i32 \<rightharpoonup> (int \<times> u64) list"

definition new_process_tracker :: process_tracker where
  "new_process_tracker = \<lparr>pt_instances = [], pt_cpu_baselines = Map.empty, pt_history = Map.empty\<rparr>"

text \<open>Forgetting a process: its rule context, CPU baseline and history.\<close>

definition forget_process ::
  "i32 \<Rightarrow> process_instance \<Rightarrow> process_tracker \<times> rule_engine \<Rightarrow> process_tracker \<times> rule_engine" where
  "forget_process pid inst = (\<lambda>(t, e).
     (t\<lparr>pt_cpu_baselines := (pt_cpu_baselines t)(pid := None), pt_history := (pt_history t)(pid := None)\<rparr>,
      forget_process_memory (pi_name inst) pid e))"

definition note_instance ::
  "process_sample \<Rightarrow> process_tracker \<times> rule_engine \<Rightarrow> process_tracker \<times> rule_engine" where
  "note_instance sample = (\<lambda>(t, e).
     let pid = ps_pid sample;
         fresh = \<lparr>pi_name = ps_name sample, pi_starttime_ticks = ps_starttime_ticks sample\<rparr>
     in case map_of (pt_instances t) pid of
          None \<Rightarrow> (t\<lparr>pt_instances := (pid, fresh) # pt_instances t\<rparr>, e)
        | Some inst \<Rightarrow>
            if pi_starttime_ticks inst \<noteq> ps_starttime_ticks sample \<or> pi_name inst \<noteq> ps_name sample
            then (case forget_process pid inst (t, e) of
                    (t, e) \<Rightarrow> (t\<lparr>pt_instances := AList.update pid fresh (pt_instances t)\<rparr>, e))
            else (t, e))"

definition cpu_percent :: "int \<Rightarrow> int \<Rightarrow> process_sample \<Rightarrow> process_tracker \<Rightarrow> double" where
  "cpu_percent clock_ticks now_ns sample t =
     (case pt_cpu_baselines t (ps_pid sample) of
        None \<Rightarrow> Fin 0
      | Some (ticks, sampled_ns) \<Rightarrow>
          let elapsed = ddiv (round_double (of_int (now_ns - sampled_ns))) (Fin 1000000000)
          in if 0 < clock_ticks \<and> dlt (Fin 0) elapsed \<and> ticks \<le> ps_cpu_ticks sample
             then ddiv (dmul (double_of_u64 (ps_cpu_ticks sample - ticks)) (Fin 100))
                       (dmul (round_double (of_int clock_ticks)) elapsed)
             else Fin 0)"

text \<open>Samples in front that a younger one, old enough itself, makes superfluous are dropped.\<close>

fun trim_history :: "int \<Rightarrow> int \<Rightarrow> (int \<times> u64) list \<Rightarrow> (int \<times> u64) list" where
  "trim_history window_ns now_ns (first # second # rest) =
     (if window_ns \<le> now_ns - fst second then trim_history window_ns now_ns (second # rest)
      else first # second # rest)"
| "trim_history window_ns now_ns history = history"

definition growth_window_ns :: "monitor_config \<Rightarrow> int" where
  "growth_window_ns cfg = int (unat (process_memory_growth_window_sec cfg)) * 1000000000"

text \<open>The growth over the window, once the history reaches back that far.\<close>

definition growth_of :: "monitor_config \<Rightarrow> int \<Rightarrow> u64 \<Rightarrow> (int \<times> u64) list \<Rightarrow> double option" where
  "growth_of cfg now_ns rss_bytes history =
     (if 1 < length history \<and> growth_window_ns cfg \<le> now_ns - fst (hd history)
      then Some (ddiv (dsub (double_of_u64 rss_bytes) (double_of_u64 (snd (hd history)))) (Fin 1048576))
      else None)"

text \<open>
  One scanned process. The clock of the rule engine is read twice; the results are the CPU share handed to the
  metrics, and the event to publish, if there is one.
\<close>

definition record_process ::
  "monitor_config \<Rightarrow> int \<Rightarrow> int \<Rightarrow> u64 \<times> u64 \<Rightarrow> process_sample \<Rightarrow> process_tracker \<times> rule_engine \<Rightarrow>
   (process_tracker \<times> rule_engine) \<times> double \<times> internal_event option" where
  "record_process cfg clock_ticks now_ns clock sample te =
     (case note_instance sample te of
        (t, e) \<Rightarrow>
          let pid = ps_pid sample;
              percent = cpu_percent clock_ticks now_ns sample t;
              t = t\<lparr>pt_cpu_baselines := (pt_cpu_baselines t)(pid \<mapsto> (ps_cpu_ticks sample, now_ns))\<rparr>
          in if \<not> process_memory_enable cfg then ((t, e), percent, None)
             else let history = (case pt_history t pid of None \<Rightarrow> [] | Some h \<Rightarrow> h) @ [(now_ns, ps_rss_bytes sample)];
                      history = trim_history (growth_window_ns cfg) now_ns history;
                      t = t\<lparr>pt_history := (pt_history t)(pid \<mapsto> history)\<rparr>
                  in case growth_of cfg now_ns (ps_rss_bytes sample) history of
                       None \<Rightarrow> ((t, e), percent, None)
                     | Some growth_mb \<Rightarrow>
                         (case evaluate_process_memory_growth cfg (fst clock) (snd clock) (ps_name sample) pid growth_mb e of
                            (e, event) \<Rightarrow> ((t, e), percent, event)))"

fun record_processes ::
  "monitor_config \<Rightarrow> int \<Rightarrow> int \<Rightarrow> (process_sample \<times> u64 \<times> u64) list \<Rightarrow> process_tracker \<times> rule_engine \<Rightarrow>
   (process_tracker \<times> rule_engine) \<times> internal_event list" where
  "record_processes cfg clock_ticks now_ns [] te = (te, [])"
| "record_processes cfg clock_ticks now_ns ((sample, clock) # rest) te =
     (case record_process cfg clock_ticks now_ns clock sample te of
        (te, percent, event) \<Rightarrow>
          (case record_processes cfg clock_ticks now_ns rest te of
             (te, events) \<Rightarrow> (te, (case event of None \<Rightarrow> events | Some e \<Rightarrow> e # events))))"

text \<open>After a complete scan the processes that were neither sampled nor uncertain are gone.\<close>

definition forget_gone :: "i32 list \<Rightarrow> process_tracker \<times> rule_engine \<Rightarrow> process_tracker \<times> rule_engine" where
  "forget_gone live = (\<lambda>(t, e).
     case fold (\<lambda>(pid, inst). forget_process pid inst) (filter (\<lambda>(pid, inst). pid \<notin> set live) (pt_instances t)) (t, e) of
       (t, e) \<Rightarrow> (t\<lparr>pt_instances := filter (\<lambda>(pid, inst). pid \<in> set live) (pt_instances t)\<rparr>, e))"

text \<open>What one round gets from outside: the directory, the tick rate, the steady clock and the clocks of the rule engine.\<close>

record process_round =
  pr_directory :: "process_dir list \<times> bool"
  pr_clock_ticks :: int
  pr_now_ns :: int
  pr_clock :: "i32 \<Rightarrow> u64 \<times> u64"

definition record_whitelisted_process_metrics ::
  "monitor_config \<Rightarrow> process_round \<Rightarrow> process_tracker \<times> rule_engine \<Rightarrow>
   (process_tracker \<times> rule_engine) \<times> internal_event list" where
  "record_whitelisted_process_metrics cfg r te =
     (if sched_process_whitelist cfg = [] \<or> (\<not> metrics_scrape_collectors cfg \<and> \<not> process_memory_enable cfg)
      then (te, [])
      else let found = scan_whitelisted_processes (sched_process_whitelist cfg) (pr_directory r)
           in case record_processes cfg (pr_clock_ticks r) (pr_now_ns r)
                     (map (\<lambda>s. (s, pr_clock r (ps_pid s))) (sc_samples found)) te of
                (te, events) \<Rightarrow>
                  (if sc_complete found then forget_gone (sc_uncertain_pids found @ map ps_pid (sc_samples found)) te else te,
                   events))"

section \<open>Runs\<close>

text \<open>The operations rounds consist of, so that a property can speak of every moment within a round.\<close>

datatype process_op = Recorded int int "u64 \<times> u64" process_sample | Gone "i32 list"

fun process_step :: "monitor_config \<Rightarrow> process_op \<Rightarrow> process_tracker \<times> rule_engine \<Rightarrow> process_tracker \<times> rule_engine" where
  "process_step cfg (Recorded ticks now_ns clock sample) te = fst (record_process cfg ticks now_ns clock sample te)"
| "process_step cfg (Gone live) te = forget_gone live te"

definition process_run :: "monitor_config \<Rightarrow> process_op list \<Rightarrow> process_tracker \<times> rule_engine \<Rightarrow> process_tracker \<times> rule_engine" where
  "process_run cfg ops te = fold (process_step cfg) ops te"

definition round_ops :: "monitor_config \<Rightarrow> process_round \<Rightarrow> process_op list" where
  "round_ops cfg r =
     (if sched_process_whitelist cfg = [] \<or> (\<not> metrics_scrape_collectors cfg \<and> \<not> process_memory_enable cfg) then []
      else let found = scan_whitelisted_processes (sched_process_whitelist cfg) (pr_directory r)
           in map (\<lambda>s. Recorded (pr_clock_ticks r) (pr_now_ns r) (pr_clock r (ps_pid s)) s) (sc_samples found) @
              (if sc_complete found then [Gone (sc_uncertain_pids found @ map ps_pid (sc_samples found))] else []))"

lemma record_processes_run:
  "fst (record_processes cfg ticks now_ns (map (\<lambda>s. (s, clock s)) samples) te) =
     process_run cfg (map (\<lambda>s. Recorded ticks now_ns (clock s) s) samples) te"
  by (induction samples arbitrary: te) (simp_all add: process_run_def case_prod_beta)

text \<open>A round is the run of its operations.\<close>

lemma process_run_append: "process_run cfg (ops @ ops') te = process_run cfg ops' (process_run cfg ops te)"
  by (simp add: process_run_def)

lemma process_run_simps [simp]: "process_run cfg [] te = te"
  "process_run cfg (op # ops) te = process_run cfg ops (process_step cfg op te)"
  by (simp_all add: process_run_def)

lemma round_is_run: "fst (record_whitelisted_process_metrics cfg r te) = process_run cfg (round_ops cfg r) te"
proof -
  let ?found = "scan_whitelisted_processes (sched_process_whitelist cfg) (pr_directory r)"
  have run: "fst (record_processes cfg (pr_clock_ticks r) (pr_now_ns r) (map (\<lambda>s. (s, pr_clock r (ps_pid s))) (sc_samples ?found)) te) =
      process_run cfg (map (\<lambda>s. Recorded (pr_clock_ticks r) (pr_now_ns r) (pr_clock r (ps_pid s)) s) (sc_samples ?found)) te"
    by (rule record_processes_run)
  show ?thesis
    by (simp add: record_whitelisted_process_metrics_def round_ops_def Let_def case_prod_beta process_run_append flip: run)
qed

lemma forget_process_fields:
  "pt_instances (fst (forget_process pid inst te)) = pt_instances (fst te)"
  "pt_history (fst (forget_process pid inst te)) = (pt_history (fst te))(pid := None)"
  "pt_cpu_baselines (fst (forget_process pid inst te)) = (pt_cpu_baselines (fst te))(pid := None)"
  "snd (forget_process pid inst te) = forget_process_memory (pi_name inst) pid (snd te)"
  by (simp_all add: forget_process_def case_prod_beta)

lemma forget_processes_fields:
  "pt_instances (fst (fold (\<lambda>(pid, inst). forget_process pid inst) gone te)) = pt_instances (fst te)"
  "pt_history (fst (fold (\<lambda>(pid, inst). forget_process pid inst) gone te)) pid =
     (if pid \<in> fst ` set gone then None else pt_history (fst te) pid)"
  "pt_cpu_baselines (fst (fold (\<lambda>(pid, inst). forget_process pid inst) gone te)) pid =
     (if pid \<in> fst ` set gone then None else pt_cpu_baselines (fst te) pid)"
  by (induction gone arbitrary: te) (auto simp: forget_process_fields)

lemma forget_gone_fields:
  "map_of (pt_instances (fst (forget_gone live te))) pid =
     (if pid \<in> set live then map_of (pt_instances (fst te)) pid else None)"
  "pt_history (fst (forget_gone live te)) pid =
     (if pid \<notin> set live \<and> map_of (pt_instances (fst te)) pid \<noteq> None then None else pt_history (fst te) pid)"
  "pt_cpu_baselines (fst (forget_gone live te)) pid =
     (if pid \<notin> set live \<and> map_of (pt_instances (fst te)) pid \<noteq> None then None else pt_cpu_baselines (fst te) pid)"
proof -
  have filter: "map_of (filter (\<lambda>(k, v). k \<in> S) xs) k = (if k \<in> S then map_of xs k else None)" for S k and xs :: "(i32 \<times> process_instance) list"
    by (induction xs) auto
  have gone: "pid \<in> fst ` set (filter (\<lambda>(pid, inst). pid \<notin> set live) (pt_instances (fst te))) \<longleftrightarrow>
      pid \<notin> set live \<and> map_of (pt_instances (fst te)) pid \<noteq> None"
    by (force simp: map_of_eq_None_iff image_iff)
  obtain t e where te: "te = (t, e)" by (cases te)
  show "map_of (pt_instances (fst (forget_gone live te))) pid = (if pid \<in> set live then map_of (pt_instances (fst te)) pid else None)"
  proof -
    have "pt_instances (fst (forget_gone live te)) = filter (\<lambda>(pid, inst). pid \<in> set live)
        (pt_instances (fst (fold (\<lambda>(pid, inst). forget_process pid inst)
          (filter (\<lambda>(pid, inst). pid \<notin> set live) (pt_instances (fst te))) te)))"
      by (simp add: forget_gone_def case_prod_beta)
    then show ?thesis by (simp only: forget_processes_fields(1) filter)
  qed
  show "pt_history (fst (forget_gone live te)) pid =
     (if pid \<notin> set live \<and> map_of (pt_instances (fst te)) pid \<noteq> None then None else pt_history (fst te) pid)"
    using forget_processes_fields(2) [of "filter (\<lambda>(pid, inst). pid \<notin> set live) (pt_instances (fst te))" te pid]
    unfolding gone by (simp add: forget_gone_def case_prod_beta)
  show "pt_cpu_baselines (fst (forget_gone live te)) pid =
     (if pid \<notin> set live \<and> map_of (pt_instances (fst te)) pid \<noteq> None then None else pt_cpu_baselines (fst te) pid)"
    using forget_processes_fields(3) [of "filter (\<lambda>(pid, inst). pid \<notin> set live) (pt_instances (fst te))" te pid]
    unfolding gone by (simp add: forget_gone_def case_prod_beta)
qed

section \<open>Growth is measured within one process\<close>

fun recorded :: "process_op list \<Rightarrow> (int \<times> process_sample) list" where
  "recorded [] = []"
| "recorded (Recorded ticks now_ns clock sample # ops) = (now_ns, sample) # recorded ops"
| "recorded (Gone live # ops) = recorded ops"

definition same_process :: "process_instance \<Rightarrow> process_sample \<Rightarrow> bool" where
  "same_process inst s \<longleftrightarrow> pi_name inst = ps_name s \<and> pi_starttime_ticks inst = ps_starttime_ticks s"

text \<open>Every entry of a history is an earlier sample of the process instance that now has the number.\<close>

definition entries_ok :: "(int \<times> process_sample) set \<Rightarrow> i32 \<Rightarrow> process_instance \<Rightarrow> (int \<times> u64) list \<Rightarrow> bool" where
  "entries_ok past pid inst h \<longleftrightarrow> (\<forall>entry \<in> set h. \<exists>s. (fst entry, s) \<in> past \<and> ps_pid s = pid \<and>
     ps_rss_bytes s = snd entry \<and> same_process inst s)"

definition histories_ok :: "(int \<times> process_sample) set \<Rightarrow> process_tracker \<Rightarrow> bool" where
  "histories_ok past t \<longleftrightarrow> (\<forall>pid h. pt_history t pid = Some h \<longrightarrow>
     (\<exists>inst. map_of (pt_instances t) pid = Some inst \<and> entries_ok past pid inst h))"

lemma histories_okI:
  "(\<And>pid h. pt_history t pid = Some h \<Longrightarrow> \<exists>inst. map_of (pt_instances t) pid = Some inst \<and> entries_ok past pid inst h) \<Longrightarrow>
   histories_ok past t"
  by (simp add: histories_ok_def)

lemma histories_okD:
  "histories_ok past t \<Longrightarrow> pt_history t pid = Some h \<Longrightarrow>
   \<exists>inst. map_of (pt_instances t) pid = Some inst \<and> entries_ok past pid inst h"
  by (simp add: histories_ok_def)

lemma entries_ok_mono: "entries_ok past pid inst h \<Longrightarrow> past \<subseteq> past' \<Longrightarrow> entries_ok past' pid inst h"
  unfolding entries_ok_def by blast

lemma histories_ok_mono: "histories_ok past t \<Longrightarrow> past \<subseteq> past' \<Longrightarrow> histories_ok past' t"
  by (intro histories_okI) (metis histories_okD entries_ok_mono)

lemma note_instance_ok:
  assumes "histories_ok past (fst te)"
  shows "histories_ok past (fst (note_instance sample te))"
    and "\<exists>inst. map_of (pt_instances (fst (note_instance sample te))) (ps_pid sample) = Some inst \<and> same_process inst sample"
proof -
  obtain t e where te: "te = (t, e)" by (cases te)
  let ?fresh = "\<lparr>pi_name = ps_name sample, pi_starttime_ticks = ps_starttime_ticks sample\<rparr>"
  consider "map_of (pt_instances t) (ps_pid sample) = None"
    | inst where "map_of (pt_instances t) (ps_pid sample) = Some inst" "same_process inst sample"
    | inst where "map_of (pt_instances t) (ps_pid sample) = Some inst" "\<not> same_process inst sample" by fastforce
  then have "histories_ok past (fst (note_instance sample te)) \<and>
    (\<exists>inst. map_of (pt_instances (fst (note_instance sample te))) (ps_pid sample) = Some inst \<and> same_process inst sample)"
  proof cases
    case 1
    then have "pt_history t (ps_pid sample) = None"
      using histories_okD [of past t "ps_pid sample"] assms by (cases "pt_history t (ps_pid sample)") (auto simp: te)
    then have "histories_ok past (t\<lparr>pt_instances := (ps_pid sample, ?fresh) # pt_instances t\<rparr>)"
      using histories_okD [of past t] assms by (intro histories_okI) (auto simp: te)
    then show ?thesis using 1 by (simp add: te note_instance_def Let_def same_process_def)
  next
    case 2
    then show ?thesis using assms by (auto simp: te note_instance_def Let_def same_process_def)
  next
    case 3
    then have step: "note_instance sample te = (case forget_process (ps_pid sample) inst (t, e) of
        (t, e) \<Rightarrow> (t\<lparr>pt_instances := AList.update (ps_pid sample) ?fresh (pt_instances t)\<rparr>, e))"
      by (auto simp: te note_instance_def Let_def same_process_def)
    have history: "pt_history (fst (note_instance sample te)) = (pt_history t)(ps_pid sample := None)"
      unfolding step by (simp add: case_prod_beta forget_process_fields)
    have instances: "map_of (pt_instances (fst (note_instance sample te))) = (map_of (pt_instances t))(ps_pid sample \<mapsto> ?fresh)"
      unfolding step by (simp add: case_prod_beta forget_process_fields update_conv')
    have ok: "histories_ok past t" using assms by (simp add: te)
    have "histories_ok past (fst (note_instance sample te))"
      using histories_okD [OF ok] by (intro histories_okI) (auto simp: history instances split: if_splits)
    then show ?thesis by (simp add: instances same_process_def)
  qed
  then show "histories_ok past (fst (note_instance sample te))"
    "\<exists>inst. map_of (pt_instances (fst (note_instance sample te))) (ps_pid sample) = Some inst \<and> same_process inst sample"
    by blast+
qed

lemma trim_history_suffix: "\<exists>dropped. h = dropped @ trim_history window_ns now_ns h"
proof (induction window_ns now_ns h rule: trim_history.induct)
  case (1 window_ns now_ns first second rest)
  then show ?case by (cases "window_ns \<le> now_ns - fst second") (auto, metis append_Cons)
qed auto

lemma trim_history_set: "set (trim_history window_ns now_ns h) \<subseteq> set h"
  using trim_history_suffix [of h window_ns now_ns] by (metis set_append sup_ge2)

text \<open>What recording a process does to the tracker, in one step.\<close>

lemma record_process_tracker:
  assumes "note_instance sample te = (t, e)"
    and "h = trim_history (growth_window_ns cfg) now_ns
      ((case pt_history t (ps_pid sample) of None \<Rightarrow> [] | Some h \<Rightarrow> h) @ [(now_ns, ps_rss_bytes sample)])"
  shows "pt_instances (fst (fst (record_process cfg ticks now_ns clock sample te))) = pt_instances t"
    and "pt_history (fst (fst (record_process cfg ticks now_ns clock sample te))) =
      (if process_memory_enable cfg then (pt_history t)(ps_pid sample \<mapsto> h) else pt_history t)"
    and "snd (snd (record_process cfg ticks now_ns clock sample te)) =
      (if process_memory_enable cfg then Option.bind (growth_of cfg now_ns (ps_rss_bytes sample) h) (\<lambda>growth.
         snd (evaluate_process_memory_growth cfg (fst clock) (snd clock) (ps_name sample) (ps_pid sample) growth e)) else None)"
  by (simp_all add: record_process_def assms Let_def split: option.split prod.split)

lemma old_entries:
  assumes "histories_ok past (fst te)" and "note_instance sample te = (t, e)"
  shows "\<exists>inst. map_of (pt_instances t) (ps_pid sample) = Some inst \<and> same_process inst sample \<and>
    entries_ok past (ps_pid sample) inst (case pt_history t (ps_pid sample) of None \<Rightarrow> [] | Some h \<Rightarrow> h)"
proof -
  obtain inst where inst: "map_of (pt_instances t) (ps_pid sample) = Some inst" "same_process inst sample"
    using note_instance_ok(2) [OF assms(1), of sample] assms(2) by auto
  have ok: "histories_ok past t" using note_instance_ok(1) [OF assms(1), of sample] assms(2) by simp
  have "entries_ok past (ps_pid sample) inst (case pt_history t (ps_pid sample) of None \<Rightarrow> [] | Some h \<Rightarrow> h)"
  proof (cases "pt_history t (ps_pid sample)")
    case None
    then show ?thesis by (simp add: entries_ok_def)
  next
    case (Some h)
    then show ?thesis using histories_okD [OF ok Some] inst(1) by simp
  qed
  then show ?thesis using inst by blast
qed

lemma record_process_entries:
  assumes "histories_ok past (fst te)" and "note_instance sample te = (t, e)"
    and "h = trim_history (growth_window_ns cfg) now_ns
      ((case pt_history t (ps_pid sample) of None \<Rightarrow> [] | Some h \<Rightarrow> h) @ [(now_ns, ps_rss_bytes sample)])"
  shows "\<exists>inst. map_of (pt_instances t) (ps_pid sample) = Some inst \<and>
    entries_ok (insert (now_ns, sample) past) (ps_pid sample) inst h"
proof -
  define old where "old = (case pt_history t (ps_pid sample) of None \<Rightarrow> [] | Some h \<Rightarrow> h)"
  obtain inst where inst: "map_of (pt_instances t) (ps_pid sample) = Some inst" "same_process inst sample"
      "entries_ok past (ps_pid sample) inst old"
    using old_entries [OF assms(1,2)] unfolding old_def by blast
  then have "entries_ok (insert (now_ns, sample) past) (ps_pid sample) inst (old @ [(now_ns, ps_rss_bytes sample)])"
    unfolding entries_ok_def by auto
  moreover have "set h \<subseteq> set (old @ [(now_ns, ps_rss_bytes sample)])"
    unfolding assms(3) old_def by (rule trim_history_set)
  ultimately show ?thesis using inst(1) unfolding entries_ok_def by blast
qed

lemma record_process_ok:
  assumes "histories_ok past (fst te)"
  shows "histories_ok (insert (now_ns, sample) past) (fst (fst (record_process cfg ticks now_ns clock sample te)))"
proof -
  let ?past = "insert (now_ns, sample) past"
  obtain t e where note_eq: "note_instance sample te = (t, e)" by fastforce
  define h where h: "h = trim_history (growth_window_ns cfg) now_ns
      ((case pt_history t (ps_pid sample) of None \<Rightarrow> [] | Some h \<Rightarrow> h) @ [(now_ns, ps_rss_bytes sample)])"
  have "histories_ok past t" using note_instance_ok(1) [OF assms, of sample] note_eq by simp
  then have ok: "histories_ok ?past t" using histories_ok_mono by blast
  show ?thesis
    using histories_okD [OF ok] record_process_entries [OF assms note_eq h]
    by (intro histories_okI) (auto simp: record_process_tracker [OF note_eq h] split: if_splits)
qed

lemma process_run_ok: "histories_ok past (fst te) \<Longrightarrow> histories_ok (past \<union> set (recorded ops)) (fst (process_run cfg ops te))"
proof (induction ops arbitrary: past te)
  case (Cons op ops)
  show ?case
  proof (cases op)
    case (Recorded ticks now_ns clock sample)
    then show ?thesis using Cons(1) [OF record_process_ok [OF Cons(2)]] by simp
  next
    case (Gone live)
    have "histories_ok past (fst (forget_gone live te))"
      using histories_okD [OF Cons(2)] by (intro histories_okI) (fastforce simp: forget_gone_fields split: if_splits)
    then show ?thesis using Cons(1) Gone by simp
  qed
qed simp

text \<open>
  C23: whenever a memory growth event is returned, at any moment of any sequence of rounds, the growth
  it is evaluated on is measured against an earlier sample of the very same process (number, name and start time), taken
  at least one growth window before: a number that a new process took over starts anew.
\<close>

theorem growth_same_process:
  assumes "process_run cfg ops (new_process_tracker, e0) = (t, e)"
    and "record_process cfg ticks now_ns clock sample (t, e) = (te', percent, Some event)"
  shows "\<exists>before s e'. (before, s) \<in> set (recorded ops) \<and> ps_pid s = ps_pid sample \<and> ps_name s = ps_name sample \<and>
    ps_starttime_ticks s = ps_starttime_ticks sample \<and> growth_window_ns cfg \<le> now_ns - before \<and>
    snd (evaluate_process_memory_growth cfg (fst clock) (snd clock) (ps_name sample) (ps_pid sample)
      (ddiv (dsub (double_of_u64 (ps_rss_bytes sample)) (double_of_u64 (ps_rss_bytes s))) (Fin 1048576)) e') = Some event"
proof -
  have ok: "histories_ok (set (recorded ops)) (fst (t, e))"
    using process_run_ok [where past = "{}" and te = "(new_process_tracker, e0)" and cfg = cfg and ops = ops] assms(1)
    by (simp add: histories_ok_def new_process_tracker_def)
  obtain t1 e1 where note_eq: "note_instance sample (t, e) = (t1, e1)" by fastforce
  define old where "old = (case pt_history t1 (ps_pid sample) of None \<Rightarrow> [] | Some h \<Rightarrow> h)"
  define h where h: "h = trim_history (growth_window_ns cfg) now_ns (old @ [(now_ns, ps_rss_bytes sample)])"
  obtain inst where inst: "same_process inst sample" "entries_ok (set (recorded ops)) (ps_pid sample) inst old"
    using old_entries [OF ok note_eq] unfolding old_def by blast
  have "snd (snd (record_process cfg ticks now_ns clock sample (t, e))) = Some event" using assms(2) by simp
  then have event: "Option.bind (growth_of cfg now_ns (ps_rss_bytes sample) h) (\<lambda>growth.
      snd (evaluate_process_memory_growth cfg (fst clock) (snd clock) (ps_name sample) (ps_pid sample) growth e1)) = Some event"
    unfolding record_process_tracker(3) [OF note_eq h [unfolded old_def]] by (simp split: if_splits)
  then have long: "1 < length h" "growth_window_ns cfg \<le> now_ns - fst (hd h)"
    by (auto simp: growth_of_def split: if_splits)
  obtain dropped where "old @ [(now_ns, ps_rss_bytes sample)] = dropped @ h"
    using trim_history_suffix unfolding h by blast
  then have "hd h \<in> set old" using long(1) by (cases h rule: rev_cases) (auto simp: hd_append)
  then obtain s where s: "(fst (hd h), s) \<in> set (recorded ops)" "ps_pid s = ps_pid sample" "ps_rss_bytes s = snd (hd h)"
      "same_process inst s"
    using inst(2) unfolding entries_ok_def by blast
  have "growth_of cfg now_ns (ps_rss_bytes sample) h =
      Some (ddiv (dsub (double_of_u64 (ps_rss_bytes sample)) (double_of_u64 (ps_rss_bytes s))) (Fin 1048576))"
    using long s(3) by (simp add: growth_of_def)
  then show ?thesis using event s long(2) inst(1) unfolding same_process_def
    by (intro exI [of _ "fst (hd h)"] exI [of _ s] exI [of _ e1]) simp
qed

lemma note_instance_other:
  assumes "pid \<noteq> ps_pid sample"
  shows "map_of (pt_instances (fst (note_instance sample te))) pid = map_of (pt_instances (fst te)) pid"
    and "pt_history (fst (note_instance sample te)) pid = pt_history (fst te) pid"
    and "pt_cpu_baselines (fst (note_instance sample te)) pid = pt_cpu_baselines (fst te) pid"
  using assms by (auto simp: note_instance_def Let_def forget_process_def update_conv' split: option.split prod.split)

lemma record_process_other:
  assumes "pid \<noteq> ps_pid sample"
  shows "map_of (pt_instances (fst (fst (record_process cfg ticks now_ns clock sample te)))) pid = map_of (pt_instances (fst te)) pid"
    and "pt_history (fst (fst (record_process cfg ticks now_ns clock sample te))) pid = pt_history (fst te) pid"
    and "pt_cpu_baselines (fst (fst (record_process cfg ticks now_ns clock sample te))) pid = pt_cpu_baselines (fst te) pid"
proof -
  obtain t e where note_eq: "note_instance sample te = (t, e)" by fastforce
  have other: "map_of (pt_instances t) pid = map_of (pt_instances (fst te)) pid" "pt_history t pid = pt_history (fst te) pid"
      "pt_cpu_baselines t pid = pt_cpu_baselines (fst te) pid"
    using note_instance_other [OF assms, of te] note_eq by simp_all
  have "pt_cpu_baselines (fst (fst (record_process cfg ticks now_ns clock sample te))) pid = pt_cpu_baselines t pid"
    using assms by (simp add: record_process_def note_eq Let_def split: option.split prod.split)
  then show "pt_cpu_baselines (fst (fst (record_process cfg ticks now_ns clock sample te))) pid = pt_cpu_baselines (fst te) pid"
    using other(3) by simp
  show "map_of (pt_instances (fst (fst (record_process cfg ticks now_ns clock sample te)))) pid = map_of (pt_instances (fst te)) pid"
    using other(1) by (simp add: record_process_tracker(1) [OF note_eq refl])
  show "pt_history (fst (fst (record_process cfg ticks now_ns clock sample te))) pid = pt_history (fst te) pid"
    using other(2) assms by (simp add: record_process_tracker(2) [OF note_eq refl])
qed

lemma process_run_other:
  assumes "\<forall>op \<in> set ops. \<exists>ticks now_ns clock s. op = Recorded ticks now_ns clock s \<and> ps_pid s \<noteq> pid"
  shows "map_of (pt_instances (fst (process_run cfg ops te))) pid = map_of (pt_instances (fst te)) pid \<and>
    pt_history (fst (process_run cfg ops te)) pid = pt_history (fst te) pid \<and>
    pt_cpu_baselines (fst (process_run cfg ops te)) pid = pt_cpu_baselines (fst te) pid"
  using assms
proof (induction ops arbitrary: te)
  case (Cons op ops)
  then obtain ticks now_ns clock s where op: "op = Recorded ticks now_ns clock s" and s: "pid \<noteq> ps_pid s" by auto
  show ?case using Cons by (simp add: op record_process_other [OF s])
qed simp

lemma forget_processes_engine:
  assumes "(pid, inst) \<in> set gone \<or> re_process_memory (snd te) (process_key (pi_name inst) pid) = None"
  shows "re_process_memory (snd (fold (\<lambda>(pid, inst). forget_process pid inst) gone te)) (process_key (pi_name inst) pid) = None"
  using assms
proof (induction gone arbitrary: te)
  case (Cons g gone)
  obtain p i where g: "g = (p, i)" by (cases g)
  have "(pid, inst) \<in> set gone \<or> re_process_memory (snd (forget_process p i te)) (process_key (pi_name inst) pid) = None"
    using Cons(2) by (auto simp: g forget_process_fields forget_process_memory_def)
  then show ?case using Cons(1) by (simp add: g)
qed simp

text \<open>
  C25: after a round, a known process that was not sampled is forgotten with everything kept for it,
  its rule context included, if the scan was complete and the process not uncertain; otherwise everything is kept.
\<close>

theorem gone_processes_forgotten:
  assumes "found = scan_whitelisted_processes (sched_process_whitelist cfg) (pr_directory r)"
    and "sched_process_whitelist cfg \<noteq> []" and "metrics_scrape_collectors cfg \<or> process_memory_enable cfg"
    and "map_of (pt_instances t) pid = Some inst" and "pid \<notin> ps_pid ` set (sc_samples found)"
    and "record_whitelisted_process_metrics cfg r (t, e) = ((t', e'), events)"
  shows "if sc_complete found \<and> pid \<notin> set (sc_uncertain_pids found)
    then map_of (pt_instances t') pid = None \<and> pt_history t' pid = None \<and> pt_cpu_baselines t' pid = None \<and>
      re_process_memory e' (process_key (pi_name inst) pid) = None
    else map_of (pt_instances t') pid = Some inst \<and> pt_history t' pid = pt_history t pid \<and>
      pt_cpu_baselines t' pid = pt_cpu_baselines t pid"
proof -
  define ops where "ops = map (\<lambda>s. Recorded (pr_clock_ticks r) (pr_now_ns r) (pr_clock r (ps_pid s)) s) (sc_samples found)"
  define te1 where "te1 = process_run cfg ops (t, e)"
  define live where "live = sc_uncertain_pids found @ map ps_pid (sc_samples found)"
  have "(t', e') = process_run cfg (round_ops cfg r) (t, e)" using round_is_run [of cfg r "(t, e)"] assms(6) by simp
  then have result: "(t', e') = (if sc_complete found then forget_gone live te1 else te1)"
    using assms(2,3) unfolding round_ops_def Let_def assms(1) [symmetric] te1_def ops_def live_def
    by (auto simp: process_run_append)
  have "\<forall>op \<in> set ops. \<exists>ticks now_ns clock s. op = Recorded ticks now_ns clock s \<and> ps_pid s \<noteq> pid"
    using assms(5) unfolding ops_def by auto
  then have kept: "map_of (pt_instances (fst te1)) pid = Some inst" "pt_history (fst te1) pid = pt_history t pid"
      "pt_cpu_baselines (fst te1) pid = pt_cpu_baselines t pid"
    using process_run_other [of ops pid cfg "(t, e)"] assms(4) unfolding te1_def by simp_all
  have live: "pid \<in> set live \<longleftrightarrow> pid \<in> set (sc_uncertain_pids found)" using assms(5) unfolding live_def by auto
  show ?thesis
  proof (cases "sc_complete found")
    case False
    then have "t' = fst te1" using result by (metis fst_conv)
    then show ?thesis using False kept by simp
  next
    case True
    then have t': "t' = fst (forget_gone live te1)" and e': "e' = snd (forget_gone live te1)" using result by (metis fst_conv snd_conv)+
    have "re_process_memory e' (process_key (pi_name inst) pid) = None" if "pid \<notin> set live"
    proof -
      have "(pid, inst) \<in> set (filter (\<lambda>(pid, inst). pid \<notin> set live) (pt_instances (fst te1)))"
        using that map_of_SomeD [OF kept(1)] by simp
      then have "re_process_memory (snd (fold (\<lambda>(pid, inst). forget_process pid inst)
          (filter (\<lambda>(pid, inst). pid \<notin> set live) (pt_instances (fst te1))) te1)) (process_key (pi_name inst) pid) = None"
        using forget_processes_engine by blast
      then show ?thesis unfolding e' forget_gone_def by (simp add: case_prod_beta)
    qed
    then show ?thesis using True kept live by (auto simp: t' forget_gone_fields)
  qed
qed

definition wit_process :: "u64 \<Rightarrow> process_sample" where
  "wit_process rss = \<lparr>ps_pid = 12, ps_name = ''app'', ps_starttime_ticks = 77, ps_cpu_ticks = 5, ps_rss_bytes = rss, ps_threads = 1\<rparr>"

theorem growth_same_process_witness:
  "\<exists>te' percent event before s. record_process default_config 100 600000000000 (5, 5) (wit_process 209715200)
      (process_run default_config [Recorded 100 0 (4, 4) (wit_process 0)]
        (new_process_tracker, (new_rule_engine default_config)\<lparr>re_process_memory := Map.empty\<rparr>)) = (te', percent, Some event) \<and>
    (before, s) \<in> set (recorded [Recorded 100 0 (4, 4) (wit_process 0)]) \<and> 600000000000 \<le> 600000000000 - before \<and> ps_pid s = 12"
proof -
  let ?cfg = "default_config" and ?e = "(new_rule_engine default_config)\<lparr>re_process_memory := Map.empty\<rparr>"
  let ?first = "\<lparr>pt_instances = [(12, \<lparr>pi_name = ''app'', pi_starttime_ticks = 77\<rparr>)], pt_cpu_baselines = [12 \<mapsto> (5, 0)],
    pt_history = [12 \<mapsto> [(0, 0)]]\<rparr>"
  have cfg: "process_memory_enable ?cfg" "growth_window_ns ?cfg = 600000000000"
    by (simp_all add: default_config_def growth_window_ns_def)
  have first: "process_run ?cfg [Recorded 100 0 (4, 4) (wit_process 0)] (new_process_tracker, ?e) = (?first, ?e)"
    by (simp add: record_process_def note_instance_def new_process_tracker_def wit_process_def cfg growth_of_def Let_def)
  have thresholds: "td_critical_threshold (process_memory_rule ?cfg) = Fin 200" "td_direction (process_memory_rule ?cfg) = GreaterOrEqual"
      "td_critical_windows (process_memory_rule ?cfg) = 1"
    using double_of_u64_exact [of 200] by (simp_all add: process_memory_rule_def default_config_def)
  have critical: "snd (evaluate_threshold ?cfg now (process_memory_rule ?cfg) (Fin 200) False False False
      (empty_context\<lparr>rc_last_seen_ms := 5\<rparr>)) = Some LevelCritical" for now
    by (simp add: evaluate_threshold_def reaches_def thresholds empty_context_def Let_def)
  have "snd (evaluate_process_memory_growth ?cfg 5 5 ''app'' 12 (Fin 200) ?e) \<noteq> None"
    using critical [of 5]
    by (simp add: evaluate_process_memory_growth_def cfg Let_def touch_def prune_expired_contexts_def map_filter_vals_def expired_def
        default_config_def [THEN arg_cong [of _ _ state_ttl_sec]] case_prod_beta)
  then obtain event where event: "snd (evaluate_process_memory_growth ?cfg 5 5 ''app'' 12 (Fin 200) ?e) = Some event" by blast
  have growth: "ddiv (dsub (double_of_u64 209715200) (double_of_u64 0)) (Fin 1048576) = Fin 200"
    using double_of_u64_exact [of 209715200] double_of_u64_exact [of 0] round_double_of_nat [of 209715200] round_double_of_nat [of 200]
    by (simp add: dsub_def)
  obtain e' where evaluated: "evaluate_process_memory_growth ?cfg 5 5 ''app'' 12 (Fin 200) ?e = (e', Some event)"
    using event by (metis prod.collapse)
  obtain te' percent where step: "record_process ?cfg 100 600000000000 (5, 5) (wit_process 209715200) (?first, ?e) = (te', percent, Some event)"
    by (simp add: record_process_def note_instance_def wit_process_def cfg growth_of_def growth evaluated Let_def)
  show ?thesis
    using growth_same_process [OF first step] step unfolding first cfg(2) by (auto simp: wit_process_def)
qed

theorem gone_processes_forgotten_witness:
  "\<exists>t' e' events. record_whitelisted_process_metrics (default_config\<lparr>sched_process_whitelist := [''app'']\<rparr>)
      \<lparr>pr_directory = ([], False), pr_clock_ticks = 100, pr_now_ns = 5, pr_clock = (\<lambda>pid. (5, 5))\<rparr>
      (new_process_tracker\<lparr>pt_instances := [(12, \<lparr>pi_name = ''app'', pi_starttime_ticks = 77\<rparr>)],
         pt_history := [12 \<mapsto> [(0, 0)]]\<rparr>,
       new_rule_engine default_config) = ((t', e'), events) \<and> map_of (pt_instances t') 12 = None \<and> pt_history t' 12 = None"
proof -
  let ?cfg = "default_config\<lparr>sched_process_whitelist := [''app'']\<rparr>"
  let ?r = "\<lparr>pr_directory = ([], False), pr_clock_ticks = 100, pr_now_ns = 5, pr_clock = (\<lambda>pid. (5, 5))\<rparr>"
  let ?t = "new_process_tracker\<lparr>pt_instances := [(12, \<lparr>pi_name = ''app'', pi_starttime_ticks = 77\<rparr>)], pt_history := [12 \<mapsto> [(0, 0)]]\<rparr>"
  have scan: "scan_whitelisted_processes (sched_process_whitelist ?cfg) (pr_directory ?r) =
      \<lparr>sc_samples = [], sc_uncertain_pids = [], sc_complete = True\<rparr>"
    by (simp add: scan_whitelisted_processes_def)
  obtain t' e' events where result: "record_whitelisted_process_metrics ?cfg ?r (?t, new_rule_engine default_config) = ((t', e'), events)"
    by (metis prod.collapse)
  have "map_of (pt_instances t') 12 = None \<and> pt_history t' 12 = None"
    using gone_processes_forgotten [OF scan [symmetric] _ _ _ _ result, of 12 "\<lparr>pi_name = ''app'', pi_starttime_ticks = 77\<rparr>"]
    by (simp add: default_config_def)
  then show ?thesis using result by blast
qed

end
