(* ===== verification/Sched_Collector.thy ===== *)
theory Sched_Collector
  imports Proc_Collectors Rule_Engine
begin

text \<open>
  The collector of scheduling delays of \<^verbatim>\<open>src/collectors/sched_delay_collector.cpp\<close>. What \<^verbatim>\<open>/proc\<close> contains
  during one round is a snapshot, an argument of the round: the directory entries in the order of the
  iteration, the contents of their files (\<open>None\<close> for one that cannot be opened) and the clock readings taken
  when the round gets to an entry.
\<close>

section \<open>The snapshot of a round\<close>

record task_entry =
  te_name :: string
  te_comm :: "string option"
  te_steady_ns :: int
  te_clock_ms :: u64
  te_elapsed_ms :: int

record proc_entry =
  pe_name :: string
  pe_is_directory :: bool
  pe_comm :: "string option"
  pe_steady_ns :: int
  pe_clock_ms :: u64
  pe_tasks :: "task_entry list option"

text \<open>\<open>ps_convert\<close> is what the machine makes of the conversion of a double outside the range of \<open>uint64_t\<close>.\<close>

record proc_snapshot =
  ps_entries :: "proc_entry list option"
  ps_sched :: "i32 \<Rightarrow> i32 \<Rightarrow> string option"
  ps_own_pid :: i32
  ps_now_ms :: u64
  ps_elapsed_ms :: int
  ps_convert :: "double \<Rightarrow> u64"

section \<open>Reading the files of a thread\<close>

definition parse_i32 :: "string \<Rightarrow> i32 option" where
  "parse_i32 s = (case from_chars_signed s of Inl e \<Rightarrow> None | Inr (v, rest) \<Rightarrow> Some v)"

definition trim_newline :: "string \<Rightarrow> string" where
  "trim_newline value = rev (dropWhile (\<lambda>c. c = CHR 0x0A \<or> c = CHR 0x0D) (rev value))"

definition parse_sched_value :: "string \<Rightarrow> string \<Rightarrow> double option" where
  "parse_sched_value line key =
     (if \<not> sublist key line then None
      else case split_first (CHR '':'') line of
             None \<Rightarrow> None
           | Some (before, after) \<Rightarrow> map_option fst (extract_double after))"

definition key_for :: "i32 \<Rightarrow> i32 \<Rightarrow> u64" where
  "key_for pid tid = or (push_bit 32 (ucast pid)) (ucast tid)"

definition to_u64 :: "proc_snapshot \<Rightarrow> double \<Rightarrow> u64" where
  "to_u64 ps x = (case u64_of_double x of Some w \<Rightarrow> w | None \<Rightarrow> ps_convert ps x)"

definition read_comm :: "string option \<Rightarrow> string option" where
  "read_comm file =
     (case file of
        None \<Rightarrow> None
      | Some content \<Rightarrow>
          let comm = trim_newline (case get_lines content of [] \<Rightarrow> [] | line # rest \<Rightarrow> line)
          in if comm = [] then None else Some comm)"

definition sched_line :: "proc_snapshot \<Rightarrow> string \<Rightarrow> u64 option \<times> u64 option \<Rightarrow> u64 option \<times> u64 option" where
  "sched_line ps line found =
     (case parse_sched_value line ''se.statistics.wait_sum'' of
        Some parsed \<Rightarrow> (Some (to_u64 ps (dmul parsed (Fin 1000))), snd found)
      | None \<Rightarrow>
          (case parse_sched_value line ''nr_involuntary_switches'' of
             Some parsed \<Rightarrow> (fst found, Some (to_u64 ps parsed))
           | None \<Rightarrow> found))"

definition read_sched :: "proc_snapshot \<Rightarrow> i32 \<Rightarrow> i32 \<Rightarrow> (u64 \<times> u64) option" where
  "read_sched ps pid tid =
     (case ps_sched ps pid tid of
        None \<Rightarrow> None
      | Some content \<Rightarrow>
          (case fold (sched_line ps) (get_lines content) (None, None) of
             (Some wait_sum, Some switches) \<Rightarrow> Some (wait_sum, switches)
           | found \<Rightarrow> None))"

section \<open>The collector\<close>

record sched_baseline =
  sb_wait_sum_us :: u64
  sb_involuntary_switches :: u64
  sb_last_seen_ms :: u64

record comm_entry =
  ce_comm :: string
  ce_refreshed_ns :: int
  ce_last_seen_ms :: u64

record sched_collector =
  sc_baselines :: "u64 \<rightharpoonup> sched_baseline"
  sc_process_comm :: "u64 \<rightharpoonup> comm_entry"
  sc_thread_comm :: "u64 \<rightharpoonup> comm_entry"
  sc_failures :: u64

definition new_sched_collector :: sched_collector where
  "new_sched_collector =
     \<lparr>sc_baselines = Map.empty, sc_process_comm = Map.empty, sc_thread_comm = Map.empty, sc_failures = 0\<rparr>"

definition should_consider_process_id :: "monitor_config \<Rightarrow> proc_snapshot \<Rightarrow> i32 \<Rightarrow> bool" where
  "should_consider_process_id cfg ps pid \<longleftrightarrow>
     (if sched_process_whitelist cfg \<noteq> [] then True else pid = ps_own_pid ps)"

definition should_scan_process :: "monitor_config \<Rightarrow> proc_snapshot \<Rightarrow> i32 \<Rightarrow> string \<Rightarrow> bool" where
  "should_scan_process cfg ps pid comm \<longleftrightarrow>
     (if sched_process_whitelist cfg = [] then pid = ps_own_pid ps else comm \<in> set (sched_process_whitelist cfg))"

definition should_scan_thread :: "monitor_config \<Rightarrow> string \<Rightarrow> bool" where
  "should_scan_thread cfg comm \<longleftrightarrow> sched_thread_whitelist cfg = [] \<or> comm \<in> set (sched_thread_whitelist cfg)"

text \<open>A name is read again once it is older than the refresh period; a name that cannot be read is forgotten.\<close>

definition cached_comm ::
  "monitor_config \<Rightarrow> int \<Rightarrow> u64 \<Rightarrow> string option \<Rightarrow> u64 \<Rightarrow> (u64 \<rightharpoonup> comm_entry) \<Rightarrow> (u64 \<rightharpoonup> comm_entry) \<times> string option" where
  "cached_comm cfg now_ns clock_ms file key cache =
     (case (case cache key of
              None \<Rightarrow> None
            | Some e \<Rightarrow> if now_ns - ce_refreshed_ns e < int (unat (sched_proc_cache_refresh_ms cfg)) * 1000000
                        then Some e else None) of
        Some e \<Rightarrow> (cache(key \<mapsto> e\<lparr>ce_last_seen_ms := clock_ms\<rparr>), Some (ce_comm e))
      | None \<Rightarrow>
          (case read_comm file of
             None \<Rightarrow> (cache(key := None), None)
           | Some comm \<Rightarrow>
               (cache(key \<mapsto> \<lparr>ce_comm = comm, ce_refreshed_ns = now_ns, ce_last_seen_ms = clock_ms\<rparr>), Some comm)))"

definition prune_expired_state :: "monitor_config \<Rightarrow> u64 \<Rightarrow> sched_collector \<Rightarrow> sched_collector" where
  "prune_expired_state cfg now_ms c =
     (let kept = (\<lambda>seen. \<not> (seen \<noteq> 0 \<and> ttl_ms cfg \<le> now_ms - seen))
      in c\<lparr>sc_baselines := map_filter_vals (\<lambda>b. kept (sb_last_seen_ms b)) (sc_baselines c),
           sc_process_comm := map_filter_vals (\<lambda>e. kept (ce_last_seen_ms e)) (sc_process_comm c),
           sc_thread_comm := map_filter_vals (\<lambda>e. kept (ce_last_seen_ms e)) (sc_thread_comm c)\<rparr>)"

text \<open>The state of a round: the collector, the samples so far and the number of threads looked at.\<close>

record scan =
  sn_collector :: sched_collector
  sn_samples :: "sched_delay_sample list"
  sn_scanned :: u32

definition sched_delta :: "i32 \<Rightarrow> i32 \<Rightarrow> u64 \<Rightarrow> u64 \<Rightarrow> sched_baseline \<Rightarrow> sched_delay_sample" where
  "sched_delta pid tid wait_sum switches b =
     (let delta_wait = wait_sum - sb_wait_sum_us b; delta_switches = switches - sb_involuntary_switches b
      in \<lparr>sd_pid = pid, sd_tid = tid, sd_delta_wait_sum_us = delta_wait,
          sd_delta_involuntary_switches = delta_switches, sd_max_wait_us = delta_wait,
          sd_avg_wait_us = (if delta_switches = 0 then delta_wait else delta_wait div delta_switches),
          sd_aggregate_count = delta_switches, sd_valid = True\<rparr>)"

definition scan_stats :: "proc_snapshot \<Rightarrow> i32 \<Rightarrow> i32 \<Rightarrow> scan \<Rightarrow> scan" where
  "scan_stats ps pid tid s =
     (case read_sched ps pid tid of
        None \<Rightarrow> s
      | Some (wait_sum, switches) \<Rightarrow>
          let key = key_for pid tid;
              c = sn_collector s;
              next_c = c\<lparr>sc_baselines := (sc_baselines c)(key \<mapsto> \<lparr>sb_wait_sum_us = wait_sum,
                sb_involuntary_switches = switches, sb_last_seen_ms = ps_now_ms ps\<rparr>)\<rparr>
          in case sc_baselines c key of
               None \<Rightarrow> s\<lparr>sn_collector := next_c\<rparr>
             | Some b \<Rightarrow>
                 if wait_sum < sb_wait_sum_us b \<or> switches < sb_involuntary_switches b then s\<lparr>sn_collector := next_c\<rparr>
                 else s\<lparr>sn_collector := next_c, sn_samples := sn_samples s @ [sched_delta pid tid wait_sum switches b]\<rparr>)"

definition scan_thread :: "monitor_config \<Rightarrow> proc_snapshot \<Rightarrow> i32 \<Rightarrow> i32 \<Rightarrow> task_entry \<Rightarrow> scan \<Rightarrow> scan" where
  "scan_thread cfg ps pid tid task s =
     (if sched_thread_whitelist cfg = [] then scan_stats ps pid tid s
      else let c = sn_collector s;
               (cache, comm) = cached_comm cfg (te_steady_ns task) (te_clock_ms task) (te_comm task)
                 (key_for pid tid) (sc_thread_comm c);
               s = s\<lparr>sn_collector := c\<lparr>sc_thread_comm := cache\<rparr>\<rparr>
           in case comm of
                None \<Rightarrow> s
              | Some name \<Rightarrow> if \<not> should_scan_thread cfg name then s else scan_stats ps pid tid s)"

definition add_failure :: "scan \<Rightarrow> scan" where
  "add_failure s = s\<lparr>sn_collector := (sn_collector s)\<lparr>sc_failures := sc_failures (sn_collector s) + 1\<rparr>\<rparr>"

definition note_overrun :: "monitor_config \<Rightarrow> int \<Rightarrow> scan \<Rightarrow> scan" where
  "note_overrun cfg elapsed_ms s =
     (if int (unat (sched_collector_overrun_warning_ms cfg)) < elapsed_ms then add_failure s else s)"

text \<open>The threads of a process. The flag tells that the round is over.\<close>

fun scan_tasks :: "monitor_config \<Rightarrow> proc_snapshot \<Rightarrow> i32 \<Rightarrow> task_entry list \<Rightarrow> scan \<Rightarrow> scan \<times> bool" where
  "scan_tasks cfg ps pid [] s = (s, False)"
| "scan_tasks cfg ps pid (task # tasks) s =
     (if unat (sched_max_targets cfg) \<le> length (sn_samples s) then (note_overrun cfg (te_elapsed_ms task) s, True)
      else if sched_proc_max_scan_threads cfg \<le> sn_scanned s then
        (note_overrun cfg (te_elapsed_ms task) (add_failure s), True)
      else case parse_i32 (te_name task) of
             None \<Rightarrow> scan_tasks cfg ps pid tasks s
           | Some tid \<Rightarrow>
               scan_tasks cfg ps pid tasks (scan_thread cfg ps pid tid task (s\<lparr>sn_scanned := sn_scanned s + 1\<rparr>)))"

text \<open>What a directory entry leads to: nothing to scan, a failure, or the threads to scan.\<close>

definition enter_process :: "monitor_config \<Rightarrow> proc_snapshot \<Rightarrow> proc_entry \<Rightarrow> scan \<Rightarrow> scan \<times> (i32 \<times> task_entry list) option" where
  "enter_process cfg ps p s =
     (if \<not> pe_is_directory p then (s, None)
      else case parse_i32 (pe_name p) of
             None \<Rightarrow> (s, None)
           | Some pid \<Rightarrow>
               if \<not> should_consider_process_id cfg ps pid then (s, None)
               else let c = sn_collector s;
                        (cache, comm) = cached_comm cfg (pe_steady_ns p) (pe_clock_ms p) (pe_comm p) (ucast pid)
                          (sc_process_comm c);
                        s = s\<lparr>sn_collector := c\<lparr>sc_process_comm := cache\<rparr>\<rparr>
                    in case comm of
                         None \<Rightarrow> (s, None)
                       | Some name \<Rightarrow>
                           if \<not> should_scan_process cfg ps pid name then (s, None)
                           else (case pe_tasks p of
                                   None \<Rightarrow> (add_failure s, None)
                                 | Some tasks \<Rightarrow> (s, Some (pid, tasks))))"

fun scan_processes :: "monitor_config \<Rightarrow> proc_snapshot \<Rightarrow> proc_entry list \<Rightarrow> scan \<Rightarrow> scan \<times> bool" where
  "scan_processes cfg ps [] s = (s, False)"
| "scan_processes cfg ps (p # rest) s =
     (case enter_process cfg ps p s of
        (s, None) \<Rightarrow> scan_processes cfg ps rest s
      | (s, Some (pid, tasks)) \<Rightarrow>
          (case scan_tasks cfg ps pid tasks s of
             (s, True) \<Rightarrow> (s, True)
           | (s, False) \<Rightarrow> scan_processes cfg ps rest s))"

definition sched_collect ::
  "monitor_config \<Rightarrow> proc_snapshot \<Rightarrow> sched_collector \<Rightarrow> sched_collector \<times> sched_delay_sample list" where
  "sched_collect cfg ps c =
     (let c = (prune_expired_state cfg (ps_now_ms ps) c)\<lparr>sc_failures := 0\<rparr>
      in if \<not> sched_delay_enable cfg then (c, [])
         else case ps_entries ps of
                None \<Rightarrow> (c\<lparr>sc_failures := sc_failures c + 1\<rparr>, [])
              | Some entries \<Rightarrow>
                  let (s, ended) = scan_processes cfg ps entries \<lparr>sn_collector = c, sn_samples = [], sn_scanned = 0\<rparr>;
                      s = (if ended then s else note_overrun cfg (ps_elapsed_ms ps) s)
                  in (sn_collector s, sn_samples s))"

section \<open>Invariants of a round\<close>

text \<open>What the steps of a round that look at no statistics leave as it is.\<close>

definition same_stats :: "scan \<Rightarrow> scan \<Rightarrow> bool" where
  "same_stats s t \<longleftrightarrow> sn_samples t = sn_samples s \<and> sc_baselines (sn_collector t) = sc_baselines (sn_collector s)"

lemma same_stats_add_failure [simp]: "same_stats s (add_failure s)" "same_stats s (note_overrun cfg e s)"
    "same_stats s (note_overrun cfg e (add_failure s))"
  by (simp_all add: same_stats_def add_failure_def note_overrun_def)

lemma same_stats_enter_process: "enter_process cfg ps p s = (s', x) \<Longrightarrow> same_stats s s'"
  by (auto simp: enter_process_def same_stats_def add_failure_def Let_def split: if_splits option.splits prod.splits)

lemma scan_thread_cases:
  obtains s' where "same_stats s s'" and "sn_scanned s' = sn_scanned s" and "scan_thread cfg ps pid tid task s = s' \<or>
    scan_thread cfg ps pid tid task s = scan_stats ps pid tid s'"
proof -
  have "\<exists>s'. same_stats s s' \<and> sn_scanned s' = sn_scanned s \<and> (scan_thread cfg ps pid tid task s = s' \<or> scan_thread cfg ps pid tid task s = scan_stats ps pid tid s')"
    unfolding scan_thread_def Let_def
    by (rule exI [of _ "if sched_thread_whitelist cfg = [] then s else s\<lparr>sn_collector := (sn_collector s)\<lparr>sc_thread_comm :=
        fst (cached_comm cfg (te_steady_ns task) (te_clock_ms task) (te_comm task) (key_for pid tid) (sc_thread_comm (sn_collector s)))\<rparr>\<rparr>"])
      (auto simp: same_stats_def split: option.split prod.split)
  then show thesis using that by blast
qed

text \<open>The threads a snapshot lists, by their process and thread numbers.\<close>

definition listed :: "proc_snapshot \<Rightarrow> i32 \<Rightarrow> i32 \<Rightarrow> bool" where
  "listed ps pid tid \<longleftrightarrow> (\<exists>entries p tasks t. ps_entries ps = Some entries \<and> p \<in> set entries \<and> parse_i32 (pe_name p) = Some pid \<and>
     pe_tasks p = Some tasks \<and> t \<in> set tasks \<and> parse_i32 (te_name t) = Some tid)"

text \<open>A property of samples and baselines that every reading of a listed thread keeps holds after the round.\<close>

locale round_invariant =
  fixes ps :: proc_snapshot and I :: "scan \<Rightarrow> bool"
  assumes stats: "listed ps pid tid \<Longrightarrow> I s \<Longrightarrow> I (scan_stats ps pid tid s)"
    and same: "same_stats s t \<Longrightarrow> I s \<Longrightarrow> I t"
begin

lemma thread: "listed ps pid tid \<Longrightarrow> I s \<Longrightarrow> I (scan_thread cfg ps pid tid task s)"
  using stats same by (metis scan_thread_cases)

lemma tasks: "\<forall>t \<in> set ts. \<forall>tid. parse_i32 (te_name t) = Some tid \<longrightarrow> listed ps pid tid \<Longrightarrow> I s \<Longrightarrow> I (fst (scan_tasks cfg ps pid ts s))"
proof (induction ts arbitrary: s)
  case (Cons t ts)
  have "same_stats s (s\<lparr>sn_scanned := sn_scanned s + 1\<rparr>)" by (simp add: same_stats_def)
  then have "I (s\<lparr>sn_scanned := sn_scanned s + 1\<rparr>)" using Cons(3) same by blast
  then show ?case using Cons thread by (auto intro: same same_stats_add_failure split: option.split)
qed simp

lemma processes:
  assumes "\<exists>es. ps_entries ps = Some es \<and> set entries \<subseteq> set es" and "I s"
  shows "I (fst (scan_processes cfg ps entries s))"
  using assms
proof (induction entries arbitrary: s)
  case (Cons p entries)
  have sub: "\<exists>es. ps_entries ps = Some es \<and> set entries \<subseteq> set es" using Cons(2) by auto
  obtain s' next_p where enter: "enter_process cfg ps p s = (s', next_p)" by fastforce
  then have I: "I s'" using Cons(3) same same_stats_enter_process by blast
  show ?case
  proof (cases next_p)
    case None
    then show ?thesis using Cons(1) [OF sub I] enter by simp
  next
    case (Some x)
    obtain pid ts where x: "x = (pid, ts)" by (cases x)
    have "parse_i32 (pe_name p) = Some pid \<and> pe_tasks p = Some ts"
      using enter Some x by (auto simp: enter_process_def Let_def split: if_splits option.splits prod.splits)
    then have "\<forall>t \<in> set ts. \<forall>tid. parse_i32 (te_name t) = Some tid \<longrightarrow> listed ps pid tid"
      using Cons(2) unfolding listed_def by fastforce
    then have "I (fst (scan_tasks cfg ps pid ts s'))" using I by (rule tasks)
    then show ?thesis using Cons(1) [OF sub] enter Some x by (auto split: prod.split bool.split)
  qed
qed simp

lemma collect:
  assumes "I \<lparr>sn_collector = (prune_expired_state cfg (ps_now_ms ps) c)\<lparr>sc_failures := 0\<rparr>, sn_samples = [], sn_scanned = 0\<rparr>"
  shows "\<exists>s. I s \<and> sched_collect cfg ps c = (sn_collector s, sn_samples s)"
proof -
  let ?s = "\<lparr>sn_collector = (prune_expired_state cfg (ps_now_ms ps) c)\<lparr>sc_failures := 0\<rparr>, sn_samples = [], sn_scanned = 0\<rparr>"
  consider "\<not> sched_delay_enable cfg" | "sched_delay_enable cfg" "ps_entries ps = None"
    | entries where "sched_delay_enable cfg" "ps_entries ps = Some entries" by blast
  then show ?thesis
  proof cases
    case 1
    then show ?thesis using assms by (intro exI [of _ ?s]) (simp add: sched_collect_def Let_def)
  next
    case 2
    then show ?thesis using assms same same_stats_add_failure(1) [of ?s]
      by (intro exI [of _ "add_failure ?s"]) (simp add: sched_collect_def Let_def add_failure_def)
  next
    case 3
    obtain s ended where scan: "scan_processes cfg ps entries ?s = (s, ended)" by fastforce
    then have "I s" using processes [of entries ?s cfg] assms 3 by simp
    moreover have "I (note_overrun cfg (ps_elapsed_ms ps) s)" using same \<open>I s\<close> same_stats_add_failure(2) by blast
    ultimately show ?thesis
      using 3 scan by (intro exI [of _ "if ended then s else note_overrun cfg (ps_elapsed_ms ps) s"]) (simp add: sched_collect_def Let_def)
  qed
qed

end

section \<open>What a sample says\<close>

lemma key_for_inject [simp]: "key_for pid tid = key_for pid' tid' \<longleftrightarrow> pid = pid' \<and> tid = tid'"
  using sched_key_injective [of pid tid pid' tid'] by (simp add: key_for_def sched_key_def)

text \<open>The reading of a listed thread in this round, as the baseline it leaves.\<close>

definition reading_of :: "proc_snapshot \<Rightarrow> i32 \<Rightarrow> i32 \<Rightarrow> sched_baseline option" where
  "reading_of ps pid tid = map_option (\<lambda>(wait_sum, switches).
     \<lparr>sb_wait_sum_us = wait_sum, sb_involuntary_switches = switches, sb_last_seen_ms = ps_now_ms ps\<rparr>) (read_sched ps pid tid)"

definition exact_sample :: "proc_snapshot \<Rightarrow> (u64 \<rightharpoonup> sched_baseline) \<Rightarrow> sched_delay_sample \<Rightarrow> bool" where
  "exact_sample ps base x \<longleftrightarrow> (\<exists>r b. listed ps (sd_pid x) (sd_tid x) \<and> reading_of ps (sd_pid x) (sd_tid x) = Some r \<and>
     (base (key_for (sd_pid x) (sd_tid x)) = Some b \<or> b = r) \<and>
     sb_wait_sum_us b \<le> sb_wait_sum_us r \<and> sb_involuntary_switches b \<le> sb_involuntary_switches r \<and>
     x = sched_delta (sd_pid x) (sd_tid x) (sb_wait_sum_us r) (sb_involuntary_switches r) b)"

definition round_exact :: "proc_snapshot \<Rightarrow> (u64 \<rightharpoonup> sched_baseline) \<Rightarrow> scan \<Rightarrow> bool" where
  "round_exact ps base s \<longleftrightarrow> (\<forall>x \<in> set (sn_samples s). exact_sample ps base x) \<and>
     (\<forall>key. sc_baselines (sn_collector s) key = base key \<or>
       (\<exists>pid tid. key = key_for pid tid \<and> listed ps pid tid \<and> sc_baselines (sn_collector s) key = reading_of ps pid tid))"

lemma round_exact_stats:
  assumes "listed ps pid tid" and "round_exact ps base s"
  shows "round_exact ps base (scan_stats ps pid tid s)"
proof (cases "read_sched ps pid tid")
  case None
  then show ?thesis using assms by (simp add: scan_stats_def)
next
  case (Some reading)
  obtain w n where reading: "reading = (w, n)" by (cases reading)
  let ?key = "key_for pid tid" and ?r = "\<lparr>sb_wait_sum_us = w, sb_involuntary_switches = n, sb_last_seen_ms = ps_now_ms ps\<rparr>"
  have r: "reading_of ps pid tid = Some ?r" using Some reading by (simp add: reading_of_def)
  have base: "sc_baselines (sn_collector (scan_stats ps pid tid s)) = (sc_baselines (sn_collector s))(?key \<mapsto> ?r)"
    using Some reading by (auto simp: scan_stats_def Let_def split: option.split)
  have "exact_sample ps base x" if x: "x \<in> set (sn_samples (scan_stats ps pid tid s))" for x
  proof (cases "x \<in> set (sn_samples s)")
    case True
    then show ?thesis using assms(2) by (simp add: round_exact_def)
  next
    case False
    then obtain b where b: "sc_baselines (sn_collector s) ?key = Some b" "sb_wait_sum_us b \<le> w" "sb_involuntary_switches b \<le> n"
        "x = sched_delta pid tid w n b"
      using x Some reading by (auto simp: scan_stats_def Let_def not_less split: option.splits if_splits)
    have "base ?key = Some b \<or> b = ?r"
      using assms(2) b(1) r unfolding round_exact_def by (metis key_for_inject option.inject)
    then show ?thesis
      using b(2-4) r assms(1) unfolding exact_sample_def by (auto simp: sched_delta_def Let_def)
  qed
  then show ?thesis using assms r unfolding round_exact_def base by (metis fun_upd_apply)
qed

interpretation exact: round_invariant ps "round_exact ps base"
  for ps base
  by unfold_locales (auto simp: round_exact_stats, simp add: round_exact_def same_stats_def)

definition kept_baseline :: "monitor_config \<Rightarrow> proc_snapshot \<Rightarrow> sched_collector \<Rightarrow> i32 \<Rightarrow> i32 \<Rightarrow> sched_baseline option" where
  "kept_baseline cfg ps c pid tid =
     (case sc_baselines c (key_for pid tid) of
        None \<Rightarrow> None
      | Some b \<Rightarrow> if sb_last_seen_ms b = 0 \<or> ps_now_ms ps - sb_last_seen_ms b < ttl_ms cfg then Some b else None)"

lemma sched_delta_fields:
  assumes "x = sched_delta pid tid w n b" and "sb_wait_sum_us b \<le> w" and "sb_involuntary_switches b \<le> n"
  shows "unat (sb_wait_sum_us b) + unat (sd_delta_wait_sum_us x) = unat w"
    and "unat (sb_involuntary_switches b) + unat (sd_delta_involuntary_switches x) = unat n"
    and "sd_max_wait_us x = sd_delta_wait_sum_us x"
    and "unat (sd_avg_wait_us x) = unat (sd_delta_wait_sum_us x) div max 1 (unat (sd_delta_involuntary_switches x))"
proof -
  have "max 1 (unat v) = (if v = 0 then 1 else unat v)" for v :: u64
    using unat_gt_0 [of v] by auto
  then show "unat (sd_avg_wait_us x) = unat (sd_delta_wait_sum_us x) div max 1 (unat (sd_delta_involuntary_switches x))"
    by (simp add: assms(1) sched_delta_def Let_def unat_div)
qed (use assms in \<open>simp_all add: sched_delta_def Let_def unat_sub_le word_le_nat_alt\<close>)



definition wit_sched_cfg :: monitor_config where
  "wit_sched_cfg = default_config\<lparr>sched_process_whitelist := [''app'']\<rparr>"

definition wit_sched_file :: string where
  "wit_sched_file = ''se.statistics.wait_sum : 10'' @ CHR 0x0A # ''nr_involuntary_switches : 3''"

definition wit_snapshot :: proc_snapshot where
  "wit_snapshot = \<lparr>ps_entries = Some [\<lparr>pe_name = ''12'', pe_is_directory = True, pe_comm = Some ''app'', pe_steady_ns = 5,
       pe_clock_ms = 7, pe_tasks = Some [\<lparr>te_name = ''12'', te_comm = Some ''app'', te_steady_ns = 5, te_clock_ms = 7, te_elapsed_ms = 0\<rparr>]\<rparr>],
     ps_sched = (\<lambda>pid tid. Some wit_sched_file),
     ps_own_pid = 1, ps_now_ms = 7, ps_elapsed_ms = 0, ps_convert = (\<lambda>x. 0)\<rparr>"

lemma wit_sched: "read_sched wit_snapshot pid tid = Some (10000, 3)"
proof -
  have lines: "get_lines wit_sched_file = [''se.statistics.wait_sum : 10'', ''nr_involuntary_switches : 3'']"
    unfolding wit_sched_file_def by (subst get_lines_append_line) (simp, simp add: get_lines.simps)
  have x: "extract_double '' 10'' = Some (Fin 10, '''')" "extract_double '' 3'' = Some (Fin 3, '''')"
    using round_double_of_nat [of 10] round_double_of_nat [of 3]
    by (simp_all add: extract_double_def scan_mantissa_def scan_exponent_def is_space_def is_digit_def digits_value_def digit_value_def Let_def)
  have "parse_sched_value ''se.statistics.wait_sum : 10'' ''se.statistics.wait_sum'' = Some (Fin 10)"
    using x by (simp add: parse_sched_value_def sublist_code)
  moreover have "parse_sched_value ''nr_involuntary_switches : 3'' ''se.statistics.wait_sum'' = None"
    by (simp add: parse_sched_value_def sublist_code)
  moreover have "parse_sched_value ''nr_involuntary_switches : 3'' ''nr_involuntary_switches'' = Some (Fin 3)"
    using x by (simp add: parse_sched_value_def sublist_code)
  moreover have "to_u64 wit_snapshot (dmul (Fin 10) (Fin 1000)) = 10000" "to_u64 wit_snapshot (Fin 3) = 3"
    using round_double_of_nat [of 10000] by (simp_all add: to_u64_def u64_of_double_def)
  moreover have "ps_sched wit_snapshot pid tid = Some wit_sched_file" by (simp add: wit_snapshot_def)
  ultimately show ?thesis by (simp add: read_sched_def lines sched_line_def)
qed

definition wit_sched_collector :: sched_collector where
  "wit_sched_collector = new_sched_collector\<lparr>sc_baselines := [key_for 12 12 \<mapsto>
     \<lparr>sb_wait_sum_us = 4000, sb_involuntary_switches = 1, sb_last_seen_ms = 6\<rparr>]\<rparr>"

lemma wit_parse_pid: "parse_i32 ''12'' = Some 12"
  by (simp add: parse_i32_def from_chars_signed_def is_digit_def digits_value_def digit_value_def Let_def)

lemma wit_comm: "read_comm (Some ''app'') = Some ''app''"
  by (simp add: read_comm_def get_lines.simps trim_newline_def Let_def)

lemma wit_round: "snd (sched_collect wit_sched_cfg wit_snapshot wit_sched_collector) =
    [sched_delta 12 12 10000 3 \<lparr>sb_wait_sum_us = 4000, sb_involuntary_switches = 1, sb_last_seen_ms = 6\<rparr>]"
proof -
  have cfg: "sched_delay_enable wit_sched_cfg" "sched_process_whitelist wit_sched_cfg = [''app'']"
      "sched_thread_whitelist wit_sched_cfg = []" "sched_max_targets wit_sched_cfg = 32" "sched_proc_max_scan_threads wit_sched_cfg = 4096"
      "ttl_ms wit_sched_cfg = 3600000"
    by (simp_all add: wit_sched_cfg_def default_config_def ttl_ms_def)
  have keep: "sc_baselines (prune_expired_state wit_sched_cfg 7 wit_sched_collector) (key_for 12 12) =
      Some \<lparr>sb_wait_sum_us = 4000, sb_involuntary_switches = 1, sb_last_seen_ms = 6\<rparr>"
    "sc_process_comm (prune_expired_state wit_sched_cfg 7 wit_sched_collector) = Map.empty"
    by (simp_all add: prune_expired_state_def wit_sched_collector_def new_sched_collector_def map_filter_vals_def Let_def cfg fun_eq_iff word_le_nat_alt)
  have now: "ps_now_ms wit_snapshot = 7" by (simp add: wit_snapshot_def)
  have entries: "ps_entries wit_snapshot = Some [\<lparr>pe_name = ''12'', pe_is_directory = True, pe_comm = Some ''app'', pe_steady_ns = 5,
       pe_clock_ms = 7, pe_tasks = Some [\<lparr>te_name = ''12'', te_comm = Some ''app'', te_steady_ns = 5, te_clock_ms = 7, te_elapsed_ms = 0\<rparr>]\<rparr>]"
    by (simp add: wit_snapshot_def)
  show ?thesis
    by (simp add: sched_collect_def cfg entries now Let_def enter_process_def wit_parse_pid should_consider_process_id_def cached_comm_def
      keep wit_comm should_scan_process_def scan_thread_def scan_stats_def wit_sched note_overrun_def add_failure_def word_less_nat_alt word_le_nat_alt)
qed


text \<open>Bounds of a round.\<close>

lemma scan_stats_length: "length (sn_samples (scan_stats ps pid tid s)) \<le> Suc (length (sn_samples s))"
  by (simp add: scan_stats_def Let_def split: option.split)

lemma scan_stats_scanned: "sn_scanned (scan_stats ps pid tid s) = sn_scanned s"
  by (simp add: scan_stats_def Let_def split: option.split)

lemma scan_thread_bounds:
  "length (sn_samples (scan_thread cfg ps pid tid task s)) \<le> Suc (length (sn_samples s))"
  "sn_scanned (scan_thread cfg ps pid tid task s) = sn_scanned s"
proof -
  obtain s' where s': "same_stats s s'" "sn_scanned s' = sn_scanned s"
      "scan_thread cfg ps pid tid task s = s' \<or> scan_thread cfg ps pid tid task s = scan_stats ps pid tid s'"
    using scan_thread_cases .
  then show "length (sn_samples (scan_thread cfg ps pid tid task s)) \<le> Suc (length (sn_samples s))"
      "sn_scanned (scan_thread cfg ps pid tid task s) = sn_scanned s"
    using scan_stats_length [of ps pid tid s'] by (auto simp: same_stats_def scan_stats_scanned)
qed

definition round_bounded :: "monitor_config \<Rightarrow> scan \<Rightarrow> bool" where
  "round_bounded cfg s \<longleftrightarrow>
     length (sn_samples s) \<le> unat (sched_max_targets cfg) \<and> sn_scanned s \<le> sched_proc_max_scan_threads cfg"

lemma round_bounded_failures [simp]:
  "round_bounded cfg (add_failure s) = round_bounded cfg s"
  "round_bounded cfg (note_overrun cfg e s) = round_bounded cfg s"
  by (simp_all add: round_bounded_def add_failure_def note_overrun_def)

lemma scan_tasks_bounded: "round_bounded cfg s \<Longrightarrow> round_bounded cfg (fst (scan_tasks cfg ps pid tasks s))"
proof (induction tasks arbitrary: s)
  case (Cons task tasks)
  let ?counted = "s\<lparr>sn_scanned := sn_scanned s + 1\<rparr>"
  consider "unat (sched_max_targets cfg) \<le> length (sn_samples s) \<or> sched_proc_max_scan_threads cfg \<le> sn_scanned s \<or> parse_i32 (te_name task) = None"
    | tid where "\<not> unat (sched_max_targets cfg) \<le> length (sn_samples s)" "\<not> sched_proc_max_scan_threads cfg \<le> sn_scanned s"
      "parse_i32 (te_name task) = Some tid" by fastforce
  then show ?case
  proof cases
    case 1
    then show ?thesis using Cons by auto
  next
    case 2
    have "sn_scanned s + 1 \<le> sched_proc_max_scan_threads cfg" using 2(2) by (simp add: inc_le not_le)
    moreover have "length (sn_samples (scan_thread cfg ps pid tid task ?counted)) \<le> Suc (length (sn_samples s))"
      using scan_thread_bounds(1) [of cfg ps pid tid task ?counted] by simp
    ultimately have "round_bounded cfg (scan_thread cfg ps pid tid task ?counted)"
      using 2(1) by (simp add: round_bounded_def scan_thread_bounds(2))
    then show ?thesis using 2 Cons(1) by simp
  qed
qed simp

lemma enter_process_bounded:
  "enter_process cfg ps p s = (s', x) \<Longrightarrow> round_bounded cfg s \<Longrightarrow> round_bounded cfg s'"
  by (auto simp: enter_process_def round_bounded_def add_failure_def Let_def split: if_splits option.splits prod.splits)

lemma scan_processes_bounded: "round_bounded cfg s \<Longrightarrow> round_bounded cfg (fst (scan_processes cfg ps entries s))"
proof (induction entries arbitrary: s)
  case (Cons p entries)
  obtain s' x where enter: "enter_process cfg ps p s = (s', x)" by fastforce
  then have bounded: "round_bounded cfg s'" using Cons(2) enter_process_bounded by blast
  show ?case
  proof (cases x)
    case None
    then show ?thesis using Cons(1) [OF bounded] enter by simp
  next
    case (Some pt)
    obtain pid tasks where pt: "pt = (pid, tasks)" by (cases pt)
    have "round_bounded cfg (fst (scan_tasks cfg ps pid tasks s'))" using bounded by (rule scan_tasks_bounded)
    then show ?thesis using Cons(1) enter Some pt by (auto split: prod.split bool.split)
  qed
qed simp

text \<open>Whose samples a round takes.\<close>

lemma scan_thread_pids: "sd_pid ` set (sn_samples (scan_thread cfg ps pid tid task s)) \<subseteq> insert pid (sd_pid ` set (sn_samples s))"
proof -
  have "sd_pid ` set (sn_samples (scan_stats ps pid tid t)) \<subseteq> insert pid (sd_pid ` set (sn_samples t))" for t
    by (auto simp: scan_stats_def sched_delta_def Let_def split: option.split)
  moreover obtain s' where "same_stats s s'" "scan_thread cfg ps pid tid task s = s' \<or> scan_thread cfg ps pid tid task s = scan_stats ps pid tid s'"
    using scan_thread_cases .
  ultimately show ?thesis unfolding same_stats_def by (metis subset_insertI)
qed

lemma scan_tasks_pids: "sd_pid ` set (sn_samples (fst (scan_tasks cfg ps pid tasks s))) \<subseteq> insert pid (sd_pid ` set (sn_samples s))"
proof (induction tasks arbitrary: s)
  case (Cons task tasks)
  have failures: "sn_samples (note_overrun cfg e t) = sn_samples t" "sn_samples (add_failure t) = sn_samples t" for e t
    by (simp_all add: note_overrun_def add_failure_def)
  have "sd_pid ` set (sn_samples (scan_thread cfg ps pid tid task (s\<lparr>sn_scanned := n\<rparr>))) \<subseteq> insert pid (sd_pid ` set (sn_samples s))" for tid n
    using scan_thread_pids [of cfg ps pid tid task "s\<lparr>sn_scanned := n\<rparr>"] by simp
  then show ?case
    using Cons by (simp add: failures subset_insertI split: option.split) (meson insert_subset order_trans insert_mono subset_insertI insertI1 insert_absorb2)
qed auto

lemma scan_processes_pids:
  "\<forall>x \<in> set (sn_samples s). should_consider_process_id cfg ps (sd_pid x) \<Longrightarrow>
   \<forall>x \<in> set (sn_samples (fst (scan_processes cfg ps entries s))). should_consider_process_id cfg ps (sd_pid x)"
proof (induction entries arbitrary: s)
  case (Cons p entries)
  obtain s' x where enter: "enter_process cfg ps p s = (s', x)" by fastforce
  then have same: "sn_samples s' = sn_samples s" using same_stats_enter_process unfolding same_stats_def by blast
  show ?case
  proof (cases x)
    case None
    then show ?thesis using Cons(1) [of s'] Cons(2) same enter by simp
  next
    case (Some pt)
    obtain pid tasks where pt: "pt = (pid, tasks)" by (cases pt)
    have "should_consider_process_id cfg ps pid"
      using enter Some pt by (auto simp: enter_process_def Let_def split: if_splits option.splits prod.splits)
    then have "\<forall>x \<in> set (sn_samples (fst (scan_tasks cfg ps pid tasks s'))). should_consider_process_id cfg ps (sd_pid x)"
      using scan_tasks_pids [of cfg ps pid tasks s'] Cons(2) same by fastforce
    then show ?thesis using Cons(1) enter Some pt by (auto split: prod.split bool.split)
  qed
qed simp

text \<open>
  A round returns at most \<open>sched_max_targets\<close> samples, and without a process list they are
  samples of the threads of the monitor itself.
\<close>

theorem sched_round_bounded:
  "length (snd (sched_collect cfg ps c)) \<le> unat (sched_max_targets cfg) \<and>
   (sched_process_whitelist cfg = [] \<longrightarrow> (\<forall>x \<in> set (snd (sched_collect cfg ps c)). sd_pid x = ps_own_pid ps))"
proof -
  let ?s = "\<lparr>sn_collector = (prune_expired_state cfg (ps_now_ms ps) c)\<lparr>sc_failures := 0\<rparr>, sn_samples = [], sn_scanned = 0\<rparr>"
  have "sn_samples (note_overrun cfg e t) = sn_samples t" for e t by (simp add: note_overrun_def add_failure_def)
  then have samples: "snd (sched_collect cfg ps c) =
      (if \<not> sched_delay_enable cfg then [] else case ps_entries ps of None \<Rightarrow> []
       | Some entries \<Rightarrow> sn_samples (fst (scan_processes cfg ps entries ?s)))"
    by (simp add: sched_collect_def Let_def split: option.split prod.split)
  have "length (sn_samples (fst (scan_processes cfg ps entries ?s))) \<le> unat (sched_max_targets cfg)" for entries
    using scan_processes_bounded [of cfg ?s ps entries] by (simp add: round_bounded_def)
  moreover have "\<forall>x \<in> set (sn_samples (fst (scan_processes cfg ps entries ?s))). should_consider_process_id cfg ps (sd_pid x)" for entries
    by (rule scan_processes_pids) simp
  ultimately show ?thesis
    unfolding samples should_consider_process_id_def by (simp split: option.split)
qed

theorem sched_round_bounded_witness:
  "length (snd (sched_collect wit_sched_cfg wit_snapshot wit_sched_collector)) = 1 \<and> 1 \<le> unat (sched_max_targets wit_sched_cfg) \<and>
   (\<forall>x \<in> set (snd (sched_collect (wit_sched_cfg\<lparr>sched_process_whitelist := []\<rparr>) wit_snapshot wit_sched_collector)). sd_pid x = 1)"
  using sched_round_bounded [of wit_sched_cfg wit_snapshot wit_sched_collector]
    sched_round_bounded [of "wit_sched_cfg\<lparr>sched_process_whitelist := []\<rparr>" wit_snapshot wit_sched_collector]
  by (simp add: wit_round) (simp add: wit_snapshot_def)

end
