(* ===== verification/Monitor.thy ===== *)
theory Monitor
  imports Process_Tracker Sched_Collector Dispatcher
begin

text \<open>
  The monitor, \<^verbatim>\<open>src/runtime/monitor.cpp\<close>: the rounds of its two collector threads, what they publish into their event
  queues, and its start and stop. Each thread owns its collectors, its rule engine and its failure counters; the two share
  the sequence counter, and every queue has one producer and is popped by its dispatcher. So a round is a function of
  what the thread owns and of what it reads from outside, the argument of the round, and returns the events to publish in
  their order; the publications of both threads and the pops are steps on the shared state, which interleave freely.
  What the rounds record for the metrics page is in \<open>Monitor_Pages\<close>.
\<close>

section \<open>Deadlines\<close>

definition next_deadline :: "int \<Rightarrow> int \<Rightarrow> int \<Rightarrow> int" where
  "next_deadline now_ns current interval_ns =
     (let deadline = current + interval_ns
      in if deadline \<le> now_ns then now_ns + interval_ns else deadline)"

section \<open>Failures of collectors\<close>

datatype collector = MeminfoCollector | SelfStatusCollector | SchedDelayCollector | IoDelayCollector | CpuUsageCollector

fun collector_id :: "collector \<Rightarrow> u32" where
  "collector_id MeminfoCollector = 1"
| "collector_id SelfStatusCollector = 2"
| "collector_id SchedDelayCollector = 3"
| "collector_id IoDelayCollector = 4"
| "collector_id CpuUsageCollector = 5"

record failure_count =
  fc_total :: u64
  fc_last_event_ms :: u64

definition no_failures :: failure_count where
  "no_failures = \<lparr>fc_total = 0, fc_last_event_ms = 0\<rparr>"

definition collector_failure :: "collector \<Rightarrow> u64 \<Rightarrow> failure_count \<Rightarrow> failure_count \<times> internal_event list" where
  "collector_failure coll now_ms fc =
     (let failures = fc_total fc + 1;
          fc = fc\<lparr>fc_total := failures\<rparr>
      in if fc_last_event_ms fc \<noteq> 0 \<and> now_ms - fc_last_event_ms fc < 60000 then (fc, [])
         else (fc\<lparr>fc_last_event_ms := now_ms\<rparr>,
           [set_evidence [evidence ''collector_id'' (double_of_u32 (collector_id coll))]
             (default_event\<lparr>ev_event_type := CollectorFailure, ev_level := LevelWarning, ev_status := StatusActive,
                ev_value := double_of_u64 failures, ev_warning_threshold := Fin 1, ev_continuous_hit_count := 1,
                ev_hit_count := failures\<rparr>)]))"

definition overrun_event :: "monitor_config \<Rightarrow> u64 \<Rightarrow> internal_event list" where
  "overrun_event cfg elapsed_ms =
     (if ucast (sched_collector_overrun_warning_ms cfg) < elapsed_ms
      then [default_event\<lparr>ev_event_type := MonitorOverrun, ev_level := LevelWarning,
              ev_value := double_of_u64 elapsed_ms,
              ev_warning_threshold := double_of_u32 (sched_collector_overrun_warning_ms cfg)\<rparr>]
      else [])"

definition started_event :: internal_event where
  "started_event = default_event\<lparr>ev_event_type := MonitorStarted, ev_level := LevelInfo, ev_status := StatusActive\<rparr>"

section \<open>The fast collector thread\<close>

record fast_thread =
  ft_rules :: rule_engine
  ft_meminfo_open :: bool
  ft_self_status_open :: bool
  ft_cpu :: cpu_collector
  ft_processes :: process_tracker
  ft_meminfo_failures :: failure_count
  ft_cpu_failures :: failure_count
  ft_self_status_failures :: failure_count

definition new_fast_thread :: "monitor_config \<Rightarrow> fast_thread" where
  "new_fast_thread cfg = \<lparr>ft_rules = new_rule_engine cfg, ft_meminfo_open = False, ft_self_status_open = False,
     ft_cpu = new_cpu_collector, ft_processes = new_process_tracker, ft_meminfo_failures = no_failures,
     ft_cpu_failures = no_failures, ft_self_status_failures = no_failures\<rparr>"

text \<open>What a round reads: files, the queue statistics and the clock at each place that looks at it.\<close>

record fast_input =
  fi_meminfo :: proc_answers
  fi_meminfo_ms :: u64
  fi_cpu :: "cpu_stats reading"
  fi_cpu_ms :: "string \<Rightarrow> u64 \<times> u64"
  fi_cpu_failure_ms :: u64
  fi_self_status :: proc_answers
  fi_self_status_ms :: u64
  fi_processes :: process_round
  fi_snapshot :: queue_snapshot
  fi_queue_ms :: u64
  fi_elapsed_ms :: u64

definition event_list :: "'a \<times> internal_event option \<Rightarrow> 'a \<times> internal_event list" where
  "event_list = map_prod id (\<lambda>event. case event of None \<Rightarrow> [] | Some e \<Rightarrow> [e])"

definition meminfo_part :: "monitor_config \<Rightarrow> fast_input \<Rightarrow> fast_thread \<Rightarrow> fast_thread \<times> internal_event list" where
  "meminfo_part cfg i t =
     (case meminfo_collect (fi_meminfo i) (ft_meminfo_open t) of
        (is_open, sample) \<Rightarrow>
          let t = t\<lparr>ft_meminfo_open := is_open\<rparr>
          in if \<not> mem_valid sample
             then (case collector_failure MeminfoCollector (fi_meminfo_ms i) (ft_meminfo_failures t) of
                     (fc, events) \<Rightarrow> (t\<lparr>ft_meminfo_failures := fc\<rparr>, events))
             else (case event_list (evaluate_memory cfg (fi_meminfo_ms i) sample (ft_rules t)) of
                     (e, events) \<Rightarrow> (t\<lparr>ft_rules := e\<rparr>, events)))"

fun evaluate_cpu_samples ::
  "monitor_config \<Rightarrow> (string \<Rightarrow> u64 \<times> u64) \<Rightarrow> cpu_usage_sample list \<Rightarrow> rule_engine \<Rightarrow> rule_engine \<times> internal_event list" where
  "evaluate_cpu_samples cfg clock [] e = (e, [])"
| "evaluate_cpu_samples cfg clock (sample # rest) e =
     (case event_list (evaluate_cpu_usage cfg (fst (clock (cpu_name sample))) (snd (clock (cpu_name sample))) sample e) of
        (e, events) \<Rightarrow> (case evaluate_cpu_samples cfg clock rest e of (e, more_events) \<Rightarrow> (e, events @ more_events)))"

definition cpu_part :: "monitor_config \<Rightarrow> fast_input \<Rightarrow> fast_thread \<Rightarrow> fast_thread \<times> internal_event list" where
  "cpu_part cfg i t =
     (case cpu_collect cfg (fi_cpu i) (ft_cpu t) of
        (c, samples) \<Rightarrow>
          (case evaluate_cpu_samples cfg (fi_cpu_ms i) samples (ft_rules t) of
             (e, events) \<Rightarrow>
               let t = t\<lparr>ft_cpu := c, ft_rules := e\<rparr>
               in if samples = [] \<and> 0 < cc_failures c
                  then (case collector_failure CpuUsageCollector (fi_cpu_failure_ms i) (ft_cpu_failures t) of
                          (fc, failure) \<Rightarrow> (t\<lparr>ft_cpu_failures := fc\<rparr>, events @ failure))
                  else (t, events)))"

definition self_status_part :: "monitor_config \<Rightarrow> fast_input \<Rightarrow> fast_thread \<Rightarrow> fast_thread \<times> internal_event list" where
  "self_status_part cfg i t =
     (case self_status_collect (fi_self_status i) (ft_self_status_open t) of
        (is_open, sample) \<Rightarrow>
          let t = t\<lparr>ft_self_status_open := is_open\<rparr>
          in if self_valid sample
             then (case event_list (evaluate_self_rss cfg (fi_self_status_ms i) (vm_rss_kb sample) (ft_rules t)) of
                     (e, events) \<Rightarrow> (t\<lparr>ft_rules := e\<rparr>, events))
             else (case collector_failure SelfStatusCollector (fi_self_status_ms i) (ft_self_status_failures t) of
                     (fc, events) \<Rightarrow> (t\<lparr>ft_self_status_failures := fc\<rparr>, events)))"

definition processes_part :: "monitor_config \<Rightarrow> fast_input \<Rightarrow> fast_thread \<Rightarrow> fast_thread \<times> internal_event list" where
  "processes_part cfg i t =
     (case record_whitelisted_process_metrics cfg (fi_processes i) (ft_processes t, ft_rules t) of
        ((p, e), events) \<Rightarrow> (t\<lparr>ft_processes := p, ft_rules := e\<rparr>, events))"

definition queue_part :: "monitor_config \<Rightarrow> fast_input \<Rightarrow> fast_thread \<Rightarrow> fast_thread \<times> internal_event list" where
  "queue_part cfg i t =
     (case event_list (evaluate_queue cfg (fi_queue_ms i) (fi_snapshot i) (ft_rules t)) of
        (e, events) \<Rightarrow> (t\<lparr>ft_rules := e\<rparr>, events))"

text \<open>Parts one after the other, their events in order.\<close>

fun run_parts :: "('t \<Rightarrow> 't \<times> internal_event list) list \<Rightarrow> 't \<Rightarrow> 't \<times> internal_event list" where
  "run_parts [] t = (t, [])"
| "run_parts (part # parts) t =
     (case part t of (t, events) \<Rightarrow> (case run_parts parts t of (t, more_events) \<Rightarrow> (t, events @ more_events)))"

definition fast_round :: "monitor_config \<Rightarrow> fast_input \<Rightarrow> fast_thread \<Rightarrow> fast_thread \<times> internal_event list" where
  "fast_round cfg i = run_parts
     [meminfo_part cfg i, cpu_part cfg i, self_status_part cfg i, processes_part cfg i, queue_part cfg i,
      \<lambda>t. (t, overrun_event cfg (fi_elapsed_ms i))]"

section \<open>The scheduling collector thread\<close>

text \<open>
  The collector of scheduling delays is an interface with two implementations; the thread sees the samples and the failure
  count it returns, which are part of the argument here.
\<close>

record sched_thread =
  st_rules :: rule_engine
  st_io :: io_collector
  st_sched_failures :: failure_count
  st_io_failures :: failure_count

definition new_sched_thread :: "monitor_config \<Rightarrow> sched_thread" where
  "new_sched_thread cfg = \<lparr>st_rules = new_rule_engine cfg, st_io = new_io_collector, st_sched_failures = no_failures,
     st_io_failures = no_failures\<rparr>"

record sched_input =
  si_samples :: "sched_delay_sample list"
  si_failures :: u64
  si_sched_ms :: "i32 \<Rightarrow> i32 \<Rightarrow> u64 \<times> u64"
  si_sched_failure_ms :: u64
  si_io_stamp_ms :: u64
  si_io :: "disk_stats reading"
  si_io_ms :: "string \<Rightarrow> u64 \<times> u64"
  si_io_failure_ms :: u64
  si_elapsed_ms :: u64

fun evaluate_sched_samples ::
  "monitor_config \<Rightarrow> (i32 \<Rightarrow> i32 \<Rightarrow> u64 \<times> u64) \<Rightarrow> sched_delay_sample list \<Rightarrow> rule_engine \<Rightarrow> rule_engine \<times> internal_event list" where
  "evaluate_sched_samples cfg clock [] e = (e, [])"
| "evaluate_sched_samples cfg clock (s # rest) e =
     (case event_list (evaluate_sched_delay cfg (fst (clock (sd_pid s) (sd_tid s))) (snd (clock (sd_pid s) (sd_tid s))) s e) of
        (e, events) \<Rightarrow> (case evaluate_sched_samples cfg clock rest e of (e, more_events) \<Rightarrow> (e, events @ more_events)))"

fun evaluate_io_samples ::
  "monitor_config \<Rightarrow> (string \<Rightarrow> u64 \<times> u64) \<Rightarrow> io_delay_sample list \<Rightarrow> rule_engine \<Rightarrow> rule_engine \<times> internal_event list" where
  "evaluate_io_samples cfg clock [] e = (e, [])"
| "evaluate_io_samples cfg clock (s # rest) e =
     (case event_list (evaluate_io_delay cfg (fst (clock (io_device s))) (snd (clock (io_device s))) s e) of
        (e, events) \<Rightarrow> (case evaluate_io_samples cfg clock rest e of (e, more_events) \<Rightarrow> (e, events @ more_events)))"

definition sched_part :: "monitor_config \<Rightarrow> sched_input \<Rightarrow> sched_thread \<Rightarrow> sched_thread \<times> internal_event list" where
  "sched_part cfg i t =
     (case evaluate_sched_samples cfg (si_sched_ms i) (si_samples i) (st_rules t) of
        (e, events) \<Rightarrow>
          let t = t\<lparr>st_rules := e\<rparr>
          in if 0 < si_failures i
             then (case collector_failure SchedDelayCollector (si_sched_failure_ms i) (st_sched_failures t) of
                     (fc, failure) \<Rightarrow> (t\<lparr>st_sched_failures := fc\<rparr>, events @ failure))
             else (t, events))"

definition io_part :: "monitor_config \<Rightarrow> sched_input \<Rightarrow> sched_thread \<Rightarrow> sched_thread \<times> internal_event list" where
  "io_part cfg i t =
     (case io_collect cfg (si_io_stamp_ms i) (si_io i) (st_io t) of
        (c, samples) \<Rightarrow>
          (case evaluate_io_samples cfg (si_io_ms i) samples (st_rules t) of
             (e, events) \<Rightarrow>
               let t = t\<lparr>st_io := c, st_rules := e\<rparr>
               in if 0 < ic_failures c
                  then (case collector_failure IoDelayCollector (si_io_failure_ms i) (st_io_failures t) of
                          (fc, failure) \<Rightarrow> (t\<lparr>st_io_failures := fc\<rparr>, events @ failure))
                  else (t, events)))"

definition sched_round :: "monitor_config \<Rightarrow> sched_input \<Rightarrow> sched_thread \<Rightarrow> sched_thread \<times> internal_event list" where
  "sched_round cfg i = run_parts
     [sched_part cfg i, io_part cfg i, \<lambda>t. (t, overrun_event cfg (si_elapsed_ms i))]"

section \<open>Publishing\<close>

datatype source = FastQueue | SchedQueue

record time_stamp =
  ts_realtime_ms :: u64
  ts_monotonic_ms :: u64
  ts_boottime_ms :: u64

record shared_state =
  sh_next_sequence :: u64
  sh_queue :: "source \<Rightarrow> internal_event ring"

definition new_shared_state :: "monitor_config \<Rightarrow> shared_state" where
  "new_shared_state cfg = \<lparr>sh_next_sequence = 1, sh_queue = (\<lambda>source. new_ring default_event (event_queue_capacity cfg)
     (critical_reserved_slots cfg) (drop_info_when_full cfg) (drop_warning_when_full cfg))\<rparr>"

definition stamp_event :: "u64 \<Rightarrow> time_stamp \<Rightarrow> internal_event \<Rightarrow> internal_event" where
  "stamp_event sequence ts event =
     (let event = event\<lparr>ev_sequence := sequence, ev_realtime_ms := ts_realtime_ms ts,
                        ev_monotonic_ms := ts_monotonic_ms ts, ev_boottime_ms := ts_boottime_ms ts\<rparr>;
          event = (if ev_last_seen_ms event = 0 then event\<lparr>ev_last_seen_ms := ev_realtime_ms event\<rparr> else event)
      in if ev_first_seen_ms event = 0 then event\<lparr>ev_first_seen_ms := ev_realtime_ms event\<rparr> else event)"

definition publish_event :: "source \<Rightarrow> time_stamp \<Rightarrow> internal_event \<Rightarrow> shared_state \<Rightarrow> shared_state \<times> bool" where
  "publish_event source ts event s =
     (let event = stamp_event (sh_next_sequence s) ts event
      in case push (ev_level event) event (sh_queue s source) of
           (q, ok) \<Rightarrow> (s\<lparr>sh_next_sequence := sh_next_sequence s + 1, sh_queue := (sh_queue s)(source := q)\<rparr>, ok))"

section \<open>What the queue rule sees\<close>

definition snapshot_of_queues :: "internal_event ring list \<Rightarrow> dispatcher_stats option \<Rightarrow> queue_snapshot" where
  "snapshot_of_queues queues dispatcher =
     (let empty = \<lparr>qs_push_fail_count = 0, qs_dropped_count = 0, qs_dropped_critical_count = 0,
            qs_reserve_reject_count = 0, qs_dispatcher_sink_push_failures = 0, qs_sink_dropped_count = 0,
            qs_sink_dropped_critical_count = 0, qs_sink_reserve_reject_count = 0, qs_depth = 0, qs_capacity = 0,
            qs_high_watermark = 0, qs_sink_depth = 0, qs_sink_capacity = 0, qs_sink_high_watermark = 0\<rparr>;
          snapshot = fold (\<lambda>queue sn. let stats = stats queue in sn\<lparr>
            qs_push_fail_count := qs_push_fail_count sn + st_push_fail_count stats,
            qs_dropped_count := qs_dropped_count sn +
              (st_dropped_info_count stats + st_dropped_warning_count stats + st_dropped_critical_count stats),
            qs_dropped_critical_count := qs_dropped_critical_count sn + st_dropped_critical_count stats,
            qs_reserve_reject_count := qs_reserve_reject_count sn + st_reserve_reject_count stats,
            qs_depth := qs_depth sn + depth queue,
            qs_capacity := qs_capacity sn + usable_capacity queue,
            qs_high_watermark := max (qs_high_watermark sn) (st_high_watermark stats)\<rparr>) queues empty
      in case dispatcher of
           None \<Rightarrow> snapshot
         | Some d \<Rightarrow> snapshot\<lparr>
             qs_dispatcher_sink_push_failures := ds_sink_queue_push_failures d,
             qs_sink_dropped_count := ds_sink_queue_dropped_events d,
             qs_sink_dropped_critical_count := ds_sink_queue_dropped_critical_events d,
             qs_sink_reserve_reject_count := ds_sink_queue_reserve_reject_events d,
             qs_sink_depth := ds_sink_queue_depth d,
             qs_sink_capacity := ds_sink_queue_capacity d,
             qs_sink_high_watermark := ds_sink_queue_high_watermark d\<rparr>)"

section \<open>Start and stop\<close>

text \<open>The calls on the parts of the monitor, in order; the outcomes of the two starts decide how far it gets.\<close>

datatype monitor_call =
  StartDispatchers | StartMetrics | PublishStarted | StartThreads | JoinThreads | StopMetrics | StopDispatchers

definition monitor_start :: "monitor_config \<Rightarrow> bool \<Rightarrow> bool \<Rightarrow> bool \<Rightarrow> monitor_call list \<times> bool \<times> bool" where
  "monitor_start cfg dispatchers_start metrics_start running =
     (if running then ([], running, False)
      else if \<not> enable cfg then ([], running, False)
      else if \<not> dispatchers_start then ([StartDispatchers], running, False)
      else if \<not> metrics_start then ([StartDispatchers, StartMetrics, StopDispatchers], running, False)
      else ([StartDispatchers, StartMetrics, PublishStarted, StartThreads], True, True))"

definition monitor_stop :: "bool \<Rightarrow> monitor_call list \<times> bool" where
  "monitor_stop running = (if running then [JoinThreads, StopMetrics, StopDispatchers] else [], False)"

section \<open>The deadline of the next round\<close>

text \<open>
  A round that ends at or after its deadline starts the wait for a deadline that lies ahead, by
  one interval at most; the grid of the deadlines is kept unless a whole interval was missed.
\<close>

theorem next_deadline_ahead:
  assumes "0 < interval_ns" and "current \<le> now_ns"
  shows "now_ns < next_deadline now_ns current interval_ns \<and>
    next_deadline now_ns current interval_ns \<le> now_ns + interval_ns \<and>
    (now_ns < current + interval_ns \<longrightarrow> next_deadline now_ns current interval_ns = current + interval_ns)"
  using assms by (simp add: next_deadline_def Let_def)

theorem next_deadline_ahead_witness:
  "next_deadline 1250 1000 500 = 1500 \<and> 1250 < next_deadline 1250 1000 500"
  using next_deadline_ahead [of 500 1000 1250] by simp

text \<open>
  The loop of a collector thread: a round, the wait for the deadline, which ends late by whatever the scheduler adds, and the next
  deadline. The list has for each round how long it takes and how late the wait after it ends; the result are the times
  at which the rounds start.
\<close>

fun round_starts :: "int \<Rightarrow> int \<Rightarrow> int \<Rightarrow> (int \<times> int) list \<Rightarrow> int list" where
  "round_starts interval start deadline [] = [start]"
| "round_starts interval start deadline ((duration, late) # rest) =
     (let woken = max (start + duration) deadline + late
      in start # round_starts interval woken (next_deadline woken deadline interval) rest)"

definition collect_loop :: "int \<Rightarrow> int \<Rightarrow> (int \<times> int) list \<Rightarrow> int list" where
  "collect_loop interval start = round_starts interval start (start + interval)"

lemma round_starts_hd: "round_starts interval start deadline loads \<noteq> [] \<and> round_starts interval start deadline loads ! 0 = start"
  by (cases loads) (auto simp: Let_def)

lemma round_starts_apart:
  assumes "0 < interval" and "\<forall>(duration, late) \<in> set loads. 0 \<le> late" and "start < deadline"
    and "k + 2 < length (round_starts interval start deadline loads)"
  shows "round_starts interval start deadline loads ! k + interval < round_starts interval start deadline loads ! (k + 2)"
  using assms
proof (induction interval start deadline loads arbitrary: k rule: round_starts.induct)
  case (2 interval start deadline duration late rest)
  define woken where "woken = max (start + duration) deadline + late"
  define deadline' where "deadline' = next_deadline woken deadline interval"
  have starts: "round_starts interval start deadline ((duration, late) # rest) = start # round_starts interval woken deadline' rest"
    by (simp add: woken_def deadline'_def Let_def)
  have late: "deadline \<le> woken" using 2(3) by (auto simp: woken_def)
  then have ahead: "woken < deadline'" "deadline + interval \<le> deadline'"
    using 2(2) by (auto simp: deadline'_def next_deadline_def Let_def)
  show ?case
  proof (cases k)
    case 0
    obtain d l rest' where rest: "rest = (d, l) # rest'" using 2(5) 0 starts by (cases rest) auto
    have "0 \<le> l" using 2(3) rest by auto
    then have "deadline' \<le> max (woken + d) deadline' + l" by simp
    moreover have "round_starts interval woken deadline' rest ! 1 = max (woken + d) deadline' + l"
      using round_starts_hd by (simp add: rest Let_def)
    ultimately show ?thesis using 0 starts ahead(2) 2(4) by simp
  next
    case (Suc k')
    have "k' + 2 < length (round_starts interval woken deadline' rest)" using 2(5) Suc starts by simp
    then show ?thesis
      using 2(1) [OF refl, folded woken_def, folded deadline'_def, of k'] 2(2,3) ahead(1) starts Suc by simp
  qed
qed simp

text \<open>
  Rounds do not bunch up: however long rounds take, the rounds of any whole interval are at most two, for the deadlines that
  were missed are skipped.
\<close>

theorem rounds_do_not_bunch:
  assumes "0 < interval" and "\<forall>(duration, late) \<in> set loads. 0 \<le> late" and "k + 2 < length (collect_loop interval start loads)"
  shows "collect_loop interval start loads ! k + interval < collect_loop interval start loads ! (k + 2)"
  unfolding collect_loop_def by (rule round_starts_apart) (use assms in \<open>simp_all add: collect_loop_def\<close>)

theorem rounds_do_not_bunch_witness:
  "collect_loop 100 0 [(350, 1), (10, 0), (10, 0)] = [0, 351, 451, 551] \<and>
   collect_loop 100 0 [(350, 1), (10, 0), (10, 0)] ! 0 + 100 < collect_loop 100 0 [(350, 1), (10, 0), (10, 0)] ! (0 + 2)"
proof -
  have "collect_loop 100 0 [(350, 1), (10, 0), (10, 0)] = [0, 351, 451, 551]" by (simp add: collect_loop_def next_deadline_def Let_def)
  then show ?thesis using rounds_do_not_bunch [of 100 "[(350, 1), (10, 0), (10, 0)]" 0 0] by simp
qed

lemma round_starts_grid:
  assumes "\<forall>(duration, late) \<in> set loads. 0 \<le> late \<and> late \<le> slack \<and> duration + slack \<le> interval" and "slack < interval"
    and "base \<le> start" and "start \<le> base + slack" and "k < length loads"
  shows "round_starts interval start (base + interval) loads ! Suc k = base + int (Suc k) * interval + snd (loads ! k)"
  using assms
proof (induction loads arbitrary: base start k)
  case (Cons load rest)
  obtain duration late where load: "load = (duration, late)" by (cases load)
  have bounds: "0 \<le> late" "late \<le> slack" "duration + slack \<le> interval" using Cons.prems(1) by (auto simp: load)
  have woken: "max (start + duration) (base + interval) + late = base + interval + late" using bounds Cons.prems(4) by simp
  have deadline: "next_deadline (base + interval + late) (base + interval) interval = (base + interval) + interval"
    using bounds Cons.prems(2) by (simp add: next_deadline_def Let_def)
  have starts: "round_starts interval start (base + interval) (load # rest) =
      start # round_starts interval (base + interval + late) ((base + interval) + interval) rest"
    by (simp add: load woken deadline Let_def)
  show ?case
  proof (cases k)
    case 0
    then show ?thesis unfolding starts using round_starts_hd [of interval "base + interval + late"] by (simp add: load)
  next
    case (Suc k')
    have "round_starts interval (base + interval + late) ((base + interval) + interval) rest ! Suc k' =
        (base + interval) + int (Suc k') * interval + snd (rest ! k')"
      using Cons.prems bounds Suc by (intro Cons.IH) auto
    then show ?thesis unfolding starts Suc by (simp add: algebra_simps)
  qed
qed simp

text \<open>
  Rounds do not drift: while every round ends within its interval, the rounds start on the grid of the first start, each late by
  the delay of its own wait only.
\<close>

theorem rounds_keep_grid:
  assumes "\<forall>(duration, late) \<in> set loads. 0 \<le> late \<and> late \<le> slack \<and> duration + slack \<le> interval"
    and "0 \<le> slack" and "slack < interval" and "k < length loads"
  shows "collect_loop interval start loads ! Suc k = start + int (Suc k) * interval + snd (loads ! k)"
  unfolding collect_loop_def by (rule round_starts_grid) (use assms in simp_all)

theorem rounds_keep_grid_witness:
  "collect_loop 100 0 [(30, 1), (60, 3)] ! Suc 1 = 203"
  using rounds_keep_grid [of "[(30, 1), (60, 3)]" 5 100 1 0] by simp

section \<open>Failure events\<close>

fun failure_run :: "collector \<Rightarrow> u64 list \<Rightarrow> failure_count \<Rightarrow> failure_count \<times> (u64 \<times> internal_event) list" where
  "failure_run coll [] fc = (fc, [])"
| "failure_run coll (now_ms # moments) fc =
     (case collector_failure coll now_ms fc of
        (fc, events) \<Rightarrow> (case failure_run coll moments fc of
           (fc, reported) \<Rightarrow> (fc, map (\<lambda>e. (now_ms, e)) events @ reported)))"

definition reports :: "u64 \<Rightarrow> failure_count \<Rightarrow> bool" where
  "reports now_ms fc \<longleftrightarrow> fc_last_event_ms fc = 0 \<or> 60000 \<le> now_ms - fc_last_event_ms fc"

lemma collector_failure_eq:
  "fst (collector_failure coll now_ms fc) = fc\<lparr>fc_total := fc_total fc + 1,
     fc_last_event_ms := (if reports now_ms fc then now_ms else fc_last_event_ms fc)\<rparr>"
  "length (snd (collector_failure coll now_ms fc)) = (if reports now_ms fc then 1 else 0)"
  by (auto simp: collector_failure_def reports_def Let_def not_le not_less)

lemma failure_run_times:
  "map fst (snd (failure_run coll (now_ms # moments) fc)) =
     (if reports now_ms fc then [now_ms] else []) @ map fst (snd (failure_run coll moments (fst (collector_failure coll now_ms fc))))"
proof -
  obtain fc' events where "collector_failure coll now_ms fc = (fc', events)" by fastforce
  moreover have "map fst (map (\<lambda>e. (now_ms, e)) events) = replicate (length events) now_ms" by (induction events) simp_all
  ultimately show ?thesis using collector_failure_eq(2) [of coll now_ms fc] by (auto simp: case_prod_beta)
qed

lemma failure_run_spaced:
  assumes "sorted_wrt (\<le>) moments" and "\<forall>t \<in> set moments. t \<noteq> 0 \<and> fc_last_event_ms fc \<le> t"
  shows "sorted_wrt (\<lambda>a b. unat a + 60000 \<le> unat b) (map fst (snd (failure_run coll moments fc))) \<and>
    (\<forall>e \<in> fst ` set (snd (failure_run coll moments fc)). e \<in> set moments \<and>
       (fc_last_event_ms fc \<noteq> 0 \<longrightarrow> unat (fc_last_event_ms fc) + 60000 \<le> unat e)) \<and>
    (\<forall>t \<in> set moments. \<exists>e \<in> fst ` set (snd (failure_run coll moments fc)) \<union> ({fc_last_event_ms fc} - {0}).
       e \<le> t \<and> unat t < unat e + 60000)"
  using assms
proof (induction moments arbitrary: fc)
  case (Cons now moments)
  let ?fc = "fst (collector_failure coll now fc)"
  let ?rest = "fst ` set (snd (failure_run coll moments ?fc))"
  have last: "fc_last_event_ms ?fc = (if reports now fc then now else fc_last_event_ms fc)"
    by (simp add: collector_failure_eq)
  have now: "now \<noteq> 0" "fc_last_event_ms fc \<le> now" "\<forall>t \<in> set moments. now \<le> t" using Cons(2,3) by auto
  have "\<forall>t \<in> set moments. t \<noteq> 0 \<and> fc_last_event_ms ?fc \<le> t" using Cons(3) now(3) last by auto
  then have IH: "sorted_wrt (\<lambda>a b. unat a + 60000 \<le> unat b) (map fst (snd (failure_run coll moments ?fc)))"
      "\<forall>e \<in> ?rest. e \<in> set moments \<and> (fc_last_event_ms ?fc \<noteq> 0 \<longrightarrow> unat (fc_last_event_ms ?fc) + 60000 \<le> unat e)"
      "\<forall>t \<in> set moments. \<exists>e \<in> ?rest \<union> ({fc_last_event_ms ?fc} - {0}). e \<le> t \<and> unat t < unat e + 60000"
    using Cons(1) [of ?fc] Cons(2) by simp_all
  have run: "map fst (snd (failure_run coll (now # moments) fc)) =
      (if reports now fc then [now] else []) @ map fst (snd (failure_run coll moments ?fc))"
    by (rule failure_run_times)
  have set: "fst ` set (snd (failure_run coll (now # moments) fc)) = (if reports now fc then {now} else {}) \<union> ?rest"
    unfolding set_map [symmetric] run by simp
  have sub: "unat (now - fc_last_event_ms fc) = unat now - unat (fc_last_event_ms fc)" using now(2) by (rule unat_sub_le)
  have apart: "reports now fc \<Longrightarrow> fc_last_event_ms fc \<noteq> 0 \<Longrightarrow> unat (fc_last_event_ms fc) + 60000 \<le> unat now"
    using now(2) sub by (auto simp: reports_def word_le_nat_alt)
  have near: "\<not> reports now fc \<Longrightarrow> fc_last_event_ms fc \<noteq> 0 \<and> unat now < unat (fc_last_event_ms fc) + 60000"
    using now(2) sub by (auto simp: reports_def word_le_nat_alt)
  show ?case
  proof (cases "reports now fc")
    case True
    then have *: "fc_last_event_ms ?fc = now" using last by simp
    have far: "e \<in> ?rest \<Longrightarrow> unat now + 60000 \<le> unat e" for e using IH(2) now(1) * by auto
    have "sorted_wrt (\<lambda>a b. unat a + 60000 \<le> unat b) (map fst (snd (failure_run coll (now # moments) fc)))"
      unfolding run using IH(1) far True by auto
    moreover have "\<forall>e \<in> {now} \<union> ?rest. e \<in> set (now # moments) \<and> (fc_last_event_ms fc \<noteq> 0 \<longrightarrow> unat (fc_last_event_ms fc) + 60000 \<le> unat e)"
      using apart [OF True] IH(2) far by fastforce
    moreover have "\<forall>t \<in> set (now # moments). \<exists>e \<in> {now} \<union> ?rest. e \<le> t \<and> unat t < unat e + 60000"
      using IH(3) * by auto
    ultimately show ?thesis unfolding set using True by auto
  next
    case False
    then have *: "fc_last_event_ms ?fc = fc_last_event_ms fc" using last by simp
    show ?thesis unfolding run set using IH near [OF False] now(2) False unfolding * by auto
  qed
qed simp

text \<open>
  C40: however often a collector fails, its failure events are at least a minute apart, and no failure is more
  than a minute after the last failure event: the first failure is reported at once, and a collector that keeps failing is
  reported again. All failures are counted. (The clock is monotonic and past its first millisecond: the time 0
  stands for no event yet.)
\<close>

theorem failure_events_spaced:
  assumes "sorted_wrt (\<le>) moments" and "0 \<notin> set moments"
  shows "sorted_wrt (\<lambda>a b. unat a + 60000 \<le> unat b) (map fst (snd (failure_run coll moments no_failures))) \<and>
    (\<forall>t \<in> set moments. \<exists>e \<in> fst ` set (snd (failure_run coll moments no_failures)). e \<le> t \<and> unat t < unat e + 60000) \<and>
    fc_total (fst (failure_run coll moments no_failures)) = of_nat (length moments)"
proof -
  have "fc_total (fst (failure_run coll moments fc)) = fc_total fc + of_nat (length moments)" for fc
    by (induction moments arbitrary: fc) (simp_all add: case_prod_beta collector_failure_eq)
  then have "fc_total (fst (failure_run coll moments no_failures)) = of_nat (length moments)" by (simp add: no_failures_def)
  moreover have "\<forall>t \<in> set moments. t \<noteq> 0 \<and> fc_last_event_ms no_failures \<le> t" using assms(2) by (auto simp: no_failures_def)
  ultimately show ?thesis using failure_run_spaced [OF assms(1), of no_failures coll] by (auto simp: no_failures_def)
qed

theorem failure_events_spaced_witness:
  "unat (61000 :: u64) < 60000 + 2000 \<and> (\<exists>e \<in> fst ` set (snd (failure_run IoDelayCollector [1000, 1500, 61000] no_failures)). e \<le> 1500)"
  using failure_events_spaced [of "[1000, 1500, 61000]" IoDelayCollector] by (auto simp: word_le_nat_alt)

section \<open>Publications of both threads\<close>

text \<open>A step on the shared state: one of the threads publishes, or the dispatcher of a queue takes its oldest event.\<close>

datatype shared_op = Publish source time_stamp internal_event | Take source

datatype shared_result = Queued source internal_event | Lost source internal_event | Taken source internal_event | Idle source

fun shared_step :: "shared_op \<Rightarrow> shared_state \<Rightarrow> shared_state \<times> shared_result" where
  "shared_step (Publish source ts event) s =
     (case publish_event source ts event s of
        (s', ok) \<Rightarrow> (s', (if ok then Queued else Lost) source (stamp_event (sh_next_sequence s) ts event)))"
| "shared_step (Take source) s =
     (case pop (sh_queue s source) of
        (q, None) \<Rightarrow> (s\<lparr>sh_queue := (sh_queue s)(source := q)\<rparr>, Idle source)
      | (q, Some event) \<Rightarrow> (s\<lparr>sh_queue := (sh_queue s)(source := q)\<rparr>, Taken source event))"

fun shared_run :: "shared_op list \<Rightarrow> shared_state \<Rightarrow> shared_state \<times> shared_result list" where
  "shared_run [] s = (s, [])"
| "shared_run (op # ops) s =
     (case shared_step op s of (s, result) \<Rightarrow> (case shared_run ops s of (s, results) \<Rightarrow> (s, result # results)))"

fun published :: "shared_result list \<Rightarrow> internal_event list" where
  "published [] = []"
| "published (Queued source e # rs) = e # published rs"
| "published (Lost source e # rs) = e # published rs"
| "published (r # rs) = published rs"

fun queued_in :: "source \<Rightarrow> shared_result list \<Rightarrow> internal_event list" where
  "queued_in source [] = []"
| "queued_in source (Queued src e # rs) = (if src = source then e # queued_in source rs else queued_in source rs)"
| "queued_in source (r # rs) = queued_in source rs"

fun taken_from :: "source \<Rightarrow> shared_result list \<Rightarrow> internal_event list" where
  "taken_from source [] = []"
| "taken_from source (Taken src e # rs) = (if src = source then e # taken_from source rs else taken_from source rs)"
| "taken_from source (r # rs) = taken_from source rs"

lemma stamp_event_fields [simp]: "ev_sequence (stamp_event n ts event) = n" "ev_level (stamp_event n ts event) = ev_level event"
  by (simp_all add: stamp_event_def Let_def)

lemma publish_event_eq:
  "publish_event source ts event s =
     (s\<lparr>sh_next_sequence := sh_next_sequence s + 1,
        sh_queue := (sh_queue s)(source := fst (push (ev_level event) (stamp_event (sh_next_sequence s) ts event) (sh_queue s source)))\<rparr>,
      snd (push (ev_level event) (stamp_event (sh_next_sequence s) ts event) (sh_queue s source)))"
  by (simp add: publish_event_def Let_def case_prod_beta)

lemma shared_step_ok:
  assumes "\<forall>source. ring_wf (sh_queue s source)" and "shared_step op s = (s', r)"
  shows "\<forall>source. ring_wf (sh_queue s' source)"
    and "taken_from source [r] @ ring_items (sh_queue s' source) = ring_items (sh_queue s source) @ queued_in source [r]"
    and "(\<exists>e. published [r] = [e] \<and> ev_sequence e = sh_next_sequence s \<and> sh_next_sequence s' = sh_next_sequence s + 1) \<or>
      published [r] = [] \<and> sh_next_sequence s' = sh_next_sequence s"
proof -
  have all: "(\<forall>source. ring_wf (sh_queue s' source)) \<and>
    taken_from source [r] @ ring_items (sh_queue s' source) = ring_items (sh_queue s source) @ queued_in source [r] \<and>
    ((\<exists>e. published [r] = [e] \<and> ev_sequence e = sh_next_sequence s \<and> sh_next_sequence s' = sh_next_sequence s + 1) \<or>
      published [r] = [] \<and> sh_next_sequence s' = sh_next_sequence s)"
  proof (cases op)
    case (Publish src ts event)
    let ?e = "stamp_event (sh_next_sequence s) ts event"
    have wf: "ring_wf (sh_queue s src)" using assms(1) by blast
    show ?thesis
      using assms Publish rb.enqueue_inv [OF wf, of "ev_level event" ?e] rb.enqueue_items [OF wf, of "ev_level event" ?e]
        rb.enqueue_flag [OF wf, of "ev_level event" ?e]
      by (auto simp: publish_event_eq)
  next
    case (Take src)
    have wf: "ring_wf (sh_queue s src)" using assms(1) by blast
    show ?thesis
      using assms Take rb.dequeue_inv [OF wf] rb.dequeue_items [OF wf] rb.dequeue_result [OF wf]
      by (cases "pop (sh_queue s src)"; cases "ring_items (sh_queue s src)") auto
  qed
  show "\<forall>source. ring_wf (sh_queue s' source)"
    "taken_from source [r] @ ring_items (sh_queue s' source) = ring_items (sh_queue s source) @ queued_in source [r]"
    "(\<exists>e. published [r] = [e] \<and> ev_sequence e = sh_next_sequence s \<and> sh_next_sequence s' = sh_next_sequence s + 1) \<or>
      published [r] = [] \<and> sh_next_sequence s' = sh_next_sequence s"
    using all by blast+
qed

lemma result_Cons:
  "published (r # rs) = published [r] @ published rs"
  "queued_in source (r # rs) = queued_in source [r] @ queued_in source rs"
  "taken_from source (r # rs) = taken_from source [r] @ taken_from source rs"
  by (cases r; simp)+

lemma queued_published: "subseq (queued_in source rs) (published rs)"
proof (induction rs)
  case (Cons r rs)
  then show ?case by (cases r) auto
qed simp

lemma shared_run_ok:
  assumes "\<forall>source. ring_wf (sh_queue s source)" and "unat (sh_next_sequence s) + length ops < 2 ^ 64" and "shared_run ops s = (s', rs)"
  shows "map (\<lambda>e. unat (ev_sequence e)) (published rs) = [unat (sh_next_sequence s)..<unat (sh_next_sequence s) + length (published rs)] \<and>
    taken_from source rs @ ring_items (sh_queue s' source) = ring_items (sh_queue s source) @ queued_in source rs"
  using assms
proof (induction ops arbitrary: s rs)
  case (Cons op ops)
  obtain s1 r where step: "shared_step op s = (s1, r)" by fastforce
  obtain rs' where run: "shared_run ops s1 = (s', rs')" and rs: "rs = r # rs'"
    using Cons.prems(3) step by (auto split: prod.splits)
  note ok = shared_step_ok [OF Cons.prems(1) step]
  have next_seq: "unat (sh_next_sequence s + 1) = unat (sh_next_sequence s) + 1"
    using Cons.prems(2) by (subst unat_add_no_overflow) simp_all
  have bound: "unat (sh_next_sequence s1) + length ops < 2 ^ 64"
    using ok(3) next_seq Cons.prems(2) by auto
  have upt: "[a..<Suc (a + n)] = a # [Suc a..<Suc a + n]" for a n :: nat
    by (subst upt_conv_Cons) simp_all
  have IH: "map (\<lambda>e. unat (ev_sequence e)) (published rs') = [unat (sh_next_sequence s1)..<unat (sh_next_sequence s1) + length (published rs')]"
      "taken_from source rs' @ ring_items (sh_queue s' source) = ring_items (sh_queue s1 source) @ queued_in source rs'"
    using Cons.IH [OF ok(1) bound run] by blast+
  have "taken_from source rs @ ring_items (sh_queue s' source) = ring_items (sh_queue s source) @ queued_in source rs"
    using IH(2) ok(2) [of source] unfolding rs result_Cons(2,3) [of _ r rs'] by (metis append.assoc)
  moreover have "map (\<lambda>e. unat (ev_sequence e)) (published rs) = [unat (sh_next_sequence s)..<unat (sh_next_sequence s) + length (published rs)]"
    using ok(3) IH(1) next_seq unfolding rs result_Cons(1) [of r rs'] by (auto simp: upt simp del: upt_Suc)
  ultimately show ?case by blast
qed auto

text \<open>
  C4: in every interleaving of the two threads that publish and the dispatchers that take, the events
  are numbered from 1 without a gap in the order of their publication, and what a dispatcher takes from a queue, followed by
  what is still queued, are the events that queue accepted, in the order of their numbers: none twice, none reordered.
\<close>

theorem publication_order:
  assumes "event_queue_capacity cfg \<noteq> - 1" and "length ops < 2 ^ 64 - 1"
    and "shared_run ops (new_shared_state cfg) = (s, results)"
  shows "map (\<lambda>e. unat (ev_sequence e)) (published results) = [1..<1 + length (published results)] \<and>
    (\<forall>source. taken_from source results @ ring_items (sh_queue s source) = queued_in source results \<and>
       subseq (queued_in source results) (published results))"
proof -
  have "\<forall>source. ring_wf (sh_queue (new_shared_state cfg) source)"
    using assms(1) by (simp add: new_shared_state_def new_ring_wf)
  then show ?thesis
    using shared_run_ok [of "new_shared_state cfg" ops s results] assms(2,3) queued_published
    by (simp add: new_shared_state_def)
qed

definition wit_time :: time_stamp where
  "wit_time = \<lparr>ts_realtime_ms = 1, ts_monotonic_ms = 1, ts_boottime_ms = 1\<rparr>"

theorem publication_order_witness:
  "\<exists>s results. shared_run [Publish FastQueue wit_time started_event, Publish SchedQueue wit_time started_event, Take FastQueue]
      (new_shared_state default_config) = (s, results) \<and>
    map (\<lambda>e. unat (ev_sequence e)) (published results) = [1..<1 + length (published results)]"
proof -
  obtain s results where run: "shared_run [Publish FastQueue wit_time started_event, Publish SchedQueue wit_time started_event, Take FastQueue]
      (new_shared_state default_config) = (s, results)" by fastforce
  have "event_queue_capacity default_config \<noteq> - 1" by (simp add: default_config_def)
  then show ?thesis using publication_order [OF _ _ run] run by auto
qed

section \<open>The events of the rounds\<close>

text \<open>What the parts of a round keep of the engine.\<close>

definition keeps_ok :: "rule_engine \<Rightarrow> rule_engine \<Rightarrow> bool" where
  "keeps_ok e e' \<longleftrightarrow> (engine_ok e \<longrightarrow> engine_ok e')"

definition keeps_queue :: "rule_engine \<Rightarrow> rule_engine \<Rightarrow> bool" where
  "keeps_queue e e' \<longleftrightarrow> re_queue e' = re_queue e \<and>
     re_last_queue_critical_drop_count e' = re_last_queue_critical_drop_count e"

lemma keeps_refl [simp]: "keeps_ok e e" "keeps_queue e e"
  by (simp_all add: keeps_ok_def keeps_queue_def)

lemma keeps_trans: "keeps_ok e e' \<Longrightarrow> keeps_ok e' e'' \<Longrightarrow> keeps_ok e e''"
  "keeps_queue e e' \<Longrightarrow> keeps_queue e' e'' \<Longrightarrow> keeps_queue e e''"
  by (simp_all add: keeps_ok_def keeps_queue_def)

lemma event_list_fst [simp]: "fst (event_list x) = fst x"
  by (simp add: event_list_def)

lemma event_list_set: "e \<in> set (snd (event_list x)) \<longleftrightarrow> snd x = Some e"
  by (auto simp: event_list_def split: option.splits)

text \<open>An operation of the engine.\<close>

lemma step_keeps_ok: "keeps_ok e (fst (engine_step cfg op e))"
  by (simp add: keeps_ok_def engine_step_ok)

lemma step_fits: "list_all event_fits (snd (event_list (engine_step cfg op e)))"
  using engine_step_event_ok by (auto simp: list_all_iff event_list_set rule_event_ok_def)

lemma step_keeps_queue:
  assumes "\<And>ms s. op \<noteq> EvaluateQueue ms s"
  shows "keeps_queue e (fst (engine_step cfg op e))"
  using assms
  by (cases op) (auto simp: keeps_queue_def evaluate_memory_def evaluate_self_rss_def evaluate_cpu_usage_def
      evaluate_sched_delay_def evaluate_io_delay_def evaluate_process_memory_growth_def forget_process_memory_def
      prune_expired_contexts_def Let_def case_prod_beta split: option.split)

lemma collector_failure_fits: "list_all event_fits (snd (collector_failure coll now_ms fc))"
  by (auto simp: collector_failure_def Let_def event_fits_def default_event_def set_evidence_def empty_item_def)

lemma overrun_fits: "list_all event_fits (overrun_event cfg elapsed_ms)"
  by (auto simp: overrun_event_def event_fits_def default_event_def empty_item_def)

text \<open>Lists of evaluations, each part of a thread's round.\<close>

lemma run_parts_rel:
  assumes "\<And>part t. part \<in> set parts \<Longrightarrow> R (rules t) (rules (fst (part t)))"
    and "\<And>e. R e e" and "\<And>a b c. R a b \<Longrightarrow> R b c \<Longrightarrow> R a c"
  shows "R (rules t) (rules (fst (run_parts parts t)))"
  using assms(1)
proof (induction parts arbitrary: t)
  case Nil
  then show ?case using assms(2) by simp
next
  case (Cons part parts)
  have "R (rules t) (rules (fst (part t)))" "R (rules (fst (part t))) (rules (fst (run_parts parts (fst (part t)))))"
    using Cons by simp_all
  then show ?case using assms(3) by (simp add: case_prod_beta)
qed

lemma run_parts_fits:
  assumes "\<And>part t. part \<in> set parts \<Longrightarrow> list_all event_fits (snd (part t))"
  shows "list_all event_fits (snd (run_parts parts t))"
  using assms by (induction parts arbitrary: t) (simp_all add: case_prod_beta)

lemma cpu_samples_rel:
  "keeps_ok e (fst (evaluate_cpu_samples cfg clock samples e)) \<and> keeps_queue e (fst (evaluate_cpu_samples cfg clock samples e)) \<and>
   list_all event_fits (snd (evaluate_cpu_samples cfg clock samples e))"
proof (induction samples arbitrary: e)
  case (Cons x samples)
  let ?op = "EvaluateCpuUsage (fst (clock (cpu_name x))) (snd (clock (cpu_name x))) x"
  show ?case
    using Cons [of "fst (engine_step cfg ?op e)"] step_keeps_ok [of e cfg ?op] step_keeps_queue [of ?op e cfg] step_fits [of cfg ?op e]
    by (auto simp: case_prod_beta intro: keeps_trans)
qed simp

lemma sched_samples_rel:
  "keeps_ok e (fst (evaluate_sched_samples cfg clock samples e)) \<and> keeps_queue e (fst (evaluate_sched_samples cfg clock samples e)) \<and>
   list_all event_fits (snd (evaluate_sched_samples cfg clock samples e))"
proof (induction samples arbitrary: e)
  case (Cons x samples)
  let ?op = "EvaluateSchedDelay (fst (clock (sd_pid x) (sd_tid x))) (snd (clock (sd_pid x) (sd_tid x))) x"
  show ?case
    using Cons [of "fst (engine_step cfg ?op e)"] step_keeps_ok [of e cfg ?op] step_keeps_queue [of ?op e cfg] step_fits [of cfg ?op e]
    by (auto simp: case_prod_beta intro: keeps_trans)
qed simp

lemma io_samples_rel:
  "keeps_ok e (fst (evaluate_io_samples cfg clock samples e)) \<and> keeps_queue e (fst (evaluate_io_samples cfg clock samples e)) \<and>
   list_all event_fits (snd (evaluate_io_samples cfg clock samples e))"
proof (induction samples arbitrary: e)
  case (Cons x samples)
  let ?op = "EvaluateIoDelay (fst (clock (io_device x))) (snd (clock (io_device x))) x"
  show ?case
    using Cons [of "fst (engine_step cfg ?op e)"] step_keeps_ok [of e cfg ?op] step_keeps_queue [of ?op e cfg] step_fits [of cfg ?op e]
    by (auto simp: case_prod_beta intro: keeps_trans)
qed simp

text \<open>Following the processes.\<close>

lemma forget_process_rel: "keeps_ok (snd te) (snd (forget_process pid inst te)) \<and> keeps_queue (snd te) (snd (forget_process pid inst te))"
  using step_keeps_ok [of "snd te" _ "ForgetProcessMemory (pi_name inst) pid"]
    step_keeps_queue [of "ForgetProcessMemory (pi_name inst) pid" "snd te"]
  by (simp add: forget_process_fields)

lemma note_instance_rel: "keeps_ok (snd te) (snd (note_instance sample te)) \<and> keeps_queue (snd te) (snd (note_instance sample te))"
proof -
  obtain t e where te: "te = (t, e)" by (cases te)
  show ?thesis
    using forget_process_rel [of "(t, e)" "ps_pid sample"]
    by (auto simp: te note_instance_def Let_def case_prod_beta split: option.split)
qed

lemma record_process_rel:
  "keeps_ok (snd te) (snd (fst (record_process cfg ticks now_ns clock sample te))) \<and>
   keeps_queue (snd te) (snd (fst (record_process cfg ticks now_ns clock sample te))) \<and>
   (\<forall>event. snd (snd (record_process cfg ticks now_ns clock sample te)) = Some event \<longrightarrow> event_fits event)"
proof -
  obtain t e where note_eq: "note_instance sample te = (t, e)" by fastforce
  have before: "keeps_ok (snd te) e" "keeps_queue (snd te) e" using note_instance_rel [of te sample] note_eq by simp_all
  let ?op = "\<lambda>g. EvaluateProcessMemoryGrowth (fst clock) (snd clock) (ps_name sample) (ps_pid sample) g"
  have growth: "keeps_ok e (fst (engine_step cfg (?op g) e))" "keeps_queue e (fst (engine_step cfg (?op g) e))"
      "snd (engine_step cfg (?op g) e) = Some event \<Longrightarrow> event_fits event" for g event
    using step_keeps_ok [of e cfg "?op g"] step_keeps_queue [of "?op g" e cfg] engine_step_event_ok [of cfg "?op g" e event] by (simp_all add: rule_event_ok_def)
  have "snd (fst (record_process cfg ticks now_ns clock sample te)) = e \<or>
      (\<exists>g. snd (fst (record_process cfg ticks now_ns clock sample te)) = fst (engine_step cfg (?op g) e))"
    by (auto simp: record_process_def note_eq Let_def case_prod_beta split: option.split)
  moreover have "\<exists>g. snd (engine_step cfg (?op g) e) = Some event" if "snd (snd (record_process cfg ticks now_ns clock sample te)) = Some event" for event
    using that by (auto simp: record_process_def note_eq Let_def case_prod_beta split: option.splits if_splits)
  moreover have "keeps_ok (snd te) (fst (engine_step cfg (?op g) e))" "keeps_queue (snd te) (fst (engine_step cfg (?op g) e))" for g
    using keeps_trans before growth(1,2) by blast+
  ultimately show ?thesis using before growth(3) by metis
qed

lemma record_processes_rel:
  "keeps_ok (snd te) (snd (fst (record_processes cfg ticks now_ns samples te))) \<and>
   keeps_queue (snd te) (snd (fst (record_processes cfg ticks now_ns samples te))) \<and>
   list_all event_fits (snd (record_processes cfg ticks now_ns samples te))"
proof (induction samples arbitrary: te)
  case (Cons x samples)
  obtain sample clock where x: "x = (sample, clock)" by (cases x)
  show ?case
    using Cons [of "fst (record_process cfg ticks now_ns clock sample te)"] record_process_rel [of te cfg ticks now_ns clock sample]
    by (auto simp: x case_prod_beta intro: keeps_trans split: option.split)
qed simp

lemma forget_gone_rel: "keeps_ok (snd te) (snd (forget_gone live te)) \<and> keeps_queue (snd te) (snd (forget_gone live te))"
proof -
  have "keeps_ok (snd te) (snd (fold (\<lambda>(pid, inst). forget_process pid inst) gone te)) \<and>
      keeps_queue (snd te) (snd (fold (\<lambda>(pid, inst). forget_process pid inst) gone te))" for gone
  proof (induction gone arbitrary: te)
    case (Cons g gone)
    obtain pid inst where g: "g = (pid, inst)" by (cases g)
    show ?case
      using Cons [of "forget_process pid inst te"] forget_process_rel [of te pid inst] by (auto simp: g intro: keeps_trans)
  qed simp
  then show ?thesis by (cases te) (simp add: forget_gone_def case_prod_beta)
qed

lemma record_whitelisted_rel:
  "keeps_ok (snd te) (snd (fst (record_whitelisted_process_metrics cfg r te))) \<and>
   keeps_queue (snd te) (snd (fst (record_whitelisted_process_metrics cfg r te))) \<and>
   list_all event_fits (snd (record_whitelisted_process_metrics cfg r te))"
proof -
  define found where "found = scan_whitelisted_processes (sched_process_whitelist cfg) (pr_directory r)"
  define out where "out = record_processes cfg (pr_clock_ticks r) (pr_now_ns r) (map (\<lambda>s. (s, pr_clock r (ps_pid s))) (sc_samples found)) te"
  define live where "live = sc_uncertain_pids found @ map ps_pid (sc_samples found)"
  have rel: "keeps_ok (snd te) (snd (fst out))" "keeps_queue (snd te) (snd (fst out))" "list_all event_fits (snd out)"
    using record_processes_rel unfolding out_def by blast+
  have gone: "keeps_ok (snd te) (snd (forget_gone live (fst out)))" "keeps_queue (snd te) (snd (forget_gone live (fst out)))"
    using keeps_trans rel(1,2) forget_gone_rel [of "fst out" live] by blast+
  have "record_whitelisted_process_metrics cfg r te =
      (if sched_process_whitelist cfg = [] \<or> (\<not> metrics_scrape_collectors cfg \<and> \<not> process_memory_enable cfg) then (te, [])
       else (if sc_complete found then forget_gone live (fst out) else fst out, snd out))"
    by (simp add: record_whitelisted_process_metrics_def found_def out_def live_def Let_def case_prod_beta)
  then show ?thesis using rel gone by simp
qed

text \<open>The parts of the two rounds.\<close>

lemma fast_parts:
  assumes "part \<in> {meminfo_part cfg i, cpu_part cfg i, self_status_part cfg i, processes_part cfg i}"
  shows "keeps_ok (ft_rules t) (ft_rules (fst (part t))) \<and> keeps_queue (ft_rules t) (ft_rules (fst (part t))) \<and>
    list_all event_fits (snd (part t))"
proof -
  have memory: "keeps_ok e (fst (evaluate_memory cfg ms x e)) \<and> keeps_queue e (fst (evaluate_memory cfg ms x e)) \<and>
      list_all event_fits (snd (event_list (evaluate_memory cfg ms x e)))" for ms x e
    using step_keeps_ok [of e cfg "EvaluateMemory ms x"] step_keeps_queue [of "EvaluateMemory ms x" e cfg]
      step_fits [of cfg "EvaluateMemory ms x" e] by simp
  have rss: "keeps_ok e (fst (evaluate_self_rss cfg ms x e)) \<and> keeps_queue e (fst (evaluate_self_rss cfg ms x e)) \<and>
      list_all event_fits (snd (event_list (evaluate_self_rss cfg ms x e)))" for ms x e
    using step_keeps_ok [of e cfg "EvaluateSelfRss ms x"] step_keeps_queue [of "EvaluateSelfRss ms x" e cfg]
      step_fits [of cfg "EvaluateSelfRss ms x" e] by simp
  consider "part = meminfo_part cfg i" | "part = cpu_part cfg i" | "part = self_status_part cfg i" | "part = processes_part cfg i"
    using assms by blast
  then show ?thesis
  proof cases
    case 1
    then show ?thesis using memory by (simp add: meminfo_part_def case_prod_beta collector_failure_fits Let_def)
  next
    case 2
    then show ?thesis
      using cpu_samples_rel [of "ft_rules t" cfg "fi_cpu_ms i" "snd (cpu_collect cfg (fi_cpu i) (ft_cpu t))"]
      by (simp add: cpu_part_def case_prod_beta collector_failure_fits Let_def)
  next
    case 3
    then show ?thesis using rss by (simp add: self_status_part_def case_prod_beta collector_failure_fits Let_def)
  next
    case 4
    then show ?thesis
      using record_whitelisted_rel [of "(ft_processes t, ft_rules t)" cfg "fi_processes i"]
      by (simp add: processes_part_def case_prod_beta)
  qed
qed

lemma queue_part_rel: "keeps_ok (ft_rules t) (ft_rules (fst (queue_part cfg i t))) \<and> list_all event_fits (snd (queue_part cfg i t))"
  using step_keeps_ok [of "ft_rules t" cfg "EvaluateQueue (fi_queue_ms i) (fi_snapshot i)"]
    step_fits [of cfg "EvaluateQueue (fi_queue_ms i) (fi_snapshot i)" "ft_rules t"]
  by (simp add: queue_part_def case_prod_beta)

lemma sched_parts:
  assumes "part \<in> {sched_part cfg i, io_part cfg i}"
  shows "keeps_ok (st_rules t) (st_rules (fst (part t))) \<and> list_all event_fits (snd (part t))"
  using assms sched_samples_rel [of "st_rules t" cfg "si_sched_ms i" "si_samples i"]
    io_samples_rel [of "st_rules t" cfg "si_io_ms i" "snd (io_collect cfg (si_io_stamp_ms i) (si_io i) (st_io t))"]
  by (auto simp: sched_part_def io_part_def case_prod_beta collector_failure_fits Let_def)

lemma fast_round_ok:
  "keeps_ok (ft_rules t) (ft_rules (fst (fast_round cfg i t))) \<and> list_all event_fits (snd (fast_round cfg i t))"
proof -
  let ?parts = "[meminfo_part cfg i, cpu_part cfg i, self_status_part cfg i, processes_part cfg i, queue_part cfg i,
      \<lambda>t. (t, overrun_event cfg (fi_elapsed_ms i))]"
  have part: "keeps_ok (ft_rules t) (ft_rules (fst (part t))) \<and> list_all event_fits (snd (part t))" if "part \<in> set ?parts" for part t
    using that fast_parts [of part cfg i t] queue_part_rel [of t cfg i] by (auto simp: overrun_fits)
  have "keeps_ok (ft_rules t) (ft_rules (fst (run_parts ?parts t)))"
    by (rule run_parts_rel [where rules = ft_rules]) (use part keeps_trans(1) in blast, simp, rule keeps_trans(1))
  moreover have "list_all event_fits (snd (run_parts ?parts t))"
    by (rule run_parts_fits) (use part in blast)
  ultimately show ?thesis unfolding fast_round_def by blast
qed

lemma sched_round_ok:
  "keeps_ok (st_rules t) (st_rules (fst (sched_round cfg i t))) \<and> list_all event_fits (snd (sched_round cfg i t))"
proof -
  let ?parts = "[sched_part cfg i, io_part cfg i, \<lambda>t. (t, overrun_event cfg (si_elapsed_ms i))]"
  have part: "keeps_ok (st_rules t) (st_rules (fst (part t))) \<and> list_all event_fits (snd (part t))" if "part \<in> set ?parts" for part t
    using that sched_parts [of part cfg i t] by (auto simp: overrun_fits)
  have "keeps_ok (st_rules t) (st_rules (fst (run_parts ?parts t)))"
    by (rule run_parts_rel [where rules = st_rules]) (use part keeps_trans(1) in blast, simp, rule keeps_trans(1))
  moreover have "list_all event_fits (snd (run_parts ?parts t))"
    by (rule run_parts_fits) (use part in blast)
  ultimately show ?thesis unfolding sched_round_def by blast
qed

definition fast_run :: "monitor_config \<Rightarrow> fast_input list \<Rightarrow> fast_thread \<times> internal_event list" where
  "fast_run cfg is = run_parts (map (fast_round cfg) is) (new_fast_thread cfg)"

definition sched_run :: "monitor_config \<Rightarrow> sched_input list \<Rightarrow> sched_thread \<times> internal_event list" where
  "sched_run cfg is = run_parts (map (sched_round cfg) is) (new_sched_thread cfg)"

text \<open>
  C24: whatever the collectors read and however often, every event that the two collector threads hand to their
  queues, stamped with any number and time, fits the fixed arrays of its struct, and the contexts of both rule engines keep
  their invariant.
\<close>

theorem rounds_well_formed:
  "list_all (\<lambda>e. event_fits (stamp_event n ts e)) (snd (fast_run cfg fs) @ snd (sched_run cfg ss) @ [started_event]) \<and>
   engine_ok (ft_rules (fst (fast_run cfg fs))) \<and> engine_ok (st_rules (fst (sched_run cfg ss)))"
proof -
  have stamp: "event_fits (stamp_event n ts e) \<longleftrightarrow> event_fits e" for e
    by (simp add: stamp_event_def Let_def event_fits_def)
  have "keeps_ok (ft_rules (new_fast_thread cfg)) (ft_rules (fst (fast_run cfg fs)))"
    unfolding fast_run_def
    by (rule run_parts_rel [where rules = ft_rules]) (use fast_round_ok in auto, rule keeps_trans(1))
  moreover have "keeps_ok (st_rules (new_sched_thread cfg)) (st_rules (fst (sched_run cfg ss)))"
    unfolding sched_run_def
    by (rule run_parts_rel [where rules = st_rules]) (use sched_round_ok in auto, rule keeps_trans(1))
  moreover have "engine_ok (ft_rules (new_fast_thread cfg))" "engine_ok (st_rules (new_sched_thread cfg))"
    by (simp_all add: new_fast_thread_def new_sched_thread_def new_engine_ok)
  moreover have "list_all event_fits (snd (fast_run cfg fs))"
    unfolding fast_run_def by (rule run_parts_fits) (use fast_round_ok in auto)
  moreover have "list_all event_fits (snd (sched_run cfg ss))"
    unfolding sched_run_def by (rule run_parts_fits) (use sched_round_ok in auto)
  moreover have "event_fits started_event" by (simp add: started_event_def event_fits_def default_event_def empty_item_def)
  ultimately show ?thesis by (simp add: stamp keeps_ok_def)
qed

end
