(* ===== verification/Metric_Registry.thy ===== *)
theory Metric_Registry
  imports Text "HOL-Library.AList" "HOL-Library.Char_ord" "HOL-Library.List_Lexorder" "HOL-Library.Multiset"
begin

text \<open>
  The registry of metrics and its text for the metrics endpoint, \<^verbatim>\<open>src/runtime/metric_registry.cpp\<close>. The hash map
  is the list of its entries; the snapshot is sorted by the keys, which are distinct, so the order of the list does not
  matter. The lemmas show that a reader of the text gets back names, labels and values, and that the samples of a
  family stand together under one heading.
\<close>

section \<open>The registry\<close>

datatype metric_kind = Counter | Gauge

record metric_label =
  ml_key :: string
  ml_value :: string

record metric_sample =
  ms_value :: double
  ms_labels :: "metric_label list"

record metric_value =
  mv_kind :: metric_kind
  mv_value :: double
  mv_labels :: "metric_label list"

type_synonym registry = "(string \<times> metric_value) list"

definition empty_metric :: metric_value where
  "empty_metric = \<lparr>mv_kind = Gauge, mv_value = Fin 0, mv_labels = []\<rparr>"

definition label_key :: "metric_label \<Rightarrow> string" where
  "label_key l = ''|'' @ ml_key l @ ''='' @ ml_value l"

definition metric_key :: "string \<Rightarrow> metric_label list \<Rightarrow> string" where
  "metric_key name labels = name @ concat (map label_key labels)"

text \<open>\<open>values_[key]\<close> inserts a default value first.\<close>

definition set_locked :: "string \<Rightarrow> metric_kind \<Rightarrow> double \<Rightarrow> metric_label list \<Rightarrow> bool \<Rightarrow> registry \<Rightarrow> registry" where
  "set_locked name kind value labels add reg =
     (let key = metric_key name labels;
          metric = (case map_of reg key of None \<Rightarrow> empty_metric | Some m \<Rightarrow> m);
          metric = metric\<lparr>mv_kind := kind, mv_labels := labels,
                     mv_value := (if add then dadd (mv_value metric) value else value)\<rparr>
      in AList.update key metric reg)"

definition set_gauge :: "string \<Rightarrow> double \<Rightarrow> metric_label list \<Rightarrow> registry \<Rightarrow> registry" where
  "set_gauge name value labels = set_locked name Gauge value labels False"

definition inc_counter :: "string \<Rightarrow> double \<Rightarrow> metric_label list \<Rightarrow> registry \<Rightarrow> registry" where
  "inc_counter name delta labels = set_locked name Counter delta labels True"

definition set_counter :: "string \<Rightarrow> double \<Rightarrow> metric_label list \<Rightarrow> registry \<Rightarrow> registry" where
  "set_counter name value labels = set_locked name Counter value labels False"

definition in_family :: "string \<Rightarrow> string \<Rightarrow> bool" where
  "in_family name key \<longleftrightarrow> key = name \<or> prefix (name @ ''|'') key"

definition set_gauge_family :: "string \<Rightarrow> metric_sample list \<Rightarrow> registry \<Rightarrow> registry" where
  "set_gauge_family name samples reg =
     fold (\<lambda>sample reg.
         let key = metric_key name (ms_labels sample);
             metric = (case map_of reg key of None \<Rightarrow> empty_metric | Some m \<Rightarrow> m)
         in AList.update key (metric\<lparr>mv_kind := Gauge, mv_labels := ms_labels sample, mv_value := ms_value sample\<rparr>) reg)
       samples (filter (\<lambda>(key, m). \<not> in_family name key) reg)"

section \<open>Printing\<close>

text \<open>
  A stream with precision 12 prints a double like \<open>%.12g\<close>: twelve significant digits, rounded half to even, trailing zeros
  removed, with an exponent when it is below \<open>-4\<close> or at least 12.
\<close>

definition decimal_exponent :: "rat \<Rightarrow> int" where
  "decimal_exponent q =
     (if 1 \<le> q then int (length (show_nat (nat \<lfloor>q\<rfloor>))) - 1
      else - int (length (show_nat (nat (\<lceil>1 / q\<rceil> - 1)))))"

definition significand_12 :: "rat \<Rightarrow> nat \<times> int" where
  "significand_12 q =
     (let e = decimal_exponent q; m = nat (round_half_even (q * 10 powi (11 - e)))
      in if m = 10 ^ 12 then (m div 10, e + 1) else (m, e))"

definition strip_zeros :: "string \<Rightarrow> string" where
  "strip_zeros s = rev (dropWhile (\<lambda>c. c = CHR ''0'') (rev s))"

definition with_fraction :: "string \<Rightarrow> string \<Rightarrow> string" where
  "with_fraction whole fraction = (let f = strip_zeros fraction in if f = [] then whole else whole @ ''.'' @ f)"

definition print_positive :: "rat \<Rightarrow> string" where
  "print_positive q =
     (case significand_12 q of
        (m, e) \<Rightarrow>
          let digits = show_nat m
          in if - 4 \<le> e \<and> e < 12 then
               (if 0 \<le> e then with_fraction (take (nat e + 1) digits) (drop (nat e + 1) digits)
                else with_fraction ''0'' (replicate (nat (- e) - 1) CHR ''0'' @ digits))
             else with_fraction (take 1 digits) (drop 1 digits) @ ''e'' @ (if e < 0 then ''-'' else ''+'') @
               pad_zero 2 (show_nat (nat \<bar>e\<bar>)))"

definition print_double :: "double \<Rightarrow> string" where
  "print_double x =
     (case x of
        NaN \<Rightarrow> ''nan'' | PInf \<Rightarrow> ''inf'' | NInf \<Rightarrow> ''-inf''
      | Fin q \<Rightarrow> if q = 0 then ''0'' else if q < 0 then ''-'' @ print_positive (- q) else print_positive q)"

fun escape_label :: "string \<Rightarrow> string" where
  "escape_label [] = []"
| "escape_label (c # s) =
     (if c = CHR 0x5C then [CHR 0x5C, CHR 0x5C]
      else if c = CHR 0x22 then [CHR 0x5C, CHR 0x22]
      else if c = CHR 0x0A then [CHR 0x5C, CHR ''n'']
      else [c]) @ escape_label s"

definition family_name :: "string \<Rightarrow> string" where
  "family_name key = takeWhile (\<lambda>c. c \<noteq> CHR ''|'') key"

definition label_text :: "metric_label \<Rightarrow> string" where
  "label_text l = ml_key l @ ''='' @ [CHR 0x22] @ escape_label (ml_value l) @ [CHR 0x22]"

fun comma_separated :: "string list \<Rightarrow> string" where
  "comma_separated [] = []"
| "comma_separated [s] = s"
| "comma_separated (s # rest) = s @ '','' @ comma_separated rest"

definition labels_text :: "metric_label list \<Rightarrow> string" where
  "labels_text labels = (if labels = [] then [] else ''{'' @ comma_separated (map label_text labels) @ ''}'')"

definition newline_char :: string where
  "newline_char = [CHR 0x0A]"

definition header_lines :: "string \<Rightarrow> metric_kind \<Rightarrow> string list" where
  "header_lines name kind = [''# HELP '' @ name @ '' minilisysm metric.'',
     ''# TYPE '' @ name @ '' '' @ (if kind = Counter then ''counter'' else ''gauge'')]"

definition sample_line :: "string \<Rightarrow> metric_value \<Rightarrow> string" where
  "sample_line name m = name @ labels_text (mv_labels m) @ '' '' @ print_double (mv_value m)"

text \<open>The loop over the snapshot, from the name of the last family on.\<close>

fun render_lines :: "string \<Rightarrow> (string \<times> metric_value) list \<Rightarrow> string list" where
  "render_lines last_name [] = []"
| "render_lines last_name ((key, m) # rest) =
     (let name = family_name key
      in (if name \<noteq> last_name then header_lines name (mv_kind m) else []) @ sample_line name m #
         render_lines name rest)"

definition snapshot :: "registry \<Rightarrow> (string \<times> metric_value) list" where
  "snapshot reg = sort_key fst reg"

definition render_prometheus :: "registry \<Rightarrow> string" where
  "render_prometheus reg = concat (map (\<lambda>line. line @ newline_char) (render_lines [] (snapshot reg)))"

section \<open>Families stand together\<close>

lemma prefix_between:
  fixes a b c p :: "'a::linorder list"
  assumes "prefix p a" and "prefix p c" and "a \<le> b" and "b \<le> c"
  shows "prefix p b"
  using assms
proof (induction p arbitrary: a b c)
  case (Cons x p)
  obtain a' c' where ac: "a = x # a'" "prefix p a'" "c = x # c'" "prefix p c'" using Cons.prems(1,2) unfolding prefix_def by auto
  obtain y b' where b: "b = y # b'" using Cons.prems(3) ac(1) by (cases b) simp_all
  have "x < y \<or> x = y \<and> a' \<le> b'" "y < x \<or> y = x \<and> b' \<le> c'"
    using Cons.prems(3,4) unfolding ac b by simp_all
  then have "x = y" "a' \<le> b'" "b' \<le> c'" by (blast dest: less_asym)+
  then show ?case using Cons.IH [OF ac(2,4)] b by simp
qed simp

definition grouped :: "'a list \<Rightarrow> bool" where
  "grouped xs \<longleftrightarrow> (\<forall>i j k. i < j \<longrightarrow> j < k \<longrightarrow> k < length xs \<longrightarrow> xs ! i = xs ! k \<longrightarrow> xs ! j = xs ! i)"

lemma grouped_tl:
  assumes "grouped (x # xs)"
  shows "grouped xs"
  unfolding grouped_def
proof (intro allI impI)
  fix i j k
  assume "i < j" "j < k" "k < length xs" "xs ! i = xs ! k"
  then show "xs ! j = xs ! i" using assms [unfolded grouped_def, rule_format, of "Suc i" "Suc j" "Suc k"] by simp
qed

lemma grouped_distinct: "grouped xs \<Longrightarrow> distinct (remdups_adj xs)"
proof (induction xs rule: remdups_adj.induct)
  case (3 x y xs)
  show ?case
  proof (cases "x = y")
    case True
    then show ?thesis using 3(1) grouped_tl [OF 3(3)] by simp
  next
    case False
    have "x \<notin> set (y # xs)"
    proof
      assume "x \<in> set (y # xs)"
      then obtain k where k: "k < length (y # xs)" "(y # xs) ! k = x" by (metis in_set_conv_nth)
      then have "0 < k" using False by (cases k) auto
      then have "(x # y # xs) ! 1 = (x # y # xs) ! 0"
        using 3(3) [unfolded grouped_def, rule_format, of 0 1 "Suc k"] k by simp
      then show False using False by simp
    qed
    then show ?thesis using 3(2) [OF False grouped_tl [OF 3(3)]] False by simp
  qed
qed simp_all

text \<open>A family is either one sample without labels, or samples with labels.\<close>

definition plain_text :: "char set \<Rightarrow> string \<Rightarrow> bool" where
  "plain_text forbidden s \<longleftrightarrow> s \<noteq> [] \<and> set s \<inter> forbidden = {}"

definition metric_name :: "string \<Rightarrow> bool" where
  "metric_name = plain_text {CHR ''|'', CHR ''{'', CHR '' '', CHR ''#'', CHR 0x0A}"

definition label_name :: "string \<Rightarrow> bool" where
  "label_name = plain_text {CHR ''='', CHR 0x0A}"

definition entry_ok :: "string \<times> metric_value \<Rightarrow> bool" where
  "entry_ok = (\<lambda>(key, m). \<exists>name. metric_name name \<and> key = metric_key name (mv_labels m) \<and>
     list_all (label_name \<circ> ml_key) (mv_labels m))"

definition registry_ok :: "registry \<Rightarrow> bool" where
  "registry_ok reg \<longleftrightarrow> distinct (map fst reg) \<and> list_all entry_ok reg"

definition families_uniform :: "registry \<Rightarrow> bool" where
  "families_uniform reg \<longleftrightarrow> (\<forall>(k, m) \<in> set reg. \<forall>(k', m') \<in> set reg.
     family_name k = family_name k' \<longrightarrow> (mv_labels m = [] \<longleftrightarrow> mv_labels m' = []))"

lemma family_name_key [simp]: "metric_name name \<Longrightarrow> family_name (metric_key name labels) = name"
  by (cases labels) (auto simp: metric_name_def plain_text_def family_name_def metric_key_def label_key_def takeWhile_append
    takeWhile_eq_all_conv)

lemma family_name_plain: "metric_name name \<Longrightarrow> family_name name = name"
  using family_name_key [of name "[]"] by (simp add: metric_key_def del: family_name_key)

lemma family_prefix:
  assumes "entry_ok (key, m)" and "mv_labels m \<noteq> []"
  shows "prefix (family_name key @ ''|'') key"
proof -
  obtain name where name: "metric_name name" "key = metric_key name (mv_labels m)" using assms(1) by (auto simp: entry_ok_def)
  then have "family_name key = name" by simp
  then show ?thesis using assms(2) name(2) by (cases "mv_labels m") (auto simp: metric_key_def label_key_def)
qed

lemma family_of_prefix: "CHR ''|'' \<notin> set name \<Longrightarrow> prefix (name @ ''|'') key \<Longrightarrow> family_name key = name"
  by (auto simp: prefix_def family_name_def takeWhile_append takeWhile_eq_all_conv)

lemma snapshot_set [simp]: "set (snapshot reg) = set reg"
  by (simp add: snapshot_def)

lemma snapshot_grouped:
  assumes "registry_ok reg" and "families_uniform reg"
  shows "grouped (map (family_name \<circ> fst) (snapshot reg))"
  unfolding grouped_def
proof (intro allI impI)
  fix i j k
  let ?xs = "snapshot reg"
  assume ij: "i < j" "j < k" "k < length (map (family_name \<circ> fst) ?xs)"
    and same: "map (family_name \<circ> fst) ?xs ! i = map (family_name \<circ> fst) ?xs ! k"
  obtain a m b n c l where nth: "?xs ! i = (a, m)" "?xs ! j = (b, n)" "?xs ! k = (c, l)" by (metis prod.collapse)
  have mem: "(a, m) \<in> set reg" "(b, n) \<in> set reg" "(c, l) \<in> set reg"
    using ij nth nth_mem [of i ?xs] nth_mem [of j ?xs] nth_mem [of k ?xs] by auto
  have sorted: "a \<le> b" "b \<le> c"
    using ij nth sorted_nth_mono [of "map fst ?xs" i j] sorted_nth_mono [of "map fst ?xs" j k] by (auto simp: snapshot_def)
  have "mset (map fst ?xs) = mset (map fst reg)" by (simp add: snapshot_def)
  then have "distinct (map fst ?xs)" using assms(1) mset_eq_imp_distinct_iff by (fastforce simp: registry_ok_def)
  then have "a \<noteq> c" using ij nth nth_eq_iff_index_eq [of "map fst ?xs" i k] by auto
  have ok: "entry_ok (a, m)" "entry_ok (c, l)" using assms(1) mem by (auto simp: registry_ok_def list_all_iff)
  have family: "family_name a = family_name c" using same ij nth by simp
  have "mv_labels m \<noteq> []"
  proof
    assume empty: "mv_labels m = []"
    then have "mv_labels l = []" using assms(2) mem family unfolding families_uniform_def by fast
    with empty ok family have "a = c" by (auto simp: entry_ok_def metric_key_def family_name_plain)
    then show False using \<open>a \<noteq> c\<close> by simp
  qed
  moreover from this have "mv_labels l \<noteq> []" using assms(2) mem family unfolding families_uniform_def by fast
  ultimately have "prefix (family_name a @ ''|'') b"
    using prefix_between [OF family_prefix [OF ok(1)] _ sorted] family_prefix [OF ok(2)] family by simp
  moreover have "CHR ''|'' \<notin> set (family_name a)" by (auto simp: family_name_def dest: set_takeWhileD)
  ultimately show "map (family_name \<circ> fst) ?xs ! j = map (family_name \<circ> fst) ?xs ! i"
    using family_of_prefix ij nth by simp
qed

section \<open>One heading per family\<close>

text \<open>The families of the type lines of a text.\<close>

definition typed_families :: "string \<Rightarrow> string list" where
  "typed_families page = map (\<lambda>line. takeWhile (\<lambda>c. c \<noteq> CHR '' '') (drop 7 line))
     (filter (\<lambda>line. take 7 line = ''# TYPE '') (get_lines page))"

lemma escape_label_newline: "CHR 0x0A \<notin> set (escape_label s)"
  by (induction s) auto

lemma comma_separated_newline: "\<forall>s \<in> set ss. CHR 0x0A \<notin> set s \<Longrightarrow> CHR 0x0A \<notin> set (comma_separated ss)"
  by (induction ss rule: comma_separated.induct) auto

lemma labels_text_newline:
  assumes "list_all (label_name \<circ> ml_key) labels"
  shows "CHR 0x0A \<notin> set (labels_text labels)"
proof -
  have "\<forall>s \<in> set (map label_text labels). CHR 0x0A \<notin> set s"
    using assms by (auto simp: list_all_iff label_text_def label_name_def plain_text_def escape_label_newline)
  then show ?thesis using comma_separated_newline by (auto simp: labels_text_def)
qed

lemma strip_zeros_newline: "CHR 0x0A \<notin> set s \<Longrightarrow> CHR 0x0A \<notin> set (strip_zeros s)"
  by (auto simp: strip_zeros_def dest: set_dropWhileD)

lemma with_fraction_newline:
  "CHR 0x0A \<notin> set a \<Longrightarrow> CHR 0x0A \<notin> set b \<Longrightarrow> CHR 0x0A \<notin> set (with_fraction a b)"
  using strip_zeros_newline by (auto simp: with_fraction_def Let_def)

lemma print_positive_newline: "CHR 0x0A \<notin> set (print_positive q)"
proof -
  have part: "CHR 0x0A \<notin> set (take n (show_nat m))" "CHR 0x0A \<notin> set (drop n (show_nat m))" for n m
    by (auto dest: in_set_takeD in_set_dropD)
  show ?thesis unfolding print_positive_def Let_def
    by (simp add: case_prod_beta with_fraction_newline part)
qed

lemma print_double_newline: "CHR 0x0A \<notin> set (print_double x)"
  using print_positive_newline by (simp add: print_double_def split: double.split)

lemma metric_name_props:
  assumes "metric_name name"
  shows "name \<noteq> []" and "CHR 0x0A \<notin> set name" and "CHR '' '' \<notin> set name" and "CHR ''{'' \<notin> set name"
    and "hd name \<noteq> CHR ''#''"
proof -
  show "name \<noteq> []" "CHR 0x0A \<notin> set name" "CHR '' '' \<notin> set name" "CHR ''{'' \<notin> set name"
    using assms by (auto simp: metric_name_def plain_text_def)
  show "hd name \<noteq> CHR ''#''"
  proof
    assume "hd name = CHR ''#''"
    then have "CHR ''#'' \<in> set name" using hd_in_set [of name] assms by (simp add: metric_name_def plain_text_def)
    then show False using assms by (simp add: metric_name_def plain_text_def)
  qed
qed

lemma render_lines_newline:
  "list_all entry_ok xs \<Longrightarrow> line \<in> set (render_lines last_name xs) \<Longrightarrow> CHR 0x0A \<notin> set line"
proof (induction xs arbitrary: last_name)
  case (Cons x xs)
  obtain key m where x: "x = (key, m)" by (cases x)
  obtain name where name: "metric_name name" "family_name key = name" "list_all (label_name \<circ> ml_key) (mv_labels m)"
    using Cons.prems(1) by (auto simp: x entry_ok_def)
  show ?case
    using Cons metric_name_props(2) [OF name(1)] labels_text_newline [OF name(3)] print_double_newline
    by (auto simp: x name(2) Let_def header_lines_def sample_line_def split: if_splits)
qed simp

lemma rendered_lines:
  assumes "registry_ok reg"
  shows "get_lines (render_prometheus reg) = render_lines [] (snapshot reg)"
proof -
  have "list_all entry_ok (snapshot reg)" using assms by (simp add: registry_ok_def list_all_iff)
  then show ?thesis unfolding render_prometheus_def newline_char_def
    using render_lines_newline by (intro get_lines_concat) blast
qed

lemma sample_line_not_type: "metric_name name \<Longrightarrow> take 7 (sample_line name m) \<noteq> ''# TYPE ''"
  using metric_name_props(1,5) [of name] by (cases name) (auto simp: sample_line_def)

lemma header_types:
  assumes "metric_name name"
  shows "map (\<lambda>line. takeWhile (\<lambda>c. c \<noteq> CHR '' '') (drop 7 line))
    (filter (\<lambda>line. take 7 line = ''# TYPE '') (header_lines name kind)) = [name]"
  using metric_name_props(3) [OF assms] by (simp add: header_lines_def takeWhile_append takeWhile_eq_all_conv)

lemma render_types:
  "list_all entry_ok xs \<Longrightarrow> map (\<lambda>line. takeWhile (\<lambda>c. c \<noteq> CHR '' '') (drop 7 line))
     (filter (\<lambda>line. take 7 line = ''# TYPE '') (render_lines last_name xs)) =
   (if xs \<noteq> [] \<and> family_name (fst (hd xs)) = last_name then tl else id) (remdups_adj (map (family_name \<circ> fst) xs))"
proof (induction xs arbitrary: last_name)
  case (Cons x xs)
  obtain key m where x: "x = (key, m)" by (cases x)
  obtain name where name: "metric_name name" "family_name key = name" using Cons.prems by (auto simp: x entry_ok_def)
  note line = sample_line_not_type [OF name(1), of m]
  have rest: "map (\<lambda>line. takeWhile (\<lambda>c. c \<noteq> CHR '' '') (drop 7 line))
     (filter (\<lambda>line. take 7 line = ''# TYPE '') (render_lines name xs)) = tl (remdups_adj (name # map (family_name \<circ> fst) xs))"
    using Cons by (cases xs) (auto simp: name(2) comp_def)
  have first: "remdups_adj (name # map (family_name \<circ> fst) xs) = name # tl (remdups_adj (name # map (family_name \<circ> fst) xs))"
    by (metis hd_remdups_adj list.collapse list.sel(1) list.discI remdups_adj_Nil_iff)
  show ?case
    using rest first line header_types [OF name(1), of "mv_kind m"]
    by (simp add: x Let_def name(2) comp_def del: remdups_adj.simps)
qed simp

text \<open>
  In the text of a registry whose families do not mix samples with and without labels, every family has exactly one type line: the
  sort by keys keeps its samples together, whatever the names and label values are.
\<close>

lemma typed_families_exact:
  assumes "registry_ok reg" and "families_uniform reg"
  shows "distinct (typed_families (render_prometheus reg)) \<and>
    set (typed_families (render_prometheus reg)) = (family_name \<circ> fst) ` set reg"
proof -
  have ok: "list_all entry_ok (snapshot reg)" using assms(1) by (simp add: registry_ok_def list_all_iff)
  have "family_name (fst (hd (snapshot reg))) \<noteq> []" if "snapshot reg \<noteq> []"
    using that ok metric_name_props(1) by (cases "snapshot reg") (auto simp: entry_ok_def)
  then have "typed_families (render_prometheus reg) = remdups_adj (map (family_name \<circ> fst) (snapshot reg))"
    unfolding typed_families_def rendered_lines [OF assms(1)] render_types [OF ok] by auto
  then show ?thesis using grouped_distinct [OF snapshot_grouped [OF assms]] by simp
qed

section \<open>Reading the samples back\<close>

text \<open>A reader of the exposition format: names, labels with their escapes, and the text of the value.\<close>

fun read_quoted :: "string \<Rightarrow> (string \<times> string) option" where
  "read_quoted [] = None"
| "read_quoted (c # s) =
     (if c = CHR 0x22 then Some ([], s)
      else if c = CHR 0x5C then
        (case s of [] \<Rightarrow> None
         | d # s' \<Rightarrow> map_option (\<lambda>(v, rest). ((if d = CHR ''n'' then CHR 0x0A else d) # v, rest)) (read_quoted s'))
      else map_option (\<lambda>(v, rest). (c # v, rest)) (read_quoted s))"

lemma read_quoted_shorter: "read_quoted s = Some (v, rest) \<Longrightarrow> length rest < length s"
proof (induction s arbitrary: v rule: read_quoted.induct)
  case (2 c s)
  show ?case
  proof (cases "c = CHR 0x22")
    case False
    show ?thesis
    proof (cases "c = CHR 0x5C")
      case True
      then obtain d s' v' where s: "s = d # s'" "read_quoted s' = Some (v', rest)" using 2(3) by (cases s) auto
      show ?thesis using 2(1) [OF False True s] s(1) by simp
    next
      case not_escape: False
      then obtain v' where "read_quoted s = Some (v', rest)" using 2(3) False by auto
      then show ?thesis using 2(2) [OF False not_escape] by fastforce
    qed
  qed (use 2(3) in simp)
qed simp

definition read_label :: "string \<Rightarrow> (metric_label \<times> string) option" where
  "read_label s =
     (case dropWhile (\<lambda>c. c \<noteq> CHR ''='') s of
        e # q # r \<Rightarrow>
          (if q = CHR 0x22 then
             map_option (\<lambda>(v, rest). (\<lparr>ml_key = takeWhile (\<lambda>c. c \<noteq> CHR ''='') s, ml_value = v\<rparr>, rest)) (read_quoted r)
           else None)
      | _ \<Rightarrow> None)"

lemma read_label_shorter:
  assumes "read_label s = Some (l, rest)"
  shows "length rest < length s"
proof -
  obtain e q r v where r: "dropWhile (\<lambda>c. c \<noteq> CHR ''='') s = e # q # r" "read_quoted r = Some (v, rest)"
    using assms by (auto simp: read_label_def split: list.splits if_splits)
  then have "length (e # q # r) \<le> length s" by (metis length_dropWhile_le)
  then show ?thesis using read_quoted_shorter [OF r(2)] by simp
qed

function read_labels :: "string \<Rightarrow> (metric_label list \<times> string) option" where
  "read_labels s =
     (case read_label s of
        Some (l, c # rest) \<Rightarrow>
          (if c = CHR '','' then map_option (\<lambda>(ls, rest). (l # ls, rest)) (read_labels rest)
           else if c = CHR ''}'' then Some ([l], rest) else None)
      | _ \<Rightarrow> None)"
  by pat_completeness auto
termination
  by (relation "measure length") (auto dest: read_label_shorter)

declare read_labels.simps [simp del]

definition read_sample :: "string \<Rightarrow> (string \<times> metric_label list \<times> string) option" where
  "read_sample line =
     (let in_name = (\<lambda>c. c \<noteq> CHR ''{'' \<and> c \<noteq> CHR '' '')
      in case dropWhile in_name line of
           [] \<Rightarrow> None
         | c # rest \<Rightarrow>
             (if c = CHR '' '' then Some (takeWhile in_name line, [], rest)
              else case read_labels rest of
                     Some (ls, _ # value) \<Rightarrow> Some (takeWhile in_name line, ls, value)
                   | _ \<Rightarrow> None))"

definition read_page :: "string \<Rightarrow> (string \<times> metric_label list \<times> string) option list" where
  "read_page page = map read_sample (filter (\<lambda>line. take 1 line \<noteq> ''#'') (get_lines page))"

lemma read_quoted_escape: "read_quoted (escape_label v @ CHR 0x22 # rest) = Some (v, rest)"
  by (induction v) simp_all

lemma read_label_text:
  assumes "label_name (ml_key l)"
  shows "read_label (label_text l @ rest) = Some (l, rest)"
proof -
  have "CHR ''='' \<notin> set (ml_key l)" using assms by (simp add: label_name_def plain_text_def)
  then show ?thesis
    by (auto simp: read_label_def label_text_def read_quoted_escape takeWhile_append dropWhile_append takeWhile_eq_all_conv
      dropWhile_eq_Nil_conv)
qed

lemma read_labels_text:
  "list_all (label_name \<circ> ml_key) ls \<Longrightarrow> ls \<noteq> [] \<Longrightarrow>
   read_labels (comma_separated (map label_text ls) @ CHR ''}'' # rest) = Some (ls, rest)"
proof (induction ls rule: induct_list012)
  case (2 l)
  then show ?case by (subst read_labels.simps) (simp add: read_label_text)
next
  case (3 l l' ls)
  then show ?case by (subst read_labels.simps) (simp add: read_label_text)
qed simp

lemma read_sample_line:
  assumes "metric_name name" and "list_all (label_name \<circ> ml_key) (mv_labels m)"
  shows "read_sample (sample_line name m) = Some (name, mv_labels m, print_double (mv_value m))"
proof -
  have name: "\<forall>c \<in> set name. c \<noteq> CHR ''{'' \<and> c \<noteq> CHR '' ''" using metric_name_props(3,4) [OF assms(1)] by auto
  show ?thesis
    using name read_labels_text [OF assms(2)]
    by (cases "mv_labels m = []")
      (auto simp: read_sample_def sample_line_def labels_text_def Let_def takeWhile_append dropWhile_append takeWhile_eq_all_conv
        dropWhile_eq_Nil_conv)
qed

lemma read_render_lines:
  "list_all entry_ok xs \<Longrightarrow> map read_sample (filter (\<lambda>line. take 1 line \<noteq> ''#'') (render_lines last_name xs)) =
   map (\<lambda>(key, m). Some (family_name key, mv_labels m, print_double (mv_value m))) xs"
proof (induction xs arbitrary: last_name)
  case (Cons x xs)
  obtain key m where x: "x = (key, m)" by (cases x)
  obtain name where name: "metric_name name" "family_name key = name" "list_all (label_name \<circ> ml_key) (mv_labels m)"
    using Cons.prems by (auto simp: x entry_ok_def)
  have "take 1 (sample_line name m) \<noteq> ''#''"
    using metric_name_props(1,5) [OF name(1)] by (cases name) (auto simp: sample_line_def)
  moreover have "filter (\<lambda>line. take 1 line \<noteq> ''#'') (header_lines name (mv_kind m)) = []" by (simp add: header_lines_def)
  ultimately show ?case
    using Cons read_sample_line [OF name(1,3)] by (simp add: x Let_def name(2))
qed simp

lemma read_rendered:
  assumes "registry_ok reg"
  shows "read_page (render_prometheus reg) =
    map (\<lambda>(key, m). Some (family_name key, mv_labels m, print_double (mv_value m))) (snapshot reg)"
  using assms read_render_lines unfolding read_page_def rendered_lines [OF assms]
  by (simp add: registry_ok_def list_all_iff)

section \<open>Whole numbers are printed exactly\<close>

lemma show_nat_times_power: "show_nat (Suc n * 10 ^ k) = show_nat (Suc n) @ replicate k (CHR ''0'')"
proof (induction k)
  case (Suc k)
  define m where "m = Suc n * 10 ^ k"
  have "0 < m" by (simp add: m_def)
  then have "show_nat (10 * m) = show_nat m @ [digit_char 0]" by (subst show_nat.simps) simp
  moreover have "Suc n * 10 ^ Suc k = 10 * m" by (simp add: m_def)
  moreover have "digit_char 0 = CHR ''0''" by code_simp
  ultimately show ?case using Suc by (simp add: m_def replicate_append_same mult.left_commute [of 10] del: mult_Suc)
qed simp

lemma length_show_nat: "10 ^ (length (show_nat n) - 1) \<le> max 1 n \<and> n < 10 ^ length (show_nat n)"
proof (induction n rule: show_nat.induct)
  case (1 n)
  show ?case
  proof (cases "n < 10")
    case False
    then have len: "length (show_nat n) = Suc (length (show_nat (n div 10)))" by (subst show_nat.simps) simp
    have IH: "10 ^ (length (show_nat (n div 10)) - 1) \<le> n div 10" "n div 10 < 10 ^ length (show_nat (n div 10))"
      using 1 False by auto
    obtain k where k: "length (show_nat (n div 10)) = Suc k" by (cases "length (show_nat (n div 10))") auto
    define d where "d = n div 10"
    have "10 * d \<le> n" "n < 10 * Suc d" by (simp_all add: d_def)
    then show ?thesis using IH False k unfolding len d_def [symmetric] by simp
  qed (simp add: show_nat.simps [of n])
qed

lemma length_show_nat_le: "n < 10 ^ k \<Longrightarrow> 0 < k \<Longrightarrow> length (show_nat n) \<le> k"
proof (rule ccontr)
  assume n: "n < 10 ^ k" "0 < k" "\<not> length (show_nat n) \<le> k"
  then have "(10::nat) ^ k \<le> 10 ^ (length (show_nat n) - 1)" by (intro power_increasing) auto
  also have "\<dots> \<le> max 1 n" using length_show_nat by blast
  finally have "(10::nat) ^ k \<le> max 1 n" .
  moreover have "1 < (10::nat) ^ k" using n(2) by (simp only: one_less_power)
  ultimately show False using n(1) by (simp add: max_def split: if_splits)
qed

lemma print_double_whole:
  assumes "n < 10 ^ 12"
  shows "print_double (Fin (of_nat n)) = show_nat n"
proof (cases n)
  case 0
  moreover have "show_nat 0 = ''0''" by code_simp
  ultimately show ?thesis by (simp add: print_double_def)
next
  case (Suc m)
  define e where "e = length (show_nat n) - 1"
  have e: "e < 12" "length (show_nat n) = Suc e"
    using length_show_nat_le [OF assms] unfolding e_def by (cases "show_nat n"; simp)+
  have "nat \<lfloor>(of_nat n :: rat)\<rfloor> = n" by (simp only: floor_of_nat nat_int)
  then have exponent: "decimal_exponent (of_nat n) = int e" using e Suc unfolding decimal_exponent_def by simp
  have "(of_nat n :: rat) * 10 powi (11 - int e) = of_int (int (n * 10 ^ (11 - e)))"
    using e by (simp add: power_int_def nat_diff_distrib')
  then have m: "nat (round_half_even (of_nat n * 10 powi (11 - int e))) = n * 10 ^ (11 - e)"
    by (simp only: round_half_even_of_int nat_int)
  have "n * 10 ^ (11 - e) < 10 ^ length (show_nat n) * 10 ^ (11 - e)" using length_show_nat [of n] by simp
  also have "\<dots> = 10 ^ 12" using e by (simp only: e(2) power_add [symmetric]) simp
  finally have "n * 10 ^ (11 - e) < 10 ^ 12" .
  then have significand: "significand_12 (of_nat n) = (n * 10 ^ (11 - e), int e)"
    by (simp add: significand_12_def exponent m Let_def)
  have "show_nat (n * 10 ^ (11 - e)) = show_nat n @ replicate (11 - e) (CHR ''0'')"
    using show_nat_times_power Suc by simp
  then have "print_positive (of_nat n) = show_nat n"
    using e by (simp add: print_positive_def significand with_fraction_def strip_zeros_def dropWhile_eq_Nil_conv nat_add_distrib)
  then show ?thesis using Suc by (simp add: print_double_def)
qed

lemma print_double_u64: "unat w < 10 ^ 12 \<Longrightarrow> print_double (double_of_u64 w) = show_word w"
  using print_double_whole [of "unat w"] double_of_u64_exact [of w] by (simp add: show_word_def)

section \<open>The names a client uses\<close>

text \<open>
  A client fixes for every name its kind and the keys of its labels. A registry that conforms to such a schema is what the printer
  needs, and every operation used as the schema says keeps it.
\<close>

type_synonym schema = "string \<Rightarrow> (metric_kind \<times> string list) option"

definition entry_conforms :: "schema \<Rightarrow> string \<times> metric_value \<Rightarrow> bool" where
  "entry_conforms S = (\<lambda>(key, m). \<exists>name. S name = Some (mv_kind m, map ml_key (mv_labels m)) \<and> key = metric_key name (mv_labels m))"

definition conforms :: "schema \<Rightarrow> registry \<Rightarrow> bool" where
  "conforms S reg \<longleftrightarrow> distinct (map fst reg) \<and> (\<forall>entry \<in> set reg. entry_conforms S entry)"

lemma conforms_Nil [simp]: "conforms S []"
  by (simp add: conforms_def)

lemma conforms_update:
  assumes "conforms S reg" and "entry_conforms S (key, m)"
  shows "conforms S (AList.update key m reg)"
proof -
  have "set (AList.update key m reg) \<subseteq> insert (key, m) (set reg)" by (induction reg) auto
  then show ?thesis using assms distinct_update [of reg key m] by (auto simp: conforms_def)
qed

lemma conforms_set_locked:
  assumes "conforms S reg" and "S name = Some (kind, map ml_key labels)"
  shows "conforms S (set_locked name kind value labels add reg)"
  using assms unfolding set_locked_def Let_def by (intro conforms_update) (auto simp: entry_conforms_def)

lemma conforms_set_gauge:
  "conforms S reg \<Longrightarrow> S name = Some (Gauge, map ml_key labels) \<Longrightarrow> conforms S (set_gauge name value labels reg)"
  by (simp add: set_gauge_def conforms_set_locked)

lemma conforms_inc_counter:
  "conforms S reg \<Longrightarrow> S name = Some (Counter, map ml_key labels) \<Longrightarrow> conforms S (inc_counter name delta labels reg)"
  by (simp add: inc_counter_def conforms_set_locked)

lemma conforms_set_counter:
  "conforms S reg \<Longrightarrow> S name = Some (Counter, map ml_key labels) \<Longrightarrow> conforms S (set_counter name value labels reg)"
  by (simp add: set_counter_def conforms_set_locked)

lemma conforms_filter: "conforms S reg \<Longrightarrow> conforms S (filter P reg)"
  by (auto simp: conforms_def distinct_map_filter)

text \<open>What the loop of \<open>set_gauge_family\<close> does with one sample.\<close>

lemma conforms_set_gauge_family:
  assumes "conforms S reg" and "\<forall>sample \<in> set samples. S name = Some (Gauge, map ml_key (ms_labels sample))"
  shows "conforms S (set_gauge_family name samples reg)"
  unfolding set_gauge_family_def Let_def
  using conforms_filter [OF assms(1)] assms(2)
proof (induction samples arbitrary: reg rule: rev_induct)
  case (snoc sample samples)
  then show ?case by (simp, intro conforms_update) (auto simp: entry_conforms_def)
qed simp

text \<open>
  The interface of the registry to its client: with a schema of proper names, what conforms to it can be printed and read back,
  and every family stands under one heading.
\<close>

locale metric_client =
  fixes S :: schema
  assumes schema_names: "S name = Some (kind, keys) \<Longrightarrow> metric_name name \<and> list_all label_name keys"
begin

lemma conforming_ok:
  assumes "conforms S reg"
  shows "registry_ok reg"
  using assms schema_names by (fastforce simp: conforms_def registry_ok_def entry_conforms_def entry_ok_def list_all_iff)

lemma conforming_family:
  assumes "conforms S reg" and "(key, m) \<in> set reg"
  shows "S (family_name key) = Some (mv_kind m, map ml_key (mv_labels m))" and "key = metric_key (family_name key) (mv_labels m)"
proof -
  obtain name where name: "S name = Some (mv_kind m, map ml_key (mv_labels m))" "key = metric_key name (mv_labels m)"
    using assms by (fastforce simp: conforms_def entry_conforms_def)
  then have "family_name key = name" using schema_names by simp
  with name show "S (family_name key) = Some (mv_kind m, map ml_key (mv_labels m))" "key = metric_key (family_name key) (mv_labels m)"
    by simp_all
qed

lemma conforming_uniform:
  assumes "conforms S reg"
  shows "families_uniform reg"
  unfolding families_uniform_def
proof clarify
  fix k m k' m'
  assume mem: "(k, m) \<in> set reg" "(k', m') \<in> set reg" "family_name k = family_name k'"
  then have "map ml_key (mv_labels m) = map ml_key (mv_labels m')"
    using conforming_family(1) [OF assms mem(1)] conforming_family(1) [OF assms mem(2)] by simp
  then show "mv_labels m = [] \<longleftrightarrow> mv_labels m' = []" by (metis map_is_Nil_conv)
qed

lemma conforming_read:
  "conforms S reg \<Longrightarrow> read_page (render_prometheus reg) =
    map (\<lambda>(key, m). Some (family_name key, mv_labels m, print_double (mv_value m))) (snapshot reg)"
  by (rule read_rendered [OF conforming_ok])

lemma conforming_headings:
  "conforms S reg \<Longrightarrow> distinct (typed_families (render_prometheus reg)) \<and>
    set (typed_families (render_prometheus reg)) = (family_name \<circ> fst) ` set reg"
  by (rule typed_families_exact [OF conforming_ok conforming_uniform])

end

end
