(* ===== verification/Hardware_Health.thy ===== *)
theory Hardware_Health
  imports Process_Tracker
begin

text \<open>
  The collector of battery, eMMC and memory health, \<^verbatim>\<open>src/collectors/hardware_health_collector.cpp\<close>. The trees under
  \<^verbatim>\<open>/sys\<close> are its argument: the directories it looks into with the contents of their files, and the tree of the EDAC
  counters with the directories that cannot be opened. The lemmas give the range of every value, the buckets of the eMMC
  registers, and what the sum of the EDAC counters consists of.
\<close>

section \<open>Samples\<close>

type_synonym i64 = "64 word"

record battery_sample =
  bh_valid :: bool
  bh_name :: string
  bh_capacity_percent :: double
  bh_health_percent :: double
  bh_cycle_count :: i64
  bh_temperature_celsius :: double

record storage_sample =
  dv_valid :: bool
  dv_device :: string
  dv_lifetime_used_percent :: double
  dv_pre_eol_info :: i64

record memory_sample =
  mh_valid :: bool
  mh_ecc_corrected_errors :: u64
  mh_ecc_uncorrected_errors :: u64

record hardware_sample =
  hw_batteries :: "battery_sample list"
  hw_storage_devices :: "storage_sample list"
  hw_memory :: memory_sample

section \<open>Files\<close>

text \<open>A directory entry below one of the roots; a file that cannot be opened has no content.\<close>

record sys_entry =
  sy_name :: string
  sy_is_directory :: bool
  sy_file :: "string \<Rightarrow> string option"

definition first_line :: "string \<Rightarrow> string" where
  "first_line content = takeWhile (\<lambda>c. c \<noteq> CHR 0x0A) content"

definition read_text :: "string option \<Rightarrow> string option" where
  "read_text content = map_option (\<lambda>text. rev (dropWhile is_space (rev (first_line text)))) content"

text \<open>\<open>std::stoll\<close> with base 0: hexadecimal after \<open>0x\<close> and a digit, octal after \<open>0\<close>, decimal otherwise.\<close>

definition is_octal :: "char \<Rightarrow> bool" where
  "is_octal c \<longleftrightarrow> is_digit c \<and> digit_value c < 8"

definition octal_digits_value :: "string \<Rightarrow> nat" where
  "octal_digits_value ds = foldl (\<lambda>acc c. 8 * acc + digit_value c) 0 ds"

definition magnitude :: "string \<Rightarrow> nat option" where
  "magnitude u =
     (if lowercase (take 2 u) = ''0x'' \<and> drop 2 u \<noteq> [] \<and> is_hex (u ! 2) then Some (hex_digits_value (takeWhile is_hex (drop 2 u)))
      else if take 1 u = ''0'' then Some (octal_digits_value (takeWhile is_octal u))
      else if u \<noteq> [] \<and> is_digit (hd u) then Some (digits_value (takeWhile is_digit u))
      else None)"

definition stoll :: "string \<Rightarrow> conv_error + i64" where
  "stoll s =
     (let t = dropWhile is_space s;
          neg = (t \<noteq> [] \<and> hd t = CHR ''-'');
          u = (if t \<noteq> [] \<and> hd t \<in> {CHR ''-'', CHR ''+''} then tl t else t)
      in case magnitude u of
           None \<Rightarrow> Inl InvalidArgument
         | Some n \<Rightarrow>
             let v = (if neg then - int n else int n)
             in if - (2 ^ 63) \<le> v \<and> v < 2 ^ 63 then Inr (of_int v) else Inl OutOfRange)"

definition read_int :: "string option \<Rightarrow> i64 option" where
  "read_int content =
     (case read_text content of
        None \<Rightarrow> None
      | Some text \<Rightarrow>
          if text = [] then None else (case stoll text of Inl e \<Rightarrow> None | Inr value \<Rightarrow> Some value))"

definition read_uint :: "string option \<Rightarrow> u64 option" where
  "read_uint content =
     (case read_int content of None \<Rightarrow> None | Some value \<Rightarrow> if value <s 0 then None else Some value)"

section \<open>Batteries\<close>

definition read_capacity_health_percent :: "(string \<Rightarrow> string option) \<Rightarrow> double option" where
  "read_capacity_health_percent file =
     (let charge = (read_int (file ''charge_full''), read_int (file ''charge_full_design''));
          energy = (read_int (file ''energy_full''), read_int (file ''energy_full_design''))
      in case (if fst charge = None \<or> snd charge = None then energy else charge) of
           (Some full, Some design) \<Rightarrow>
             (if design \<le>s 0 then None
              else Some (dmax (Fin 0) (dmin (Fin 100) (ddiv (dmul (double_of_i64 full) (Fin 100)) (double_of_i64 design)))))
         | _ \<Rightarrow> None)"

definition read_power_supply_temperature :: "(string \<Rightarrow> string option) \<Rightarrow> double option" where
  "read_power_supply_temperature file = map_option (\<lambda>temp. ddiv (double_of_i64 temp) (Fin 10)) (read_int (file ''temp''))"

definition empty_battery :: battery_sample where
  "empty_battery = \<lparr>bh_valid = False, bh_name = [], bh_capacity_percent = Fin (- 1), bh_health_percent = Fin (- 1),
     bh_cycle_count = - 1, bh_temperature_celsius = Fin (- 1)\<rparr>"

definition fill_battery :: "string \<Rightarrow> (string \<Rightarrow> string option) \<Rightarrow> battery_sample" where
  "fill_battery name file =
     (let s = empty_battery\<lparr>bh_name := name\<rparr>;
          s = (case read_int (file ''capacity'') of None \<Rightarrow> s
               | Some capacity \<Rightarrow> s\<lparr>bh_capacity_percent := double_of_i64 capacity, bh_valid := True\<rparr>);
          s = (case read_capacity_health_percent file of None \<Rightarrow> s
               | Some health \<Rightarrow> s\<lparr>bh_health_percent := health, bh_valid := True\<rparr>);
          s = (case read_int (file ''cycle_count'') of None \<Rightarrow> s
               | Some cycle \<Rightarrow> s\<lparr>bh_cycle_count := cycle, bh_valid := True\<rparr>)
      in case read_power_supply_temperature file of None \<Rightarrow> s
         | Some temp \<Rightarrow> s\<lparr>bh_temperature_celsius := temp, bh_valid := True\<rparr>)"

text \<open>A root that does not exist, or cannot be opened, gives no entries.\<close>

definition collect_batteries :: "sys_entry list option \<Rightarrow> battery_sample list" where
  "collect_batteries dir =
     (case dir of
        None \<Rightarrow> []
      | Some entries \<Rightarrow>
          filter bh_valid (map (\<lambda>entry. fill_battery (sy_name entry) (sy_file entry))
            (filter (\<lambda>entry. sy_is_directory entry \<and> read_text (sy_file entry ''type'') = Some ''Battery'') entries)))"

section \<open>Storage\<close>

fun max_bucket :: "i64 \<Rightarrow> string list \<Rightarrow> i64" where
  "max_bucket b [] = b"
| "max_bucket b (token # tokens) =
     max_bucket (case stoll token of Inl e \<Rightarrow> b | Inr value \<Rightarrow> if b <s value then value else b) tokens"

definition read_emmc_lifetime_percent :: "string option \<Rightarrow> double option" where
  "read_emmc_lifetime_percent content =
     (case read_text content of
        None \<Rightarrow> None
      | Some text \<Rightarrow>
          let bucket = max_bucket (- 1) (words text)
          in if bucket <s 0 then None
             else if 0x0b \<le>s bucket then Some (Fin 100)
             else Some (dmax (Fin 0) (dmin (Fin 100) (dmul (double_of_i64 bucket) (Fin 10)))))"

definition fill_storage :: "string \<Rightarrow> (string \<Rightarrow> string option) \<Rightarrow> storage_sample" where
  "fill_storage name file =
     (let s = \<lparr>dv_valid = False, dv_device = name, dv_lifetime_used_percent = Fin (- 1), dv_pre_eol_info = - 1\<rparr>;
          s = (case read_emmc_lifetime_percent (file ''device/life_time'') of None \<Rightarrow> s
               | Some lifetime \<Rightarrow> s\<lparr>dv_lifetime_used_percent := lifetime, dv_valid := True\<rparr>)
      in case read_int (file ''device/pre_eol_info'') of None \<Rightarrow> s
         | Some pre_eol \<Rightarrow> s\<lparr>dv_pre_eol_info := pre_eol, dv_valid := True\<rparr>)"

definition collect_storage :: "sys_entry list option \<Rightarrow> storage_sample list" where
  "collect_storage dir =
     (case dir of
        None \<Rightarrow> []
      | Some entries \<Rightarrow> filter dv_valid (map (\<lambda>entry. fill_storage (sy_name entry) (sy_file entry)) (filter sy_is_directory entries)))"

section \<open>Memory\<close>

text \<open>
  The tree below the EDAC root. The walk enters every directory; one that cannot be opened makes the increment of the
  iterator throw, which nothing catches: the error code is given to the constructor only.
\<close>

datatype edac_node = EdacFile "string option" | EdacDirectory "(string \<times> edac_node) list option"

fun walk :: "(string \<times> edac_node) list \<Rightarrow> (string \<times> string option) list option" where
  "walk [] = Some []"
| "walk ((name, EdacFile content) # rest) = map_option ((#) (name, content)) (walk rest)"
| "walk ((name, EdacDirectory None) # rest) = None"
| "walk ((name, EdacDirectory (Some children)) # rest) =
     (case walk children of
        None \<Rightarrow> None
      | Some files \<Rightarrow> map_option ((@) files) (walk rest))"

fun add_edac_files :: "(string \<times> string option) list \<Rightarrow> u64 \<times> u64 \<Rightarrow> u64 \<times> u64" where
  "add_edac_files [] counts = counts"
| "add_edac_files ((name, content) # files) (corrected, uncorrected) =
     add_edac_files files
       (if name = ''ce_count'' then (corrected + case_option 0 id (read_uint content), uncorrected)
        else if name = ''ue_count'' then (corrected, uncorrected + case_option 0 id (read_uint content))
        else (corrected, uncorrected))"

datatype edac_root = EdacMissing | EdacUnreadable | EdacRoot "(string \<times> edac_node) list"

definition add_edac_counts :: "edac_root \<Rightarrow> u64 \<times> u64 \<Rightarrow> (u64 \<times> u64) option" where
  "add_edac_counts dir counts =
     (case dir of
        EdacRoot entries \<Rightarrow> map_option (\<lambda>files. add_edac_files files counts) (walk entries)
      | _ \<Rightarrow> Some counts)"

definition collect_memory :: "edac_root \<Rightarrow> memory_sample option" where
  "collect_memory dir =
     (case add_edac_counts dir (0, 0) of
        None \<Rightarrow> None
      | Some (corrected, uncorrected) \<Rightarrow>
          let valid = (0 < corrected \<or> 0 < uncorrected);
              valid = (if \<not> valid \<and> dir \<noteq> EdacMissing then True else valid)
          in Some \<lparr>mh_valid = valid, mh_ecc_corrected_errors = corrected, mh_ecc_uncorrected_errors = uncorrected\<rparr>)"

text \<open>\<open>None\<close> is the exception of the walk, which leaves the thread.\<close>

definition hardware_collect :: "sys_entry list option \<Rightarrow> sys_entry list option \<Rightarrow> edac_root \<Rightarrow> hardware_sample option" where
  "hardware_collect power_supply block edac =
     (case collect_memory edac of
        None \<Rightarrow> None
      | Some memory \<Rightarrow> Some \<lparr>hw_batteries = collect_batteries power_supply, hw_storage_devices = collect_storage block,
          hw_memory = memory\<rparr>)"

section \<open>Ranges\<close>

lemma sint_small: "n < 2 ^ 63 \<Longrightarrow> sint (of_nat n :: i64) = int n"
  by (subst int_word_sint [of "int n", simplified]) simp

lemma dmul_bucket: "k \<le> 10 \<Longrightarrow> dmul (double_of_i64 (of_nat k)) (Fin 10) = Fin (of_nat (10 * k))"
proof -
  assume k: "k \<le> 10"
  then have "sint (of_nat k :: i64) = int k" by (simp add: sint_small)
  then have "double_of_i64 (of_nat k) = round_double (of_nat k)" by (simp add: double_of_i64_def)
  moreover have "round_double (of_nat k) = Fin (of_nat k)" using k by (intro round_double_of_nat) simp
  ultimately have "double_of_i64 (of_nat k) = Fin (of_nat k)" by simp
  moreover have "round_double (of_nat (k * 10)) = Fin (of_nat (k * 10))" using k by (intro round_double_of_nat) simp
  ultimately show ?thesis by (simp add: mult.commute)
qed

lemma small_bucket:
  fixes b :: i64
  assumes "\<not> b <s 0" and "\<not> 0x0b \<le>s b"
  shows "\<exists>k \<le> 10. b = of_nat k"
proof -
  have "0 \<le> sint b" "sint b < 11" using assms by (simp_all add: word_sless_alt word_sle_eq)
  then have "b = of_int (int (nat (sint b)))" by simp
  then have "b = of_nat (nat (sint b))" by (simp only: of_int_of_nat_eq)
  then show ?thesis using \<open>sint b < 11\<close> by (intro exI [of _ "nat (sint b)"]) auto
qed

lemma lifetime_range:
  assumes "read_emmc_lifetime_percent content = Some x"
  shows "\<exists>k \<le> 10. x = Fin (of_nat (10 * k))"
proof -
  obtain line where line: "read_text content = Some line" using assms by (auto simp: read_emmc_lifetime_percent_def split: option.splits)
  define b where "b = max_bucket (- 1) (words line)"
  have not_neg: "\<not> b <s 0" and x: "x = (if 0x0b \<le>s b then Fin 100 else dmax (Fin 0) (dmin (Fin 100) (dmul (double_of_i64 b) (Fin 10))))"
    using assms line by (auto simp: read_emmc_lifetime_percent_def b_def Let_def split: if_splits)
  show ?thesis
  proof (cases "0x0b \<le>s b")
    case True
    then show ?thesis using x by (intro exI [of _ 10]) simp
  next
    case False
    then obtain k where k: "k \<le> 10" "b = of_nat k" using small_bucket [OF not_neg] by blast
    then have "x = dmax (Fin 0) (dmin (Fin 100) (Fin (of_nat (10 * k))))" using False x dmul_bucket [OF k(1)] by simp
    then have "x = Fin (of_nat (10 * k))" using k(1) by (auto simp: dmax_def dmin_def)
    then show ?thesis using k(1) by blast
  qed
qed

lemma health_range:
  assumes "read_capacity_health_percent f = Some x"
  shows "dle (Fin 0) x \<and> dle x (Fin 100)"
  using assms dmax_dmin_range [of 0 100]
  by (auto simp: read_capacity_health_percent_def Let_def split: option.splits if_splits)


section \<open>The eMMC registers\<close>

definition hex_byte :: "nat \<Rightarrow> string" where
  "hex_byte n = ''0x'' @ [''0123456789abcdef'' ! (n div 16), ''0123456789abcdef'' ! (n mod 16)]"

lemma hex_chars:
  assumes "d < 16"
  shows "is_hex (''0123456789abcdef'' ! d)" and "hex_value (''0123456789abcdef'' ! d) = d" and "\<not> is_space (''0123456789abcdef'' ! d)"
proof -
  have "\<forall>d \<in> set [0..<16]. is_hex (''0123456789abcdef'' ! d) \<and> hex_value (''0123456789abcdef'' ! d) = d \<and> \<not> is_space (''0123456789abcdef'' ! d)"
    by code_simp
  then show "is_hex (''0123456789abcdef'' ! d)" "hex_value (''0123456789abcdef'' ! d) = d" "\<not> is_space (''0123456789abcdef'' ! d)"
    using assms by simp_all
qed

lemma stoll_hex_byte:
  assumes "n < 256"
  shows "stoll (hex_byte n) = Inr (of_nat n)"
proof -
  have digits: "n div 16 < 16" "n mod 16 < 16" using assms by auto
  have "\<not> is_space (CHR ''0'')" "lowercase ''0x'' = ''0x''" by code_simp+
  then show ?thesis
    using hex_chars [OF digits(1)] hex_chars [OF digits(2)] assms
    by (simp add: stoll_def hex_byte_def magnitude_def hex_digits_value_def)
qed

lemma words_Cons:
  assumes "list_all (\<lambda>c. \<not> is_space c) w" and "w \<noteq> []" and "rest = [] \<or> is_space (hd rest)"
  shows "words (w @ rest) = w # words rest"
proof -
  have all: "\<forall>c \<in> set w. \<not> is_space c" using assms(1) by (simp add: list_all_iff)
  have "dropWhile is_space (w @ rest) = w @ rest" using all assms(2) by (cases w) auto
  moreover have "takeWhile (\<lambda>c. \<not> is_space c) (w @ rest) = w" "dropWhile (\<lambda>c. \<not> is_space c) (w @ rest) = rest"
    using all assms(3) by (cases rest; simp)+
  ultimately show ?thesis using assms(2) by (simp add: words.simps [of "w @ rest"] extract_word_def)
qed

lemma hex_byte_plain:
  assumes "n < 256"
  shows "list_all (\<lambda>c. \<not> is_space c) (hex_byte n)" and "hex_byte n \<noteq> []" and "CHR 0x0A \<notin> set (hex_byte n)"
proof -
  have digits: "n div 16 < 16" "n mod 16 < 16" using assms by auto
  have "\<not> is_space (CHR ''0'')" "\<not> is_space (CHR ''x'')" "is_space (CHR 0x0A)" by code_simp+
  then show plain: "list_all (\<lambda>c. \<not> is_space c) (hex_byte n)" and "hex_byte n \<noteq> []" "CHR 0x0A \<notin> set (hex_byte n)"
    using hex_chars(3) [OF digits(1)] hex_chars(3) [OF digits(2)] by (auto simp: hex_byte_def)
qed

text \<open>
  The two lifetime registers of an eMMC device, as the kernel prints them: the worse of the two counts, ten percent for each
  step, and everything from 11 on, the value for an exceeded lifetime included, is a hundred percent.
\<close>

theorem emmc_lifetime_exact:
  assumes "a < 256" and "b < 256"
  shows "read_emmc_lifetime_percent (Some (hex_byte a @ '' '' @ hex_byte b @ [CHR 0x0A])) =
    Some (Fin (of_nat (min 100 (10 * max a b))))"
proof -
  note a = hex_byte_plain [OF assms(1)] and b = hex_byte_plain [OF assms(2)]
  have space: "is_space (CHR '' '')" by code_simp
  define line where "line = hex_byte a @ '' '' @ hex_byte b"
  have "CHR 0x0A \<notin> set line" using a(3) b(3) by (auto simp: line_def)
  then have "first_line (line @ [CHR 0x0A]) = line" by (simp add: first_line_def takeWhile_append takeWhile_eq_all_conv)
  moreover have "dropWhile is_space (rev line) = rev line"
  proof -
    obtain c cs where "rev (hex_byte b) = c # cs" using b(2) by (cases "rev (hex_byte b)") auto
    moreover from this have "\<not> is_space c" using b(1) by (metis list_all_iff list.set_intros(1) set_rev)
    ultimately show ?thesis by (simp add: line_def)
  qed
  ultimately have "read_text (Some (hex_byte a @ '' '' @ hex_byte b @ [CHR 0x0A])) = Some line"
    by (simp add: read_text_def line_def)
  moreover have "words line = [hex_byte a, hex_byte b]"
  proof -
    have "words ('' '' @ hex_byte b) = words (hex_byte b)" using space by (simp add: words.simps [of "CHR '' '' # _"] words.simps [of "hex_byte b"] extract_word_def)
    then show ?thesis
      using words_Cons [OF a(1,2), of "'' '' @ hex_byte b"] words_Cons [OF b(1,2), of "[]"] space
      by (simp add: line_def words.simps [of "[]"] extract_word_def)
  qed
  moreover have "max_bucket (- 1) [hex_byte a, hex_byte b] = of_nat (max a b)"
    using assms by (simp add: stoll_hex_byte word_sless_alt sint_small)
  ultimately have "read_emmc_lifetime_percent (Some (hex_byte a @ '' '' @ hex_byte b @ [CHR 0x0A])) =
      (if 11 \<le> max a b then Some (Fin 100)
       else Some (dmax (Fin 0) (dmin (Fin 100) (dmul (double_of_i64 (of_nat (max a b))) (Fin 10)))))"
    using assms by (simp add: read_emmc_lifetime_percent_def word_sless_alt word_sle_eq sint_small)
  moreover define m where "m = max a b"
  ultimately have lifetime: "read_emmc_lifetime_percent (Some (hex_byte a @ '' '' @ hex_byte b @ [CHR 0x0A])) =
      (if 11 \<le> m then Some (Fin 100) else Some (dmax (Fin 0) (dmin (Fin 100) (dmul (double_of_i64 (of_nat m)) (Fin 10)))))"
    by simp
  show ?thesis
  proof (cases "11 \<le> m")
    case False
    then have "dmul (double_of_i64 (of_nat m)) (Fin 10) = Fin (of_nat (10 * m))" by (intro dmul_bucket) simp
    then show ?thesis unfolding lifetime using False by (auto simp: dmax_def dmin_def m_def [symmetric] simp del: max_less_iff_conj)
  qed (unfold lifetime, simp add: m_def [symmetric])
qed

theorem emmc_lifetime_exact_witness:
  "hex_byte 2 = ''0x02'' \<and> read_emmc_lifetime_percent (Some (hex_byte 2 @ '' '' @ hex_byte 4 @ [CHR 0x0A])) = Some (Fin 40)"
  using emmc_lifetime_exact [of 2 4] by (simp add: hex_byte_def)

section \<open>Counters\<close>

lemma digit_props: "is_digit c \<Longrightarrow> \<not> is_space c \<and> c \<noteq> CHR ''-'' \<and> c \<noteq> CHR ''+''"
  by (auto simp: is_digit_def is_space_def)

lemma read_int_decimal:
  assumes "n < 2 ^ 63"
  shows "read_int (Some (show_nat n @ [CHR 0x0A])) = Some (of_nat n)"
proof -
  have digits: "\<forall>c \<in> set (show_nat n). is_digit c" using show_nat_digits by blast
  obtain c cs where c: "show_nat n = c # cs" using show_nat_not_Nil [of n] by (cases "show_nat n") auto
  obtain d ds where d: "rev (show_nat n) = d # ds" using show_nat_not_Nil [of n] by (cases "rev (show_nat n)") auto
  have "is_digit d" using digits d by (metis list.set_intros(1) set_rev)
  then have "\<not> is_space d" using digit_props by blast
  then have "rev (dropWhile is_space (rev (show_nat n))) = show_nat n" using d by (metis dropWhile.simps(2) rev_rev_ident)
  moreover have "first_line (show_nat n @ [CHR 0x0A]) = show_nat n"
    by (auto simp: first_line_def takeWhile_append takeWhile_eq_all_conv)
  ultimately have line: "read_text (Some (show_nat n @ [CHR 0x0A])) = Some (show_nat n)" by (simp add: read_text_def)
  have plain: "\<not> is_space c" "c \<noteq> CHR ''-''" "c \<noteq> CHR ''+''" using digits digit_props [of c] by (simp_all add: c)
  have take: "takeWhile is_digit (show_nat n) = show_nat n" using digits by simp
  have "magnitude (show_nat n) = Some n"
  proof (cases "n = 0")
    case True
    moreover have "magnitude (show_nat 0) = Some 0" by code_simp
    ultimately show ?thesis by simp
  next
    case False
    then have "c \<noteq> CHR ''0''" using show_nat_hd [of n] c by simp
    moreover have "lowercase (take 2 (show_nat n)) \<noteq> ''0x''"
    proof
      assume "lowercase (take 2 (show_nat n)) = ''0x''"
      then have "to_lower c = CHR ''0''" by (auto simp: c lowercase_def)
      then show False using \<open>c \<noteq> CHR ''0''\<close> digits by (auto simp: c to_lower_def is_digit_def split: if_splits)
    qed
    moreover have "digits_value (c # takeWhile is_digit cs) = n"
      using digits_value_show_nat [of n, unfolded c] digits by (simp add: c takeWhile_eq_all_conv [THEN iffD2])
    ultimately show ?thesis using digits by (simp add: magnitude_def c)
  qed
  then have "stoll (show_nat n) = Inr (of_nat n)" using assms plain by (simp add: stoll_def c)
  then show ?thesis by (simp add: read_int_def line)
qed

lemma read_uint_decimal: "n < 2 ^ 63 \<Longrightarrow> read_uint (Some (show_nat n @ [CHR 0x0A])) = Some (of_nat n)"
  by (simp add: read_uint_def read_int_decimal word_sless_alt sint_small)

text \<open>
  A memory controller of the EDAC tree holds the total of its errors and, in a directory for each row, the errors of the row.
  The sum takes both: with one row, every error is counted twice.
\<close>

theorem edac_rows_counted_twice:
  assumes "n < 2 ^ 63"
  shows "collect_memory (EdacRoot [(''mc0'', EdacDirectory (Some
      [(''ce_count'', EdacFile (Some (show_nat n @ [CHR 0x0A]))),
       (''csrow0'', EdacDirectory (Some [(''ce_count'', EdacFile (Some (show_nat n @ [CHR 0x0A])))]))]))]) =
    Some \<lparr>mh_valid = True, mh_ecc_corrected_errors = of_nat (2 * n), mh_ecc_uncorrected_errors = 0\<rparr>"
  using assms by (simp add: collect_memory_def add_edac_counts_def read_uint_decimal)

theorem edac_rows_counted_twice_witness:
  "collect_memory (EdacRoot [(''mc0'', EdacDirectory (Some
      [(''ce_count'', EdacFile (Some (show_nat 7 @ [CHR 0x0A]))),
       (''csrow0'', EdacDirectory (Some [(''ce_count'', EdacFile (Some (show_nat 7 @ [CHR 0x0A])))]))]))]) =
    Some \<lparr>mh_valid = True, mh_ecc_corrected_errors = 14, mh_ecc_uncorrected_errors = 0\<rparr>"
  using edac_rows_counted_twice [of 7] by simp

text \<open>The walk gives a result exactly when every directory below the root can be opened.\<close>

fun readable :: "edac_node \<Rightarrow> bool" where
  "readable (EdacFile content) = True"
| "readable (EdacDirectory children) = (case children of None \<Rightarrow> False | Some nodes \<Rightarrow> list_all (\<lambda>(name, node). readable node) nodes)"

lemma walk_Some_iff: "(walk nodes \<noteq> None) = list_all (\<lambda>(name, node). readable node) nodes"
  by (induction nodes rule: walk.induct) (auto split: option.splits)

theorem hardware_collect_returns_iff:
  "(hardware_collect power_supply block edac \<noteq> None) =
   (case edac of EdacRoot nodes \<Rightarrow> list_all (\<lambda>(name, node). readable node) nodes | _ \<Rightarrow> True)"
proof (cases edac)
  case (EdacRoot nodes)
  then show ?thesis
    using walk_Some_iff [of nodes]
    by (auto simp: hardware_collect_def collect_memory_def add_edac_counts_def Let_def split: option.splits prod.splits)
qed (simp_all add: hardware_collect_def collect_memory_def add_edac_counts_def)

end
