(* ===== verification/Ebpf_Program.thy ===== *)
theory Ebpf_Program
  imports Prelude
begin

text \<open>
  The program that the optional eBPF backend loads into the kernel, \<^verbatim>\<open>ebpf/bpf/sched_delay.bpf.c\<close>: for every
  thread that is switched out while still runnable it measures the time until the thread runs again, filters it, and
  submits it to a ring buffer, alone or in an aggregate per thread. The maps of the program are its state; whether the kernel finds
  room for a new map entry or a record is an argument of each handler. A handler returns, beside the new state, what it did with
  the wait it measured.
\<close>

section \<open>State\<close>

record sched_delay_event =
  se_pid :: u32
  se_tid :: u32
  se_delta_wait_ns :: u64
  se_involuntary_switches :: u64
  se_max_wait_ns :: u64
  se_avg_wait_ns :: u64
  se_aggregate_count :: u64
  se_flags :: u32

record bpf_config =
  bc_min_wait_ns :: u64
  bc_aggregate_window_ns :: u64
  bc_max_events_per_poll :: u32
  bc_enable_pid_filter :: u32
  bc_enable_tid_filter :: u32
  bc_enable_lifecycle :: u32
  bc_enable_aggregate :: u32
  bc_aggregate_max_entries :: u32

record bpf_counters =
  bn_ringbuf_drops :: u64
  bn_allowlist_exec_seen :: u64
  bn_allowlist_exit_cleaned :: u64
  bn_allowlist_stale_hits :: u64
  bn_aggregate_drops :: u64

record wait_start =
  ws_start_ns :: u64
  ws_pid :: u32

record aggregate_value =
  av_count :: u64
  av_sum_wait_ns :: u64
  av_max_wait_ns :: u64
  av_last_report_ns :: u64
  av_drops :: u64

text \<open>The allow lists are the lists of their keys, in the order in which the kernel enumerates them.\<close>

record bpf_state =
  bs_config :: "bpf_config option"
  bs_counters :: "bpf_counters option"
  bs_pid_allowlist :: "u32 list"
  bs_tid_allowlist :: "u32 list"
  bs_runnable_since :: "u32 \<rightharpoonup> wait_start"
  bs_aggregates :: "u32 \<times> u32 \<rightharpoonup> aggregate_value"

definition no_counters :: bpf_counters where
  "no_counters = \<lparr>bn_ringbuf_drops = 0, bn_allowlist_exec_seen = 0, bn_allowlist_exit_cleaned = 0,
     bn_allowlist_stale_hits = 0, bn_aggregate_drops = 0\<rparr>"

definition new_bpf_state :: "bpf_config \<Rightarrow> bpf_state" where
  "new_bpf_state config = \<lparr>bs_config = Some config, bs_counters = Some no_counters, bs_pid_allowlist = [],
     bs_tid_allowlist = [], bs_runnable_since = Map.empty, bs_aggregates = Map.empty\<rparr>"

text \<open>What the kernel answers to an insertion into either hash map and to a reservation in the ring buffer.\<close>

record kernel_answers =
  ka_runnable_stored :: bool
  ka_aggregate_stored :: bool
  ka_reserved :: bool

text \<open>What becomes of a wait: it is submitted in a record, lost with the record, or lost on its own.\<close>

datatype report = Submitted sched_delay_event | Refused sched_delay_event | Unstored u32 u32 u64

section \<open>Handlers\<close>

definition count_up :: "(bpf_counters \<Rightarrow> bpf_counters) \<Rightarrow> bpf_state \<Rightarrow> bpf_state" where
  "count_up f s = s\<lparr>bs_counters := map_option f (bs_counters s)\<rparr>"

definition emit_event :: "kernel_answers \<Rightarrow> sched_delay_event \<Rightarrow> bpf_state \<Rightarrow> bpf_state \<times> report list" where
  "emit_event ans event s =
     (if \<not> ka_reserved ans
      then (count_up (\<lambda>n. n\<lparr>bn_ringbuf_drops := bn_ringbuf_drops n + 1\<rparr>) s, [Refused event])
      else (s, [Submitted event]))"

definition aggregate_or_emit ::
  "kernel_answers \<Rightarrow> bpf_config option \<Rightarrow> u32 \<Rightarrow> u32 \<Rightarrow> u64 \<Rightarrow> u64 \<Rightarrow> bpf_state \<Rightarrow> bpf_state \<times> report list" where
  "aggregate_or_emit ans active_config pid tid delta_wait_ns now s =
     (if active_config = None \<or> bc_enable_aggregate (the active_config) = 0
      then emit_event ans \<lparr>se_pid = pid, se_tid = tid, se_delta_wait_ns = delta_wait_ns, se_involuntary_switches = 1,
             se_max_wait_ns = delta_wait_ns, se_avg_wait_ns = delta_wait_ns, se_aggregate_count = 1, se_flags = 0\<rparr> s
      else case bs_aggregates s (pid, tid) of
        None \<Rightarrow>
          (if ka_aggregate_stored ans
           then (s\<lparr>bs_aggregates := (bs_aggregates s)((pid, tid) \<mapsto> \<lparr>av_count = 1, av_sum_wait_ns = delta_wait_ns,
                   av_max_wait_ns = delta_wait_ns, av_last_report_ns = now, av_drops = 0\<rparr>)\<rparr>, [])
           else (count_up (\<lambda>n. n\<lparr>bn_aggregate_drops := bn_aggregate_drops n + 1\<rparr>) s, [Unstored pid tid delta_wait_ns]))
      | Some existing \<Rightarrow>
          (let existing = existing\<lparr>av_count := av_count existing + 1,
                 av_sum_wait_ns := av_sum_wait_ns existing + delta_wait_ns,
                 av_max_wait_ns := (if av_max_wait_ns existing < delta_wait_ns then delta_wait_ns
                                    else av_max_wait_ns existing)\<rparr>;
               s = s\<lparr>bs_aggregates := (bs_aggregates s)((pid, tid) \<mapsto> existing)\<rparr>
           in if now - av_last_report_ns existing < bc_aggregate_window_ns (the active_config) then (s, [])
              else case emit_event ans \<lparr>se_pid = pid, se_tid = tid, se_delta_wait_ns = av_sum_wait_ns existing,
                          se_involuntary_switches = av_count existing, se_max_wait_ns = av_max_wait_ns existing,
                          se_avg_wait_ns = (if av_count existing = 0 then 0
                                            else av_sum_wait_ns existing div av_count existing),
                          se_aggregate_count = av_count existing, se_flags = 1\<rparr> s of
                     (s, reports) \<Rightarrow> (s\<lparr>bs_aggregates := (bs_aggregates s)((pid, tid) := None)\<rparr>, reports)))"

definition stale_hit :: "bpf_state \<Rightarrow> bpf_state" where
  "stale_hit = count_up (\<lambda>n. n\<lparr>bn_allowlist_stale_hits := bn_allowlist_stale_hits n + 1\<rparr>)"

definition on_sched_switch ::
  "kernel_answers \<Rightarrow> u64 \<Rightarrow> u32 \<Rightarrow> u32 \<Rightarrow> u32 \<Rightarrow> u64 \<Rightarrow> bpf_state \<Rightarrow> bpf_state \<times> report list" where
  "on_sched_switch ans now current_tgid prev_tid next_tid prev_state s =
     (let s = (if prev_state = 0 \<and> ka_runnable_stored ans
               then s\<lparr>bs_runnable_since := (bs_runnable_since s)(prev_tid \<mapsto>
                       \<lparr>ws_start_ns = now, ws_pid = current_tgid\<rparr>)\<rparr>
               else s);
          forget_next = (\<lambda>s. s\<lparr>bs_runnable_since := (bs_runnable_since s)(next_tid := None)\<rparr>)
      in case bs_runnable_since s next_tid of
           None \<Rightarrow> (s, [])
         | Some since \<Rightarrow>
             (let delta_wait_ns = now - ws_start_ns since;
                  active_config = bs_config s
              in if active_config \<noteq> None \<and> 0 < bc_min_wait_ns (the active_config) \<and>
                    delta_wait_ns < bc_min_wait_ns (the active_config)
                 then (forget_next s, [])
                 else if active_config \<noteq> None \<and> bc_enable_pid_filter (the active_config) \<noteq> 0 \<and>
                         ws_pid since \<notin> set (bs_pid_allowlist s)
                 then (forget_next (stale_hit s), [])
                 else if active_config \<noteq> None \<and> bc_enable_tid_filter (the active_config) \<noteq> 0 \<and>
                         next_tid \<notin> set (bs_tid_allowlist s)
                 then (forget_next (stale_hit s), [])
                 else case aggregate_or_emit ans active_config (ws_pid since) next_tid delta_wait_ns now s of
                        (s, reports) \<Rightarrow> (forget_next s, reports)))"

definition lifecycle_enabled :: "bpf_state \<Rightarrow> bool" where
  "lifecycle_enabled s \<longleftrightarrow> bs_config s \<noteq> None \<and> bc_enable_lifecycle (the (bs_config s)) \<noteq> 0"

definition on_sched_process_exec :: "bpf_state \<Rightarrow> bpf_state" where
  "on_sched_process_exec s =
     (if \<not> lifecycle_enabled s then s
      else count_up (\<lambda>n. n\<lparr>bn_allowlist_exec_seen := bn_allowlist_exec_seen n + 1\<rparr>) s)"

definition on_sched_process_exit :: "u32 \<Rightarrow> u32 \<Rightarrow> bpf_state \<Rightarrow> bpf_state" where
  "on_sched_process_exit pid tid s =
     (if \<not> lifecycle_enabled s then s
      else count_up (\<lambda>n. n\<lparr>bn_allowlist_exit_cleaned := bn_allowlist_exit_cleaned n + 1\<rparr>)
             (s\<lparr>bs_tid_allowlist := removeAll tid (bs_tid_allowlist s),
                bs_pid_allowlist := removeAll pid (bs_pid_allowlist s),
                bs_runnable_since := (bs_runnable_since s)(tid := None)\<rparr>))"

section \<open>Runs\<close>

text \<open>
  What happens to the maps: the three tracepoints, and the monitor replacing the allow lists. A switch carries the time, the
  process of the thread that leaves, the two threads and the state of the one that leaves.
\<close>

datatype bpf_op =
  SchedSwitch kernel_answers u64 u32 u32 u32 u64
| ProcessExec
| ProcessExit u32 u32
| Allow "u32 list" "u32 list"

fun bpf_step :: "bpf_op \<Rightarrow> bpf_state \<Rightarrow> bpf_state \<times> report list" where
  "bpf_step (SchedSwitch ans now tgid prev_tid next_tid prev_state) s =
     on_sched_switch ans now tgid prev_tid next_tid prev_state s"
| "bpf_step ProcessExec s = (on_sched_process_exec s, [])"
| "bpf_step (ProcessExit pid tid) s = (on_sched_process_exit pid tid s, [])"
| "bpf_step (Allow pids tids) s = (s\<lparr>bs_pid_allowlist := pids, bs_tid_allowlist := tids\<rparr>, [])"

fun bpf_run :: "bpf_op list \<Rightarrow> bpf_state \<Rightarrow> bpf_state \<times> report list" where
  "bpf_run [] s = (s, [])"
| "bpf_run (op # ops) s =
     (case bpf_step op s of (s, reports) \<Rightarrow> (case bpf_run ops s of (s, later) \<Rightarrow> (s, reports @ later)))"


section \<open>The waits of a history\<close>

text \<open>
  The specification does not know the maps: from the operations so far, the latest first, it reads since when a thread
  waits, what the allow lists are, and whether a switch ends a wait that is to be reported.
\<close>

fun waiting_since :: "bpf_config \<Rightarrow> bpf_op list \<Rightarrow> u32 \<Rightarrow> wait_start option" where
  "waiting_since cfg [] tid = None"
| "waiting_since cfg (SchedSwitch ans now tgid prev_tid next_tid prev_state # past) tid =
     (if tid = next_tid then None
      else if tid = prev_tid \<and> prev_state = 0 \<and> ka_runnable_stored ans
      then Some \<lparr>ws_start_ns = now, ws_pid = tgid\<rparr>
      else waiting_since cfg past tid)"
| "waiting_since cfg (ProcessExit pid t # past) tid =
     (if bc_enable_lifecycle cfg \<noteq> 0 \<and> tid = t then None else waiting_since cfg past tid)"
| "waiting_since cfg (op # past) tid = waiting_since cfg past tid"

fun allowed :: "bpf_config \<Rightarrow> bpf_op list \<Rightarrow> u32 list \<times> u32 list" where
  "allowed cfg [] = ([], [])"
| "allowed cfg (Allow pids tids # past) = (pids, tids)"
| "allowed cfg (ProcessExit pid tid # past) =
     (if bc_enable_lifecycle cfg \<noteq> 0
      then (removeAll pid (fst (allowed cfg past)), removeAll tid (snd (allowed cfg past)))
      else allowed cfg past)"
| "allowed cfg (op # past) = allowed cfg past"

type_synonym wait = "u32 \<times> u32 \<times> u64"

definition to_report :: "bpf_config \<Rightarrow> u32 list \<times> u32 list \<Rightarrow> wait \<Rightarrow> bool" where
  "to_report cfg allow = (\<lambda>(pid, tid, ns). bc_min_wait_ns cfg \<le> ns \<and>
     (bc_enable_pid_filter cfg = 0 \<or> pid \<in> set (fst allow)) \<and> (bc_enable_tid_filter cfg = 0 \<or> tid \<in> set (snd allow)))"

fun wait_ended :: "bpf_config \<Rightarrow> bpf_op list \<Rightarrow> bpf_op \<Rightarrow> wait option" where
  "wait_ended cfg past (SchedSwitch ans now tgid prev_tid next_tid prev_state) =
     map_option (\<lambda>since. (ws_pid since, next_tid, now - ws_start_ns since))
       (if next_tid = prev_tid \<and> prev_state = 0 \<and> ka_runnable_stored ans
        then Some \<lparr>ws_start_ns = now, ws_pid = tgid\<rparr> else waiting_since cfg past next_tid)"
| "wait_ended cfg past op = None"

definition reported_wait :: "bpf_config \<Rightarrow> bpf_op list \<Rightarrow> bpf_op \<Rightarrow> wait option" where
  "reported_wait cfg past op =
     (case wait_ended cfg past op of
        None \<Rightarrow> None
      | Some w \<Rightarrow> if to_report cfg (allowed cfg past) w then Some w else None)"

fun waits :: "bpf_config \<Rightarrow> bpf_op list \<Rightarrow> bpf_op list \<Rightarrow> wait list" where
  "waits cfg past [] = []"
| "waits cfg past (op # ops) = (case reported_wait cfg past op of None \<Rightarrow> [] | Some w \<Rightarrow> [w]) @ waits cfg (op # past) ops"

definition waits_of :: "u32 \<Rightarrow> u32 \<Rightarrow> wait list \<Rightarrow> u64 list" where
  "waits_of pid tid ws = map (snd \<circ> snd) (filter (\<lambda>w. fst w = pid \<and> fst (snd w) = tid) ws)"

section \<open>What a report accounts for\<close>

text \<open>An event summarises the waits of a group: their sum, number, maximum and average.\<close>

definition summarises :: "sched_delay_event \<Rightarrow> u64 list \<Rightarrow> bool" where
  "summarises e ns \<longleftrightarrow> ns \<noteq> [] \<and> se_delta_wait_ns e = sum_list ns \<and>
     se_involuntary_switches e = of_nat (length ns) \<and> se_aggregate_count e = of_nat (length ns) \<and>
     se_max_wait_ns e = fold max ns 0 \<and>
     se_avg_wait_ns e = (if of_nat (length ns) = (0 :: u64) then 0 else sum_list ns div of_nat (length ns))"

fun report_of :: "u32 \<Rightarrow> u32 \<Rightarrow> report \<Rightarrow> bool" where
  "report_of pid tid (Submitted e) = (se_pid e = pid \<and> se_tid e = tid)"
| "report_of pid tid (Refused e) = (se_pid e = pid \<and> se_tid e = tid)"
| "report_of pid tid (Unstored p t ns) = (p = pid \<and> t = tid)"

fun accounts_for :: "report \<Rightarrow> u64 list \<Rightarrow> bool" where
  "accounts_for (Submitted e) ns = summarises e ns"
| "accounts_for (Refused e) ns = summarises e ns"
| "accounts_for (Unstored p t d) ns = (ns = [d])"

definition pending_waits :: "aggregate_value option \<Rightarrow> u64 list \<Rightarrow> bool" where
  "pending_waits value ns \<longleftrightarrow>
     (case value of
        None \<Rightarrow> ns = []
      | Some v \<Rightarrow> ns \<noteq> [] \<and> av_count v = of_nat (length ns) \<and> av_sum_wait_ns v = sum_list ns \<and>
                  av_max_wait_ns v = fold max ns 0)"

fun is_refused :: "report \<Rightarrow> bool" where
  "is_refused (Refused e) = True"
| "is_refused r = False"

fun is_unstored :: "report \<Rightarrow> bool" where
  "is_unstored (Unstored p t d) = True"
| "is_unstored r = False"

section \<open>The maps and the history\<close>

definition follows :: "bpf_config \<Rightarrow> bpf_op list \<Rightarrow> bpf_state \<Rightarrow> bool" where
  "follows cfg past s \<longleftrightarrow> bs_config s = Some cfg \<and> bs_runnable_since s = waiting_since cfg past \<and>
     bs_pid_allowlist s = fst (allowed cfg past) \<and> bs_tid_allowlist s = snd (allowed cfg past)"

lemma new_follows: "follows cfg [] (new_bpf_state cfg)"
  by (simp add: follows_def new_bpf_state_def fun_eq_iff)

lemma count_up_fields [simp]: "bs_config (count_up f s) = bs_config s"
  "bs_runnable_since (count_up f s) = bs_runnable_since s" "bs_aggregates (count_up f s) = bs_aggregates s"
  "bs_pid_allowlist (count_up f s) = bs_pid_allowlist s" "bs_tid_allowlist (count_up f s) = bs_tid_allowlist s"
  "bs_counters (count_up f s) = map_option f (bs_counters s)"
  by (simp_all add: count_up_def)

lemma emit_fields [simp]: "bs_config (fst (emit_event ans e s)) = bs_config s"
  "bs_runnable_since (fst (emit_event ans e s)) = bs_runnable_since s"
  "bs_aggregates (fst (emit_event ans e s)) = bs_aggregates s"
  "bs_pid_allowlist (fst (emit_event ans e s)) = bs_pid_allowlist s"
  "bs_tid_allowlist (fst (emit_event ans e s)) = bs_tid_allowlist s"
  by (simp_all add: emit_event_def)

lemma aggregate_fields [simp]: "bs_config (fst (aggregate_or_emit ans c pid tid d now s)) = bs_config s"
  "bs_runnable_since (fst (aggregate_or_emit ans c pid tid d now s)) = bs_runnable_since s"
  "bs_pid_allowlist (fst (aggregate_or_emit ans c pid tid d now s)) = bs_pid_allowlist s"
  "bs_tid_allowlist (fst (aggregate_or_emit ans c pid tid d now s)) = bs_tid_allowlist s"
  by (simp_all add: aggregate_or_emit_def Let_def case_prod_beta split: option.split)

lemma stale_hit_fields [simp]: "bs_config (stale_hit s) = bs_config s"
  "bs_runnable_since (stale_hit s) = bs_runnable_since s" "bs_aggregates (stale_hit s) = bs_aggregates s"
  "bs_pid_allowlist (stale_hit s) = bs_pid_allowlist s" "bs_tid_allowlist (stale_hit s) = bs_tid_allowlist s"
  by (simp_all add: stale_hit_def)

text \<open>A switch reports exactly the wait of the specification, and its maps follow the history.\<close>

definition touched :: "kernel_answers \<Rightarrow> u64 \<Rightarrow> u32 \<Rightarrow> u32 \<Rightarrow> u64 \<Rightarrow> bpf_state \<Rightarrow> bpf_state" where
  "touched ans now tgid prev_tid prev_state s =
     (if prev_state = 0 \<and> ka_runnable_stored ans
      then s\<lparr>bs_runnable_since := (bs_runnable_since s)(prev_tid \<mapsto> \<lparr>ws_start_ns = now, ws_pid = tgid\<rparr>)\<rparr> else s)"

lemma touched_fields [simp]: "bs_config (touched ans now tgid prev_tid prev_state s) = bs_config s"
  "bs_pid_allowlist (touched ans now tgid prev_tid prev_state s) = bs_pid_allowlist s"
  "bs_tid_allowlist (touched ans now tgid prev_tid prev_state s) = bs_tid_allowlist s"
  "bs_aggregates (touched ans now tgid prev_tid prev_state s) = bs_aggregates s"
  "bs_counters (touched ans now tgid prev_tid prev_state s) = bs_counters s"
  by (simp_all add: touched_def)

lemma switch_fields:
  defines "r \<equiv> \<lambda>ans now tgid prev_tid next_tid prev_state s. fst (on_sched_switch ans now tgid prev_tid next_tid prev_state s)"
  shows "bs_config (r ans now tgid prev_tid next_tid prev_state s) = bs_config s"
    "bs_pid_allowlist (r ans now tgid prev_tid next_tid prev_state s) = bs_pid_allowlist s"
    "bs_tid_allowlist (r ans now tgid prev_tid next_tid prev_state s) = bs_tid_allowlist s"
    "bs_runnable_since (r ans now tgid prev_tid next_tid prev_state s) =
      (bs_runnable_since (touched ans now tgid prev_tid prev_state s))(next_tid := None)"
  unfolding r_def on_sched_switch_def touched_def [symmetric] Let_def
  by (simp_all add: case_prod_beta split: option.split)
    (simp_all add: fun_upd_idem)

lemma switch_follows:
  assumes "follows cfg past s"
  shows "follows cfg (SchedSwitch ans now tgid prev_tid next_tid prev_state # past)
    (fst (on_sched_switch ans now tgid prev_tid next_tid prev_state s))"
proof -
  have "(bs_runnable_since (touched ans now tgid prev_tid prev_state s))(next_tid := None) =
      waiting_since cfg (SchedSwitch ans now tgid prev_tid next_tid prev_state # past)"
    using assms by (auto simp: follows_def touched_def fun_eq_iff)
  then show ?thesis using assms by (simp add: follows_def switch_fields)
qed

lemma step_follows:
  assumes "follows cfg past s"
  shows "follows cfg (op # past) (fst (bpf_step op s))"
proof (cases op)
  case (SchedSwitch ans now tgid prev_tid next_tid prev_state)
  then show ?thesis using switch_follows [OF assms] by simp
next
  case ProcessExec
  then show ?thesis using assms by (simp add: follows_def on_sched_process_exec_def fun_eq_iff)
next
  case (ProcessExit pid tid)
  then show ?thesis using assms
    by (simp add: follows_def on_sched_process_exit_def lifecycle_enabled_def fun_eq_iff)
next
  case (Allow pids tids)
  then show ?thesis using assms by (simp add: follows_def fun_eq_iff)
qed

lemma min_wait_word: "(0 < m \<and> d < m) \<longleftrightarrow> d < (m :: 'a::len word)"
  by (meson le_less_trans word_zero_le)

lemma switch_reports:
  fixes ans :: kernel_answers and now prev_state :: u64 and tgid prev_tid next_tid :: u32
  assumes "follows cfg past s"
  defines "s' \<equiv> touched ans now tgid prev_tid prev_state s"
  shows "case reported_wait cfg past (SchedSwitch ans now tgid prev_tid next_tid prev_state) of
      None \<Rightarrow> snd (on_sched_switch ans now tgid prev_tid next_tid prev_state s) = [] \<and>
        bs_aggregates (fst (on_sched_switch ans now tgid prev_tid next_tid prev_state s)) = bs_aggregates s \<and>
        (\<exists>hits. bs_counters (fst (on_sched_switch ans now tgid prev_tid next_tid prev_state s)) =
           map_option (bn_allowlist_stale_hits_update hits) (bs_counters s))
    | Some (pid, tid, d) \<Rightarrow> tid = next_tid \<and>
        snd (on_sched_switch ans now tgid prev_tid next_tid prev_state s) =
          snd (aggregate_or_emit ans (Some cfg) pid tid d now s') \<and>
        bs_aggregates (fst (on_sched_switch ans now tgid prev_tid next_tid prev_state s)) =
          bs_aggregates (fst (aggregate_or_emit ans (Some cfg) pid tid d now s')) \<and>
        bs_counters (fst (on_sched_switch ans now tgid prev_tid next_tid prev_state s)) =
          bs_counters (fst (aggregate_or_emit ans (Some cfg) pid tid d now s'))"
proof -
  have config: "bs_config s' = Some cfg" and lists: "bs_pid_allowlist s' = fst (allowed cfg past)"
    "bs_tid_allowlist s' = snd (allowed cfg past)"
    using assms by (simp_all add: follows_def)
  have same: "bs_aggregates s' = bs_aggregates s" "bs_counters s' = bs_counters s" by (simp_all add: s'_def)
  have since: "bs_runnable_since s' next_tid =
      (if next_tid = prev_tid \<and> prev_state = 0 \<and> ka_runnable_stored ans
       then Some \<lparr>ws_start_ns = now, ws_pid = tgid\<rparr> else waiting_since cfg past next_tid)"
    using assms by (auto simp: follows_def touched_def)
  have no_hits: "\<exists>hits. c = map_option (bn_allowlist_stale_hits_update hits) c" for c :: "bpf_counters option"
    by (rule exI [of _ id]) (cases c, simp_all)
  have one_hit: "\<exists>hits. map_option (\<lambda>n. n\<lparr>bn_allowlist_stale_hits := bn_allowlist_stale_hits n + 1\<rparr>) c =
      map_option (bn_allowlist_stale_hits_update hits) c" for c :: "bpf_counters option"
    by (rule exI [of _ "\<lambda>h. h + 1"]) (cases c, simp_all)
  show ?thesis
  proof (cases "bs_runnable_since s' next_tid")
    case None
    then show ?thesis unfolding on_sched_switch_def Let_def touched_def [symmetric]
      using since same no_hits by (simp add: reported_wait_def flip: s'_def)
  next
    case (Some w)
    have ended: "wait_ended cfg past (SchedSwitch ans now tgid prev_tid next_tid prev_state) =
        Some (ws_pid w, next_tid, now - ws_start_ns w)"
      unfolding wait_ended.simps since [symmetric] Some by simp
    have report: "to_report cfg (allowed cfg past) (ws_pid w, next_tid, now - ws_start_ns w) \<longleftrightarrow>
        \<not> now - ws_start_ns w < bc_min_wait_ns cfg \<and>
        \<not> (bc_enable_pid_filter cfg \<noteq> 0 \<and> ws_pid w \<notin> set (bs_pid_allowlist s')) \<and>
        \<not> (bc_enable_tid_filter cfg \<noteq> 0 \<and> next_tid \<notin> set (bs_tid_allowlist s'))"
      unfolding to_report_def lists by (auto simp: not_less)
    show ?thesis unfolding on_sched_switch_def Let_def touched_def [symmetric]
      unfolding reported_wait_def ended option.case report s'_def [symmetric] config Some
      by (simp add: min_wait_word case_prod_beta same no_hits one_hit stale_hit_def)
  qed
qed

section \<open>Every wait is accounted for\<close>

lemma fold_max_snoc: "fold max (ns @ [d]) 0 = (if fold max ns 0 < d then d else fold max ns (0 :: u64))"
  by (auto simp: max_def intro: antisym)

text \<open>A reported wait joins the pending waits of its thread, or a report accounts for them and it.\<close>

lemma aggregate_accounts:
  assumes "pending_waits (bs_aggregates s (pid, tid)) ns" and alone: "bc_enable_aggregate cfg = 0 \<longrightarrow> ns = []"
  shows "(bc_enable_aggregate cfg \<noteq> 0 \<and> snd (aggregate_or_emit ans (Some cfg) pid tid d now s) = [] \<and>
      pending_waits (bs_aggregates (fst (aggregate_or_emit ans (Some cfg) pid tid d now s)) (pid, tid)) (ns @ [d])) \<or>
    (\<exists>r. snd (aggregate_or_emit ans (Some cfg) pid tid d now s) = [r] \<and> report_of pid tid r \<and> accounts_for r (ns @ [d]) \<and>
      pending_waits (bs_aggregates (fst (aggregate_or_emit ans (Some cfg) pid tid d now s)) (pid, tid)) [])"
proof (cases "bc_enable_aggregate cfg = 0")
  case True
  then show ?thesis using assms
    by (simp add: aggregate_or_emit_def emit_event_def summarises_def pending_waits_def)
next
  case False
  show ?thesis
  proof (cases "bs_aggregates s (pid, tid)")
    case None
    then show ?thesis using False assms
      by (simp add: aggregate_or_emit_def pending_waits_def)
  next
    case (Some v)
    have v: "ns \<noteq> []" "av_count v = of_nat (length ns)" "av_sum_wait_ns v = sum_list ns" "av_max_wait_ns v = fold max ns 0"
      using assms Some by (simp_all add: pending_waits_def)
    define w where "w = \<lparr>av_count = of_nat (length (ns @ [d])), av_sum_wait_ns = sum_list (ns @ [d]),
      av_max_wait_ns = fold max (ns @ [d]) 0, av_last_report_ns = av_last_report_ns v, av_drops = av_drops v\<rparr>"
    have w: "v\<lparr>av_count := av_count v + 1, av_sum_wait_ns := av_sum_wait_ns v + d,
        av_max_wait_ns := (if av_max_wait_ns v < d then d else av_max_wait_ns v)\<rparr> = w"
      unfolding w_def fold_max_snoc using v by (cases v) (simp add: ac_simps)
    have fields: "av_count w = of_nat (length (ns @ [d]))" "av_sum_wait_ns w = sum_list (ns @ [d])"
      "av_max_wait_ns w = fold max (ns @ [d]) 0" "av_last_report_ns w = av_last_report_ns v"
      by (simp_all add: w_def)
    have pending: "pending_waits (Some w) (ns @ [d])" by (simp add: pending_waits_def fields)
    show ?thesis
    proof (cases "now - av_last_report_ns w < bc_aggregate_window_ns cfg")
      case True
      then show ?thesis using False Some pending by (simp add: aggregate_or_emit_def Let_def w)
    next
      case waited: False
      have "snd (aggregate_or_emit ans (Some cfg) pid tid d now s) =
          [(if ka_reserved ans then Submitted else Refused) \<lparr>se_pid = pid, se_tid = tid,
             se_delta_wait_ns = av_sum_wait_ns w, se_involuntary_switches = av_count w, se_max_wait_ns = av_max_wait_ns w,
             se_avg_wait_ns = (if av_count w = 0 then 0 else av_sum_wait_ns w div av_count w),
             se_aggregate_count = av_count w, se_flags = 1\<rparr>]"
        using False Some waited by (simp add: aggregate_or_emit_def Let_def w emit_event_def case_prod_beta)
      moreover have "bs_aggregates (fst (aggregate_or_emit ans (Some cfg) pid tid d now s)) (pid, tid) = None"
        using False Some waited by (simp add: aggregate_or_emit_def Let_def w case_prod_beta)
      moreover have "summarises \<lparr>se_pid = pid, se_tid = tid,
             se_delta_wait_ns = av_sum_wait_ns w, se_involuntary_switches = av_count w, se_max_wait_ns = av_max_wait_ns w,
             se_avg_wait_ns = (if av_count w = 0 then 0 else av_sum_wait_ns w div av_count w),
             se_aggregate_count = av_count w, se_flags = 1\<rparr> (ns @ [d])"
        unfolding summarises_def fields by simp
      ultimately show ?thesis using False by (simp add: pending_waits_def)
    qed
  qed
qed

text \<open>Other threads are not affected.\<close>

lemma aggregate_other:
  assumes "(p, t) \<noteq> (pid, tid)"
  shows "bs_aggregates (fst (aggregate_or_emit ans c pid tid d now s)) (p, t) = bs_aggregates s (p, t)"
    and "\<forall>r \<in> set (snd (aggregate_or_emit ans c pid tid d now s)). \<not> report_of p t r"
  using assms by (auto simp: aggregate_or_emit_def emit_event_def Let_def case_prod_beta split: option.split)

lemma waits_of_append [simp]: "waits_of pid tid (ws @ ws') = waits_of pid tid ws @ waits_of pid tid ws'"
  by (simp add: waits_of_def)

lemma waits_of_single: "waits_of pid tid [w] = (if fst w = pid \<and> fst (snd w) = tid then [snd (snd w)] else [])"
  "waits_of pid tid [] = []"
  by (simp_all add: waits_of_def)

text \<open>One operation, for one thread: what is pending afterwards, and the reports.\<close>

definition one_wait :: "bpf_config \<Rightarrow> bpf_op list \<Rightarrow> bpf_op \<Rightarrow> wait list" where
  "one_wait cfg past op = (case reported_wait cfg past op of None \<Rightarrow> [] | Some w \<Rightarrow> [w])"

lemma step_accounts:
  assumes follows: "follows cfg past s" and pending: "pending_waits (bs_aggregates s (pid, tid)) ns"
    and alone: "bc_enable_aggregate cfg = 0 \<longrightarrow> ns = []"
  shows "\<exists>groups ns'. ns @ waits_of pid tid (one_wait cfg past op) = concat groups @ ns' \<and>
    list_all2 accounts_for (filter (report_of pid tid) (snd (bpf_step op s))) groups \<and>
    pending_waits (bs_aggregates (fst (bpf_step op s)) (pid, tid)) ns' \<and>
    (bc_enable_aggregate cfg = 0 \<longrightarrow> ns' = [])"
proof -
  have idle: "?thesis" if "waits_of pid tid (one_wait cfg past op) = []"
    and "filter (report_of pid tid) (snd (bpf_step op s)) = []"
    and "bs_aggregates (fst (bpf_step op s)) (pid, tid) = bs_aggregates s (pid, tid)"
    using that pending alone by (intro exI [of _ "[]"] exI [of _ ns]) simp
  show ?thesis
  proof (cases op)
    case (SchedSwitch ans now tgid prev_tid next_tid prev_state)
    let ?s = "touched ans now tgid prev_tid prev_state s"
    note reports = switch_reports [OF follows, of ans now tgid prev_tid next_tid prev_state]
    show ?thesis
    proof (cases "reported_wait cfg past op")
      case None
      then show ?thesis using reports SchedSwitch by (intro idle) (simp_all add: one_wait_def waits_of_single)
    next
      case (Some w)
      obtain p t d where w: "w = (p, t, d)" by (cases w)
      have r: "snd (bpf_step op s) = snd (aggregate_or_emit ans (Some cfg) p t d now ?s)"
        "bs_aggregates (fst (bpf_step op s)) = bs_aggregates (fst (aggregate_or_emit ans (Some cfg) p t d now ?s))"
        using reports Some w SchedSwitch by simp_all
      show ?thesis
      proof (cases "(pid, tid) = (p, t)")
        case False
        show ?thesis
          using False Some w aggregate_other [of pid tid p t ans "Some cfg" d now ?s]
          by (intro idle) (auto simp: r one_wait_def waits_of_single filter_empty_conv)
      next
        case True
        then have one: "waits_of pid tid (one_wait cfg past op) = [d]"
          using Some w by (simp add: one_wait_def waits_of_single)
        have "pending_waits (bs_aggregates ?s (pid, tid)) ns" using pending by simp
        from aggregate_accounts [OF this alone, of ans d now] True consider
          (kept) "bc_enable_aggregate cfg \<noteq> 0" "snd (bpf_step op s) = []"
            "pending_waits (bs_aggregates (fst (bpf_step op s)) (pid, tid)) (ns @ [d])"
          | (reported) r where "snd (bpf_step op s) = [r]" "report_of pid tid r" "accounts_for r (ns @ [d])"
            "pending_waits (bs_aggregates (fst (bpf_step op s)) (pid, tid)) []"
          by (auto simp: r)
        then show ?thesis
        proof cases
          case kept
          then show ?thesis by (intro exI [of _ "[]"] exI [of _ "ns @ [d]"]) (simp add: one)
        next
          case reported
          then show ?thesis by (intro exI [of _ "[ns @ [d]]"] exI [of _ "[]"]) (simp add: one)
        qed
      qed
    qed
  next
    case (ProcessExit p t)
    then show ?thesis
      by (intro idle) (simp_all add: one_wait_def reported_wait_def waits_of_single on_sched_process_exit_def)
  next
    case ProcessExec
    then show ?thesis
      by (intro idle) (simp_all add: one_wait_def reported_wait_def waits_of_single on_sched_process_exec_def)
  next
    case (Allow pids tids)
    then show ?thesis by (intro idle) (simp_all add: one_wait_def reported_wait_def waits_of_single)
  qed
qed

lemma waits_Cons: "waits cfg past (op # ops) = one_wait cfg past op @ waits cfg (op # past) ops"
  by (simp add: one_wait_def)

declare waits.simps(2) [simp del]

lemma run_accounts:
  assumes "follows cfg past s" and "pending_waits (bs_aggregates s (pid, tid)) ns"
    and "bc_enable_aggregate cfg = 0 \<longrightarrow> ns = []"
  shows "\<exists>groups ns'. ns @ waits_of pid tid (waits cfg past ops) = concat groups @ ns' \<and>
    list_all2 accounts_for (filter (report_of pid tid) (snd (bpf_run ops s))) groups \<and>
    pending_waits (bs_aggregates (fst (bpf_run ops s)) (pid, tid)) ns'"
  using assms
proof (induction ops arbitrary: s past ns)
  case Nil
  then show ?case by (intro exI [of _ "[]"] exI [of _ ns]) (simp add: waits_of_single)
next
  case (Cons op ops)
  obtain s1 r1 where step: "bpf_step op s = (s1, r1)" by fastforce
  obtain s2 r2 where later: "bpf_run ops s1 = (s2, r2)" by fastforce
  have follows: "follows cfg (op # past) s1" using step_follows [OF Cons.prems(1), of op] by (simp add: step)
  obtain g1 ns1 where one: "ns @ waits_of pid tid (one_wait cfg past op) = concat g1 @ ns1"
    "list_all2 accounts_for (filter (report_of pid tid) r1) g1" "pending_waits (bs_aggregates s1 (pid, tid)) ns1"
    "bc_enable_aggregate cfg = 0 \<longrightarrow> ns1 = []"
    using step_accounts [OF Cons.prems, of op] by (auto simp: step)
  obtain g2 ns2 where rest: "ns1 @ waits_of pid tid (waits cfg (op # past) ops) = concat g2 @ ns2"
    "list_all2 accounts_for (filter (report_of pid tid) r2) g2" "pending_waits (bs_aggregates s2 (pid, tid)) ns2"
    using Cons.IH [OF follows one(3,4)] by (auto simp: later)
  have "ns @ waits_of pid tid (waits cfg past (op # ops)) = concat (g1 @ g2) @ ns2"
    unfolding waits_Cons waits_of_append append_assoc [symmetric] one(1) using rest(1) by simp
  moreover have "list_all2 accounts_for (filter (report_of pid tid) (r1 @ r2)) (g1 @ g2)"
    using one(2) rest(2) by (simp add: list_all2_appendI)
  ultimately show ?case using rest(3) by (intro exI conjI) (simp_all add: step later)
qed

text \<open>The counters of the losses.\<close>

definition losses_counted :: "nat \<Rightarrow> nat \<Rightarrow> bpf_state \<Rightarrow> bool" where
  "losses_counted refused unstored s \<longleftrightarrow> (\<exists>n. bs_counters s = Some n \<and>
     bn_ringbuf_drops n = of_nat refused \<and> bn_aggregate_drops n = of_nat unstored)"

lemma losses_update: "losses_counted a b s \<Longrightarrow> bs_counters s' = map_option f (bs_counters s) \<Longrightarrow>
    (\<And>n. bn_ringbuf_drops (f n) = bn_ringbuf_drops n \<and> bn_aggregate_drops (f n) = bn_aggregate_drops n) \<Longrightarrow>
    losses_counted a b s'"
  by (auto simp: losses_counted_def)

lemma emit_counts: "losses_counted a b s \<Longrightarrow>
    losses_counted (a + length (filter is_refused (snd (emit_event ans e s))))
      (b + length (filter is_unstored (snd (emit_event ans e s)))) (fst (emit_event ans e s))"
  by (auto simp: emit_event_def losses_counted_def)

lemma losses_other_map [simp]: "losses_counted a b (s\<lparr>bs_aggregates := m\<rparr>) = losses_counted a b s"
  by (simp add: losses_counted_def)

lemma aggregate_counts:
  assumes "losses_counted a b s"
  shows "losses_counted (a + length (filter is_refused (snd (aggregate_or_emit ans c pid tid d now s))))
    (b + length (filter is_unstored (snd (aggregate_or_emit ans c pid tid d now s))))
    (fst (aggregate_or_emit ans c pid tid d now s))"
proof -
  have "losses_counted a (b + 1) (count_up (\<lambda>n. n\<lparr>bn_aggregate_drops := bn_aggregate_drops n + 1\<rparr>) s)"
    using assms by (auto simp: losses_counted_def)
  then show ?thesis using assms emit_counts [of a b]
    by (simp add: aggregate_or_emit_def Let_def case_prod_beta split: option.split)
qed

lemma step_counts:
  assumes "follows cfg past s" and "losses_counted a b s"
  shows "losses_counted (a + length (filter is_refused (snd (bpf_step op s))))
    (b + length (filter is_unstored (snd (bpf_step op s)))) (fst (bpf_step op s))"
proof (cases op)
  case (SchedSwitch ans now tgid prev_tid next_tid prev_state)
  let ?s = "touched ans now tgid prev_tid prev_state s"
  have "losses_counted a b ?s" using assms(2) by (simp add: losses_counted_def)
  note counted = aggregate_counts [OF this]
  show ?thesis
    using switch_reports [OF assms(1), of ans now tgid prev_tid next_tid prev_state] assms(2)
      counted [of ans "Some cfg" _ next_tid _ now]
    by (auto simp: SchedSwitch losses_counted_def split: option.splits)
next
  case ProcessExec
  then show ?thesis using assms(2) by (auto simp: on_sched_process_exec_def losses_counted_def)
next
  case (ProcessExit pid tid)
  then show ?thesis using assms(2) by (auto simp: on_sched_process_exit_def losses_counted_def)
next
  case (Allow pids tids)
  then show ?thesis using assms(2) by (simp add: losses_counted_def)
qed

lemma run_counts:
  "follows cfg past s \<Longrightarrow> losses_counted a b s \<Longrightarrow>
   losses_counted (a + length (filter is_refused (snd (bpf_run ops s))))
    (b + length (filter is_unstored (snd (bpf_run ops s)))) (fst (bpf_run ops s))"
proof (induction ops arbitrary: s past a b)
  case (Cons op ops)
  show ?case
    using Cons.IH [OF step_follows [OF Cons.prems(1), of op] step_counts [OF Cons.prems, of op]]
    by (simp add: case_prod_beta ac_simps)
qed simp

section \<open>The rate of aggregated reports\<close>

fun op_time :: "bpf_op \<Rightarrow> u64 option" where
  "op_time (SchedSwitch ans now tgid prev_tid next_tid prev_state) = Some now"
| "op_time op = None"

fun timed_reports :: "bpf_op list \<Rightarrow> bpf_state \<Rightarrow> (u64 \<times> report) list" where
  "timed_reports [] s = []"
| "timed_reports (op # ops) s =
     (case bpf_step op s of
        (s, reports) \<Rightarrow> (case op_time op of None \<Rightarrow> [] | Some t \<Rightarrow> map (Pair t) reports) @ timed_reports ops s)"

lemma timed_reports_run: "map snd (timed_reports ops s) = snd (bpf_run ops s)"
proof (induction ops arbitrary: s)
  case (Cons op ops)
  have "op_time op = None \<Longrightarrow> snd (bpf_step op s) = []" by (cases op) auto
  then show ?case using Cons by (auto simp: case_prod_beta comp_def split: option.splits)
qed simp

definition event_times :: "u32 \<Rightarrow> u32 \<Rightarrow> (u64 \<times> report) list \<Rightarrow> u64 list" where
  "event_times pid tid reports = map fst (filter (\<lambda>(t, r). report_of pid tid r \<and> \<not> is_unstored r) reports)"

text \<open>The aggregate of a thread began after its last event and not in the future.\<close>

definition began :: "nat \<Rightarrow> nat \<Rightarrow> aggregate_value option \<Rightarrow> bool" where
  "began prev_ns now value \<longleftrightarrow>
     (case value of None \<Rightarrow> prev_ns \<le> now | Some v \<Rightarrow> prev_ns \<le> unat (av_last_report_ns v) \<and> unat (av_last_report_ns v) \<le> now)"

lemma began_later: "began prev_ns now value \<Longrightarrow> now \<le> now' \<Longrightarrow> began prev_ns now' value"
  by (auto simp: began_def split: option.splits)

lemma window_waited:
  assumes "\<not> now - l < w" and "unat l \<le> unat now"
  shows "unat l + unat w \<le> unat (now :: u64)"
proof -
  have "unat (now - l) = unat now - unat l" using assms(2) by (simp add: unat_sub word_le_nat_alt)
  moreover have "unat w \<le> unat (now - l)" using assms(1) by (simp add: word_less_nat_alt not_less)
  ultimately show ?thesis using assms(2) by linarith
qed

lemma aggregate_began:
  fixes ans :: kernel_answers and d :: u64
  assumes "bc_enable_aggregate cfg \<noteq> 0" and "began prev_ns (unat now) (bs_aggregates s (pid, tid))"
  defines "r \<equiv> aggregate_or_emit ans (Some cfg) pid tid d now s"
  shows "(filter (\<lambda>r. \<not> is_unstored r) (snd r) = [] \<and> began prev_ns (unat now) (bs_aggregates (fst r) (pid, tid))) \<or>
    (length (filter (\<lambda>r. \<not> is_unstored r) (snd r)) = 1 \<and> prev_ns + unat (bc_aggregate_window_ns cfg) \<le> unat now \<and>
     began (unat now) (unat now) (bs_aggregates (fst r) (pid, tid)))"
proof (cases "bs_aggregates s (pid, tid)")
  case None
  then show ?thesis using assms
    by (auto simp: aggregate_or_emit_def began_def)
next
  case (Some v)
  have v: "prev_ns \<le> unat (av_last_report_ns v)" "unat (av_last_report_ns v) \<le> unat now"
    using assms(2) Some by (simp_all add: began_def)
  show ?thesis
  proof (cases "now - av_last_report_ns v < bc_aggregate_window_ns cfg")
    case True
    then show ?thesis using Some assms(1) v by (simp add: r_def aggregate_or_emit_def Let_def began_def)
  next
    case False
    have "prev_ns + unat (bc_aggregate_window_ns cfg) \<le> unat now" using window_waited [OF False v(2)] v(1) by linarith
    then show ?thesis using Some assms(1) False
      by (simp add: r_def aggregate_or_emit_def Let_def began_def case_prod_beta emit_event_def)
  qed
qed

lemma reported_time:
  "reported_wait cfg past op = Some w \<Longrightarrow> \<exists>ans now tgid prev_tid next_tid prev_state.
     op = SchedSwitch ans now tgid prev_tid next_tid prev_state"
  by (cases op) (auto simp: reported_wait_def)

lemma silent_step:
  assumes "follows cfg past s" and "reported_wait cfg past op = None"
  shows "snd (bpf_step op s) = []" and "bs_aggregates (fst (bpf_step op s)) = bs_aggregates s"
proof -
  have "snd (bpf_step op s) = [] \<and> bs_aggregates (fst (bpf_step op s)) = bs_aggregates s"
  proof (cases op)
    case (SchedSwitch ans now tgid prev_tid next_tid prev_state)
    then show ?thesis using switch_reports [OF assms(1), of ans now tgid prev_tid next_tid prev_state] assms(2) by simp
  qed (simp_all add: on_sched_process_exec_def on_sched_process_exit_def)
  then show "snd (bpf_step op s) = []" and "bs_aggregates (fst (bpf_step op s)) = bs_aggregates s" by simp_all
qed

lemma event_times_simps [simp]: "event_times pid tid [] = []"
  "event_times pid tid (xs @ ys) = event_times pid tid xs @ event_times pid tid ys"
  "event_times pid tid (map (Pair t) rs) = map (\<lambda>r. t) (filter (\<lambda>r. report_of pid tid r \<and> \<not> is_unstored r) rs)"
  by (simp_all add: event_times_def filter_map comp_def)

lemma aggregate_report_key: "\<forall>r \<in> set (snd (aggregate_or_emit ans c pid tid d now s)). report_of pid tid r"
  by (auto simp: aggregate_or_emit_def emit_event_def Let_def case_prod_beta split: option.split)

lemma step_began:
  assumes "follows cfg past s" and "bc_enable_aggregate cfg \<noteq> 0" and "op_time op = Some now"
    and "began prev_ns (unat now) (bs_aggregates s (pid, tid))"
  shows "(event_times pid tid (map (Pair now) (snd (bpf_step op s))) = [] \<and>
      began prev_ns (unat now) (bs_aggregates (fst (bpf_step op s)) (pid, tid))) \<or>
    (event_times pid tid (map (Pair now) (snd (bpf_step op s))) = [now] \<and>
      prev_ns + unat (bc_aggregate_window_ns cfg) \<le> unat now \<and>
      began (unat now) (unat now) (bs_aggregates (fst (bpf_step op s)) (pid, tid)))"
proof (cases "reported_wait cfg past op")
  case None
  then show ?thesis using silent_step [OF assms(1) None] assms(4) by simp
next
  case (Some w)
  obtain p t d where w: "w = (p, t, d)" by (cases w)
  obtain ans tgid prev_tid next_tid prev_state where op: "op = SchedSwitch ans now tgid prev_tid next_tid prev_state"
    using assms(3) by (cases op) auto
  let ?s = "touched ans now tgid prev_tid prev_state s"
  have r: "snd (bpf_step op s) = snd (aggregate_or_emit ans (Some cfg) p t d now ?s)"
    "bs_aggregates (fst (bpf_step op s)) = bs_aggregates (fst (aggregate_or_emit ans (Some cfg) p t d now ?s))"
    using switch_reports [OF assms(1), of ans now tgid prev_tid next_tid prev_state] Some w op by simp_all
  show ?thesis
  proof (cases "(pid, tid) = (p, t)")
    case False
    have "filter (\<lambda>r. report_of pid tid r \<and> \<not> is_unstored r) (snd (bpf_step op s)) = []"
      using aggregate_other(2) [OF False] by (auto simp: r filter_empty_conv)
    then show ?thesis using aggregate_other(1) [OF False] assms(4) by (simp add: r)
  next
    case True
    have "filter (\<lambda>r. report_of pid tid r \<and> \<not> is_unstored r) (snd (bpf_step op s)) =
        filter (\<lambda>r. \<not> is_unstored r) (snd (bpf_step op s))"
      using aggregate_report_key [where pid = p and tid = t and ans = ans and c = "Some cfg" and d = d and now = now and s = ?s] True by (intro filter_cong) (auto simp: r)
    moreover have "began prev_ns (unat now) (bs_aggregates ?s (pid, tid))" using assms(4) by simp
    ultimately show ?thesis using aggregate_began [OF assms(2), where prev_ns = prev_ns and now = now and s = ?s and pid = pid and tid = tid and ans = ans and d = d] True
      by (auto simp: r length_Suc_conv)
  qed
qed

lemma timed_spaced:
  assumes "follows cfg past s" and "bc_enable_aggregate cfg \<noteq> 0"
    and "began prev_ns now (bs_aggregates s (pid, tid))"
    and "sorted_wrt (\<le>) (List.map_filter op_time ops)" and "\<forall>t \<in> set (List.map_filter op_time ops). now \<le> unat t"
  shows "sorted_wrt (\<lambda>a b. unat a + unat (bc_aggregate_window_ns cfg) \<le> unat b) (event_times pid tid (timed_reports ops s)) \<and>
    (\<forall>t \<in> set (event_times pid tid (timed_reports ops s)). prev_ns + unat (bc_aggregate_window_ns cfg) \<le> unat t)"
  using assms
proof (induction ops arbitrary: s past prev_ns now)
  case (Cons op ops)
  let ?s = "fst (bpf_step op s)"
  note follows = step_follows [OF Cons.prems(1), of op]
  show ?case
  proof (cases "op_time op")
    case None
    then have "reported_wait cfg past op = None" using reported_time by (cases op) (auto simp: reported_wait_def)
    from silent_step [OF Cons.prems(1) this] Cons.prems None show ?thesis
      using Cons.IH [OF follows, of prev_ns now] by (simp add: case_prod_beta map_filter_simps)
  next
    case (Some t)
    have t: "now \<le> unat t" and later: "sorted_wrt (\<le>) (List.map_filter op_time ops)"
      "\<forall>u \<in> set (List.map_filter op_time ops). unat t \<le> unat u"
      using Cons.prems(4,5) Some by (auto simp: map_filter_simps) (simp add: word_le_nat_alt)
    from step_began [OF Cons.prems(1,2) Some began_later [OF Cons.prems(3) t]]
    show ?thesis
    proof
      assume silent: "event_times pid tid (map (Pair t) (snd (bpf_step op s))) = [] \<and>
        began prev_ns (unat t) (bs_aggregates ?s (pid, tid))"
      then show ?thesis using Cons.IH [OF follows Cons.prems(2) _ later, of prev_ns] Some
        by (simp add: case_prod_beta)
    next
      assume event: "event_times pid tid (map (Pair t) (snd (bpf_step op s))) = [t] \<and>
        prev_ns + unat (bc_aggregate_window_ns cfg) \<le> unat t \<and> began (unat t) (unat t) (bs_aggregates ?s (pid, tid))"
      have "timed_reports (op # ops) s = map (Pair t) (snd (bpf_step op s)) @ timed_reports ops ?s"
        by (simp add: case_prod_beta Some)
      then show ?thesis using Cons.IH [OF follows Cons.prems(2) _ later, of "unat t"] event
        by (auto simp del: timed_reports.simps event_times_simps(3))
    qed
  qed
qed simp

text \<open>
  With aggregation the events of a thread, submitted or refused, are at least one aggregation window apart, however often it
  waits. (The clock is monotonic.)
\<close>

theorem aggregated_events_spaced:
  assumes "bc_enable_aggregate cfg \<noteq> 0" and "sorted_wrt (\<le>) (List.map_filter op_time ops)"
  shows "sorted_wrt (\<lambda>a b. unat a + unat (bc_aggregate_window_ns cfg) \<le> unat b)
    (event_times pid tid (timed_reports ops (new_bpf_state cfg)))"
  using timed_spaced [OF new_follows assms(1) _ assms(2), of 0 0]
  by (simp add: began_def new_bpf_state_def)
text \<open>An aggregating and filtering configuration, and two threads of process 7 that are preempted and run again.\<close>

definition wit_bpf_config :: bpf_config where
  "wit_bpf_config = \<lparr>bc_min_wait_ns = 0, bc_aggregate_window_ns = 10, bc_max_events_per_poll = 16,
     bc_enable_pid_filter = 1, bc_enable_tid_filter = 0, bc_enable_lifecycle = 1, bc_enable_aggregate = 1,
     bc_aggregate_max_entries = 16\<rparr>"

definition granted :: kernel_answers where
  "granted = \<lparr>ka_runnable_stored = True, ka_aggregate_stored = True, ka_reserved = True\<rparr>"

definition preempted :: "u32 \<Rightarrow> u64 \<Rightarrow> u64 \<Rightarrow> bpf_op list" where
  "preempted tid out_ns in_ns = [SchedSwitch granted out_ns 7 tid 1 0, SchedSwitch granted in_ns 1 1 tid 1]"

definition wit_bpf_ops :: "bpf_op list" where
  "wit_bpf_ops = Allow [7] [] # preempted 7 5 6 @ preempted 7 20 22 @ preempted 7 30 31 @ preempted 7 50 53"

lemmas bpf_run_simps = wit_bpf_ops_def preempted_def granted_def wit_bpf_config_def new_bpf_state_def no_counters_def
  on_sched_switch_def aggregate_or_emit_def emit_event_def on_sched_process_exit_def lifecycle_enabled_def count_up_def
  stale_hit_def Let_def

lemma wit_events: "event_times 7 7 (timed_reports wit_bpf_ops (new_bpf_state wit_bpf_config)) = [22, 53]"
  by (simp add: bpf_run_simps event_times_def)

theorem aggregated_events_spaced_witness:
  "event_times 7 7 (timed_reports wit_bpf_ops (new_bpf_state wit_bpf_config)) = [22, 53] \<and>
   sorted_wrt (\<lambda>a b. unat a + unat (bc_aggregate_window_ns wit_bpf_config) \<le> unat b)
     (event_times 7 7 (timed_reports wit_bpf_ops (new_bpf_state wit_bpf_config)))"
proof -
  have "sorted_wrt (\<le>) (List.map_filter op_time wit_bpf_ops)"
    by (simp add: wit_bpf_ops_def preempted_def map_filter_simps)
  moreover have "bc_enable_aggregate wit_bpf_config \<noteq> 0" by (simp add: wit_bpf_config_def)
  ultimately show ?thesis using aggregated_events_spaced [of wit_bpf_config wit_bpf_ops 7 7] wit_events by simp
qed

section \<open>A thread that exits\<close>

lemma allowed_stays_out:
  assumes "pid \<notin> set (fst (allowed cfg past))" and "\<forall>pids tids. op \<noteq> Allow pids tids"
  shows "pid \<notin> set (fst (allowed cfg (op # past)))"
  using assms by (cases op) auto

lemma run_without_pid:
  assumes "follows cfg past s" and "bc_enable_pid_filter cfg \<noteq> 0" and "pid \<notin> set (fst (allowed cfg past))"
    and "\<forall>op \<in> set ops. \<forall>pids tids. op \<noteq> Allow pids tids"
  shows "filter (report_of pid tid) (snd (bpf_run ops s)) = []"
  using assms
proof (induction ops arbitrary: s past)
  case (Cons op ops)
  have "filter (report_of pid tid) (snd (bpf_step op s)) = []"
  proof (cases "reported_wait cfg past op")
    case None
    then show ?thesis using silent_step [OF Cons.prems(1) None] by simp
  next
    case (Some w)
    obtain p t d where w: "w = (p, t, d)" by (cases w)
    have "p \<in> set (fst (allowed cfg past))"
      using Some w Cons.prems(2) by (auto simp: reported_wait_def to_report_def split: option.splits if_splits)
    then have other: "(pid, tid) \<noteq> (p, t)" using Cons.prems(3) by auto
    obtain ans now tgid prev_tid next_tid prev_state where op: "op = SchedSwitch ans now tgid prev_tid next_tid prev_state"
      using reported_time [OF Some] by blast
    show ?thesis
      using switch_reports [OF Cons.prems(1), of ans now tgid prev_tid next_tid prev_state] Some w op
        aggregate_other(2) [OF other, of ans "Some cfg" d now] by (simp add: filter_empty_conv)
  qed
  moreover have "filter (report_of pid tid) (snd (bpf_run ops (fst (bpf_step op s)))) = []"
    using Cons.IH [OF step_follows [OF Cons.prems(1)] Cons.prems(2) allowed_stays_out [OF Cons.prems(3)]] Cons.prems(4)
    by simp
  ultimately show ?case by (simp add: case_prod_beta)
qed simp

lemma run_follows: "follows cfg past s \<Longrightarrow> follows cfg (rev ops @ past) (fst (bpf_run ops s))"
proof (induction ops arbitrary: s past)
  case (Cons op ops)
  then show ?case using Cons.IH [OF step_follows [OF Cons.prems, of op]] by (simp add: case_prod_beta)
qed simp

lemma bpf_run_append: "snd (bpf_run (ops @ ops') s) = snd (bpf_run ops s) @ snd (bpf_run ops' (fst (bpf_run ops s)))"
  by (induction ops arbitrary: s) (simp_all add: case_prod_beta)

text \<open>
  C31: the handler of exits takes the process of the thread that exits off the list of processes, also while other threads
  of the process live on: with the process filter and the life cycle handlers on, the exit of any thread silences all
  threads of its process until the monitor replaces the lists.
\<close>

theorem thread_exit_silences_process:
  assumes "bc_enable_lifecycle cfg \<noteq> 0" and "bc_enable_pid_filter cfg \<noteq> 0"
    and "\<forall>op \<in> set later. \<forall>pids tids. op \<noteq> Allow pids tids"
  shows "filter (report_of pid t) (snd (bpf_run (ops @ ProcessExit pid tid # later) (new_bpf_state cfg))) =
    filter (report_of pid t) (snd (bpf_run ops (new_bpf_state cfg)))"
proof -
  let ?s = "fst (bpf_step (ProcessExit pid tid) (fst (bpf_run ops (new_bpf_state cfg))))"
  have "follows cfg (ProcessExit pid tid # rev ops @ []) ?s" using step_follows [OF run_follows [OF new_follows]] .
  from run_without_pid [OF this assms(2) _ assms(3)] assms(1)
  have "filter (report_of pid t) (snd (bpf_run later ?s)) = []" by simp
  then show ?thesis by (simp add: bpf_run_append case_prod_beta)
qed

text \<open>Thread 8 of process 7 exits; the waits of thread 7 are no longer reported.\<close>

theorem thread_exit_silences_process_witness:
  "filter (report_of 7 7) (snd (bpf_run (wit_bpf_ops @ ProcessExit 7 8 # preempted 7 70 80 @ preempted 7 90 99)
       (new_bpf_state wit_bpf_config))) =
     filter (report_of 7 7) (snd (bpf_run wit_bpf_ops (new_bpf_state wit_bpf_config))) \<and>
   filter (report_of 7 7) (snd (bpf_run (wit_bpf_ops @ preempted 7 70 80 @ preempted 7 90 99)
       (new_bpf_state wit_bpf_config))) \<noteq>
     filter (report_of 7 7) (snd (bpf_run wit_bpf_ops (new_bpf_state wit_bpf_config)))"
proof -
  have "filter (report_of 7 7) (snd (bpf_run (wit_bpf_ops @ preempted 7 70 80 @ preempted 7 90 99)
       (new_bpf_state wit_bpf_config))) \<noteq>
     filter (report_of 7 7) (snd (bpf_run wit_bpf_ops (new_bpf_state wit_bpf_config)))"
    by (simp add: bpf_run_simps)
  moreover have "bc_enable_lifecycle wit_bpf_config \<noteq> 0" "bc_enable_pid_filter wit_bpf_config \<noteq> 0"
    by (simp_all add: wit_bpf_config_def)
  moreover have "\<forall>op \<in> set (preempted 7 70 80 @ preempted 7 90 99). \<forall>pids tids. op \<noteq> Allow pids tids"
    by (simp add: preempted_def)
  ultimately show ?thesis
    using thread_exit_silences_process [of wit_bpf_config "preempted 7 70 80 @ preempted 7 90 99" 7 7 wit_bpf_ops 8] by blast
qed

section \<open>What the counters add up to\<close>

text \<open>The counters that the monitor adds up: lost records, waits without room, and waits that the allow lists filter out.\<close>

definition losses :: "bpf_counters \<Rightarrow> u64" where
  "losses n = bn_ringbuf_drops n + bn_allowlist_stale_hits n + bn_aggregate_drops n"

definition filtered_wait :: "bpf_config \<Rightarrow> bpf_op list \<Rightarrow> bpf_op \<Rightarrow> bool" where
  "filtered_wait cfg past op \<longleftrightarrow>
     (case wait_ended cfg past op of
        None \<Rightarrow> False
      | Some w \<Rightarrow> bc_min_wait_ns cfg \<le> snd (snd w) \<and> \<not> to_report cfg (allowed cfg past) w)"

fun filtered_waits :: "bpf_config \<Rightarrow> bpf_op list \<Rightarrow> bpf_op list \<Rightarrow> nat" where
  "filtered_waits cfg past [] = 0"
| "filtered_waits cfg past (op # ops) = (if filtered_wait cfg past op then 1 else 0) + filtered_waits cfg (op # past) ops"

definition loses :: "nat \<Rightarrow> bpf_state \<Rightarrow> bpf_state \<Rightarrow> bool" where
  "loses k s s' \<longleftrightarrow>
     (\<exists>n n'. bs_counters s = Some n \<and> bs_counters s' = Some n' \<and> losses n' = losses n + of_nat k)"

definition lost_reports :: "report list \<Rightarrow> nat" where
  "lost_reports rs = length (filter (\<lambda>r. is_refused r \<or> is_unstored r) rs)"

lemma aggregate_loses:
  assumes "bs_counters s = Some n"
  shows "loses (lost_reports (snd (aggregate_or_emit ans c pid tid d now s))) s (fst (aggregate_or_emit ans c pid tid d now s))"
  using assms
  by (auto simp: aggregate_or_emit_def emit_event_def Let_def case_prod_beta loses_def lost_reports_def losses_def
    split: option.split)

lemma touched_counters: "loses k (touched ans now tgid prev_tid prev_state s) s' = loses k s s'"
  by (simp add: loses_def)

lemma switch_loses:
  fixes ans :: kernel_answers and now prev_state :: u64 and tgid prev_tid next_tid :: u32
  assumes "follows cfg past s" and "bs_counters s = Some n"
  defines "op \<equiv> SchedSwitch ans now tgid prev_tid next_tid prev_state"
  shows "loses (lost_reports (snd (bpf_step op s)) + (if filtered_wait cfg past op then 1 else 0)) s (fst (bpf_step op s))"
proof -
  define s' where "s' = touched ans now tgid prev_tid prev_state s"
  have config: "bs_config s' = Some cfg" and lists: "bs_pid_allowlist s' = fst (allowed cfg past)"
    "bs_tid_allowlist s' = snd (allowed cfg past)" and counters: "bs_counters s' = Some n"
    using assms by (simp_all add: follows_def s'_def)
  have since: "bs_runnable_since s' next_tid =
      (if next_tid = prev_tid \<and> prev_state = 0 \<and> ka_runnable_stored ans
       then Some \<lparr>ws_start_ns = now, ws_pid = tgid\<rparr> else waiting_since cfg past next_tid)"
    using assms by (auto simp: follows_def touched_def s'_def)
  have same: "loses k s r = loses k s' r" for k r by (simp add: s'_def touched_counters)
  have other_map: "loses k s' (r\<lparr>bs_runnable_since := m\<rparr>) = loses k s' r" for k r m by (simp add: loses_def)
  have no_loss: "loses 0 s' s'" using counters by (simp add: loses_def)
  have hit: "loses 1 s' (stale_hit s')" using counters by (simp add: loses_def stale_hit_def losses_def)
  show ?thesis
  proof (cases "bs_runnable_since s' next_tid")
    case None
    have step: "bpf_step op s = (s', [])"
      unfolding op_def bpf_step.simps on_sched_switch_def Let_def touched_def [symmetric] s'_def [symmetric] None by simp
    have ended: "wait_ended cfg past op = None"
      unfolding op_def wait_ended.simps since [symmetric] None by simp
    have "loses (lost_reports [] + 0) s s'" unfolding same by (simp add: lost_reports_def no_loss)
    then show ?thesis unfolding step by (simp add: filtered_wait_def ended)
  next
    case (Some w)
    have ended: "wait_ended cfg past op = Some (ws_pid w, next_tid, now - ws_start_ns w)"
      unfolding op_def wait_ended.simps since [symmetric] Some by simp
    have report: "to_report cfg (allowed cfg past) (ws_pid w, next_tid, now - ws_start_ns w) \<longleftrightarrow>
        \<not> now - ws_start_ns w < bc_min_wait_ns cfg \<and>
        \<not> (bc_enable_pid_filter cfg \<noteq> 0 \<and> ws_pid w \<notin> set (bs_pid_allowlist s')) \<and>
        \<not> (bc_enable_tid_filter cfg \<noteq> 0 \<and> next_tid \<notin> set (bs_tid_allowlist s'))"
      unfolding to_report_def lists by (auto simp: not_less)
    define short where "short \<longleftrightarrow> now - ws_start_ns w < bc_min_wait_ns cfg"
    define pid_out where "pid_out \<longleftrightarrow> bc_enable_pid_filter cfg \<noteq> 0 \<and> ws_pid w \<notin> set (bs_pid_allowlist s')"
    define tid_out where "tid_out \<longleftrightarrow> bc_enable_tid_filter cfg \<noteq> 0 \<and> next_tid \<notin> set (bs_tid_allowlist s')"
    let ?r = "aggregate_or_emit ans (Some cfg) (ws_pid w) next_tid (now - ws_start_ns w) now s'"
    let ?forget = "\<lambda>s. s\<lparr>bs_runnable_since := (bs_runnable_since s)(next_tid := None)\<rparr>"
    have step: "bpf_step op s = (if short then (?forget s', []) else if pid_out then (?forget (stale_hit s'), [])
        else if tid_out then (?forget (stale_hit s'), []) else (?forget (fst ?r), snd ?r))"
      unfolding op_def bpf_step.simps on_sched_switch_def Let_def touched_def [symmetric] s'_def [symmetric]
        Some option.case config short_def pid_out_def tid_out_def
      by (simp only: min_wait_word option.sel option.simps not_False_eq_True simp_thms case_prod_beta)
    have filtered: "filtered_wait cfg past op \<longleftrightarrow> \<not> short \<and> (pid_out \<or> tid_out)"
      unfolding filtered_wait_def ended option.case report short_def [symmetric] pid_out_def [symmetric]
        tid_out_def [symmetric] by (auto simp: short_def not_less)
    show ?thesis unfolding same step filtered
      using no_loss hit aggregate_loses [OF counters] by (auto simp: other_map lost_reports_def)
  qed
qed

lemma step_loses:
  assumes "follows cfg past s" and "bs_counters s = Some n"
  shows "loses (lost_reports (snd (bpf_step op s)) + (if filtered_wait cfg past op then 1 else 0)) s (fst (bpf_step op s))"
proof (cases op)
  case (SchedSwitch ans now tgid prev_tid next_tid prev_state)
  then show ?thesis using switch_loses [OF assms] by simp
qed (use assms(2) in \<open>simp_all add: loses_def lost_reports_def filtered_wait_def losses_def on_sched_process_exec_def
  on_sched_process_exit_def\<close>)

lemma lost_reports_append [simp]: "lost_reports (rs @ rs') = lost_reports rs + lost_reports rs'"
  by (simp add: lost_reports_def)

lemma run_loses:
  assumes "follows cfg past s" and "bs_counters s = Some n"
  shows "loses (lost_reports (snd (bpf_run ops s)) + filtered_waits cfg past ops) s (fst (bpf_run ops s))"
  using assms
proof (induction ops arbitrary: s past n)
  case Nil
  then show ?case by (simp add: loses_def lost_reports_def)
next
  case (Cons op ops)
  obtain n1 where n1: "bs_counters (fst (bpf_step op s)) = Some n1"
    "losses n1 = losses n + of_nat (lost_reports (snd (bpf_step op s)) + (if filtered_wait cfg past op then 1 else 0))"
    using step_loses [OF Cons.prems, of op] Cons.prems(2) by (auto simp: loses_def)
  show ?case
    using Cons.IH [OF step_follows [OF Cons.prems(1), of op] n1(1)] n1 Cons.prems(2)
    by (auto simp: loses_def case_prod_beta algebra_simps)
qed

lemma aggregate_one: "length (snd (aggregate_or_emit ans c pid tid d now s)) \<le> 1"
  by (simp add: aggregate_or_emit_def emit_event_def Let_def split: option.split)

lemma switch_one: "length (snd (on_sched_switch ans now tgid prev_tid next_tid prev_state s)) \<le> 1"
  unfolding on_sched_switch_def Let_def touched_def [symmetric]
  using aggregate_one by (simp add: case_prod_beta split: option.split)

lemma run_lost_bound: "lost_reports (snd (bpf_run ops s)) + filtered_waits cfg past ops \<le> 2 * length ops"
proof (induction ops arbitrary: s past)
  case (Cons op ops)
  have "length (snd (bpf_step op s)) \<le> 1" by (cases op) (simp_all add: switch_one [simplified])
  then have "lost_reports (snd (bpf_step op s)) \<le> 1" using length_filter_le le_trans unfolding lost_reports_def by blast
  then show ?case using Cons.IH [of "fst (bpf_step op s)" "op # past"] by (simp add: case_prod_beta)
qed (simp add: lost_reports_def)

end
