(* ===== verification/Ebpf_Collector.thy ===== *)
theory Ebpf_Collector
  imports Ebpf_Program Sched_Collector
begin

text \<open>
  The user-space side of the eBPF backend, \<^verbatim>\<open>ebpf/src/ebpf_sched_delay_collector.cpp\<close>: it loads and configures
  the program of \<^verbatim>\<open>Ebpf_Program\<close>, keeps its allow lists in step with the processes, turns the records of the
  ring buffer into samples and the counters of the program into failures, and falls back to the collector of
  \<^verbatim>\<open>Sched_Collector\<close> when the program cannot be loaded. The outcomes of the calls into \<^verbatim>\<open>libbpf\<close>, the listing
  of \<^verbatim>\<open>/proc\<close> and the records that one poll delivers are arguments.
\<close>

section \<open>State and outside\<close>

record runtime_stats =
  rt_ringbuf_drops :: u64
  rt_allowlist_exec_seen :: u64
  rt_allowlist_exit_cleaned :: u64
  rt_allowlist_stale_hits :: u64
  rt_aggregate_drops :: u64
  rt_allowlist_scanned_processes :: u64
  rt_allowlist_matched_pids :: u64
  rt_allowlist_matched_tids :: u64
  rt_allowlist_refresh_elapsed_ms :: u64

definition no_runtime_stats :: runtime_stats where
  "no_runtime_stats = \<lparr>rt_ringbuf_drops = 0, rt_allowlist_exec_seen = 0, rt_allowlist_exit_cleaned = 0,
     rt_allowlist_stale_hits = 0, rt_aggregate_drops = 0, rt_allowlist_scanned_processes = 0,
     rt_allowlist_matched_pids = 0, rt_allowlist_matched_tids = 0, rt_allowlist_refresh_elapsed_ms = 0\<rparr>"

record ebpf_impl =
  ei_pending :: "sched_delay_sample list"
  ei_poll_failures :: u64
  ei_last_counter_total :: u64
  ei_last_exec_seen :: u64
  ei_runtime_stats :: runtime_stats
  ei_last_filter_refresh_ns :: int

definition new_ebpf_impl :: ebpf_impl where
  "new_ebpf_impl = \<lparr>ei_pending = [], ei_poll_failures = 0, ei_last_counter_total = 0, ei_last_exec_seen = 0,
     ei_runtime_stats = no_runtime_stats, ei_last_filter_refresh_ns = 0\<rparr>"

record listed_task =
  lt_name :: string
  lt_comm :: "string option"

record listed_process =
  lp_name :: string
  lp_is_directory :: bool
  lp_comm :: "string option"
  lp_tasks :: "listed_task list option"

text \<open>
  One refresh of the allow lists: the listing, the outcome of every deletion, and for which keys the maps have
  room.
\<close>

record refresh_input =
  ri_entries :: "listed_process list option"
  ri_pid_deletes :: "nat \<Rightarrow> bool"
  ri_tid_deletes :: "nat \<Rightarrow> bool"
  ri_pid_room :: "u32 \<Rightarrow> bool"
  ri_tid_room :: "u32 \<Rightarrow> bool"
  ri_elapsed_ms :: u64

section \<open>The allow lists\<close>

definition parse_whole_i32 :: "string \<Rightarrow> i32 option" where
  "parse_whole_i32 s =
     (case stoi s of Inl e \<Rightarrow> None | Inr (v, rest) \<Rightarrow> if rest \<noteq> [] then None else Some v)"

text \<open>The first key of the map is deleted until there is none.\<close>

partial_function (option) clear_u32_map :: "(nat \<Rightarrow> bool) \<Rightarrow> nat \<Rightarrow> u32 list \<Rightarrow> u32 list option" where
  "clear_u32_map deletes i keys =
     (case keys of
        [] \<Rightarrow> Some []
      | key # rest \<Rightarrow> clear_u32_map deletes (Suc i) (if deletes i then rest else keys))"

definition allow_key :: "(u32 \<Rightarrow> bool) \<Rightarrow> u32 \<Rightarrow> u32 list \<Rightarrow> u32 list" where
  "allow_key room key keys = (if key \<in> set keys \<or> \<not> room key then keys else keys @ [key])"

record refresh_scan =
  rs_pids :: "u32 list"
  rs_tids :: "u32 list"
  rs_scanned :: u64
  rs_matched_pids :: u64
  rs_matched_tids :: u64

definition allow_task :: "monitor_config \<Rightarrow> refresh_input \<Rightarrow> listed_task \<Rightarrow> refresh_scan \<Rightarrow> refresh_scan" where
  "allow_task cfg i task r =
     (case parse_whole_i32 (lt_name task) of
        None \<Rightarrow> r
      | Some tid \<Rightarrow>
          (case read_comm (lt_comm task) of
             None \<Rightarrow> r
           | Some comm \<Rightarrow>
               if comm \<notin> set (sched_thread_whitelist cfg) then r
               else r\<lparr>rs_tids := allow_key (ri_tid_room i) tid (rs_tids r), rs_matched_tids := rs_matched_tids r + 1\<rparr>))"

definition process_allowed :: "monitor_config \<Rightarrow> listed_process \<Rightarrow> bool" where
  "process_allowed cfg proc \<longleftrightarrow> sched_process_whitelist cfg = [] \<or>
     (case read_comm (lp_comm proc) of None \<Rightarrow> False | Some comm \<Rightarrow> comm \<in> set (sched_process_whitelist cfg))"

definition allow_process :: "monitor_config \<Rightarrow> refresh_input \<Rightarrow> listed_process \<Rightarrow> refresh_scan \<Rightarrow> refresh_scan" where
  "allow_process cfg i proc r =
     (if \<not> lp_is_directory proc then r
      else let r = r\<lparr>rs_scanned := rs_scanned r + 1\<rparr>
      in case parse_whole_i32 (lp_name proc) of
           None \<Rightarrow> r
         | Some pid \<Rightarrow>
             if \<not> process_allowed cfg proc then r
             else let r = (if sched_process_whitelist cfg \<noteq> []
                           then r\<lparr>rs_pids := allow_key (ri_pid_room i) pid (rs_pids r), rs_matched_pids := rs_matched_pids r + 1\<rparr>
                           else r)
             in if sched_thread_whitelist cfg = [] then r
                else case lp_tasks proc of None \<Rightarrow> r | Some tasks \<Rightarrow> fold (allow_task cfg i) tasks r)"

definition update_refresh_stats :: "u64 \<Rightarrow> refresh_scan \<Rightarrow> ebpf_impl \<Rightarrow> ebpf_impl" where
  "update_refresh_stats elapsed_ms r impl = impl\<lparr>ei_runtime_stats := (ei_runtime_stats impl)\<lparr>
     rt_allowlist_scanned_processes := rs_scanned r, rt_allowlist_matched_pids := rs_matched_pids r,
     rt_allowlist_matched_tids := rs_matched_tids r, rt_allowlist_refresh_elapsed_ms := elapsed_ms\<rparr>\<rparr>"

definition refresh_allowlists ::
  "monitor_config \<Rightarrow> refresh_input \<Rightarrow> bpf_state \<Rightarrow> ebpf_impl \<Rightarrow> (bpf_state \<times> ebpf_impl \<times> bool) option" where
  "refresh_allowlists cfg i s impl =
     (case clear_u32_map (ri_pid_deletes i) 0 (bs_pid_allowlist s) of None \<Rightarrow> None | Some pids \<Rightarrow>
      (case clear_u32_map (ri_tid_deletes i) 0 (bs_tid_allowlist s) of None \<Rightarrow> None | Some tids \<Rightarrow>
        let s = s\<lparr>bs_pid_allowlist := pids, bs_tid_allowlist := tids\<rparr>;
            r = \<lparr>rs_pids = pids, rs_tids = tids, rs_scanned = 0, rs_matched_pids = 0, rs_matched_tids = 0\<rparr>
        in if sched_process_whitelist cfg = [] \<and> sched_thread_whitelist cfg = []
           then Some (s, update_refresh_stats (ri_elapsed_ms i) r impl, True)
           else case ri_entries i of
                  None \<Rightarrow> Some (s, impl, False)
                | Some entries \<Rightarrow>
                    let r = fold (allow_process cfg i) entries r
                    in Some (s\<lparr>bs_pid_allowlist := rs_pids r, bs_tid_allowlist := rs_tids r\<rparr>,
                         update_refresh_stats (ri_elapsed_ms i) r impl, True)))"

section \<open>Starting\<close>

record init_answers =
  ia_open :: bool
  ia_load :: bool
  ia_config_stored :: bool
  ia_counters_stored :: bool
  ia_refresh :: refresh_input
  ia_attach :: bool
  ia_ring_buffer :: bool

definition bpf_config_of :: "monitor_config \<Rightarrow> bpf_config" where
  "bpf_config_of cfg = \<lparr>
     bc_min_wait_ns = sched_ebpf_min_wait_us cfg * 1000,
     bc_aggregate_window_ns = ucast (sched_ebpf_aggregate_window_ms cfg) * 1000000,
     bc_max_events_per_poll = sched_ebpf_max_events_per_poll cfg,
     bc_enable_pid_filter = (if sched_process_whitelist cfg = [] then 0 else 1),
     bc_enable_tid_filter = (if sched_thread_whitelist cfg = [] then 0 else 1),
     bc_enable_lifecycle = (if sched_ebpf_lifecycle_enable cfg then 1 else 0),
     bc_enable_aggregate = (if sched_ebpf_aggregate_enable cfg then 1 else 0),
     bc_aggregate_max_entries = sched_ebpf_aggregate_max_entries cfg\<rparr>"

definition configure_maps ::
  "monitor_config \<Rightarrow> init_answers \<Rightarrow> bpf_state \<Rightarrow> ebpf_impl \<Rightarrow> (bpf_state \<times> ebpf_impl \<times> bool) option" where
  "configure_maps cfg a s impl =
     (if \<not> ia_config_stored a then Some (s, impl, False)
      else let s = s\<lparr>bs_config := Some (bpf_config_of cfg)\<rparr>
      in if \<not> ia_counters_stored a then Some (s, impl, False)
         else refresh_allowlists cfg (ia_refresh a) (s\<lparr>bs_counters := Some no_counters\<rparr>) impl)"

text \<open>The maps of a program that has just been loaded hold zeros.\<close>

definition loaded_bpf_state :: bpf_state where
  "loaded_bpf_state = new_bpf_state \<lparr>bc_min_wait_ns = 0, bc_aggregate_window_ns = 0, bc_max_events_per_poll = 0,
     bc_enable_pid_filter = 0, bc_enable_tid_filter = 0, bc_enable_lifecycle = 0, bc_enable_aggregate = 0,
     bc_aggregate_max_entries = 0\<rparr>"

definition init_ebpf :: "monitor_config \<Rightarrow> init_answers \<Rightarrow> (bpf_state \<times> ebpf_impl \<times> bool) option" where
  "init_ebpf cfg a =
     (if \<not> ia_open a \<or> \<not> ia_load a then Some (loaded_bpf_state, new_ebpf_impl, False)
      else case configure_maps cfg a loaded_bpf_state new_ebpf_impl of
        None \<Rightarrow> None
      | Some (s, impl, ok) \<Rightarrow> Some (s, impl, ok \<and> ia_attach a \<and> ia_ring_buffer a))"

record ebpf_collector =
  eb_impl :: ebpf_impl
  eb_fallback :: sched_collector
  eb_failures :: u64
  eb_initialized :: bool

definition new_ebpf_collector :: "monitor_config \<Rightarrow> init_answers \<Rightarrow> (bpf_state \<times> ebpf_collector) option" where
  "new_ebpf_collector cfg a =
     (case init_ebpf cfg a of
        None \<Rightarrow> None
      | Some (s, impl, ok) \<Rightarrow> Some (s, \<lparr>eb_impl = impl, eb_fallback = new_sched_collector,
          eb_failures = (if ok then 0 else 1), eb_initialized = ok\<rparr>))"

section \<open>Polling\<close>

text \<open>
  \<open>pl_records\<close>: the records for which \<^verbatim>\<open>libbpf\<close> calls back during the poll, with their sizes;
  \<open>pl_result\<close>: what the poll returns.
\<close>

record poll_input =
  pl_now_ns :: int
  pl_lookup :: bool
  pl_refresh :: refresh_input
  pl_records :: "(nat \<times> sched_delay_event) list"
  pl_result :: int

definition event_bytes :: nat where
  "event_bytes = 56"

definition sample_of :: "sched_delay_event \<Rightarrow> sched_delay_sample" where
  "sample_of e = \<lparr>sd_pid = se_pid e, sd_tid = se_tid e, sd_delta_wait_sum_us = se_delta_wait_ns e div 1000,
     sd_delta_involuntary_switches = se_involuntary_switches e, sd_max_wait_us = se_max_wait_ns e div 1000,
     sd_avg_wait_us = se_avg_wait_ns e div 1000, sd_aggregate_count = se_aggregate_count e, sd_valid = True\<rparr>"

definition append_sample :: "monitor_config \<Rightarrow> sched_delay_event \<Rightarrow> ebpf_impl \<Rightarrow> ebpf_impl \<times> int" where
  "append_sample cfg e impl =
     (if unat (sched_ebpf_max_events_per_poll cfg) \<le> length (ei_pending impl) then (impl, 1)
      else let impl = impl\<lparr>ei_pending := ei_pending impl @ [sample_of e]\<rparr>
           in (impl, if unat (sched_ebpf_max_events_per_poll cfg) \<le> length (ei_pending impl) then 1 else 0))"

definition handle_event :: "monitor_config \<Rightarrow> nat \<times> sched_delay_event \<Rightarrow> ebpf_impl \<Rightarrow> ebpf_impl \<times> int" where
  "handle_event cfg = (\<lambda>(size_of_record, e) impl. if size_of_record < event_bytes then (impl, 0) else append_sample cfg e impl)"

definition read_counters :: "bool \<Rightarrow> bpf_state \<Rightarrow> ebpf_impl \<Rightarrow> ebpf_impl \<times> bpf_counters" where
  "read_counters found s impl =
     (let impl = (if found then impl else impl\<lparr>ei_poll_failures := ei_poll_failures impl + 1\<rparr>);
          n = (if found then (case bs_counters s of Some n \<Rightarrow> n | None \<Rightarrow> no_counters) else no_counters)
      in (impl\<lparr>ei_runtime_stats := (ei_runtime_stats impl)\<lparr>rt_ringbuf_drops := bn_ringbuf_drops n,
            rt_allowlist_exec_seen := bn_allowlist_exec_seen n, rt_allowlist_exit_cleaned := bn_allowlist_exit_cleaned n,
            rt_allowlist_stale_hits := bn_allowlist_stale_hits n, rt_aggregate_drops := bn_aggregate_drops n\<rparr>\<rparr>, n))"

definition read_counter_delta :: "bpf_counters \<Rightarrow> ebpf_impl \<Rightarrow> ebpf_impl \<times> u64" where
  "read_counter_delta n impl =
     (let current_total = bn_ringbuf_drops n + bn_allowlist_stale_hits n + bn_aggregate_drops n;
          delta = (if ei_last_counter_total impl \<le> current_total then current_total - ei_last_counter_total impl else 0)
      in (impl\<lparr>ei_last_counter_total := current_total\<rparr>, delta))"

definition exec_delta :: "bpf_counters \<Rightarrow> ebpf_impl \<Rightarrow> u64" where
  "exec_delta n impl =
     (if ei_last_exec_seen impl \<le> bn_allowlist_exec_seen n then bn_allowlist_exec_seen n - ei_last_exec_seen impl else 0)"

definition refresh_due :: "monitor_config \<Rightarrow> int \<Rightarrow> u64 \<Rightarrow> ebpf_impl \<Rightarrow> bool" where
  "refresh_due cfg now_ns execs impl \<longleftrightarrow> (sched_process_whitelist cfg \<noteq> [] \<or> sched_thread_whitelist cfg \<noteq> []) \<and>
     (int (unat (sched_ebpf_allowlist_refresh_ms cfg)) * 1000000 \<le> now_ns - ei_last_filter_refresh_ns impl \<or> 0 < execs)"

definition poll ::
  "monitor_config \<Rightarrow> poll_input \<Rightarrow> bpf_state \<Rightarrow> ebpf_impl \<Rightarrow> (bpf_state \<times> ebpf_impl \<times> sched_delay_sample list) option" where
  "poll cfg i s impl =
     (let (impl, n) = read_counters (pl_lookup i) s (impl\<lparr>ei_pending := []\<rparr>);
          execs = exec_delta n impl;
          impl = impl\<lparr>ei_last_exec_seen := bn_allowlist_exec_seen n\<rparr>
      in case (if refresh_due cfg (pl_now_ns i) execs impl
               then map_option (\<lambda>(s, impl, ok). (s, impl\<lparr>ei_last_filter_refresh_ns := pl_now_ns i\<rparr>))
                      (refresh_allowlists cfg (pl_refresh i) s impl)
               else Some (s, impl)) of
           None \<Rightarrow> None
         | Some (s, impl) \<Rightarrow>
             (let impl = fold (\<lambda>rcd. fst \<circ> handle_event cfg rcd) (pl_records i) impl;
                  impl = (if pl_result i < 0 \<and> pl_result i \<noteq> - 4
                          then impl\<lparr>ei_poll_failures := ei_poll_failures impl + 1\<rparr> else impl);
                  (impl, delta) = read_counter_delta n impl;
                  impl = impl\<lparr>ei_poll_failures := ei_poll_failures impl + delta\<rparr>
              in Some (s, impl, ei_pending impl)))"

definition ebpf_collect ::
  "monitor_config \<Rightarrow> poll_input \<Rightarrow> proc_snapshot \<Rightarrow> bpf_state \<Rightarrow> ebpf_collector \<Rightarrow>
   (bpf_state \<times> ebpf_collector \<times> sched_delay_sample list) option" where
  "ebpf_collect cfg i ps s c =
     (let c = c\<lparr>eb_failures := 0\<rparr>
      in if \<not> sched_delay_enable cfg then Some (s, c, [])
         else if \<not> eb_initialized c
         then (case sched_collect cfg ps (eb_fallback c) of
                 (fallback, samples) \<Rightarrow>
                   Some (s, c\<lparr>eb_failures := eb_failures c + 1, eb_fallback := fallback\<rparr>, samples))
         else case poll cfg i s (eb_impl c) of
                None \<Rightarrow> None
              | Some (s, impl, samples) \<Rightarrow>
                  (let c = c\<lparr>eb_impl := impl\<rparr>
                   in Some (s, (if 0 < ei_poll_failures impl
                                then c\<lparr>eb_failures := eb_failures c + ei_poll_failures impl,
                                       eb_impl := impl\<lparr>ei_poll_failures := 0\<rparr>\<rparr>
                                else c), samples)))"

section \<open>Clearing a map\<close>

lemma clear_enough:
  "length keys \<le> length (filter deletes [i..<i + k]) \<Longrightarrow> clear_u32_map deletes i keys = Some []"
proof (induction k arbitrary: i keys)
  case 0
  then show ?case by (simp add: clear_u32_map.simps)
next
  case (Suc k)
  show ?case
  proof (cases keys)
    case Nil
    then show ?thesis by (simp add: clear_u32_map.simps)
  next
    case (Cons key rest)
    have "[i..<i + Suc k] = i # [Suc i..<Suc i + k]" by (simp add: upt_conv_Cons del: upt_Suc)
    then have "length (if deletes i then rest else keys) \<le> length (filter deletes [Suc i..<Suc i + k])"
      using Suc.prems Cons by (simp split: if_splits)
    from Suc.IH [OF this] show ?thesis using Cons by (subst clear_u32_map.simps) simp
  qed
qed

lemma clear_needs:
  assumes "clear_u32_map deletes i keys = Some r"
  shows "r = [] \<and> (\<exists>k. length keys \<le> length (filter deletes [i..<i + k]))"
proof (rule clear_u32_map.raw_induct [where P = "\<lambda>deletes i keys r. r = [] \<and>
    (\<exists>k. length keys \<le> length (filter deletes [i..<i + k]))", OF _ assms])
  fix clear deletes i keys r
  assume ih: "\<And>deletes i keys r. clear deletes i keys = Some r \<Longrightarrow>
      r = [] \<and> (\<exists>k. length (keys :: u32 list) \<le> length (filter deletes [i..<i + k]))"
    and eq: "(case keys of [] \<Rightarrow> Some []
      | key # rest \<Rightarrow> clear deletes (Suc i) (if deletes i then rest else keys)) = Some r"
  show "r = [] \<and> (\<exists>k. length keys \<le> length (filter deletes [i..<i + k]))"
  proof (cases keys)
    case Nil
    then show ?thesis using eq by (intro conjI exI [of _ 0]) simp_all
  next
    case (Cons key rest)
    from eq Cons have "clear deletes (Suc i) (if deletes i then rest else keys) = Some r" by simp
    from ih [OF this] obtain k where k: "r = []"
      "length (if deletes i then rest else keys) \<le> length (filter deletes [Suc i..<Suc i + k])" by blast
    have "[i..<i + Suc k] = i # [Suc i..<Suc i + k]" by (simp add: upt_conv_Cons del: upt_Suc)
    then have "length keys \<le> length (filter deletes [i..<i + Suc k])" using k(2) Cons by (simp split: if_splits)
    then show ?thesis using k(1) by blast
  qed
qed

text \<open>
  Clearing an allow list returns exactly when enough of its deletions succeed, one for every key; then the map is empty.
  A deletion that keeps failing keeps the collector in the loop.
\<close>

theorem clear_returns_iff:
  "clear_u32_map deletes 0 keys = (if \<exists>k. length keys \<le> length (filter deletes [0..<k]) then Some [] else None)"
  using clear_enough [of keys deletes 0] clear_needs [of deletes 0 keys]
  by (cases "clear_u32_map deletes 0 keys") auto

lemma clear_all [simp]: "clear_u32_map (\<lambda>i. True) 0 keys = Some []"
  using clear_enough [of keys "\<lambda>i. True" 0 "length keys"] by simp

section \<open>Refreshing the allow lists\<close>

definition wanted_pid :: "monitor_config \<Rightarrow> listed_process \<Rightarrow> u32 \<Rightarrow> bool" where
  "wanted_pid cfg proc pid \<longleftrightarrow> lp_is_directory proc \<and> parse_whole_i32 (lp_name proc) = Some pid \<and> process_allowed cfg proc"

definition wanted_tid :: "monitor_config \<Rightarrow> listed_process \<Rightarrow> u32 \<Rightarrow> bool" where
  "wanted_tid cfg proc tid \<longleftrightarrow> (\<exists>pid. wanted_pid cfg proc pid) \<and>
     (\<exists>tasks task comm. lp_tasks proc = Some tasks \<and> task \<in> set tasks \<and> parse_whole_i32 (lt_name task) = Some tid \<and>
        read_comm (lt_comm task) = Some comm \<and> comm \<in> set (sched_thread_whitelist cfg))"

lemma allow_key_set: "room k \<Longrightarrow> set (allow_key room k keys) = insert k (set keys)"
  by (auto simp: allow_key_def)

lemma allow_task_pids [simp]: "rs_pids (allow_task cfg i task r) = rs_pids r"
  by (simp add: allow_task_def split: option.split)

lemma fold_allow_task_pids [simp]: "rs_pids (fold (allow_task cfg i) tasks r) = rs_pids r"
  by (induction tasks arbitrary: r) simp_all

lemma allow_task_tids:
  assumes "\<forall>k. ri_tid_room i k"
  shows "set (rs_tids (allow_task cfg i task r)) = set (rs_tids r) \<union>
    {tid. parse_whole_i32 (lt_name task) = Some tid \<and>
      (\<exists>comm. read_comm (lt_comm task) = Some comm \<and> comm \<in> set (sched_thread_whitelist cfg))}"
  using assms by (auto simp: allow_task_def allow_key_set split: option.split)

lemma fold_allow_task_tids:
  assumes "\<forall>k. ri_tid_room i k"
  shows "set (rs_tids (fold (allow_task cfg i) tasks r)) = set (rs_tids r) \<union>
    {tid. \<exists>task \<in> set tasks. parse_whole_i32 (lt_name task) = Some tid \<and>
      (\<exists>comm. read_comm (lt_comm task) = Some comm \<and> comm \<in> set (sched_thread_whitelist cfg))}"
proof (induction tasks arbitrary: r)
  case (Cons task tasks)
  show ?case unfolding fold_Cons comp_def Cons.IH allow_task_tids [OF assms] by auto
qed simp

lemma allow_process_pids:
  assumes "\<forall>k. ri_pid_room i k"
  shows "set (rs_pids (allow_process cfg i proc r)) = set (rs_pids r) \<union>
    {pid. sched_process_whitelist cfg \<noteq> [] \<and> wanted_pid cfg proc pid}"
  using assms by (auto simp: allow_process_def wanted_pid_def Let_def allow_key_set split: option.split)

lemma allow_process_tids:
  assumes "\<forall>k. ri_tid_room i k"
  shows "set (rs_tids (allow_process cfg i proc r)) = set (rs_tids r) \<union>
    {tid. sched_thread_whitelist cfg \<noteq> [] \<and> wanted_tid cfg proc tid}"
  using assms
  by (auto simp: allow_process_def wanted_tid_def wanted_pid_def Let_def fold_allow_task_tids split: option.split)

lemma fold_allow_process:
  assumes "\<forall>k. ri_pid_room i k" and "\<forall>k. ri_tid_room i k"
  shows "set (rs_pids (fold (allow_process cfg i) procs r)) = set (rs_pids r) \<union>
      {pid. sched_process_whitelist cfg \<noteq> [] \<and> (\<exists>proc \<in> set procs. wanted_pid cfg proc pid)}"
    and "set (rs_tids (fold (allow_process cfg i) procs r)) = set (rs_tids r) \<union>
      {tid. sched_thread_whitelist cfg \<noteq> [] \<and> (\<exists>proc \<in> set procs. wanted_tid cfg proc tid)}"
proof (induction procs arbitrary: r)
  case (Cons proc procs)
  case 1
  show ?case unfolding fold_Cons comp_def Cons.IH(1) allow_process_pids [OF assms(1)] by auto
  case 2
  show ?case unfolding fold_Cons comp_def Cons.IH(2) allow_process_tids [OF assms(2)] by auto
qed simp_all

text \<open>
  A refresh whose calls succeed leaves in the allow lists exactly the listed processes whose name is on the list of
  processes, and exactly their threads whose name is on the list of threads, whatever the lists held before; the
  measurements of the program are not touched.
\<close>

theorem refresh_exact:
  assumes "ri_entries i = Some procs" and "ri_pid_deletes i = (\<lambda>j. True)" and "ri_tid_deletes i = (\<lambda>j. True)"
    and "\<forall>k. ri_pid_room i k" and "\<forall>k. ri_tid_room i k"
  shows "\<exists>s' impl'. refresh_allowlists cfg i s impl = Some (s', impl', True) \<and>
    set (bs_pid_allowlist s') = {pid. sched_process_whitelist cfg \<noteq> [] \<and> (\<exists>proc \<in> set procs. wanted_pid cfg proc pid)} \<and>
    set (bs_tid_allowlist s') = {tid. sched_thread_whitelist cfg \<noteq> [] \<and> (\<exists>proc \<in> set procs. wanted_tid cfg proc tid)} \<and>
    bs_runnable_since s' = bs_runnable_since s \<and> bs_aggregates s' = bs_aggregates s \<and> bs_counters s' = bs_counters s \<and>
    bs_config s' = bs_config s"
  using assms fold_allow_process [OF assms(4,5)]
  by (auto simp: refresh_allowlists_def Let_def)

section \<open>The samples and failures of a poll\<close>

lemma append_sample_fold:
  "fold (\<lambda>rcd. fst \<circ> handle_event cfg rcd) records impl = impl\<lparr>ei_pending := ei_pending impl @
     map sample_of (take (unat (sched_ebpf_max_events_per_poll cfg) - length (ei_pending impl))
       (map snd (filter (\<lambda>(n, e). event_bytes \<le> n) records)))\<rparr>"
proof (induction records arbitrary: impl)
  case (Cons rcd records)
  obtain n e where rcd: "rcd = (n, e)" by (cases rcd)
  show ?case
  proof (cases "event_bytes \<le> n \<and> length (ei_pending impl) < unat (sched_ebpf_max_events_per_poll cfg)")
    case True
    then obtain m where m: "unat (sched_ebpf_max_events_per_poll cfg) - length (ei_pending impl) = Suc m"
      "m = unat (sched_ebpf_max_events_per_poll cfg) - Suc (length (ei_pending impl))"
      by (metis Suc_diff_Suc)
    have "fst (handle_event cfg rcd impl) = impl\<lparr>ei_pending := ei_pending impl @ [sample_of e]\<rparr>"
      using True by (simp add: rcd handle_event_def append_sample_def Let_def)
    then show ?thesis using Cons m True by (simp add: rcd)
  next
    case False
    then have "fst (handle_event cfg rcd impl) = impl" by (auto simp: rcd handle_event_def append_sample_def)
    then show ?thesis using Cons False by (auto simp: rcd)
  qed
qed simp

lemma refresh_keeps:
  assumes "refresh_allowlists cfg i s impl = Some (s', impl', ok)"
  shows "ei_pending impl' = ei_pending impl" "ei_poll_failures impl' = ei_poll_failures impl"
    "ei_last_counter_total impl' = ei_last_counter_total impl" "bs_counters s' = bs_counters s"
  using assms
  by (auto simp: refresh_allowlists_def Let_def update_refresh_stats_def split: option.splits if_splits)

lemma ebpf_poll_result:
  assumes "poll cfg i s impl = Some (s', impl', samples)" and "pl_lookup i" and "bs_counters s = Some n"
  shows "samples = map sample_of (take (unat (sched_ebpf_max_events_per_poll cfg))
      (map snd (filter (\<lambda>(k, e). event_bytes \<le> k) (pl_records i))))"
    and "ei_poll_failures impl' = ei_poll_failures impl + (if pl_result i < 0 \<and> pl_result i \<noteq> - 4 then 1 else 0) +
      (if ei_last_counter_total impl \<le> losses n then losses n - ei_last_counter_total impl else 0)"
    and "ei_last_counter_total impl' = losses n" and "bs_counters s' = bs_counters s"
proof -
  obtain impl0 where counters: "read_counters True s (impl\<lparr>ei_pending := []\<rparr>) = (impl0, n)" and
    impl0: "ei_pending impl0 = []" "ei_poll_failures impl0 = ei_poll_failures impl"
      "ei_last_counter_total impl0 = ei_last_counter_total impl"
    by (simp add: read_counters_def assms(3))
  define refreshed where "refreshed = (let impl = impl0\<lparr>ei_last_exec_seen := bn_allowlist_exec_seen n\<rparr> in
    if refresh_due cfg (pl_now_ns i) (exec_delta n impl0) impl
    then map_option (\<lambda>(s, impl, ok). (s, impl\<lparr>ei_last_filter_refresh_ns := pl_now_ns i\<rparr>))
      (refresh_allowlists cfg (pl_refresh i) s impl)
    else Some (s, impl))"
  have found: "pl_lookup i = True" using assms(2) by simp
  obtain s2 impl2 where r: "refreshed = Some (s2, impl2)"
    and result: "(s', impl', samples) = (let impl = fold (\<lambda>rcd. fst \<circ> handle_event cfg rcd) (pl_records i) impl2;
        impl = (if pl_result i < 0 \<and> pl_result i \<noteq> - 4 then impl\<lparr>ei_poll_failures := ei_poll_failures impl + 1\<rparr> else impl);
        (impl, delta) = read_counter_delta n impl;
        impl = impl\<lparr>ei_poll_failures := ei_poll_failures impl + delta\<rparr>
      in (s2, impl, ei_pending impl))"
    using assms(1) unfolding poll_def found counters refreshed_def Let_def prod.case
    by (auto split: option.splits prod.splits)
  then have kept: "ei_pending impl2 = []" "ei_poll_failures impl2 = ei_poll_failures impl"
    "ei_last_counter_total impl2 = ei_last_counter_total impl" "bs_counters s2 = bs_counters s"
    using r refresh_keeps impl0 unfolding refreshed_def Let_def by (auto split: if_splits)
  note facts = result [unfolded append_sample_fold read_counter_delta_def Let_def prod.case] kept
  show "samples = map sample_of (take (unat (sched_ebpf_max_events_per_poll cfg))
      (map snd (filter (\<lambda>(k, e). event_bytes \<le> k) (pl_records i))))"
    using facts by (simp split: if_splits)
  show "ei_poll_failures impl' = ei_poll_failures impl + (if pl_result i < 0 \<and> pl_result i \<noteq> - 4 then 1 else 0) +
      (if ei_last_counter_total impl \<le> losses n then losses n - ei_last_counter_total impl else 0)"
    using facts by (simp add: losses_def split: if_splits)
  show "ei_last_counter_total impl' = losses n" using facts by (simp add: losses_def)
  show "bs_counters s' = bs_counters s" using facts by simp
qed

text \<open>
  C35: with a list of processes or threads, every wait of a thread that is not listed counts as a failure of the
  collector: the failures of a poll are the lost records, the waits without room and the waits filtered out since the last poll.
  Nothing has failed when a thread is merely not listed, but the monitor publishes a collector failure for it.
\<close>

theorem filtered_waits_are_failures:
  assumes "follows (bpf_config_of cfg) past s" and "bs_counters s = Some n"
    and "ei_last_counter_total (eb_impl c) = losses n" and "ei_poll_failures (eb_impl c) = 0"
    and "unat (losses n) + 2 * length ops < 2 ^ 64"
    and "sched_delay_enable cfg" and "eb_initialized c" and "pl_lookup i" and "0 \<le> pl_result i"
    and collect: "ebpf_collect cfg i ps (fst (bpf_run ops s)) c = Some (s', c', samples)"
  shows "unat (eb_failures c') =
    lost_reports (snd (bpf_run ops s)) + filtered_waits (bpf_config_of cfg) past ops"
proof -
  let ?k = "lost_reports (snd (bpf_run ops s)) + filtered_waits (bpf_config_of cfg) past ops"
  have bound: "unat (losses n) + ?k < 2 ^ 64" using assms(5) run_lost_bound [of ops s "bpf_config_of cfg" past] by linarith
  obtain n' where n': "bs_counters (fst (bpf_run ops s)) = Some n'" "losses n' = losses n + of_nat ?k"
    using run_loses [OF assms(1,2), of ops] assms(2) by (auto simp: loses_def)
  have total: "unat (losses n') = unat (losses n) + ?k"
    unfolding n'(2) using bound by (simp add: unat_word_ariths unat_of_nat)
  obtain impl where poll: "poll cfg i (fst (bpf_run ops s)) (eb_impl c) = Some (s', impl, samples)"
    and failures: "eb_failures c' = ei_poll_failures impl"
    using collect assms(6,7) by (auto simp: ebpf_collect_def Let_def word_gt_0 split: option.splits if_splits)
  have "unat (losses n' - losses n) = ?k" using total by (simp add: unat_sub word_le_nat_alt)
  moreover have "losses n \<le> losses n'" using total by (simp add: word_le_nat_alt)
  ultimately show ?thesis
    using ebpf_poll_result(2) [OF poll assms(8) n'(1)] assms(3,4,9) by (simp add: failures)
qed

text \<open>
  A poll delivers the records of the kernel in their order, nanoseconds turned into microseconds, up to the limit of
  the configuration; records behind the limit are consumed and lost, and no counter tells. (Records of the right size; what
  \<^verbatim>\<open>libbpf\<close> delivers is given.)
\<close>

theorem poll_takes_first:
  assumes "sched_delay_enable cfg" and "eb_initialized c" and "pl_lookup i" and "bs_counters s = Some n"
    and "pl_records i = map (Pair event_bytes) events" and "0 \<le> pl_result i"
    and "ebpf_collect cfg i ps s c = Some (s', c', samples)"
  shows "samples = map sample_of (take (unat (sched_ebpf_max_events_per_poll cfg)) events) \<and>
    eb_failures c' = ei_poll_failures (eb_impl c) +
      (if ei_last_counter_total (eb_impl c) \<le> losses n then losses n - ei_last_counter_total (eb_impl c) else 0)"
proof -
  obtain impl where poll: "poll cfg i s (eb_impl c) = Some (s', impl, samples)"
    and failures: "eb_failures c' = ei_poll_failures impl"
    using assms(1,2,7) by (auto simp: ebpf_collect_def Let_def word_gt_0 split: option.splits if_splits)
  show ?thesis using ebpf_poll_result(1,2) [OF poll assms(3,4)] assms(5,6) failures
    by (simp add: filter_map comp_def)
qed

section \<open>The fallback\<close>

text \<open>Rounds of either collector: what each round returns, and the number of failures after it.\<close>

fun ebpf_rounds ::
  "monitor_config \<Rightarrow> (poll_input \<times> proc_snapshot) list \<Rightarrow> bpf_state \<Rightarrow> ebpf_collector \<Rightarrow> (sched_delay_sample list \<times> u64) list option" where
  "ebpf_rounds cfg [] s c = Some []"
| "ebpf_rounds cfg ((i, ps) # rest) s c =
     (case ebpf_collect cfg i ps s c of
        None \<Rightarrow> None
      | Some (s, c, samples) \<Rightarrow> map_option (\<lambda>rounds. (samples, eb_failures c) # rounds) (ebpf_rounds cfg rest s c))"

fun sched_rounds :: "monitor_config \<Rightarrow> proc_snapshot list \<Rightarrow> sched_collector \<Rightarrow> sched_delay_sample list list" where
  "sched_rounds cfg [] c = []"
| "sched_rounds cfg (ps # rest) c = (case sched_collect cfg ps c of (c, samples) \<Rightarrow> samples # sched_rounds cfg rest c)"

lemma disabled_collect: "\<not> sched_delay_enable cfg \<Longrightarrow> snd (sched_collect cfg ps c) = []"
  by (simp add: sched_collect_def Let_def)

lemma disabled_rounds: "\<not> sched_delay_enable cfg \<Longrightarrow> sched_rounds cfg snapshots c = map (\<lambda>ps. []) snapshots"
  by (induction snapshots arbitrary: c) (simp_all add: disabled_collect case_prod_beta)

lemma fallback_rounds:
  "\<not> eb_initialized c \<Longrightarrow> ebpf_rounds cfg inputs s c =
     Some (map (\<lambda>samples. (samples, if sched_delay_enable cfg then 1 else 0)) (sched_rounds cfg (map snd inputs) (eb_fallback c)))"
proof (induction inputs arbitrary: s c)
  case (Cons input inputs)
  obtain i ps where input: "input = (i, ps)" by (cases input)
  show ?case
    using Cons by (cases "sched_delay_enable cfg")
      (simp_all add: input ebpf_collect_def Let_def case_prod_beta disabled_rounds disabled_collect)
qed simp

text \<open>
  C29: a collector whose program cannot be opened, loaded, configured or attached behaves in every round like the collector of
  \<^verbatim>\<open>/proc\<close>, and reports one failure per round.
\<close>

theorem ebpf_falls_back:
  assumes "new_ebpf_collector cfg a = Some (s, c)"
    and "\<not> (ia_open a \<and> ia_load a \<and> ia_config_stored a \<and> ia_counters_stored a \<and> ia_attach a \<and> ia_ring_buffer a)"
  shows "ebpf_rounds cfg inputs s c =
    Some (map (\<lambda>samples. (samples, if sched_delay_enable cfg then 1 else 0))
      (sched_rounds cfg (map snd inputs) new_sched_collector))"
proof -
  have "\<not> eb_initialized c \<and> eb_fallback c = new_sched_collector"
    using assms by (auto simp: new_ebpf_collector_def init_ebpf_def configure_maps_def Let_def split: option.splits if_splits)
  then show ?thesis using fallback_rounds by simp
qed

section \<open>A poll after filtered waits\<close>

text \<open>A monitor that lists the process \<^verbatim>\<open>app\<close>; thread 9 of another process waits twice.\<close>

definition wit_ebpf_cfg :: monitor_config where
  "wit_ebpf_cfg = default_config\<lparr>sched_delay_enable := True, sched_process_whitelist := [''app''],
     sched_ebpf_min_wait_us := 0, sched_ebpf_max_events_per_poll := 2\<rparr>"

definition wit_refresh :: refresh_input where
  "wit_refresh = \<lparr>ri_entries = Some [\<lparr>lp_name = ''12'', lp_is_directory = True, lp_comm = Some ''app'', lp_tasks = None\<rparr>],
     ri_pid_deletes = (\<lambda>j. True), ri_tid_deletes = (\<lambda>j. True), ri_pid_room = (\<lambda>k. True), ri_tid_room = (\<lambda>k. True),
     ri_elapsed_ms = 1\<rparr>"

definition wit_poll :: "sched_delay_event list \<Rightarrow> poll_input" where
  "wit_poll events = \<lparr>pl_now_ns = 0, pl_lookup = True, pl_refresh = wit_refresh,
     pl_records = map (Pair event_bytes) events, pl_result = 0\<rparr>"

definition wit_ebpf_collector :: ebpf_collector where
  "wit_ebpf_collector = \<lparr>eb_impl = new_ebpf_impl, eb_fallback = new_sched_collector, eb_failures = 0, eb_initialized = True\<rparr>"

lemmas wit_ebpf_defs = wit_ebpf_cfg_def wit_poll_def wit_ebpf_collector_def new_ebpf_impl_def default_config_def

lemma wit_not_due: "\<not> refresh_due wit_ebpf_cfg 0 0 impl" if "ei_last_filter_refresh_ns impl = 0"
  using that by (simp add: refresh_due_def wit_ebpf_defs)

lemma wit_poll_returns:
  assumes "bs_counters s = Some n" and "bn_allowlist_exec_seen n = 0"
  shows "\<exists>c' samples. ebpf_collect wit_ebpf_cfg (wit_poll events) ps s wit_ebpf_collector = Some (s, c', samples)"
proof -
  have "poll wit_ebpf_cfg (wit_poll events) s new_ebpf_impl \<noteq> None \<and>
      fst (the (poll wit_ebpf_cfg (wit_poll events) s new_ebpf_impl)) = s"
    using assms wit_not_due
    by (simp add: poll_def read_counters_def exec_delta_def wit_poll_def new_ebpf_impl_def Let_def case_prod_beta)
  then show ?thesis
    by (auto simp: ebpf_collect_def wit_ebpf_collector_def wit_ebpf_cfg_def Let_def)
qed

theorem filtered_waits_are_failures_witness:
  "\<exists>s' c' samples. ebpf_collect wit_ebpf_cfg (wit_poll []) wit_snapshot
      (fst (bpf_run (preempted 9 5 6 @ preempted 9 20 22) (new_bpf_state (bpf_config_of wit_ebpf_cfg)))) wit_ebpf_collector =
      Some (s', c', samples) \<and> unat (eb_failures c') = 2"
proof -
  let ?s = "new_bpf_state (bpf_config_of wit_ebpf_cfg)"
  let ?ops = "preempted 9 5 6 @ preempted 9 20 22"
  have cfg: "bpf_config_of wit_ebpf_cfg = \<lparr>bc_min_wait_ns = 0, bc_aggregate_window_ns = 1000000000,
      bc_max_events_per_poll = 2, bc_enable_pid_filter = 1, bc_enable_tid_filter = 0, bc_enable_lifecycle = 1,
      bc_enable_aggregate = 0, bc_aggregate_max_entries = 8192\<rparr>"
    by (simp add: bpf_config_of_def wit_ebpf_defs)
  have count: "lost_reports (snd (bpf_run ?ops ?s)) + filtered_waits (bpf_config_of wit_ebpf_cfg) [] ?ops = 2"
    unfolding cfg by (simp add: bpf_run_simps lost_reports_def filtered_wait_def to_report_def)
  obtain n where n: "bs_counters (fst (bpf_run ?ops ?s)) = Some n" "bn_allowlist_exec_seen n = 0"
    unfolding cfg by (simp add: bpf_run_simps)
  obtain c' samples where collect: "ebpf_collect wit_ebpf_cfg (wit_poll []) wit_snapshot (fst (bpf_run ?ops ?s)) wit_ebpf_collector =
      Some (fst (bpf_run ?ops ?s), c', samples)"
    using wit_poll_returns [OF n] by blast
  have "unat (eb_failures c') = 2"
    unfolding count [symmetric]
    by (rule filtered_waits_are_failures [OF new_follows _ _ _ _ _ _ _ _ collect, of no_counters])
      (simp_all add: new_bpf_state_def no_counters_def losses_def preempted_def wit_ebpf_defs)
  then show ?thesis using collect by blast
qed

definition wit_record :: "u32 \<Rightarrow> u64 \<Rightarrow> sched_delay_event" where
  "wit_record tid ns = \<lparr>se_pid = 12, se_tid = tid, se_delta_wait_ns = ns, se_involuntary_switches = 1, se_max_wait_ns = ns,
     se_avg_wait_ns = ns, se_aggregate_count = 1, se_flags = 0\<rparr>"

theorem poll_takes_first_witness:
  "\<exists>s' c' samples. ebpf_collect wit_ebpf_cfg (wit_poll [wit_record 12 5000, wit_record 13 7000, wit_record 14 9000])
      wit_snapshot (new_bpf_state (bpf_config_of wit_ebpf_cfg)) wit_ebpf_collector = Some (s', c', samples) \<and>
    map sd_tid samples = [12, 13] \<and> map sd_delta_wait_sum_us samples = [5, 7] \<and> eb_failures c' = 0"
proof -
  let ?s = "new_bpf_state (bpf_config_of wit_ebpf_cfg)"
  let ?events = "[wit_record 12 5000, wit_record 13 7000, wit_record 14 9000]"
  have n: "bs_counters ?s = Some no_counters" "bn_allowlist_exec_seen no_counters = 0"
    by (simp_all add: new_bpf_state_def no_counters_def)
  obtain c' samples where collect: "ebpf_collect wit_ebpf_cfg (wit_poll ?events) wit_snapshot ?s wit_ebpf_collector =
      Some (?s, c', samples)"
    using wit_poll_returns [OF n] by blast
  have "samples = map sample_of (take (unat (sched_ebpf_max_events_per_poll wit_ebpf_cfg)) ?events) \<and> eb_failures c' = 0"
    using poll_takes_first [OF _ _ _ n(1) _ _ collect, of ?events]
    by (simp add: wit_ebpf_defs losses_def no_counters_def)
  moreover have "unat (sched_ebpf_max_events_per_poll wit_ebpf_cfg) = 2" by (simp add: wit_ebpf_cfg_def)
  ultimately show ?thesis using collect by (simp add: sample_of_def wit_record_def)
qed

definition wit_init :: init_answers where
  "wit_init = \<lparr>ia_open = True, ia_load = False, ia_config_stored = True, ia_counters_stored = True,
     ia_refresh = wit_refresh, ia_attach = True, ia_ring_buffer = True\<rparr>"

theorem ebpf_falls_back_witness:
  "\<exists>s c. new_ebpf_collector default_config wit_init = Some (s, c) \<and>
    ebpf_rounds default_config [(wit_poll [], wit_snapshot), (wit_poll [], wit_snapshot)] s c =
      Some (map (\<lambda>samples. (samples, if sched_delay_enable default_config then 1 else 0))
        (sched_rounds default_config [wit_snapshot, wit_snapshot] new_sched_collector))"
proof -
  obtain s c where "new_ebpf_collector default_config wit_init = Some (s, c)"
    by (simp add: new_ebpf_collector_def init_ebpf_def wit_init_def)
  then show ?thesis
    using ebpf_falls_back [of default_config wit_init s c "[(wit_poll [], wit_snapshot), (wit_poll [], wit_snapshot)]"]
    by (simp add: wit_init_def)
qed

theorem refresh_exact_witness:
  "\<exists>s' impl'. refresh_allowlists wit_ebpf_cfg wit_refresh
      ((new_bpf_state (bpf_config_of wit_ebpf_cfg))\<lparr>bs_pid_allowlist := [77]\<rparr>) new_ebpf_impl = Some (s', impl', True) \<and>
    set (bs_pid_allowlist s') = {12}"
proof -
  have read: "read_comm (Some ''app'') = Some ''app''" "parse_whole_i32 ''12'' = Some 12"
    by (simp_all add: read_comm_def trim_newline_def get_lines.simps parse_whole_i32_def stoi_def is_space_def is_digit_def
      digits_value_def digit_value_def)
  let ?procs = "[\<lparr>lp_name = ''12'', lp_is_directory = True, lp_comm = Some ''app'', lp_tasks = None\<rparr>]"
  have "{pid. sched_process_whitelist wit_ebpf_cfg \<noteq> [] \<and> (\<exists>proc \<in> set ?procs. wanted_pid wit_ebpf_cfg proc pid)} = {12}"
    by (auto simp: wanted_pid_def process_allowed_def read wit_ebpf_cfg_def)
  then show ?thesis
    using refresh_exact [of wit_refresh ?procs wit_ebpf_cfg
        "(new_bpf_state (bpf_config_of wit_ebpf_cfg))\<lparr>bs_pid_allowlist := [77]\<rparr>" new_ebpf_impl]
    by (auto simp: wit_refresh_def)
qed

end
