(* ===== verification/Monitor_Metrics.thy ===== *)
theory Monitor_Metrics
  imports Metric_Registry Hardware_Health Dispatcher Files Ebpf_Collector
begin

text \<open>
  What the monitor records for its metrics page, \<^verbatim>\<open>src/runtime/monitor_metrics.cpp\<close>. Each operation is a list of updates of
  the registry in the order of the code. The lemmas give the page a scrape gets after any run of operations: it can
  be read back, every family stands under one heading of its kind, and which samples stay on it.
\<close>

section \<open>State and operations\<close>

record monitor_metrics =
  mm_registry :: registry
  mm_event_type_counts :: "u64 list"
  mm_event_level_counts :: "u64 list"

definition new_monitor_metrics :: monitor_metrics where
  "new_monitor_metrics = \<lparr>mm_registry = [], mm_event_type_counts = replicate 12 0, mm_event_level_counts = replicate 4 0\<rparr>"

definition apply_updates :: "(registry \<Rightarrow> registry) list \<Rightarrow> monitor_metrics \<Rightarrow> monitor_metrics" where
  "apply_updates fs m = m\<lparr>mm_registry := fold id fs (mm_registry m)\<rparr>"

fun event_type_number :: "event_type \<Rightarrow> nat" where
  "event_type_number MonitorStarted = 1"
| "event_type_number MemoryPressure = 2"
| "event_type_number MonitorOverrun = 3"
| "event_type_number QueuePressure = 4"
| "event_type_number StoragePressure = 5"
| "event_type_number CollectorFailure = 6"
| "event_type_number MonitorMemoryPressure = 7"
| "event_type_number SchedDelayRisk = 8"
| "event_type_number IoDelayRisk = 9"
| "event_type_number CpuUsageRisk = 10"
| "event_type_number WhitelistedProcessMemoryRisk = 11"

fun event_level_number :: "event_level \<Rightarrow> nat" where
  "event_level_number LevelInfo = 0"
| "event_level_number LevelRecovery = 1"
| "event_level_number LevelWarning = 2"
| "event_level_number LevelCritical = 3"

definition event_type_index :: "event_type \<Rightarrow> nat" where
  "event_type_index type = (let index = event_type_number type in if index < 12 then index else 0)"

definition event_level_index :: "event_level \<Rightarrow> nat" where
  "event_level_index level = (let index = event_level_number level in if index < 4 then index else 0)"

definition label :: "string \<Rightarrow> string \<Rightarrow> metric_label" where
  "label key value = \<lparr>ml_key = key, ml_value = value\<rparr>"

definition record_event :: "monitor_config \<Rightarrow> internal_event \<Rightarrow> monitor_metrics \<Rightarrow> monitor_metrics" where
  "record_event cfg event m =
     (let t = event_type_index (ev_event_type event); l = event_level_index (ev_level event);
          m = m\<lparr>mm_event_type_counts := (mm_event_type_counts m)[t := mm_event_type_counts m ! t + 1],
                mm_event_level_counts := (mm_event_level_counts m)[l := mm_event_level_counts m ! l + 1]\<rparr>
      in if metrics_scrape_runtime cfg then
           apply_updates
             [inc_counter ''minilisysm_events_published_total'' (Fin 1) [],
              inc_counter ''minilisysm_events_by_type_total'' (Fin 1) [label ''type'' (type_to_string (ev_event_type event))],
              inc_counter ''minilisysm_events_by_level_total'' (Fin 1) [label ''level'' (level_to_string (ev_level event))]] m
         else m)"

definition record_collector_elapsed :: "string \<Rightarrow> u64 \<Rightarrow> monitor_metrics \<Rightarrow> monitor_metrics" where
  "record_collector_elapsed collector elapsed_ms = apply_updates
     [set_gauge ''minilisysm_collector_elapsed_ms'' (double_of_u64 elapsed_ms) [label ''collector'' collector]]"

definition record_collector_overrun :: "string \<Rightarrow> monitor_metrics \<Rightarrow> monitor_metrics" where
  "record_collector_overrun collector = apply_updates
     [inc_counter ''minilisysm_collector_overruns_total'' (Fin 1) [label ''collector'' collector]]"

definition kb_to_bytes :: "u64 \<Rightarrow> double" where
  "kb_to_bytes kb = dmul (double_of_u64 kb) (Fin 1024)"

definition record_meminfo :: "monitor_config \<Rightarrow> meminfo_sample \<Rightarrow> monitor_metrics \<Rightarrow> monitor_metrics" where
  "record_meminfo cfg sample m =
     (if \<not> metrics_scrape_collectors cfg \<or> \<not> mem_valid sample then m
      else apply_updates
        [set_gauge ''minilisysm_system_memory_total_bytes'' (kb_to_bytes (mem_total_kb sample)) [],
         set_gauge ''minilisysm_system_memory_available_bytes'' (kb_to_bytes (mem_available_kb sample)) []] m)"

definition record_cpu_usage :: "monitor_config \<Rightarrow> cpu_usage_sample \<Rightarrow> monitor_metrics \<Rightarrow> monitor_metrics" where
  "record_cpu_usage cfg sample m =
     (if \<not> metrics_scrape_collectors cfg \<or> \<not> cpu_valid sample then m
      else apply_updates
        [set_gauge ''minilisysm_cpu_usage_percent'' (cpu_usage_percent sample) [label ''cpu'' (cpu_name sample)],
         set_gauge ''minilisysm_cpu_delta_total_jiffies'' (double_of_u64 (delta_total_jiffies sample))
           [label ''cpu'' (cpu_name sample)],
         set_gauge ''minilisysm_cpu_delta_idle_jiffies'' (double_of_u64 (delta_idle_jiffies sample))
           [label ''cpu'' (cpu_name sample)]] m)"

definition record_self_status :: "monitor_config \<Rightarrow> self_status_sample \<Rightarrow> monitor_metrics \<Rightarrow> monitor_metrics" where
  "record_self_status cfg sample m =
     (if \<not> metrics_scrape_collectors cfg \<or> \<not> self_valid sample then m
      else apply_updates [set_gauge ''minilisysm_monitor_rss_bytes'' (kb_to_bytes (vm_rss_kb sample)) []] m)"

text \<open>The samples of one family, from the devices whose value passes the test.\<close>

definition family_of :: "('a \<Rightarrow> bool) \<Rightarrow> ('a \<Rightarrow> double) \<Rightarrow> ('a \<Rightarrow> metric_label list) \<Rightarrow> 'a list \<Rightarrow> metric_sample list" where
  "family_of P value labels xs = map (\<lambda>x. \<lparr>ms_value = value x, ms_labels = labels x\<rparr>) (filter P xs)"

definition record_hardware_health :: "monitor_config \<Rightarrow> hardware_sample \<Rightarrow> monitor_metrics \<Rightarrow> monitor_metrics" where
  "record_hardware_health cfg sample m =
     (if \<not> metrics_scrape_collectors cfg then m
      else
        let bs = hw_batteries sample; ds = hw_storage_devices sample;
            battery = (\<lambda>b. [label ''battery'' (bh_name b)]);
            device = (\<lambda>d. [label ''device'' (dv_device d)])
        in apply_updates
          ([set_gauge_family ''minilisysm_battery_capacity_percent''
              (family_of (\<lambda>b. dle (Fin 0) (bh_capacity_percent b)) bh_capacity_percent battery bs),
            set_gauge_family ''minilisysm_battery_health_percent''
              (family_of (\<lambda>b. dle (Fin 0) (bh_health_percent b)) bh_health_percent battery bs),
            set_gauge_family ''minilisysm_battery_cycle_count''
              (family_of (\<lambda>b. 0 \<le>s bh_cycle_count b) (\<lambda>b. double_of_i64 (bh_cycle_count b)) battery bs),
            set_gauge_family ''minilisysm_battery_temperature_celsius''
              (family_of (\<lambda>b. dle (Fin 0) (bh_temperature_celsius b)) bh_temperature_celsius battery bs),
            set_gauge_family ''minilisysm_storage_lifetime_used_percent''
              (family_of (\<lambda>d. dle (Fin 0) (dv_lifetime_used_percent d)) dv_lifetime_used_percent device ds),
            set_gauge_family ''minilisysm_storage_pre_eol_info''
              (family_of (\<lambda>d. 0 \<le>s dv_pre_eol_info d) (\<lambda>d. double_of_i64 (dv_pre_eol_info d)) device ds)] @
           (if mh_valid (hw_memory sample) then
              [set_gauge ''minilisysm_memory_ecc_corrected_total'' (double_of_u64 (mh_ecc_corrected_errors (hw_memory sample))) [],
               set_gauge ''minilisysm_memory_ecc_uncorrected_total'' (double_of_u64 (mh_ecc_uncorrected_errors (hw_memory sample))) []]
            else [])) m)"

definition record_whitelisted_process_status :: "monitor_config \<Rightarrow> string \<Rightarrow> bool \<Rightarrow> monitor_metrics \<Rightarrow> monitor_metrics" where
  "record_whitelisted_process_status cfg process up m =
     (if \<not> metrics_scrape_collectors cfg then m
      else apply_updates
        [set_gauge ''minilisysm_whitelisted_process_up'' (if up then Fin 1 else Fin 0) [label ''process'' process]] m)"

definition process_labels :: "string \<Rightarrow> i32 \<Rightarrow> metric_label list" where
  "process_labels process pid = [label ''process'' process, label ''pid'' (show_sword pid)]"

definition record_whitelisted_process_sample ::
  "monitor_config \<Rightarrow> string \<Rightarrow> i32 \<Rightarrow> u64 \<Rightarrow> u64 \<Rightarrow> double \<Rightarrow> monitor_metrics \<Rightarrow> monitor_metrics" where
  "record_whitelisted_process_sample cfg process pid rss_bytes threads percent m =
     (if \<not> metrics_scrape_collectors cfg then m
      else
        let labels = process_labels process pid
        in apply_updates
          [set_gauge ''minilisysm_whitelisted_process_rss_bytes'' (double_of_u64 rss_bytes) labels,
           set_gauge ''minilisysm_whitelisted_process_threads'' (double_of_u64 threads) labels,
           set_gauge ''minilisysm_whitelisted_process_cpu_usage_percent'' percent labels] m)"

definition thread_labels :: "sched_delay_sample \<Rightarrow> metric_label list" where
  "thread_labels s = [label ''pid'' (show_sword (sd_pid s)), label ''tid'' (show_sword (sd_tid s))]"

definition record_sched_delay :: "monitor_config \<Rightarrow> sched_delay_sample list \<Rightarrow> monitor_metrics \<Rightarrow> monitor_metrics" where
  "record_sched_delay cfg samples m =
     (if \<not> metrics_scrape_collectors cfg then m
      else
        let family = (\<lambda>field. family_of sd_valid (\<lambda>s. double_of_u64 (field s)) thread_labels samples)
        in apply_updates
          [set_gauge_family ''minilisysm_sched_wait_us'' (family sd_delta_wait_sum_us),
           set_gauge_family ''minilisysm_sched_involuntary_switches'' (family sd_delta_involuntary_switches),
           set_gauge_family ''minilisysm_sched_max_wait_us'' (family sd_max_wait_us),
           set_gauge_family ''minilisysm_sched_avg_wait_us'' (family sd_avg_wait_us),
           set_gauge_family ''minilisysm_sched_aggregate_count'' (family sd_aggregate_count)] m)"

definition record_io_delay :: "monitor_config \<Rightarrow> io_delay_sample \<Rightarrow> monitor_metrics \<Rightarrow> monitor_metrics" where
  "record_io_delay cfg sample m =
     (if \<not> metrics_scrape_collectors cfg \<or> \<not> io_valid sample then m
      else apply_updates
        [set_gauge ''minilisysm_io_await_ms'' (io_avg_await_ms sample) [label ''device'' (io_device sample)],
         set_gauge ''minilisysm_io_util_percent'' (io_util_percent sample) [label ''device'' (io_device sample)],
         set_gauge ''minilisysm_io_delta_count'' (double_of_u64 (io_delta_io_count sample)) [label ''device'' (io_device sample)]] m)"

section \<open>A scrape\<close>

record scrape_input =
  sc_running :: bool
  sc_next_sequence :: u64
  sc_queues :: queue_snapshot
  sc_sink_stats :: "(string \<times> sink_stats) list"
  sc_meminfo_failures :: u64
  sc_cpu_usage_failures :: u64
  sc_self_status_failures :: u64
  sc_sched_delay_failures :: u64
  sc_io_delay_failures :: u64
  sc_sched_stats :: runtime_stats

definition queue_updates :: "queue_snapshot \<Rightarrow> (registry \<Rightarrow> registry) list" where
  "queue_updates q =
     [set_gauge ''minilisysm_queue_depth'' (double_of_u64 (qs_depth q)) [label ''queue'' ''source''],
      set_gauge ''minilisysm_queue_depth'' (double_of_u64 (qs_sink_depth q)) [label ''queue'' ''sink''],
      set_gauge ''minilisysm_queue_capacity'' (double_of_u64 (qs_capacity q)) [label ''queue'' ''source''],
      set_gauge ''minilisysm_queue_capacity'' (double_of_u64 (qs_sink_capacity q)) [label ''queue'' ''sink''],
      set_counter ''minilisysm_queue_dropped_total'' (double_of_u64 (qs_dropped_count q)) [label ''queue'' ''source''],
      set_counter ''minilisysm_queue_dropped_total'' (double_of_u64 (qs_sink_dropped_count q)) [label ''queue'' ''sink''],
      set_gauge ''minilisysm_queue_high_watermark'' (double_of_u64 (qs_high_watermark q)) [label ''queue'' ''source''],
      set_gauge ''minilisysm_queue_high_watermark'' (double_of_u64 (qs_sink_high_watermark q)) [label ''queue'' ''sink''],
      set_counter ''minilisysm_dispatcher_sink_push_failures_total'' (double_of_u64 (qs_dispatcher_sink_push_failures q)) []]"

definition sink_updates :: "string \<times> sink_stats \<Rightarrow> (registry \<Rightarrow> registry) list" where
  "sink_updates = (\<lambda>(name, st). let sink = [label ''sink'' name] in
     [set_gauge ''minilisysm_sink_queue_depth'' (double_of_u64 (ss_queue_depth st)) sink,
      set_gauge ''minilisysm_sink_queue_capacity'' (double_of_u64 (ss_queue_capacity st)) sink,
      set_counter ''minilisysm_sink_dropped_total'' (double_of_u64 (ss_dropped_events st)) sink,
      set_counter ''minilisysm_network_sent_total'' (double_of_u64 (ss_sent_events st)) sink,
      set_counter ''minilisysm_network_send_errors_total'' (double_of_u64 (ss_send_errors st)) sink,
      set_counter ''minilisysm_network_retries_total'' (double_of_u64 (ss_retry_count st)) sink,
      set_gauge ''minilisysm_network_wal_pending_events'' (double_of_u64 (ss_wal_pending_events st)) sink,
      set_gauge ''minilisysm_network_wal_bytes'' (double_of_u64 (ss_wal_bytes st)) sink,
      set_counter ''minilisysm_network_wal_overflow_dropped_total'' (double_of_u64 (ss_wal_overflow_dropped_events st)) sink])"

definition runtime_updates :: "scrape_input \<Rightarrow> (registry \<Rightarrow> registry) list" where
  "runtime_updates i =
     [set_gauge ''minilisysm_up'' (if sc_running i then Fin 1 else Fin 0) [],
      set_counter ''minilisysm_events_published_total'' (double_of_u64 (sc_next_sequence i - 1)) []] @
     queue_updates (sc_queues i) @ concat (map sink_updates (sc_sink_stats i))"

definition failure_updates :: "scrape_input \<Rightarrow> (registry \<Rightarrow> registry) list" where
  "failure_updates i =
     [set_counter ''minilisysm_collector_failures_total'' (double_of_u64 (sc_meminfo_failures i)) [label ''collector'' ''meminfo''],
      set_counter ''minilisysm_collector_failures_total'' (double_of_u64 (sc_cpu_usage_failures i)) [label ''collector'' ''cpu_usage''],
      set_counter ''minilisysm_collector_failures_total'' (double_of_u64 (sc_self_status_failures i)) [label ''collector'' ''self_status''],
      set_counter ''minilisysm_collector_failures_total'' (double_of_u64 (sc_sched_delay_failures i)) [label ''collector'' ''sched_delay''],
      set_counter ''minilisysm_collector_failures_total'' (double_of_u64 (sc_io_delay_failures i)) [label ''collector'' ''io_delay'']]"

definition ebpf_updates :: "runtime_stats \<Rightarrow> (registry \<Rightarrow> registry) list" where
  "ebpf_updates st =
     [set_counter ''minilisysm_ebpf_ringbuf_drops_total'' (double_of_u64 (rt_ringbuf_drops st)) [],
      set_counter ''minilisysm_ebpf_allowlist_exec_seen_total'' (double_of_u64 (rt_allowlist_exec_seen st)) [],
      set_counter ''minilisysm_ebpf_allowlist_exit_cleaned_total'' (double_of_u64 (rt_allowlist_exit_cleaned st)) [],
      set_counter ''minilisysm_ebpf_allowlist_stale_hits_total'' (double_of_u64 (rt_allowlist_stale_hits st)) [],
      set_counter ''minilisysm_ebpf_aggregate_drops_total'' (double_of_u64 (rt_aggregate_drops st)) [],
      set_gauge ''minilisysm_ebpf_allowlist_scanned_processes'' (double_of_u64 (rt_allowlist_scanned_processes st)) [],
      set_gauge ''minilisysm_ebpf_allowlist_matched_pids'' (double_of_u64 (rt_allowlist_matched_pids st)) [],
      set_gauge ''minilisysm_ebpf_allowlist_matched_tids'' (double_of_u64 (rt_allowlist_matched_tids st)) [],
      set_gauge ''minilisysm_ebpf_allowlist_refresh_elapsed_ms'' (double_of_u64 (rt_allowlist_refresh_elapsed_ms st)) []]"

definition render :: "monitor_config \<Rightarrow> scrape_input \<Rightarrow> monitor_metrics \<Rightarrow> monitor_metrics \<times> string" where
  "render cfg i m =
     (let m = (if metrics_scrape_runtime cfg then apply_updates (runtime_updates i) m else m);
          m = (if metrics_scrape_collectors cfg then apply_updates (failure_updates i @ ebpf_updates (sc_sched_stats i)) m else m)
      in (m, render_prometheus (mm_registry m)))"

text \<open>The operations in the order in which the threads take the mutex of the registry.\<close>

datatype metrics_call =
  RecordEvent internal_event | RecordElapsed string u64 | RecordOverrun string | RecordMeminfo meminfo_sample
  | RecordCpuUsage cpu_usage_sample | RecordSelfStatus self_status_sample | RecordHardware hardware_sample
  | RecordProcessStatus string bool | RecordProcessSample string i32 u64 u64 double
  | RecordSchedDelay "sched_delay_sample list" | RecordIoDelay io_delay_sample | Scrape scrape_input

fun metrics_step :: "monitor_config \<Rightarrow> metrics_call \<Rightarrow> monitor_metrics \<Rightarrow> monitor_metrics" where
  "metrics_step cfg (RecordEvent event) = record_event cfg event"
| "metrics_step cfg (RecordElapsed collector ms) = record_collector_elapsed collector ms"
| "metrics_step cfg (RecordOverrun collector) = record_collector_overrun collector"
| "metrics_step cfg (RecordMeminfo sample) = record_meminfo cfg sample"
| "metrics_step cfg (RecordCpuUsage sample) = record_cpu_usage cfg sample"
| "metrics_step cfg (RecordSelfStatus sample) = record_self_status cfg sample"
| "metrics_step cfg (RecordHardware sample) = record_hardware_health cfg sample"
| "metrics_step cfg (RecordProcessStatus process up) = record_whitelisted_process_status cfg process up"
| "metrics_step cfg (RecordProcessSample process pid rss threads cpu) = record_whitelisted_process_sample cfg process pid rss threads cpu"
| "metrics_step cfg (RecordSchedDelay samples) = record_sched_delay cfg samples"
| "metrics_step cfg (RecordIoDelay sample) = record_io_delay cfg sample"
| "metrics_step cfg (Scrape i) = fst \<circ> render cfg i"

definition metrics_run :: "monitor_config \<Rightarrow> metrics_call list \<Rightarrow> monitor_metrics" where
  "metrics_run cfg calls = fold (metrics_step cfg) calls new_monitor_metrics"

section \<open>The schema of the page\<close>

definition schema_table :: "(string \<times> metric_kind \<times> string list) list" where
  "schema_table =
     [(''minilisysm_events_published_total'', Counter, []), (''minilisysm_events_by_type_total'', Counter, [''type'']),
      (''minilisysm_events_by_level_total'', Counter, [''level'']), (''minilisysm_collector_elapsed_ms'', Gauge, [''collector'']),
      (''minilisysm_collector_overruns_total'', Counter, [''collector'']),
      (''minilisysm_system_memory_total_bytes'', Gauge, []), (''minilisysm_system_memory_available_bytes'', Gauge, []),
      (''minilisysm_cpu_usage_percent'', Gauge, [''cpu'']), (''minilisysm_cpu_delta_total_jiffies'', Gauge, [''cpu'']),
      (''minilisysm_cpu_delta_idle_jiffies'', Gauge, [''cpu'']), (''minilisysm_monitor_rss_bytes'', Gauge, []),
      (''minilisysm_battery_capacity_percent'', Gauge, [''battery'']), (''minilisysm_battery_health_percent'', Gauge, [''battery'']),
      (''minilisysm_battery_cycle_count'', Gauge, [''battery'']), (''minilisysm_battery_temperature_celsius'', Gauge, [''battery'']),
      (''minilisysm_storage_lifetime_used_percent'', Gauge, [''device'']), (''minilisysm_storage_pre_eol_info'', Gauge, [''device'']),
      (''minilisysm_memory_ecc_corrected_total'', Gauge, []), (''minilisysm_memory_ecc_uncorrected_total'', Gauge, []),
      (''minilisysm_whitelisted_process_up'', Gauge, [''process'']),
      (''minilisysm_whitelisted_process_rss_bytes'', Gauge, [''process'', ''pid'']),
      (''minilisysm_whitelisted_process_threads'', Gauge, [''process'', ''pid'']),
      (''minilisysm_whitelisted_process_cpu_usage_percent'', Gauge, [''process'', ''pid'']),
      (''minilisysm_sched_wait_us'', Gauge, [''pid'', ''tid'']), (''minilisysm_sched_involuntary_switches'', Gauge, [''pid'', ''tid'']),
      (''minilisysm_sched_max_wait_us'', Gauge, [''pid'', ''tid'']), (''minilisysm_sched_avg_wait_us'', Gauge, [''pid'', ''tid'']),
      (''minilisysm_sched_aggregate_count'', Gauge, [''pid'', ''tid'']), (''minilisysm_io_await_ms'', Gauge, [''device'']),
      (''minilisysm_io_util_percent'', Gauge, [''device'']), (''minilisysm_io_delta_count'', Gauge, [''device'']),
      (''minilisysm_up'', Gauge, []), (''minilisysm_queue_depth'', Gauge, [''queue'']), (''minilisysm_queue_capacity'', Gauge, [''queue'']),
      (''minilisysm_queue_dropped_total'', Counter, [''queue'']), (''minilisysm_queue_high_watermark'', Gauge, [''queue'']),
      (''minilisysm_dispatcher_sink_push_failures_total'', Counter, []), (''minilisysm_sink_queue_depth'', Gauge, [''sink'']),
      (''minilisysm_sink_queue_capacity'', Gauge, [''sink'']), (''minilisysm_sink_dropped_total'', Counter, [''sink'']),
      (''minilisysm_network_sent_total'', Counter, [''sink'']), (''minilisysm_network_send_errors_total'', Counter, [''sink'']),
      (''minilisysm_network_retries_total'', Counter, [''sink'']), (''minilisysm_network_wal_pending_events'', Gauge, [''sink'']),
      (''minilisysm_network_wal_bytes'', Gauge, [''sink'']), (''minilisysm_network_wal_overflow_dropped_total'', Counter, [''sink'']),
      (''minilisysm_collector_failures_total'', Counter, [''collector'']), (''minilisysm_ebpf_ringbuf_drops_total'', Counter, []),
      (''minilisysm_ebpf_allowlist_exec_seen_total'', Counter, []), (''minilisysm_ebpf_allowlist_exit_cleaned_total'', Counter, []),
      (''minilisysm_ebpf_allowlist_stale_hits_total'', Counter, []), (''minilisysm_ebpf_aggregate_drops_total'', Counter, []),
      (''minilisysm_ebpf_allowlist_scanned_processes'', Gauge, []), (''minilisysm_ebpf_allowlist_matched_pids'', Gauge, []),
      (''minilisysm_ebpf_allowlist_matched_tids'', Gauge, []), (''minilisysm_ebpf_allowlist_refresh_elapsed_ms'', Gauge, [])]"

definition monitor_schema :: schema where
  "monitor_schema = map_of schema_table"

lemma schema_table_ok:
  "list_all (\<lambda>(name, kind, keys). metric_name name \<and> list_all label_name keys) schema_table"
  by (simp add: schema_table_def metric_name_def label_name_def plain_text_def)

interpretation page: metric_client monitor_schema
  by unfold_locales (use schema_table_ok in \<open>auto simp: monitor_schema_def list_all_iff dest!: map_of_SomeD\<close>)

lemma label_simps [simp]: "ml_key (label key value) = key" "ml_value (label key value) = value"
  by (simp_all add: label_def)

text \<open>An update that uses the schema.\<close>

definition schema_update :: "(registry \<Rightarrow> registry) \<Rightarrow> bool" where
  "schema_update f \<longleftrightarrow> (\<forall>reg. conforms monitor_schema reg \<longrightarrow> conforms monitor_schema (f reg))"

lemma schema_gauge: "monitor_schema name = Some (Gauge, map ml_key labels) \<Longrightarrow> schema_update (set_gauge name value labels)"
  by (simp add: schema_update_def conforms_set_gauge)

lemma schema_counter:
  "monitor_schema name = Some (Counter, map ml_key labels) \<Longrightarrow>
   schema_update (set_counter name value labels) \<and> schema_update (inc_counter name value labels)"
  by (simp add: schema_update_def conforms_set_counter conforms_inc_counter)

lemma schema_family:
  "monitor_schema name = Some (Gauge, keys) \<Longrightarrow> \<forall>x. map ml_key (labels x) = keys \<Longrightarrow>
   schema_update (set_gauge_family name (family_of P value labels xs))"
  unfolding schema_update_def by (intro allI impI conforms_set_gauge_family) (auto simp: family_of_def)

lemma schema_apply:
  assumes "\<forall>f \<in> set fs. schema_update f" and "conforms monitor_schema (mm_registry m)"
  shows "conforms monitor_schema (mm_registry (apply_updates fs m))"
proof -
  have "conforms monitor_schema (fold id fs reg)" if "conforms monitor_schema reg" for reg
    using assms(1) that by (induction fs arbitrary: reg) (simp_all add: schema_update_def)
  then show ?thesis using assms(2) by (simp add: apply_updates_def)
qed

lemma schema_lookup_all: "list_all (\<lambda>(name, entry). monitor_schema name = Some entry) schema_table"
proof -
  have "distinct (map fst schema_table)" by (simp add: schema_table_def)
  then show ?thesis by (auto simp: list_all_iff monitor_schema_def)
qed

lemmas schema_lookup = schema_lookup_all [unfolded schema_table_def list.pred_inject prod.case simp_thms]

lemmas schema_facts = schema_gauge schema_counter schema_lookup

lemma queue_updates_schema: "\<forall>f \<in> set (queue_updates q). schema_update f"
  by (simp add: queue_updates_def schema_facts)

lemma sink_updates_schema: "\<forall>f \<in> set (sink_updates st). schema_update f"
  by (simp add: sink_updates_def schema_facts case_prod_beta Let_def)

lemma runtime_updates_schema: "\<forall>f \<in> set (runtime_updates i). schema_update f"
  using queue_updates_schema sink_updates_schema by (auto simp: runtime_updates_def schema_facts)

lemma failure_updates_schema: "\<forall>f \<in> set (failure_updates i). schema_update f"
  by (simp add: failure_updates_def schema_facts)

lemma ebpf_updates_schema: "\<forall>f \<in> set (ebpf_updates st). schema_update f"
  by (simp add: ebpf_updates_def schema_facts)

lemma schema_render:
  "conforms monitor_schema (mm_registry m) \<Longrightarrow> conforms monitor_schema (mm_registry (fst (render cfg i m)))"
  using runtime_updates_schema failure_updates_schema ebpf_updates_schema
  by (auto simp: render_def Let_def intro!: schema_apply)

lemma schema_step:
  assumes "conforms monitor_schema (mm_registry m)"
  shows "conforms monitor_schema (mm_registry (metrics_step cfg call m))"
proof (cases call)
  case (RecordHardware sample)
  show ?thesis
    using assms unfolding RecordHardware
    by (auto simp: record_hardware_health_def Let_def schema_lookup intro!: schema_apply schema_gauge schema_family)
next
  case (RecordSchedDelay samples)
  show ?thesis
    using assms unfolding RecordSchedDelay
    by (simp add: record_sched_delay_def Let_def)
      (intro impI schema_apply, auto intro!: schema_family simp: schema_lookup thread_labels_def)
qed (use assms in \<open>auto simp: record_event_def record_collector_elapsed_def record_collector_overrun_def record_meminfo_def
  record_cpu_usage_def record_self_status_def record_whitelisted_process_status_def record_whitelisted_process_sample_def
  process_labels_def record_io_delay_def Let_def schema_facts intro!: schema_apply schema_render\<close>)

lemma run_conforms: "conforms monitor_schema (mm_registry (metrics_run cfg calls))"
proof (induction calls rule: rev_induct)
  case (snoc call calls)
  then show ?case by (simp add: metrics_run_def schema_step)
qed (simp add: metrics_run_def new_monitor_metrics_def)

section \<open>Pages\<close>

definition page_of :: "monitor_config \<Rightarrow> metrics_call list \<Rightarrow> scrape_input \<Rightarrow> string" where
  "page_of cfg calls i = snd (render cfg i (metrics_run cfg calls))"

definition page_registry :: "monitor_config \<Rightarrow> metrics_call list \<Rightarrow> scrape_input \<Rightarrow> registry" where
  "page_registry cfg calls i = mm_registry (fst (render cfg i (metrics_run cfg calls)))"

lemma page_of_registry: "page_of cfg calls i = render_prometheus (page_registry cfg calls i)"
  by (simp add: page_of_def page_registry_def render_def Let_def)

lemma page_conforms: "conforms monitor_schema (page_registry cfg calls i)"
  using schema_render [OF run_conforms] by (simp add: page_registry_def)

lemmas page_ok = page.conforming_ok [OF page_conforms]

lemma page_samples:
  "read_page (page_of cfg calls i) =
   map (\<lambda>(key, m). Some (family_name key, mv_labels m, print_double (mv_value m))) (snapshot (page_registry cfg calls i))"
  unfolding page_of_registry by (rule page.conforming_read [OF page_conforms])

text \<open>
  Whatever was recorded before, with any process names, devices and sinks in the labels, a reader of the page gets back
  exactly the samples of the registry, in the order of their keys.
\<close>

theorem metrics_page_roundtrip:
  "read_page (page_of cfg calls i) =
   map (\<lambda>(key, m). Some (family_name key, mv_labels m, print_double (mv_value m))) (snapshot (page_registry cfg calls i))"
  by (rule page_samples)

text \<open>C16: every family of the page has exactly one type line, and only the families with samples have one.\<close>

theorem metrics_page_headings:
  "distinct (typed_families (page_of cfg calls i)) \<and>
   set (typed_families (page_of cfg calls i)) = (family_name \<circ> fst) ` set (page_registry cfg calls i)"
  unfolding page_of_registry
  by (rule page.conforming_headings [OF page_conforms])

section \<open>Looking up a sample\<close>

lemma full_update [simp]:
  "m\<lparr>mv_kind := k, mv_labels := ls, mv_value := v\<rparr> = \<lparr>mv_kind = k, mv_value = v, mv_labels = ls\<rparr>"
  "m\<lparr>mv_kind := k, mv_value := v, mv_labels := ls\<rparr> = \<lparr>mv_kind = k, mv_value = v, mv_labels = ls\<rparr>"
  by (cases m; simp)+

lemma lookup_set [simp]:
  "map_of (set_gauge name value labels reg) key =
     (if key = metric_key name labels then Some \<lparr>mv_kind = Gauge, mv_value = value, mv_labels = labels\<rparr> else map_of reg key)"
  "map_of (set_counter name value labels reg) key =
     (if key = metric_key name labels then Some \<lparr>mv_kind = Counter, mv_value = value, mv_labels = labels\<rparr> else map_of reg key)"
  by (simp_all add: set_gauge_def set_counter_def set_locked_def Let_def update_conv)

lemma lookup_inc: "key \<noteq> metric_key name labels \<Longrightarrow> map_of (inc_counter name delta labels reg) key = map_of reg key"
  by (simp add: inc_counter_def set_locked_def Let_def update_conv)

lemma in_family_key: "in_family name (metric_key name labels)"
  by (cases labels) (auto simp: in_family_def metric_key_def label_key_def)

lemma in_family_name: "metric_name name \<Longrightarrow> in_family name key \<Longrightarrow> family_name key = name"
  using family_of_prefix [of name key] family_name_plain [of name]
  by (auto simp: in_family_def metric_name_def plain_text_def)

lemma map_of_filter_key: "map_of (filter (\<lambda>(key, m). P key) reg) key = (if P key then map_of reg key else None)"
  by (induction reg) auto

lemma lookup_family:
  "map_of (set_gauge_family name samples reg) key =
     (case map_of (map (\<lambda>s. (metric_key name (ms_labels s), \<lparr>mv_kind = Gauge, mv_value = ms_value s, mv_labels = ms_labels s\<rparr>)) (rev samples)) key of
        Some m \<Rightarrow> Some m
      | None \<Rightarrow> if in_family name key then None else map_of reg key)"
proof (induction samples rule: rev_induct)
  case Nil
  show ?case by (simp add: set_gauge_family_def map_of_filter_key)
next
  case (snoc s samples)
  then show ?case by (simp add: set_gauge_family_def Let_def update_conv)
qed

text \<open>What leaves the samples of a family alone.\<close>

definition spares :: "string \<Rightarrow> (registry \<Rightarrow> registry) \<Rightarrow> bool" where
  "spares name f \<longleftrightarrow> (\<forall>reg key. family_name key = name \<longrightarrow> map_of (f reg) key = map_of reg key)"

lemma spares_set:
  assumes "metric_name n" and "name \<noteq> n"
  shows "spares name (set_gauge n v ls)" and "spares name (set_counter n v ls)" and "spares name (inc_counter n v ls)"
  using assms by (auto simp: spares_def intro!: lookup_inc)

lemma spares_family:
  assumes "metric_name n" and "name \<noteq> n"
  shows "spares name (set_gauge_family n samples)"
proof -
  have "map_of (map (\<lambda>s. (metric_key n (ms_labels s), g s)) ss) key = None"
    if "family_name key \<noteq> n" for g :: "metric_sample \<Rightarrow> metric_value" and ss key
    using that assms(1) by (auto simp: map_of_eq_None_iff)
  then show ?thesis
    using in_family_name [OF assms(1)] assms(2) by (auto simp: spares_def lookup_family)
qed

lemma spares_apply:
  assumes "\<forall>f \<in> set fs. spares name f" and "family_name key = name"
  shows "map_of (mm_registry (apply_updates fs m)) key = map_of (mm_registry m) key"
proof -
  have "map_of (fold id fs reg) key = map_of reg key" for reg
    using assms by (induction fs arbitrary: reg) (auto simp: spares_def)
  then show ?thesis by (simp add: apply_updates_def)
qed

text \<open>The families that a call writes.\<close>

definition scraped_families :: "string set" where
  "scraped_families = {''minilisysm_up'', ''minilisysm_events_published_total'', ''minilisysm_queue_depth'',
     ''minilisysm_queue_capacity'', ''minilisysm_queue_dropped_total'', ''minilisysm_queue_high_watermark'',
     ''minilisysm_dispatcher_sink_push_failures_total'', ''minilisysm_sink_queue_depth'', ''minilisysm_sink_queue_capacity'',
     ''minilisysm_sink_dropped_total'', ''minilisysm_network_sent_total'', ''minilisysm_network_send_errors_total'',
     ''minilisysm_network_retries_total'', ''minilisysm_network_wal_pending_events'', ''minilisysm_network_wal_bytes'',
     ''minilisysm_network_wal_overflow_dropped_total'', ''minilisysm_collector_failures_total'',
     ''minilisysm_ebpf_ringbuf_drops_total'', ''minilisysm_ebpf_allowlist_exec_seen_total'',
     ''minilisysm_ebpf_allowlist_exit_cleaned_total'', ''minilisysm_ebpf_allowlist_stale_hits_total'',
     ''minilisysm_ebpf_aggregate_drops_total'', ''minilisysm_ebpf_allowlist_scanned_processes'',
     ''minilisysm_ebpf_allowlist_matched_pids'', ''minilisysm_ebpf_allowlist_matched_tids'',
     ''minilisysm_ebpf_allowlist_refresh_elapsed_ms''}"

fun call_families :: "metrics_call \<Rightarrow> string set" where
  "call_families (RecordEvent event) =
     {''minilisysm_events_published_total'', ''minilisysm_events_by_type_total'', ''minilisysm_events_by_level_total''}"
| "call_families (RecordElapsed collector ms) = {''minilisysm_collector_elapsed_ms''}"
| "call_families (RecordOverrun collector) = {''minilisysm_collector_overruns_total''}"
| "call_families (RecordMeminfo sample) =
     {''minilisysm_system_memory_total_bytes'', ''minilisysm_system_memory_available_bytes''}"
| "call_families (RecordCpuUsage sample) =
     {''minilisysm_cpu_usage_percent'', ''minilisysm_cpu_delta_total_jiffies'', ''minilisysm_cpu_delta_idle_jiffies''}"
| "call_families (RecordSelfStatus sample) = {''minilisysm_monitor_rss_bytes''}"
| "call_families (RecordHardware sample) =
     {''minilisysm_battery_capacity_percent'', ''minilisysm_battery_health_percent'', ''minilisysm_battery_cycle_count'',
      ''minilisysm_battery_temperature_celsius'', ''minilisysm_storage_lifetime_used_percent'',
      ''minilisysm_storage_pre_eol_info'', ''minilisysm_memory_ecc_corrected_total'', ''minilisysm_memory_ecc_uncorrected_total''}"
| "call_families (RecordProcessStatus process up) = {''minilisysm_whitelisted_process_up''}"
| "call_families (RecordProcessSample process pid rss threads cpu) =
     {''minilisysm_whitelisted_process_rss_bytes'', ''minilisysm_whitelisted_process_threads'',
      ''minilisysm_whitelisted_process_cpu_usage_percent''}"
| "call_families (RecordSchedDelay samples) =
     {''minilisysm_sched_wait_us'', ''minilisysm_sched_involuntary_switches'', ''minilisysm_sched_max_wait_us'',
      ''minilisysm_sched_avg_wait_us'', ''minilisysm_sched_aggregate_count''}"
| "call_families (RecordIoDelay sample) =
     {''minilisysm_io_await_ms'', ''minilisysm_io_util_percent'', ''minilisysm_io_delta_count''}"
| "call_families (Scrape i) = scraped_families"

lemmas spares_facts = spares_set spares_family metric_name_def plain_text_def

lemma scrape_spares:
  assumes "name \<notin> scraped_families"
  shows "\<forall>f \<in> set (runtime_updates i). spares name f" and "\<forall>f \<in> set (failure_updates i @ ebpf_updates st). spares name f"
proof -
  have "\<forall>f \<in> set (queue_updates q). spares name f" for q
    using assms by (simp add: queue_updates_def scraped_families_def spares_facts)
  moreover have "\<forall>f \<in> set (sink_updates entry). spares name f" for entry
    using assms by (simp add: sink_updates_def scraped_families_def spares_facts Let_def case_prod_beta)
  moreover have "spares name (set_gauge ''minilisysm_up'' v [])"
      "spares name (set_counter ''minilisysm_events_published_total'' v [])" for v
    using assms by (simp_all add: scraped_families_def spares_facts)
  ultimately show "\<forall>f \<in> set (runtime_updates i). spares name f" by (auto simp: runtime_updates_def)
  have "\<forall>f \<in> set (failure_updates i). spares name f"
    using assms by (simp add: failure_updates_def scraped_families_def spares_facts)
  moreover have "\<forall>f \<in> set (ebpf_updates st). spares name f"
    using assms by (simp add: ebpf_updates_def scraped_families_def spares_facts)
  ultimately show "\<forall>f \<in> set (failure_updates i @ ebpf_updates st). spares name f" by auto
qed

lemma render_spares:
  assumes "name \<notin> scraped_families" and "family_name key = name"
  shows "map_of (mm_registry (fst (render cfg i m))) key = map_of (mm_registry m) key"
  using spares_apply [OF scrape_spares(1) [OF assms(1)] assms(2)] spares_apply [OF scrape_spares(2) [OF assms(1)] assms(2)]
  by (simp add: render_def Let_def)

lemma step_spares:
  assumes "name \<notin> call_families call" and "family_name key = name"
  shows "map_of (mm_registry (metrics_step cfg call m)) key = map_of (mm_registry m) key"
proof (cases call)
  case (Scrape i)
  then show ?thesis using assms render_spares by simp
next
  case (RecordHardware sample)
  then show ?thesis
    using assms by (auto simp: record_hardware_health_def Let_def spares_facts intro!: spares_apply)
qed (use assms in \<open>auto simp: record_event_def record_collector_elapsed_def record_collector_overrun_def record_meminfo_def
  record_cpu_usage_def record_self_status_def record_whitelisted_process_status_def record_whitelisted_process_sample_def
  record_sched_delay_def record_io_delay_def Let_def spares_facts intro!: spares_apply [THEN trans]\<close>)

section \<open>What stands on a page\<close>

lemma on_page:
  assumes "metric_name name"
  shows "Some (name, ls, v) \<in> set (read_page (page_of cfg calls i)) \<longleftrightarrow>
    (\<exists>m. map_of (page_registry cfg calls i) (metric_key name ls) = Some m \<and> mv_labels m = ls \<and> v = print_double (mv_value m))"
proof -
  let ?reg = "page_registry cfg calls i"
  have "distinct (map fst ?reg)" using page_conforms by (simp add: conforms_def)
  then have lookup: "(key, m) \<in> set ?reg \<longleftrightarrow> map_of ?reg key = Some m" for key m by (simp add: map_of_eq_Some_iff)
  have "Some (name, ls, v) \<in> set (read_page (page_of cfg calls i)) \<longleftrightarrow>
      (\<exists>key m. (key, m) \<in> set ?reg \<and> family_name key = name \<and> mv_labels m = ls \<and> v = print_double (mv_value m))"
    unfolding page_of_registry read_rendered [OF page_ok] by force
  also have "\<dots> \<longleftrightarrow> (\<exists>m. (metric_key name ls, m) \<in> set ?reg \<and> mv_labels m = ls \<and> v = print_double (mv_value m))"
  proof
    assume "\<exists>key m. (key, m) \<in> set ?reg \<and> family_name key = name \<and> mv_labels m = ls \<and> v = print_double (mv_value m)"
    then obtain key m where m: "(key, m) \<in> set ?reg" "family_name key = name" "mv_labels m = ls" "v = print_double (mv_value m)"
      by blast
    have key: "key = metric_key name ls" using page.conforming_family(2) [OF page_conforms m(1)] m(2,3) by simp
    show "\<exists>m. (metric_key name ls, m) \<in> set ?reg \<and> mv_labels m = ls \<and> v = print_double (mv_value m)"
      using m(1,3,4) unfolding key by blast
  qed (use family_name_key [OF assms] in blast)
  finally show ?thesis by (simp add: lookup)
qed

lemma metrics_run_append: "metrics_run cfg (calls @ later) = fold (metrics_step cfg) later (metrics_run cfg calls)"
  by (simp add: metrics_run_def)

lemma later_spares:
  assumes "\<forall>call \<in> set later. name \<notin> call_families call" and "name \<notin> scraped_families" and "family_name key = name"
  shows "map_of (page_registry cfg (calls @ later) i) key = map_of (mm_registry (metrics_run cfg calls)) key"
proof -
  have "map_of (mm_registry (fold (metrics_step cfg) later m)) key = map_of (mm_registry m) key" for m
    using assms(1) by (induction later arbitrary: m) (simp_all add: step_spares [OF _ assms(3)])
  then show ?thesis by (simp add: page_registry_def render_spares [OF assms(2,3)] metrics_run_append)
qed

text \<open>A family that was just written as a whole.\<close>

lemma family_lookup_iff:
  assumes "\<forall>s \<in> set samples. \<forall>ls. metric_key name (ms_labels s) = metric_key name ls \<longrightarrow> ls \<in> known \<longrightarrow> ms_labels s = ls"
    and "ms_labels ` set samples \<subseteq> known"
  shows "(\<exists>m. map_of (set_gauge_family name samples reg) (metric_key name ls) = Some m \<and> mv_labels m = ls) \<longleftrightarrow>
    ls \<in> ms_labels ` set samples"
proof -
  define entry where "entry = (\<lambda>s :: metric_sample. (metric_key name (ms_labels s), \<lparr>mv_kind = Gauge, mv_value = ms_value s, mv_labels = ms_labels s\<rparr>))"
  have lookup: "map_of (set_gauge_family name samples reg) (metric_key name ls) = map_of (map entry (rev samples)) (metric_key name ls)"
    by (simp add: lookup_family in_family_key entry_def split: option.split)
  show ?thesis
  proof
    assume "\<exists>m. map_of (set_gauge_family name samples reg) (metric_key name ls) = Some m \<and> mv_labels m = ls"
    then obtain m where m: "map_of (map entry (rev samples)) (metric_key name ls) = Some m" "mv_labels m = ls"
      unfolding lookup by blast
    then show "ls \<in> ms_labels ` set samples" using map_of_SomeD [OF m(1)] by (auto simp: entry_def)
  next
    assume ls: "ls \<in> ms_labels ` set samples"
    then have "map_of (map entry (rev samples)) (metric_key name ls) \<noteq> None" by (auto simp: map_of_eq_None_iff entry_def image_iff)
    then obtain m where m: "map_of (map entry (rev samples)) (metric_key name ls) = Some m" by blast
    then obtain s where s: "s \<in> set samples" "entry s = (metric_key name ls, m)" using map_of_SomeD [OF m] by auto
    have "ms_labels s = ls" using assms ls s by (auto simp: entry_def)
    then show "\<exists>m. map_of (set_gauge_family name samples reg) (metric_key name ls) = Some m \<and> mv_labels m = ls"
      using m s(2) unfolding lookup by (auto simp: entry_def)
  qed
qed

lemma bar_split: "CHR ''|'' \<notin> set a \<Longrightarrow> CHR ''|'' \<notin> set b \<Longrightarrow> a @ CHR ''|'' # r = b @ CHR ''|'' # r' \<Longrightarrow> a = b \<and> r = r'"
proof -
  assume a: "CHR ''|'' \<notin> set a" and b: "CHR ''|'' \<notin> set b" and eq: "a @ CHR ''|'' # r = b @ CHR ''|'' # r'"
  have "takeWhile (\<lambda>c. c \<noteq> CHR ''|'') (a @ CHR ''|'' # r) = a" using a by (auto simp: takeWhile_append takeWhile_eq_all_conv)
  moreover have "takeWhile (\<lambda>c. c \<noteq> CHR ''|'') (b @ CHR ''|'' # r') = b" using b by (auto simp: takeWhile_append takeWhile_eq_all_conv)
  ultimately have "a = b" using eq by simp
  then show "a = b \<and> r = r'" using eq by simp
qed

lemma show_sword_no_bar: "CHR ''|'' \<notin> set (show_sword w)"
  using show_nat_digits [of "CHR ''|''"] by (auto simp: show_sword_def show_int_def is_digit_def)

lemma show_nat_inject [simp]: "show_nat a = show_nat b \<longleftrightarrow> a = b"
  by (metis digits_value_show_nat)

lemma show_sword_inject [simp]: "show_sword v = show_sword w \<longleftrightarrow> v = w"
proof -
  have "CHR ''-'' \<notin> set (show_nat n)" for n using show_nat_digits [of "CHR ''-''" n] by (auto simp: is_digit_def)
  then have "CHR ''-'' # s \<noteq> show_nat n" for s n by (metis list.set_intros(1))
  then have "show_int a = show_int b \<longleftrightarrow> a = b" for a b by (auto simp: show_int_def) (metis)+
  then show ?thesis by (auto simp: show_sword_def intro: signed_word_eqI)
qed

lemma process_key_inject:
  "metric_key name (process_labels p a) = metric_key name (process_labels q b) \<longleftrightarrow> p = q \<and> a = b"
proof
  assume "metric_key name (process_labels p a) = metric_key name (process_labels q b)"
  then have "p @ CHR ''|'' # ''pid='' @ show_sword a = q @ CHR ''|'' # ''pid='' @ show_sword b"
    by (simp add: metric_key_def label_key_def process_labels_def)
  moreover have "CHR ''|'' \<notin> set (''pid='' @ show_sword w)" for w :: i32 using show_sword_no_bar by simp
  ultimately have "(p, ''pid='' @ show_sword a) = (q, ''pid='' @ show_sword b)" by (metis split_last_append option.inject)
  then show "p = q \<and> a = b" by simp
qed simp

lemma thread_key_inject: "metric_key name (thread_labels s) = metric_key name (thread_labels s') \<Longrightarrow> thread_labels s = thread_labels s'"
proof -
  assume "metric_key name (thread_labels s) = metric_key name (thread_labels s')"
  then have "show_sword (sd_pid s) @ CHR ''|'' # ''tid='' @ show_sword (sd_tid s) =
      show_sword (sd_pid s') @ CHR ''|'' # ''tid='' @ show_sword (sd_tid s')"
    by (simp add: metric_key_def label_key_def thread_labels_def)
  then have "show_sword (sd_pid s) = show_sword (sd_pid s') \<and> ''tid='' @ show_sword (sd_tid s) = ''tid='' @ show_sword (sd_tid s')"
    by (rule bar_split [OF show_sword_no_bar show_sword_no_bar])
  then show ?thesis by (simp add: thread_labels_def del: show_sword_inject)
qed

lemma apply_in:
  assumes "\<forall>f \<in> set after. spares name f" and "family_name key = name"
  shows "map_of (mm_registry (apply_updates (before @ f # after) m)) key = map_of (f (mm_registry (apply_updates before m))) key"
  using spares_apply [OF assms, of "apply_updates (before @ [f]) m"] by (simp add: apply_updates_def)

lemma page_names:
  "metric_name ''minilisysm_sched_wait_us''" "metric_name ''minilisysm_whitelisted_process_rss_bytes''"
  "metric_name ''minilisysm_whitelisted_process_up''" "metric_name ''minilisysm_battery_temperature_celsius''"
  "metric_name ''minilisysm_events_published_total''"
  by (simp_all add: metric_name_def plain_text_def)

lemma key_other: "metric_name a \<Longrightarrow> metric_name b \<Longrightarrow> a \<noteq> b \<Longrightarrow> metric_key a ls \<noteq> metric_key b ls'"
  by (metis family_name_key)

lemma process_sample_lookup:
  "map_of (mm_registry (record_whitelisted_process_sample cfg p a rss threads cpu m))
     (metric_key ''minilisysm_whitelisted_process_rss_bytes'' (process_labels q b)) =
   (if metrics_scrape_collectors cfg \<and> p = q \<and> a = b
    then Some \<lparr>mv_kind = Gauge, mv_value = double_of_u64 rss, mv_labels = process_labels q b\<rparr>
    else map_of (mm_registry m) (metric_key ''minilisysm_whitelisted_process_rss_bytes'' (process_labels q b)))"
proof -
  have names: "metric_name ''minilisysm_whitelisted_process_threads''" "metric_name ''minilisysm_whitelisted_process_cpu_usage_percent''"
    by (simp_all add: metric_name_def plain_text_def)
  show ?thesis
    by (auto simp: record_whitelisted_process_sample_def Let_def apply_updates_def process_key_inject key_other page_names(2) names)
qed



text \<open>
  A round first reports every process of the whitelist as down and then, after the scan of the process table, the running ones as
  up again: a scrape in between shows 0 for a process that runs.
\<close>

theorem running_process_shown_down:
  assumes "metrics_scrape_collectors cfg" and "process \<in> set whitelist"
  shows "Some (''minilisysm_whitelisted_process_up'', [label ''process'' process], ''0'')
    \<in> set (read_page (page_of cfg (calls @ map (\<lambda>name. RecordProcessStatus name False) whitelist) i))"
proof -
  let ?name = "''minilisysm_whitelisted_process_up''"
  let ?key = "metric_key ?name [label ''process'' process]"
  define down where "down = \<lparr>mv_kind = Gauge, mv_value = Fin 0, mv_labels = [label ''process'' process]\<rparr>"
  have key: "family_name ?key = ?name" by (rule family_name_key [OF page_names(3)])
  have step: "map_of (mm_registry (record_whitelisted_process_status cfg name False m)) ?key =
      (if name = process then Some down else map_of (mm_registry m) ?key)" for name m
    using assms(1)
    by (auto simp: record_whitelisted_process_status_def apply_updates_def metric_key_def label_key_def down_def)
  have "map_of (mm_registry (fold (metrics_step cfg) (map (\<lambda>name. RecordProcessStatus name False) names) m)) ?key =
      (if process \<in> set names then Some down else map_of (mm_registry m) ?key)" for names m
    by (induction names arbitrary: m) (auto simp: step)
  then have "map_of (page_registry cfg (calls @ map (\<lambda>name. RecordProcessStatus name False) whitelist) i) ?key = Some down"
    using key assms(2) by (simp add: page_registry_def render_spares [OF _ key] scraped_families_def metrics_run_append)
  moreover have "print_double (Fin 0) = ''0''" by (simp add: print_double_def)
  ultimately show ?thesis unfolding on_page [OF page_names(3)] by (simp add: down_def)
qed

text \<open>
  After a round of the hardware collector the page shows the temperature of exactly the batteries that are at zero degrees
  or above: a battery below freezing has no temperature on the page.
\<close>

theorem battery_temperatures_on_page:
  assumes "metrics_scrape_collectors cfg"
  shows "(\<exists>v. Some (''minilisysm_battery_temperature_celsius'', ls, v) \<in> set (read_page (page_of cfg (calls @ [RecordHardware sample]) i)))
    \<longleftrightarrow> ls \<in> (\<lambda>b. [label ''battery'' (bh_name b)]) ` {b \<in> set (hw_batteries sample). dle (Fin 0) (bh_temperature_celsius b)}"
proof -
  let ?name = "''minilisysm_battery_temperature_celsius''"
  define key where "key = metric_key ?name ls"
  define run where "run = metrics_run cfg calls"
  have key: "family_name key = ?name" using page_names(4) by (simp add: key_def)
  define temps where "temps = family_of (\<lambda>b. dle (Fin 0) (bh_temperature_celsius b)) bh_temperature_celsius
    (\<lambda>b. [label ''battery'' (bh_name b)]) (hw_batteries sample)"
  obtain reg where "map_of (mm_registry (record_hardware_health cfg sample run)) key = map_of (set_gauge_family ?name temps reg) key"
  proof -
    have "map_of (mm_registry (apply_updates (before @ set_gauge_family ?name temps # after) run)) key =
        map_of (set_gauge_family ?name temps (mm_registry (apply_updates before run))) key"
      if "\<forall>f \<in> set after. spares ?name f" for before after
      using that key by (rule apply_in)
    then show ?thesis
      using that assms key apply_in [of _ ?name key "[_, _, _]"]
      by (auto simp: record_hardware_health_def Let_def temps_def spares_facts)
  qed
  then have lookup: "map_of (page_registry cfg (calls @ [RecordHardware sample]) i) key = map_of (set_gauge_family ?name temps reg) key"
    using key by (simp add: page_registry_def render_spares [OF _ key] scraped_families_def metrics_run_append run_def)
  have labels: "ms_labels ` set temps = (\<lambda>b. [label ''battery'' (bh_name b)]) `
      {b \<in> set (hw_batteries sample). dle (Fin 0) (bh_temperature_celsius b)}"
    by (auto simp: temps_def family_of_def image_iff)
  have "(\<exists>m. map_of (set_gauge_family ?name temps reg) key = Some m \<and> mv_labels m = ls) \<longleftrightarrow> ls \<in> ms_labels ` set temps"
    unfolding key_def
    by (intro family_lookup_iff [where known = "range (\<lambda>name. [label ''battery'' name])"])
      (auto simp: labels temps_def family_of_def metric_key_def label_key_def)
  then show ?thesis
    unfolding on_page [OF page_names(4)] key_def [symmetric] lookup labels by auto
qed

lemma published_on_page:
  assumes "metrics_scrape_runtime cfg" and "unat (sc_next_sequence i - 1) < 10 ^ 12"
  shows "Some (''minilisysm_events_published_total'', [], show_word (sc_next_sequence i - 1)) \<in> set (read_page (page_of cfg calls i))"
proof -
  let ?name = "''minilisysm_events_published_total''"
  define count where "count = \<lparr>mv_kind = Counter, mv_value = double_of_u64 (sc_next_sequence i - 1), mv_labels = []\<rparr>"
  have key: "family_name ?name = ?name" and self: "metric_key ?name [] = ?name"
    using family_name_plain [OF page_names(5)] by (simp_all add: metric_key_def)
  have queue: "\<forall>f \<in> set (queue_updates q). spares ?name f" for q by (simp add: queue_updates_def spares_facts)
  have sink: "\<forall>f \<in> set (sink_updates st). spares ?name f" for st
    by (simp add: sink_updates_def spares_facts Let_def case_prod_beta)
  have rest: "\<forall>f \<in> set (failure_updates i @ ebpf_updates (sc_sched_stats i)). spares ?name f"
    by (simp add: failure_updates_def ebpf_updates_def spares_facts)
  have "\<forall>f \<in> set (queue_updates (sc_queues i) @ concat (map sink_updates (sc_sink_stats i))). spares ?name f"
    using queue sink by auto
  then have "map_of (mm_registry (apply_updates (runtime_updates i) m)) ?name = Some count" for m
    using apply_in [OF _ key, of _ "[_]"] self by (simp add: runtime_updates_def count_def)
  then have "map_of (page_registry cfg calls i) ?name = Some count"
    using assms(1) spares_apply [OF rest key] by (simp add: page_registry_def render_def Let_def)
  then show ?thesis unfolding on_page [OF page_names(5)] self using print_double_u64 [OF assms(2)] by (simp add: count_def)
qed

text \<open>
  The number of published events on a page is the number of sequence numbers handed out, digit for digit while it is below
  \<open>10 ^ 12\<close>; from there on the twelve digits of the stream round it.
\<close>

theorem page_published_exact:
  assumes "metrics_scrape_runtime cfg" and "unat (sc_next_sequence i - 1) < 10 ^ 12"
  shows "Some (''minilisysm_events_published_total'', [], show_word (sc_next_sequence i - 1)) \<in> set (read_page (page_of cfg calls i))"
  using assms by (rule published_on_page)

section \<open>Examples\<close>

definition wit_queues :: queue_snapshot where
  "wit_queues = \<lparr>qs_push_fail_count = 0, qs_dropped_count = 0, qs_dropped_critical_count = 0,
     qs_reserve_reject_count = 0, qs_dispatcher_sink_push_failures = 0, qs_sink_dropped_count = 0,
     qs_sink_dropped_critical_count = 0, qs_sink_reserve_reject_count = 0, qs_depth = 1, qs_capacity = 8,
     qs_high_watermark = 2, qs_sink_depth = 0, qs_sink_capacity = 8, qs_sink_high_watermark = 1\<rparr>"

definition wit_scrape :: scrape_input where
  "wit_scrape = \<lparr>sc_running = True, sc_next_sequence = 42, sc_queues = wit_queues, sc_sink_stats = [], sc_meminfo_failures = 0,
     sc_cpu_usage_failures = 0, sc_self_status_failures = 0, sc_sched_delay_failures = 0, sc_io_delay_failures = 0,
     sc_sched_stats = no_runtime_stats\<rparr>"

definition wit_metrics_config :: monitor_config where
  "wit_metrics_config = default_config\<lparr>metrics_scrape_runtime := True, metrics_scrape_collectors := True\<rparr>"

definition wit_thread :: sched_delay_sample where
  "wit_thread = \<lparr>sd_pid = 7, sd_tid = 8, sd_delta_wait_sum_us = 500, sd_delta_involuntary_switches = 1, sd_max_wait_us = 0,
     sd_avg_wait_us = 0, sd_aggregate_count = 0, sd_valid = True\<rparr>"

lemma wit_scrapes [simp]: "metrics_scrape_runtime wit_metrics_config" "metrics_scrape_collectors wit_metrics_config"
  by (simp_all add: wit_metrics_config_def)

theorem page_published_exact_witness:
  "Some (''minilisysm_events_published_total'', [], ''41'') \<in> set (read_page (page_of wit_metrics_config [] wit_scrape))"
proof -
  have "show_word (41 :: u64) = ''41''" by code_simp
  then show ?thesis using page_published_exact [of wit_metrics_config wit_scrape "[]"] by (simp add: wit_scrape_def)
qed



theorem running_process_shown_down_witness:
  "Some (''minilisysm_whitelisted_process_up'', [label ''process'' ''nginx''], ''0'') \<in>
     set (read_page (page_of wit_metrics_config [RecordProcessStatus ''nginx'' True, RecordProcessStatus ''nginx'' False] wit_scrape))"
  using running_process_shown_down [of wit_metrics_config "''nginx''" "[''nginx'']" "[RecordProcessStatus ''nginx'' True]" wit_scrape]
  by simp

definition wit_battery :: battery_sample where
  "wit_battery = empty_battery\<lparr>bh_name := ''BAT0'', bh_temperature_celsius := Fin (- 5), bh_valid := True\<rparr>"

theorem battery_temperatures_on_page_witness:
  "\<nexists>v. Some (''minilisysm_battery_temperature_celsius'', [label ''battery'' ''BAT0''], v) \<in>
     set (read_page (page_of wit_metrics_config [RecordHardware \<lparr>hw_batteries = [wit_battery], hw_storage_devices = [],
       hw_memory = \<lparr>mh_valid = False, mh_ecc_corrected_errors = 0, mh_ecc_uncorrected_errors = 0\<rparr>\<rparr>] wit_scrape))"
  using battery_temperatures_on_page [of wit_metrics_config "[label ''battery'' ''BAT0'']" "[]" _ wit_scrape]
  by (auto simp: wit_battery_def)

end
