(* ===== verification/Monitor_Pages.thy ===== *)
theory Monitor_Pages
  imports Monitor Monitor_Metrics
begin

text \<open>
  What the rounds of \<^verbatim>\<open>src/runtime/monitor.cpp\<close> record for the metrics page, as the calls they make on the metrics in their
  order, beside the events that \<open>Monitor\<close> models, and what a scrape reads from the monitor. The lemmas give the state of the
  listed processes on the page after a round and the numbers of the queues as counts of what happened to the events.
\<close>

section \<open>The calls of a round\<close>

fun process_sample_calls ::
  "monitor_config \<Rightarrow> int \<Rightarrow> int \<Rightarrow> (process_sample \<times> u64 \<times> u64) list \<Rightarrow> process_tracker \<times> rule_engine \<Rightarrow> metrics_call list" where
  "process_sample_calls cfg clock_ticks now_ns [] te = []"
| "process_sample_calls cfg clock_ticks now_ns ((sample, clock) # rest) te =
     (case record_process cfg clock_ticks now_ns clock sample te of
        (te, percent, event) \<Rightarrow>
          [RecordProcessStatus (ps_name sample) True,
           RecordProcessSample (ps_name sample) (ps_pid sample) (ps_rss_bytes sample) (ps_threads sample) percent] @
          process_sample_calls cfg clock_ticks now_ns rest te)"

definition process_calls :: "monitor_config \<Rightarrow> process_round \<Rightarrow> process_tracker \<times> rule_engine \<Rightarrow> metrics_call list" where
  "process_calls cfg r te =
     (if sched_process_whitelist cfg = [] \<or> (\<not> metrics_scrape_collectors cfg \<and> \<not> process_memory_enable cfg) then []
      else map (\<lambda>name. RecordProcessStatus name False) (sched_process_whitelist cfg) @
        process_sample_calls cfg (pr_clock_ticks r) (pr_now_ns r)
          (map (\<lambda>s. (s, pr_clock r (ps_pid s))) (sc_samples (scan_whitelisted_processes (sched_process_whitelist cfg) (pr_directory r)))) te)"

definition elapsed_calls :: "monitor_config \<Rightarrow> string \<Rightarrow> u64 \<Rightarrow> metrics_call list" where
  "elapsed_calls cfg collector elapsed_ms =
     RecordElapsed collector elapsed_ms #
     (if ucast (sched_collector_overrun_warning_ms cfg) < elapsed_ms then [RecordOverrun collector] else [])"

definition fast_round_calls :: "monitor_config \<Rightarrow> fast_input \<Rightarrow> fast_thread \<Rightarrow> metrics_call list" where
  "fast_round_calls cfg i t =
     (let meminfo = snd (meminfo_collect (fi_meminfo i) (ft_meminfo_open t));
          status = snd (self_status_collect (fi_self_status i) (ft_self_status_open t))
      in (if mem_valid meminfo then [RecordMeminfo meminfo] else []) @
         map RecordCpuUsage (snd (cpu_collect cfg (fi_cpu i) (ft_cpu t))) @
         (if self_valid status then [RecordSelfStatus status] else []) @
         process_calls cfg (fi_processes i) (ft_processes t, ft_rules t) @
         elapsed_calls cfg ''fast'' (fi_elapsed_ms i))"

text \<open>The hardware collector runs in every round of the other thread; its exception would end the thread.\<close>

definition sched_round_calls :: "monitor_config \<Rightarrow> sched_input \<Rightarrow> hardware_sample \<Rightarrow> sched_thread \<Rightarrow> metrics_call list" where
  "sched_round_calls cfg i hardware t =
     RecordSchedDelay (si_samples i) #
     map RecordIoDelay (snd (io_collect cfg (si_io_stamp_ms i) (si_io i) (st_io t))) @
     [RecordHardware hardware] @ elapsed_calls cfg ''sched'' (si_elapsed_ms i)"

text \<open>A publication is recorded when the queue has taken the event.\<close>

definition publish_calls :: "source \<Rightarrow> time_stamp \<Rightarrow> internal_event \<Rightarrow> shared_state \<Rightarrow> metrics_call list" where
  "publish_calls source ts event s =
     (if snd (publish_event source ts event s) then [RecordEvent (stamp_event (sh_next_sequence s) ts event)] else [])"

section \<open>Listed processes on the page\<close>

fun statuses :: "string \<Rightarrow> metrics_call list \<Rightarrow> bool list" where
  "statuses process [] = []"
| "statuses process (RecordProcessStatus p up # calls) = (if p = process then [up] else []) @ statuses process calls"
| "statuses process (_ # calls) = statuses process calls"

lemma statuses_append [simp]: "statuses process (a @ b) = statuses process a @ statuses process b"
  by (induction process a rule: statuses.induct) simp_all

definition up_entry :: "string \<Rightarrow> bool \<Rightarrow> metric_value" where
  "up_entry process up = \<lparr>mv_kind = Gauge, mv_value = (if up then Fin 1 else Fin 0), mv_labels = [label ''process'' process]\<rparr>"

lemma status_lookup:
  assumes "metrics_scrape_collectors cfg"
  shows "map_of (mm_registry (fold (metrics_step cfg) calls m)) (metric_key ''minilisysm_whitelisted_process_up'' [label ''process'' process]) =
    (if statuses process calls = [] then
       map_of (mm_registry m) (metric_key ''minilisysm_whitelisted_process_up'' [label ''process'' process])
     else Some (up_entry process (last (statuses process calls))))"
proof (induction calls arbitrary: m)
  case (Cons call calls)
  let ?name = "''minilisysm_whitelisted_process_up''"
  let ?key = "metric_key ?name [label ''process'' process]"
  have key: "family_name ?key = ?name" by (rule family_name_key [OF page_names(3)])
  show ?case
  proof (cases "\<exists>p up. call = RecordProcessStatus p up")
    case True
    then obtain p up where call: "call = RecordProcessStatus p up" by blast
    have "map_of (mm_registry (metrics_step cfg call m)) ?key = (if p = process then Some (up_entry process up) else map_of (mm_registry m) ?key)"
      using assms by (auto simp: call record_whitelisted_process_status_def apply_updates_def metric_key_def label_key_def up_entry_def)
    then show ?thesis using Cons by (auto simp: call)
  next
    case False
    then have "?name \<notin> call_families call" by (cases call) (auto simp: scraped_families_def)
    moreover have "statuses process (call # calls) = statuses process calls" using False by (cases call) auto
    ultimately show ?thesis using Cons by (simp add: step_spares [OF _ key])
  qed
qed simp

lemma statuses_false: "statuses process (map (\<lambda>name. RecordProcessStatus name False) names) = replicate (count_list names process) False"
  by (induction names) auto

lemma statuses_samples:
  "statuses process (process_sample_calls cfg ticks now samples te) =
   map (\<lambda>_. True) (filter (\<lambda>(s, clock). ps_name s = process) samples)"
proof (induction samples arbitrary: te)
  case (Cons a samples)
  obtain s clock where a: "a = (s, clock)" by (cases a)
  obtain te' percent event where "record_process cfg ticks now clock s te = (te', percent, event)" by (metis prod.exhaust)
  then show ?case using Cons by (simp add: a)
qed simp

lemma statuses_others:
  "statuses process (map RecordCpuUsage cpus) = []" "statuses process (elapsed_calls cfg collector ms) = []"
proof -
  show "statuses process (map RecordCpuUsage cpus) = []" by (induction cpus) simp_all
qed (simp add: elapsed_calls_def)

text \<open>
  C19: after a round of the fast thread the page tells for every process of the list whether the scan of the round
  found it running, whatever the page said before.
\<close>

theorem process_state_after_round:
  assumes "metrics_scrape_collectors cfg" and "process \<in> set (sched_process_whitelist cfg)"
  shows "Some (''minilisysm_whitelisted_process_up'', [label ''process'' process],
      if \<exists>s \<in> set (sc_samples (scan_whitelisted_processes (sched_process_whitelist cfg) (pr_directory (fi_processes inp)))). ps_name s = process
      then ''1'' else ''0'')
    \<in> set (read_page (page_of cfg (calls @ fast_round_calls cfg inp t) i))"
proof -
  let ?name = "''minilisysm_whitelisted_process_up''"
  let ?key = "metric_key ?name [label ''process'' process]"
  define samples where "samples = sc_samples (scan_whitelisted_processes (sched_process_whitelist cfg) (pr_directory (fi_processes inp)))"
  define found where "found = (\<exists>s \<in> set samples. ps_name s = process)"
  have key: "family_name ?key = ?name" by (rule family_name_key [OF page_names(3)])
  obtain n where n: "count_list (sched_process_whitelist cfg) process = Suc n"
    using assms(2) count_list_0_iff [of "sched_process_whitelist cfg" process] by (cases "count_list (sched_process_whitelist cfg) process") auto
  have "sched_process_whitelist cfg \<noteq> []" using assms(2) by auto
  then have statuses: "statuses process (fast_round_calls cfg inp t) =
      replicate (Suc n) False @ map (\<lambda>_. True) (filter (\<lambda>s. ps_name s = process) samples)"
    using assms(1)
    by (simp add: fast_round_calls_def Let_def process_calls_def statuses_false statuses_samples statuses_others n samples_def
      filter_map comp_def del: replicate_Suc)
  have "last (statuses process (fast_round_calls cfg inp t)) = found"
    unfolding statuses found_def by (auto simp: last_append last_map filter_empty_conv)
  then have "map_of (page_registry cfg (calls @ fast_round_calls cfg inp t) i) ?key = Some (up_entry process found)"
    using key statuses by (simp add: page_registry_def render_spares [OF _ key] scraped_families_def metrics_run_append status_lookup [OF assms(1)])
  moreover have "print_double (Fin 0) = ''0''" by (simp add: print_double_def)
  moreover have "show_nat 1 = ''1''" by code_simp
  then have "print_double (Fin 1) = ''1''" using print_double_whole [of 1] by simp
  ultimately show ?thesis
    unfolding on_page [OF page_names(3)] samples_def [symmetric] found_def [symmetric] by (simp add: up_entry_def)
qed

text \<open>
  An event the queue refuses is not recorded among the events of its type, but the next page counts it as published: the count is
  taken from the sequence number.
\<close>

theorem refused_event_counted:
  assumes "metrics_scrape_runtime cfg" and "\<not> snd (publish_event source ts event s)"
    and "sc_next_sequence i = sh_next_sequence (fst (publish_event source ts event s))" and "unat (sh_next_sequence s) < 10 ^ 12"
  shows "publish_calls source ts event s = [] \<and>
    Some (''minilisysm_events_published_total'', [], show_word (sh_next_sequence s)) \<in>
      set (read_page (page_of cfg (calls @ publish_calls source ts event s) i))"
proof -
  have "sh_next_sequence (fst (publish_event source ts event s)) = sh_next_sequence s + 1"
    by (simp add: publish_event_def Let_def case_prod_beta)
  then have "sc_next_sequence i - 1 = sh_next_sequence s" using assms(3) by simp
  then show ?thesis using assms(1,2,4) published_on_page [of cfg i calls] by (simp add: publish_calls_def)
qed

section \<open>Examples\<close>

definition wit_fast_input :: "process_dir list \<Rightarrow> fast_input" where
  "wit_fast_input entries = \<lparr>
     fi_meminfo = \<lparr>pa_open = False, pa_seek = False, pa_reopen = False, pa_content = None\<rparr>, fi_meminfo_ms = 5,
     fi_cpu = \<lparr>rd_file = None, rd_now_ms = 5, rd_order = id\<rparr>, fi_cpu_ms = (\<lambda>_. (5, 5)), fi_cpu_failure_ms = 5,
     fi_self_status = \<lparr>pa_open = False, pa_seek = False, pa_reopen = False, pa_content = None\<rparr>, fi_self_status_ms = 5,
     fi_processes = \<lparr>pr_directory = (entries, False), pr_clock_ticks = 100, pr_now_ns = 5, pr_clock = (\<lambda>_. (5, 5))\<rparr>,
     fi_snapshot = wit_queues, fi_queue_ms = 5, fi_elapsed_ms = 1\<rparr>"

theorem process_state_after_round_witness:
  "Some (''minilisysm_whitelisted_process_up'', [label ''process'' ''nginx''], ''0'') \<in>
     set (read_page (page_of (wit_metrics_config\<lparr>sched_process_whitelist := [''nginx'']\<rparr>)
       ([RecordProcessStatus ''nginx'' True] @
        fast_round_calls (wit_metrics_config\<lparr>sched_process_whitelist := [''nginx'']\<rparr>) (wit_fast_input [])
          (new_fast_thread wit_metrics_config)) wit_scrape))"
  using process_state_after_round [of "wit_metrics_config\<lparr>sched_process_whitelist := [''nginx'']\<rparr>" "''nginx''" "wit_fast_input []"
      "[RecordProcessStatus ''nginx'' True]" "new_fast_thread wit_metrics_config" wit_scrape]
  by (simp add: wit_fast_input_def scan_whitelisted_processes_def)

definition wit_full_state :: shared_state where
  "wit_full_state = \<lparr>sh_next_sequence = 41, sh_queue = (\<lambda>_. new_ring default_event 0 0 False False)\<rparr>"

theorem refused_event_counted_witness:
  "publish_calls FastQueue \<lparr>ts_realtime_ms = 1, ts_monotonic_ms = 1, ts_boottime_ms = 1\<rparr> started_event wit_full_state = [] \<and>
   Some (''minilisysm_events_published_total'', [], ''41'') \<in> set (read_page (page_of wit_metrics_config
     (publish_calls FastQueue \<lparr>ts_realtime_ms = 1, ts_monotonic_ms = 1, ts_boottime_ms = 1\<rparr> started_event wit_full_state) wit_scrape))"
proof -
  let ?ts = "\<lparr>ts_realtime_ms = 1, ts_monotonic_ms = 1, ts_boottime_ms = 1\<rparr>"
  have refused: "\<not> snd (publish_event FastQueue ?ts started_event wit_full_state)"
    by (simp add: publish_event_def wit_full_state_def new_ring_def push_def increment_def Let_def case_prod_beta)
  have seq: "sc_next_sequence wit_scrape = sh_next_sequence (fst (publish_event FastQueue ?ts started_event wit_full_state))"
    by (simp add: publish_event_def wit_full_state_def wit_scrape_def Let_def case_prod_beta)
  have start: "sh_next_sequence wit_full_state = 41" by (simp add: wit_full_state_def)
  have digits: "show_word (41 :: u64) = ''41''" by code_simp
  show ?thesis
    by (rule refused_event_counted [OF wit_scrapes(1) refused seq, of "[]", unfolded start digits append_Nil]) simp
qed

section \<open>What a scrape reads from the monitor\<close>

definition named_sink_stats :: "(string \<times> sink_stats) option list \<Rightarrow> (string \<times> sink_stats) list" where
  "named_sink_stats sinks = List.map_filter id sinks"

definition render_metrics ::
  "bool \<Rightarrow> shared_state \<Rightarrow> (dispatcher_stats \<times> (string \<times> sink_stats) option list) option \<Rightarrow> fast_thread \<Rightarrow> sched_thread \<Rightarrow>
   runtime_stats \<Rightarrow> scrape_input" where
  "render_metrics running s dispatcher ft st sched_stats =
     (let queues = snapshot_of_queues [sh_queue s FastQueue, sh_queue s SchedQueue] (map_option fst dispatcher);
          sink_stats = (case dispatcher of None \<Rightarrow> [] | Some (_, sinks) \<Rightarrow> named_sink_stats sinks)
      in \<lparr>sc_running = running, sc_next_sequence = sh_next_sequence s, sc_queues = queues, sc_sink_stats = sink_stats,
           sc_meminfo_failures = fc_total (ft_meminfo_failures ft), sc_cpu_usage_failures = fc_total (ft_cpu_failures ft),
           sc_self_status_failures = fc_total (ft_self_status_failures ft), sc_sched_delay_failures = fc_total (st_sched_failures st),
           sc_io_delay_failures = fc_total (st_io_failures st), sc_sched_stats = sched_stats\<rparr>)"

section \<open>The losses of the two queues\<close>

definition is_lost :: "shared_result \<Rightarrow> bool" where
  "is_lost r \<longleftrightarrow> (case r of Lost source event \<Rightarrow> True | _ \<Rightarrow> False)"

definition ring_losses :: "'a ring \<Rightarrow> u64" where
  "ring_losses r = rb_dropped_info_count r + rb_dropped_warning_count r + rb_dropped_critical_count r"

lemma push_losses: "ring_losses (fst (push l x r)) = ring_losses r + (if ring_accepts l r then 0 else 1)"
  by (cases l) (simp_all add: ring_losses_def push_counters)

lemma pop_losses: "ring_losses (fst (pop r)) = ring_losses r"
  by (simp add: ring_losses_def pop_counters)

lemma step_losses:
  assumes "\<forall>source. ring_wf (sh_queue s source)" and "shared_step op s = (s', r)"
  shows "ring_losses (sh_queue s' FastQueue) + ring_losses (sh_queue s' SchedQueue) =
      ring_losses (sh_queue s FastQueue) + ring_losses (sh_queue s SchedQueue) + (if is_lost r then 1 else 0)"
    and "ring_bound (sh_queue s' source) = ring_bound (sh_queue s source)"
proof -
  have all: "ring_losses (sh_queue s' FastQueue) + ring_losses (sh_queue s' SchedQueue) =
      ring_losses (sh_queue s FastQueue) + ring_losses (sh_queue s SchedQueue) + (if is_lost r then 1 else 0) \<and>
      ring_bound (sh_queue s' source) = ring_bound (sh_queue s source)"
  proof (cases op)
    case (Publish src ts event)
    let ?e = "stamp_event (sh_next_sequence s) ts event"
    have wf: "ring_wf (sh_queue s src)" using assms(1) by blast
    show ?thesis
      using assms(2) rb.enqueue_flag [OF wf, of "ev_level event" ?e] rb.enqueue_bound [OF wf, of "ev_level event" ?e]
        push_losses [of "ev_level event" ?e "sh_queue s src"]
      by (cases src) (auto simp: Publish publish_event_eq is_lost_def)
  next
    case (Take src)
    have wf: "ring_wf (sh_queue s src)" using assms(1) by blast
    show ?thesis
      using assms(2) pop_losses [of "sh_queue s src"] rb.dequeue_bound [OF wf]
      by (cases src; cases "pop (sh_queue s src)") (auto simp: Take is_lost_def split: option.splits)
  qed
  then show "ring_losses (sh_queue s' FastQueue) + ring_losses (sh_queue s' SchedQueue) =
      ring_losses (sh_queue s FastQueue) + ring_losses (sh_queue s SchedQueue) + (if is_lost r then 1 else 0)"
    "ring_bound (sh_queue s' source) = ring_bound (sh_queue s source)"
    by simp_all
qed

lemma run_losses:
  assumes "\<forall>source. ring_wf (sh_queue s source)" and "shared_run ops s = (s', rs)"
  shows "ring_losses (sh_queue s' FastQueue) + ring_losses (sh_queue s' SchedQueue) =
      ring_losses (sh_queue s FastQueue) + ring_losses (sh_queue s SchedQueue) + of_nat (length (filter is_lost rs)) \<and>
    ring_bound (sh_queue s' source) = ring_bound (sh_queue s source) \<and> length rs = length ops \<and>
    (\<forall>source. ring_wf (sh_queue s' source))"
  using assms
proof (induction ops arbitrary: s rs)
  case (Cons op ops)
  obtain s1 r where step: "shared_step op s = (s1, r)" by fastforce
  obtain rs' where run: "shared_run ops s1 = (s', rs')" and rs: "rs = r # rs'"
    using Cons.prems(2) step by (auto split: prod.splits)
  have IH: "ring_losses (sh_queue s' FastQueue) + ring_losses (sh_queue s' SchedQueue) =
      ring_losses (sh_queue s1 FastQueue) + ring_losses (sh_queue s1 SchedQueue) + of_nat (length (filter is_lost rs'))"
    "ring_bound (sh_queue s' source) = ring_bound (sh_queue s1 source)" "length rs' = length ops" "\<forall>source. ring_wf (sh_queue s' source)"
    using Cons.IH [OF shared_step_ok(1) [OF Cons.prems(1) step] run] by blast+
  show ?case
    unfolding IH(1,2) step_losses [OF Cons.prems(1) step] rs using IH(3,4) by simp
qed auto

text \<open>The numbers that a scrape reads from the queues, as counts of what happened since the start.\<close>

definition pending_events :: "shared_state \<Rightarrow> nat" where
  "pending_events s = length (ring_items (sh_queue s FastQueue)) + length (ring_items (sh_queue s SchedQueue))"

lemma scrape_queue_counts:
  assumes "event_queue_capacity cfg \<noteq> - 1" and "2 * unat (event_queue_capacity cfg) < 2 ^ 64" and "length ops < 2 ^ 64 - 1"
    and "shared_run ops (new_shared_state cfg) = (s, results)"
  shows "unat (qs_dropped_count (sc_queues (render_metrics running s dispatcher ft st sched_stats))) = length (filter is_lost results)"
    and "unat (qs_depth (sc_queues (render_metrics running s dispatcher ft st sched_stats))) = pending_events s"
    and "unat (qs_capacity (sc_queues (render_metrics running s dispatcher ft st sched_stats))) = 2 * unat (event_queue_capacity cfg)"
    and "length (filter is_lost results) \<le> length ops" and "pending_events s \<le> 2 * unat (event_queue_capacity cfg)"
proof -
  let ?a = "sh_queue s FastQueue" and ?b = "sh_queue s SchedQueue"
  let ?q = "sc_queues (render_metrics running s dispatcher ft st sched_stats)"
  have start: "\<forall>source. ring_wf (sh_queue (new_shared_state cfg) source)"
    using assms(1) by (simp add: new_shared_state_def new_ring_wf)
  note run = run_losses [OF start assms(4)]
  have losses: "ring_losses ?a + ring_losses ?b = of_nat (length (filter is_lost results))"
    using run by (simp add: new_shared_state_def ring_losses_def new_ring_def)
  have bound: "ring_bound (sh_queue s source) = unat (event_queue_capacity cfg)" for source
    using run_losses [OF start assms(4), of source] by (simp add: new_shared_state_def)
  have lengths: "length (ring_items (sh_queue s source)) \<le> unat (event_queue_capacity cfg)" for source
    using run rb.items_bound [of "sh_queue s source"] bound by simp
  show lost: "length (filter is_lost results) \<le> length ops" using run by (metis length_filter_le)
  show "pending_events s \<le> 2 * unat (event_queue_capacity cfg)"
    using lengths [of FastQueue] lengths [of SchedQueue] by (simp add: pending_events_def)
  have fields: "qs_dropped_count ?q = ring_losses ?a + ring_losses ?b" "qs_depth ?q = depth ?a + depth ?b"
    "qs_capacity ?q = usable_capacity ?a + usable_capacity ?b"
    by (cases dispatcher; simp add: render_metrics_def snapshot_of_queues_def Let_def stats_def ring_losses_def case_prod_beta)+
  show "unat (qs_dropped_count ?q) = length (filter is_lost results)"
    unfolding fields losses using lost assms(3) by (simp add: unat_of_nat)
  have depths: "unat (depth ?a) + unat (depth ?b) \<le> 2 * unat (event_queue_capacity cfg)"
    using lengths [of FastQueue] lengths [of SchedQueue] by simp
  then show "unat (qs_depth ?q) = pending_events s"
    unfolding fields pending_events_def ring_items_length using assms(2) by (intro unat_add_no_overflow) simp
  show "unat (qs_capacity ?q) = 2 * unat (event_queue_capacity cfg)"
    unfolding fields using bound [of FastQueue] bound [of SchedQueue] assms(2) by (subst unat_add_no_overflow) (simp_all add: ring_bound_def)
qed

end
