(* ===== verification/Status_Script.thy ===== *)
theory Status_Script
  imports Metric_Registry
begin

text \<open>
  The script of the status page in \<^verbatim>\<open>src/runtime/metrics_server.cpp\<close>: it fetches the page of the metrics every two seconds, parses
  it and fills the cards and tables. JavaScript strings are lists of UTF-16 code units and its numbers the doubles of
  \<open>Ieee_Double\<close>. What the script writes into the elements of the page is a record; the answer of the server and the time
  of day are arguments. The lemmas say what the script reads in a line and in a page that \<open>Metric_Registry\<close> printed.
\<close>

section \<open>Strings and numbers of JavaScript\<close>

type_synonym js_string = "nat list"

definition units :: "string \<Rightarrow> js_string" where
  "units s = map of_char s"

fun js_split :: "'a \<Rightarrow> 'a list \<Rightarrow> 'a list list" where
  "js_split c [] = [[]]"
| "js_split c (x # xs) = (if x = c then [] # js_split c xs else (x # hd (js_split c xs)) # tl (js_split c xs))"

text \<open>White space of \<open>trim\<close> and of \<open>\s\<close>.\<close>

definition js_blank :: "nat \<Rightarrow> bool" where
  "js_blank u \<longleftrightarrow> (9 \<le> u \<and> u \<le> 13) \<or> u \<in> {32, 0xa0, 0x1680} \<or> (0x2000 \<le> u \<and> u \<le> 0x200a) \<or>
     u \<in> {0x2028, 0x2029, 0x202f, 0x205f, 0x3000, 0xfeff}"

text \<open>\<open>line.trim().split(/\s+/)\<close>; a blank line gives no word here and one empty word there, less than two in both cases.\<close>

function js_words :: "js_string \<Rightarrow> js_string list" where
  "js_words s =
     (let t = dropWhile js_blank s
      in if t = [] then [] else takeWhile (\<lambda>u. \<not> js_blank u) t # js_words (dropWhile (\<lambda>u. \<not> js_blank u) t))"
  by pat_completeness auto
termination
proof (relation "measure length")
  fix s t :: js_string
  assume t: "t = dropWhile js_blank s" "t \<noteq> []"
  then have "\<not> js_blank (hd t)" using hd_dropWhile by metis
  then have "length (dropWhile (\<lambda>u. \<not> js_blank u) t) < length t" using t(2) by (cases t) (auto intro: le_imp_less_Suc length_dropWhile_le)
  also have "\<dots> \<le> length s" by (simp add: t(1) length_dropWhile_le)
  finally show "(dropWhile (\<lambda>u. \<not> js_blank u) t, s) \<in> measure length" by simp
qed simp

declare js_words.simps [simp del]

text \<open>\<open>Number (s)\<close> of a text without blanks.\<close>

definition radix_number :: "string \<Rightarrow> nat option" where
  "radix_number s =
     (let base = (if lowercase (take 2 s) = ''0x'' then 16 else if lowercase (take 2 s) = ''0o'' then 8
                  else if lowercase (take 2 s) = ''0b'' then 2 else 0);
          ds = drop 2 s
      in if base \<noteq> 0 \<and> ds \<noteq> [] \<and> list_all (\<lambda>c. is_hex c \<and> hex_value c < base) ds
         then Some (foldl (\<lambda>acc c. base * acc + hex_value c) 0 ds) else None)"

definition ascii_number :: "string \<Rightarrow> double" where
  "ascii_number s =
     (case radix_number s of
        Some n \<Rightarrow> round_double (of_nat n)
      | None \<Rightarrow>
          let neg = (s \<noteq> [] \<and> hd s = CHR ''-'');
              u = (if s \<noteq> [] \<and> hd s \<in> {CHR ''-'', CHR ''+''} then tl s else s)
          in if s = [] then Fin 0
             else if u = ''Infinity'' then (if neg then NInf else PInf)
             else case scan_decimal u of
                    Some (q, []) \<Rightarrow> round_double (if neg then - q else q)
                  | _ \<Rightarrow> NaN)"

definition js_number :: "js_string \<Rightarrow> double" where
  "js_number s = (if list_all (\<lambda>u. u < 128) s then ascii_number (map char_of s) else NaN)"

definition is_finite :: "double \<Rightarrow> bool" where
  "is_finite x \<longleftrightarrow> (case x of Fin q \<Rightarrow> True | _ \<Rightarrow> False)"

text \<open>
  \<open>toFixed\<close>: the nearest decimal with the given number of digits behind the point, the larger one when two are equally near;
  from \<open>10 ^ 21\<close> on the shortest digits that read back as the number.
\<close>

definition fixed_text :: "nat \<Rightarrow> rat \<Rightarrow> string" where
  "fixed_text digits q =
     (let m = show_nat (nat \<lfloor>q * 10 ^ digits + 1 / 2\<rfloor>)
      in if digits = 0 then m
         else let padded = pad_zero (Suc digits) m; k = length padded - digits
              in take k padded @ ''.'' @ drop k padded)"

definition shortest_digits :: "rat \<Rightarrow> int \<Rightarrow> nat \<Rightarrow> nat list" where
  "shortest_digits q e k =
     (let y = q / 10 powi (e + 1 - int k)
      in sort_key (\<lambda>s. \<bar>of_nat s - y\<bar>)
           (filter (\<lambda>s. s < 10 ^ k \<and> round_double (of_nat s * 10 powi (e + 1 - int k)) = Fin q) [nat \<lfloor>y\<rfloor>, nat \<lceil>y\<rceil>]))"

definition large_text :: "rat \<Rightarrow> string" where
  "large_text q =
     (let e = decimal_exponent q
      in case concat (map (shortest_digits q e) [1..<18]) of
           [] \<Rightarrow> []
         | s # _ \<Rightarrow>
             let ds = show_nat s
             in take 1 ds @ (if tl ds = [] then [] else ''.'' @ tl ds) @ ''e+'' @ show_nat (nat e))"

definition to_fixed :: "nat \<Rightarrow> double \<Rightarrow> js_string" where
  "to_fixed digits x = units
     (case x of
        NaN \<Rightarrow> ''NaN'' | PInf \<Rightarrow> ''Infinity'' | NInf \<Rightarrow> ''-Infinity''
      | Fin q \<Rightarrow> (if q < 0 then ''-'' else []) @
          (if 10 ^ 21 \<le> \<bar>q\<bar> then large_text \<bar>q\<bar> else fixed_text digits \<bar>q\<bar>))"

section \<open>The text of a response\<close>

text \<open>
  \<open>response.text()\<close> decodes UTF-8: the state is the number of continuation bytes that are missing, the code point so far and
  the bounds of the next byte. What is not well-formed becomes the replacement character.
\<close>

definition code_units :: "nat \<Rightarrow> js_string" where
  "code_units c = (if c < 0x10000 then [c] else [0xd800 + (c - 0x10000) div 0x400, 0xdc00 + (c - 0x10000) mod 0x400])"

definition utf8_lead :: "nat \<Rightarrow> js_string \<times> nat \<times> nat \<times> nat \<times> nat" where
  "utf8_lead b =
     (if b < 0x80 then ([b], 0, 0, 0x80, 0xbf)
      else if 0xc2 \<le> b \<and> b \<le> 0xdf then ([], 1, b - 0xc0, 0x80, 0xbf)
      else if 0xe0 \<le> b \<and> b \<le> 0xef then ([], 2, b - 0xe0, if b = 0xe0 then 0xa0 else 0x80, if b = 0xed then 0x9f else 0xbf)
      else if 0xf0 \<le> b \<and> b \<le> 0xf4 then ([], 3, b - 0xf0, if b = 0xf0 then 0x90 else 0x80, if b = 0xf4 then 0x8f else 0xbf)
      else ([0xfffd], 0, 0, 0x80, 0xbf))"

fun utf8_decode_from :: "nat \<times> nat \<times> nat \<times> nat \<Rightarrow> nat list \<Rightarrow> js_string" where
  "utf8_decode_from (n, c, lo, hi) [] = (if n = 0 then [] else [0xfffd])"
| "utf8_decode_from (n, c, lo, hi) (b # bs) =
     (if n \<noteq> 0 \<and> lo \<le> b \<and> b \<le> hi then
        let c = c * 64 + (b - 0x80)
        in if n = 1 then code_units c @ utf8_decode_from (0, 0, 0x80, 0xbf) bs
           else utf8_decode_from (n - 1, c, 0x80, 0xbf) bs
      else
        let (out, st) = utf8_lead b
        in (if n = 0 then [] else [0xfffd]) @ out @ utf8_decode_from st bs)"

definition response_text :: "string \<Rightarrow> js_string" where
  "response_text body =
     (let bytes = units body
      in utf8_decode_from (0, 0, 0x80, 0xbf) (if take 3 bytes = [0xef, 0xbb, 0xbf] then drop 3 bytes else bytes))"

section \<open>Reading the metrics\<close>

record js_sample =
  js_text :: js_string
  js_value :: double

type_synonym js_metrics = "(js_string \<times> js_sample list) list"

definition samples_of :: "js_metrics \<Rightarrow> js_string \<Rightarrow> js_sample list" where
  "samples_of metrics name = (case map_of metrics name of None \<Rightarrow> [] | Some samples \<Rightarrow> samples)"

definition read_metric_line :: "js_string \<Rightarrow> (js_string \<times> js_sample) option" where
  "read_metric_line line =
     (if line = [] \<or> hd line = of_char (CHR ''#'') then None
      else case js_words line of
             text # number # _ \<Rightarrow>
               (let value = js_number number
                in if is_finite value then Some (takeWhile (\<lambda>u. u \<noteq> of_char (CHR ''{'')) text, \<lparr>js_text = text, js_value = value\<rparr>)
                   else None)
           | _ \<Rightarrow> None)"

definition add_metric_line :: "js_string \<Rightarrow> js_metrics \<Rightarrow> js_metrics" where
  "add_metric_line line metrics =
     (case read_metric_line line of
        None \<Rightarrow> metrics
      | Some (name, sample) \<Rightarrow> AList.update name (samples_of metrics name @ [sample]) metrics)"

definition parse_metrics :: "js_string \<Rightarrow> js_metrics" where
  "parse_metrics text = fold add_metric_line (js_split 10 text) []"

definition pick :: "js_metrics \<Rightarrow> string \<Rightarrow> string option \<Rightarrow> double" where
  "pick metrics name label_opt =
     (let samples = samples_of metrics (units name)
      in case (case label_opt of
                 None \<Rightarrow> (case samples of [] \<Rightarrow> None | item # _ \<Rightarrow> Some item)
               | Some text \<Rightarrow> List.find (\<lambda>item. sublist (units text) (js_text item)) samples) of
           None \<Rightarrow> NaN
         | Some item \<Rightarrow> js_value item)"

definition metric_sum :: "js_metrics \<Rightarrow> string \<Rightarrow> double" where
  "metric_sum metrics name = foldl (\<lambda>total item. dadd total (js_value item)) (Fin 0) (samples_of metrics (units name))"

section \<open>Formatting\<close>

text \<open>The Chinese texts of the page, by their use.\<close>

datatype caption =
    CapRunning | CapAbnormal | CapMissing | CapSourceQueue | CapSinkQueue | CapUsed | CapDropped | CapNormal
    | CapAttention | CapNoCollectors | CapBattery | CapCharge | CapReadable | CapHealth | CapCycle | CapTimes
    | CapStorage | CapLifetime | CapMemory | CapNoHardware | CapServiceRunning | CapServiceAbnormal
    | CapRefreshFailed | CapRefreshFailedWith | CapRefreshedAt | CapAgentLabel | CapAgentHint | CapCpuLabel
    | CapCpuHint | CapFreeLabel | CapFreeHint | CapRssLabel | CapRssHint | CapEventsLabel | CapEventsHint
    | CapBatteryLabel | CapBatteryHint | CapLifetimeLabel | CapLifetimeHint | CapEccLabel | CapEccHint

fun caption_text :: "caption \<Rightarrow> js_string" where
  "caption_text CapRunning = [0x8fd0, 0x884c, 0x4e2d]"
| "caption_text CapAbnormal = [0x5f02, 0x5e38]"
| "caption_text CapMissing = [0x6682, 0x65e0]"
| "caption_text CapSourceQueue = [0x91c7, 0x96c6, 0x961f, 0x5217]"
| "caption_text CapSinkQueue = [0x4e0b, 0x6c89, 0x961f, 0x5217]"
| "caption_text CapUsed = [0x5360, 0x7528, 0x20]"
| "caption_text CapDropped = [0xff0c, 0x7d2f, 0x8ba1, 0x4e22, 0x5f03, 0x20]"
| "caption_text CapNormal = [0x6b63, 0x5e38]"
| "caption_text CapAttention = [0x9700, 0x5173, 0x6ce8]"
| "caption_text CapNoCollectors = [0x6682, 0x65e0, 0x20, 0x63, 0x6f, 0x6c, 0x6c, 0x65, 0x63, 0x74, 0x6f, 0x72, 0x20, 0x6307, 0x6807]"
| "caption_text CapBattery = [0x7535, 0x6c60]"
| "caption_text CapCharge = [0x5f53, 0x524d, 0x7535, 0x91cf, 0x20]"
| "caption_text CapReadable = [0x53ef, 0x8bfb]"
| "caption_text CapHealth = [0x5065, 0x5eb7, 0x5ea6, 0x20]"
| "caption_text CapCycle = [0x5faa, 0x73af, 0x20]"
| "caption_text CapTimes = [0x20, 0x6b21]"
| "caption_text CapStorage = [0x5b58, 0x50a8]"
| "caption_text CapLifetime = [0x5bff, 0x547d, 0x5df2, 0x7528, 0x20]"
| "caption_text CapMemory = [0x5185, 0x5b58]"
| "caption_text CapNoHardware = [0x5f53, 0x524d, 0x73af, 0x5883, 0x6682, 0x65e0, 0x7535, 0x6c60, 0x3001, 0x5b58, 0x50a8, 0x5bff, 0x547d, 0x6216, 0x20, 0x45, 0x44, 0x41, 0x43, 0x20, 0x6307, 0x6807]"
| "caption_text CapServiceRunning = [0x670d, 0x52a1, 0x8fd0, 0x884c, 0x4e2d]"
| "caption_text CapServiceAbnormal = [0x670d, 0x52a1, 0x5f02, 0x5e38]"
| "caption_text CapRefreshFailed = [0x5237, 0x65b0, 0x5931, 0x8d25]"
| "caption_text CapRefreshFailedWith = [0x5237, 0x65b0, 0x5931, 0x8d25, 0xff1a]"
| "caption_text CapRefreshedAt = [0x5237, 0x65b0, 0x4e8e, 0x20]"
| "caption_text CapAgentLabel = [0x41, 0x67, 0x65, 0x6e, 0x74, 0x20, 0x72b6, 0x6001]"
| "caption_text CapAgentHint = [0x8fdb, 0x7a0b, 0x4e0e, 0x76d1, 0x63a7, 0x4e3b, 0x5faa, 0x73af]"
| "caption_text CapCpuLabel = [0x43, 0x50, 0x55, 0x20, 0x4f7f, 0x7528, 0x7387]"
| "caption_text CapCpuHint = [0x7cfb, 0x7edf, 0x603b, 0x20, 0x43, 0x50, 0x55]"
| "caption_text CapFreeLabel = [0x53ef, 0x7528, 0x5185, 0x5b58]"
| "caption_text CapFreeHint = [0x4d, 0x65, 0x6d, 0x41, 0x76, 0x61, 0x69, 0x6c, 0x61, 0x62, 0x6c, 0x65]"
| "caption_text CapRssLabel = [0x76d1, 0x63a7, 0x81ea, 0x8eab, 0x20, 0x52, 0x53, 0x53]"
| "caption_text CapRssHint = [0x6d, 0x69, 0x6e, 0x69, 0x6c, 0x69, 0x73, 0x79, 0x73, 0x6d, 0x20, 0x8fdb, 0x7a0b, 0x5185, 0x5b58]"
| "caption_text CapEventsLabel = [0x4e8b, 0x4ef6, 0x603b, 0x6570]"
| "caption_text CapEventsHint = [0x5df2, 0x53d1, 0x5e03, 0x5185, 0x90e8, 0x4e8b, 0x4ef6]"
| "caption_text CapBatteryLabel = [0x7535, 0x6c60, 0x5065, 0x5eb7]"
| "caption_text CapBatteryHint = [0x6ee1, 0x5145, 0x5bb9, 0x91cf, 0x20, 0x2f, 0x20, 0x8bbe, 0x8ba1, 0x5bb9, 0x91cf]"
| "caption_text CapLifetimeLabel = [0x5b58, 0x50a8, 0x5bff, 0x547d, 0x5df2, 0x7528]"
| "caption_text CapLifetimeHint = [0x65, 0x4d, 0x4d, 0x43, 0x2f, 0x55, 0x46, 0x53, 0x2f, 0x4e, 0x41, 0x4e, 0x44, 0x20, 0x5bff, 0x547d, 0x4f30, 0x8ba1]"
| "caption_text CapEccLabel = [0x45, 0x43, 0x43, 0x20, 0x672a, 0x7ea0, 0x9519]"
| "caption_text CapEccHint = [0x5185, 0x5b58, 0x4e0d, 0x53ef, 0x7ea0, 0x6b63, 0x9519, 0x8bef]"
definition format_number :: "double \<Rightarrow> nat \<Rightarrow> js_string" where
  "format_number v digits = (if is_finite v then to_fixed digits v else caption_text CapMissing)"

fun byte_unit :: "double \<Rightarrow> string \<Rightarrow> string list \<Rightarrow> double \<times> string" where
  "byte_unit value unit [] = (value, unit)"
| "byte_unit value unit (unit' # larger) =
     (if dle (Fin 1024) value then byte_unit (ddiv value (Fin 1024)) unit' larger else (value, unit))"

definition format_bytes :: "double \<Rightarrow> js_string" where
  "format_bytes v =
     (if \<not> is_finite v then caption_text CapMissing
      else case byte_unit v ''B'' [''KiB'', ''MiB'', ''GiB''] of
             (value, unit) \<Rightarrow> format_number value (if unit = ''B'' then 0 else 1) @ units '' '' @ units unit)"

datatype js_value_or_text = JsNumber double | JsText js_string

definition finite_values :: "js_metrics \<Rightarrow> string \<Rightarrow> double list" where
  "finite_values metrics name = filter is_finite (map js_value (samples_of metrics (units name)))"

definition min_value :: "js_metrics \<Rightarrow> string \<Rightarrow> js_value_or_text" where
  "min_value metrics name =
     (let values = finite_values metrics name
      in if values = [] then JsNumber NaN else JsText (to_fixed 1 (foldl dmin PInf values) @ units ''%''))"

definition max_percent :: "js_metrics \<Rightarrow> string \<Rightarrow> js_value_or_text" where
  "max_percent metrics name =
     (let values = finite_values metrics name
      in if values = [] then JsText (caption_text CapMissing) else JsText (to_fixed 1 (foldl dmax NInf values) @ units ''%''))"

definition pct :: "double \<Rightarrow> double \<Rightarrow> double" where
  "pct depth capacity =
     (if \<not> is_finite depth \<or> \<not> is_finite capacity \<or> dle capacity (Fin 0) then Fin 0
      else dmax (Fin 0) (dmin (Fin 100) (dmul (ddiv depth capacity) (Fin 100))))"

definition status_class :: "double \<Rightarrow> string" where
  "status_class value = (if is_finite value \<and> dle (Fin 1) value then ''warn-text'' else ''ok-text'')"

section \<open>The cards\<close>

datatype card_format = FormatUp | FormatPercent | FormatBytes | FormatCount | FormatSum | FormatMin | FormatMax

record card_def =
  cd_name :: string
  cd_label :: caption
  cd_selector :: "string option"
  cd_format :: card_format
  cd_hint :: caption

definition card_defs :: "card_def list" where
  "card_defs =
     [\<lparr>cd_name = ''minilisysm_up'', cd_label = CapAgentLabel, cd_selector = None, cd_format = FormatUp, cd_hint = CapAgentHint\<rparr>,
      \<lparr>cd_name = ''minilisysm_cpu_usage_percent'', cd_label = CapCpuLabel, cd_selector = Some ''cpu=\"total\"'',
       cd_format = FormatPercent, cd_hint = CapCpuHint\<rparr>,
      \<lparr>cd_name = ''minilisysm_system_memory_available_bytes'', cd_label = CapFreeLabel, cd_selector = None,
       cd_format = FormatBytes, cd_hint = CapFreeHint\<rparr>,
      \<lparr>cd_name = ''minilisysm_monitor_rss_bytes'', cd_label = CapRssLabel, cd_selector = None, cd_format = FormatBytes,
       cd_hint = CapRssHint\<rparr>,
      \<lparr>cd_name = ''minilisysm_events_published_total'', cd_label = CapEventsLabel, cd_selector = None, cd_format = FormatCount,
       cd_hint = CapEventsHint\<rparr>,
      \<lparr>cd_name = ''minilisysm_battery_health_percent'', cd_label = CapBatteryLabel, cd_selector = None, cd_format = FormatMin,
       cd_hint = CapBatteryHint\<rparr>,
      \<lparr>cd_name = ''minilisysm_storage_lifetime_used_percent'', cd_label = CapLifetimeLabel, cd_selector = None,
       cd_format = FormatMax, cd_hint = CapLifetimeHint\<rparr>,
      \<lparr>cd_name = ''minilisysm_memory_ecc_uncorrected_total'', cd_label = CapEccLabel, cd_selector = None,
       cd_format = FormatCount, cd_hint = CapEccHint\<rparr>]"

definition card_numeric :: "js_metrics \<Rightarrow> card_def \<Rightarrow> js_value_or_text" where
  "card_numeric metrics d =
     (case cd_format d of
        FormatSum \<Rightarrow> JsNumber (metric_sum metrics (cd_name d))
      | FormatMin \<Rightarrow> min_value metrics (cd_name d)
      | FormatMax \<Rightarrow> max_percent metrics (cd_name d)
      | _ \<Rightarrow> JsNumber (pick metrics (cd_name d) (cd_selector d)))"

text \<open>A number in a template is printed with all its digits; here only the missing value gets there.\<close>

definition card_value :: "card_format \<Rightarrow> js_value_or_text \<Rightarrow> js_string" where
  "card_value format numeric =
     (case numeric of
        JsText text \<Rightarrow> text
      | JsNumber v \<Rightarrow>
          (case format of
             FormatUp \<Rightarrow> caption_text (if deq v (Fin 1) then CapRunning else CapAbnormal)
           | FormatPercent \<Rightarrow> format_number v 1 @ units ''%''
           | FormatBytes \<Rightarrow> format_bytes v
           | FormatMin \<Rightarrow> units ''NaN''
           | _ \<Rightarrow> format_number v 0))"

definition card_class :: "string \<Rightarrow> js_value_or_text \<Rightarrow> string" where
  "card_class name numeric =
     (let warn_value = (case numeric of JsNumber v \<Rightarrow> v | JsText text \<Rightarrow> Fin 0)
      in if name = ''minilisysm_up'' \<and> \<not> deq warn_value (Fin 1) then ''bad-text'' else status_class warn_value)"

definition card_article :: "caption \<Rightarrow> string \<Rightarrow> js_string \<Rightarrow> caption \<Rightarrow> js_string" where
  "card_article label cls value hint =
     units ''<article class=\"card\"><div class=\"label\">'' @ caption_text label @ units ''</div><div class=\"value '' @
     units cls @ units ''\">'' @ value @ units ''</div><div class=\"hint\">'' @ caption_text hint @ units ''</div></article>''"

definition render_card :: "js_metrics \<Rightarrow> card_def \<Rightarrow> js_string" where
  "render_card metrics d =
     (let numeric = card_numeric metrics d
      in card_article (cd_label d) (card_class (cd_name d) numeric) (card_value (cd_format d) numeric) (cd_hint d))"

definition render_cards :: "js_metrics \<Rightarrow> js_string" where
  "render_cards metrics = concat (map (render_card metrics) card_defs)"

section \<open>The tables\<close>

definition line_indent :: "nat \<Rightarrow> js_string" where
  "line_indent n = 10 # replicate n 32"

definition queue_row :: "caption \<Rightarrow> double \<Rightarrow> double \<Rightarrow> double \<Rightarrow> js_string" where
  "queue_row name depth capacity dropped =
     (let used = to_fixed 1 (pct depth capacity)
      in units ''<div class=\"queue-row\">'' @ line_indent 6 @
         units ''<div class=\"label\">'' @ caption_text name @ units ''</div>'' @ line_indent 6 @
         units ''<div class=\"value\">'' @ format_number depth 0 @ units '' / '' @ format_number capacity 0 @ units ''</div>'' @
         line_indent 6 @ units ''<div class=\"bar\"><span style=\"width:'' @ used @ units ''%\"></span></div>'' @ line_indent 6 @
         units ''<div class=\"hint\">'' @ caption_text CapUsed @ used @ units ''%'' @ caption_text CapDropped @
         format_number dropped 0 @ units ''</div>'' @ line_indent 4 @ units ''</div>'')"

definition queue_selector :: "string \<Rightarrow> string" where
  "queue_selector queue = ''queue=\"'' @ queue @ ''\"''"

definition render_queues :: "js_metrics \<Rightarrow> js_string" where
  "render_queues metrics =
     concat (map (\<lambda>queue. let value = (\<lambda>name. pick metrics name (Some (queue_selector queue)))
         in queue_row (if queue = ''source'' then CapSourceQueue else CapSinkQueue) (value ''minilisysm_queue_depth'')
              (value ''minilisysm_queue_capacity'') (value ''minilisysm_queue_dropped_total''))
       [''source'', ''sink''])"

text \<open>The leftmost match of a regular expression \<open>key="([^"]+)"\<close>.\<close>

fun match_label :: "js_string \<Rightarrow> js_string \<Rightarrow> js_string option" where
  "match_label opening [] = None"
| "match_label opening (u # s) =
     (let rest = drop (length opening) (u # s); value = takeWhile (\<lambda>u. u \<noteq> 34) rest
      in if prefix opening (u # s) \<and> value \<noteq> [] \<and> length value < length rest then Some value else match_label opening s)"

definition label_value :: "js_string \<Rightarrow> string \<Rightarrow> js_string" where
  "label_value sample key = (case match_label (units (key @ ''=\"'')) sample of None \<Rightarrow> units ''-'' | Some value \<Rightarrow> value)"

definition collector_row :: "js_sample \<Rightarrow> js_string" where
  "collector_row item =
     (let name = (case match_label (units ''collector=\"'') (js_text item) of None \<Rightarrow> js_text item | Some value \<Rightarrow> value);
          ok = deq (js_value item) (Fin 0)
      in units ''<tr><td>'' @ name @ units ''</td><td>'' @ format_number (js_value item) 0 @ units ''</td><td class=\"'' @
         units (if ok then ''ok-text'' else ''bad-text'') @ units ''\">'' @ caption_text (if ok then CapNormal else CapAttention) @
         units ''</td></tr>'')"

definition render_collectors :: "js_metrics \<Rightarrow> js_string" where
  "render_collectors metrics =
     (let rows = map collector_row (samples_of metrics (units ''minilisysm_collector_failures_total''))
      in if rows \<noteq> [] then concat rows
         else units ''<tr><td colspan=\"3\">'' @ caption_text CapNoCollectors @ units ''</td></tr>'')"

definition hardware_row :: "caption \<Rightarrow> js_string \<Rightarrow> js_string \<Rightarrow> string \<Rightarrow> caption \<Rightarrow> js_string" where
  "hardware_row kind name value cls state =
     units ''<tr><td>'' @ caption_text kind @ units ''</td><td>'' @ name @ units ''</td><td>'' @ value @
     units ''</td><td class=\"'' @ units cls @ units ''\">'' @ caption_text state @ units ''</td></tr>''"

definition battery_charge_row :: "js_sample \<Rightarrow> js_string" where
  "battery_charge_row item = hardware_row CapBattery (label_value (js_text item) ''battery'')
     (caption_text CapCharge @ format_number (js_value item) 0 @ units ''%'') ''ok-text'' CapReadable"

definition battery_health_row :: "js_sample \<Rightarrow> js_string" where
  "battery_health_row item = hardware_row CapBattery (label_value (js_text item) ''battery'')
     (caption_text CapHealth @ format_number (js_value item) 1 @ units ''%'')
     (if dlt (js_value item) (Fin 70) then ''bad-text'' else if dlt (js_value item) (Fin 85) then ''warn-text'' else ''ok-text'')
     (if dlt (js_value item) (Fin 85) then CapAttention else CapNormal)"

definition battery_cycle_row :: "js_sample \<Rightarrow> js_string" where
  "battery_cycle_row item = hardware_row CapBattery (label_value (js_text item) ''battery'')
     (caption_text CapCycle @ format_number (js_value item) 0 @ caption_text CapTimes) ''ok-text'' CapReadable"

definition storage_row :: "js_sample \<Rightarrow> js_string" where
  "storage_row item = hardware_row CapStorage (label_value (js_text item) ''device'')
     (caption_text CapLifetime @ format_number (js_value item) 1 @ units ''%'')
     (if dle (Fin 90) (js_value item) then ''bad-text'' else if dle (Fin 70) (js_value item) then ''warn-text'' else ''ok-text'')
     (if dle (Fin 70) (js_value item) then CapAttention else CapNormal)"

definition memory_rows :: "double \<Rightarrow> double \<Rightarrow> js_string list" where
  "memory_rows corrected uncorrected =
     (if is_finite corrected \<or> is_finite uncorrected then
        [hardware_row CapMemory (units ''EDAC'')
           (units ''ECC corrected '' @ format_number corrected 0 @ units '' / uncorrected '' @ format_number uncorrected 0)
           (if dlt (Fin 0) uncorrected then ''bad-text'' else ''ok-text'')
           (if dlt (Fin 0) uncorrected then CapAbnormal else CapNormal)]
      else [])"

definition render_hardware :: "js_metrics \<Rightarrow> js_string" where
  "render_hardware metrics =
     (let samples = (\<lambda>name. samples_of metrics (units name));
          rows = map battery_charge_row (samples ''minilisysm_battery_capacity_percent'') @
            map battery_health_row (samples ''minilisysm_battery_health_percent'') @
            map battery_cycle_row (samples ''minilisysm_battery_cycle_count'') @
            map storage_row (samples ''minilisysm_storage_lifetime_used_percent'') @
            memory_rows (pick metrics ''minilisysm_memory_ecc_corrected_total'' None)
              (pick metrics ''minilisysm_memory_ecc_uncorrected_total'' None)
      in if rows \<noteq> [] then concat rows
         else units ''<tr><td colspan=\"4\">'' @ caption_text CapNoHardware @ units ''</td></tr>'')"

section \<open>A refresh\<close>

text \<open>The elements of the page that the script writes.\<close>

record status_view =
  vw_dot_class :: js_string
  vw_live_text :: js_string
  vw_cards :: js_string
  vw_queues :: js_string
  vw_collectors :: js_string
  vw_hardware :: js_string
  vw_raw :: js_string
  vw_updated :: js_string

definition update_live_state :: "js_metrics \<Rightarrow> status_view \<Rightarrow> status_view" where
  "update_live_state metrics view =
     (let up = deq (pick metrics ''minilisysm_up'' None) (Fin 1)
      in view\<lparr>vw_dot_class := units (if up then ''dot ok'' else ''dot bad''),
           vw_live_text := caption_text (if up then CapServiceRunning else CapServiceAbnormal)\<rparr>)"

text \<open>The fetch gives the body of a response, with whatever status, or an error and its text.\<close>

definition refresh :: "js_string + string \<Rightarrow> js_string \<Rightarrow> status_view \<Rightarrow> status_view" where
  "refresh fetched time view =
     (case fetched of
        Inl err \<Rightarrow> view\<lparr>vw_dot_class := units ''dot bad'', vw_live_text := caption_text CapRefreshFailed,
          vw_updated := caption_text CapRefreshFailedWith @ err\<rparr>
      | Inr body \<Rightarrow>
          let text = response_text body; metrics = parse_metrics text; view = update_live_state metrics view
          in view\<lparr>vw_cards := render_cards metrics, vw_queues := render_queues metrics,
               vw_collectors := render_collectors metrics, vw_hardware := render_hardware metrics,
               vw_raw := take 12000 text, vw_updated := caption_text CapRefreshedAt @ time\<rparr>)"

section \<open>Code units\<close>

lemma units_simps [simp]: "units [] = []" "units (s @ t) = units s @ units t" "units s = [] \<longleftrightarrow> s = []"
  by (simp_all add: units_def)

lemma units_Cons: "units (c # s) = of_char c # units s"
  by (simp add: units_def)

lemma units_inject [simp]: "units s = units t \<longleftrightarrow> s = t"
  unfolding units_def by (rule inj_map_eq_map) (simp add: inj_on_def)

lemma in_units_iff: "u \<in> set (units s) \<longleftrightarrow> (\<exists>c \<in> set s. u = of_char c)"
  by (auto simp: units_def)

lemma units_takeWhile: "units (takeWhile (\<lambda>c. c \<noteq> d) s) = takeWhile (\<lambda>u. u \<noteq> of_char d) (units s)"
  by (simp add: units_def takeWhile_map comp_def)

lemma js_split_Nil [simp]: "js_split c xs \<noteq> []"
  by (cases xs) simp_all

lemma js_split_line: "c \<notin> set l \<Longrightarrow> js_split c (l @ c # rest) = l # js_split c rest"
  by (induction l) auto

lemma js_split_lines: "\<forall>l \<in> set ls. c \<notin> set l \<Longrightarrow> js_split c (concat (map (\<lambda>l. l @ [c]) ls)) = ls @ [[]]"
  by (induction ls) (simp_all add: js_split_line)

section \<open>Decoding\<close>

abbreviation utf8_start :: "nat \<times> nat \<times> nat \<times> nat" where
  "utf8_start \<equiv> (0, 0, 0x80, 0xbf)"

text \<open>An ASCII byte ends whatever came before it and stands for itself.\<close>

lemma utf8_ascii:
  assumes "b < 128" and "128 \<le> lo"
  shows "utf8_decode_from (n, c, lo, hi) (b # bs) = (if n = 0 then [] else [0xfffd]) @ b # utf8_decode_from utf8_start bs"
  using assms by (simp add: utf8_lead_def)

lemma utf8_out:
  assumes "\<not> (n \<noteq> 0 \<and> lo \<le> b \<and> b \<le> hi)" and "utf8_lead b = (out, st)"
  shows "utf8_decode_from (n, c, lo, hi) (b # bs) = (if n = 0 then [] else [0xfffd]) @ out @ utf8_decode_from st bs"
  unfolding utf8_decode_from.simps if_not_P [OF assms(1)] assms(2) by simp

lemma utf8_lead_low: "utf8_lead b = (out, n, c, lo, hi) \<Longrightarrow> 128 \<le> lo"
  by (auto simp: utf8_lead_def split: if_splits)

lemma utf8_split:
  assumes "b < 128" and "128 \<le> lo"
  shows "utf8_decode_from (n, c, lo, hi) (xs @ b # ys) = utf8_decode_from (n, c, lo, hi) xs @ b # utf8_decode_from utf8_start ys"
  using assms(2)
proof (induction "(n, c, lo, hi)" xs arbitrary: n c lo hi rule: utf8_decode_from.induct)
  case (1 n c lo hi)
  then show ?case using utf8_ascii [OF assms(1)] by simp
next
  case (2 n c lo hi b' bs)
  show ?case
  proof (cases "n \<noteq> 0 \<and> lo \<le> b' \<and> b' \<le> hi")
    case True
    then show ?thesis using 2(1,2) by (simp add: Let_def)
  next
    case False
    obtain out m d lo' hi' where lead: "utf8_lead b' = (out, m, d, lo', hi')" by (metis prod_cases5)
    show ?thesis
      using 2(3) [OF False lead [symmetric] refl utf8_lead_low [OF lead]]
      by (simp only: append_Cons utf8_out [OF False lead] append_assoc)
  qed
qed

lemma utf8_start_split: "b < 128 \<Longrightarrow>
  utf8_decode_from utf8_start (xs @ b # ys) = utf8_decode_from utf8_start xs @ b # utf8_decode_from utf8_start ys"
  by (rule utf8_split) simp_all

lemma utf8_start_Nil: "utf8_decode_from utf8_start [] = []"
  by simp

lemma utf8_start_ascii: "list_all (\<lambda>b. b < 128) xs \<Longrightarrow> utf8_decode_from utf8_start (xs @ ys) = xs @ utf8_decode_from utf8_start ys"
  by (induction xs) (simp_all add: utf8_ascii del: utf8_decode_from.simps)

text \<open>No other byte gives an ASCII character: the bounds exclude overlong forms.\<close>

definition utf8_state_ok :: "nat \<times> nat \<times> nat \<times> nat \<Rightarrow> bool" where
  "utf8_state_ok = (\<lambda>(n, c, lo, hi). n \<le> 3 \<and> 128 \<le> lo \<and> (n = 1 \<longrightarrow> 128 \<le> c * 64 + (lo - 128)) \<and>
     (n = 2 \<longrightarrow> 2 \<le> c * 64 + (lo - 128)) \<and> (n = 3 \<longrightarrow> 1 \<le> c * 64 + (lo - 128)))"

lemma utf8_lead_ok: "utf8_lead b = (out, st) \<Longrightarrow> utf8_state_ok st"
  by (auto simp: utf8_lead_def utf8_state_ok_def split: if_splits)

lemma utf8_lead_units: "utf8_lead b = (out, st) \<Longrightarrow> u \<in> set out \<Longrightarrow> u < 128 \<Longrightarrow> u = b"
  by (auto simp: utf8_lead_def split: if_splits)

lemma code_units_high: "128 \<le> c \<Longrightarrow> u \<in> set (code_units c) \<Longrightarrow> 128 \<le> u"
  by (auto simp: code_units_def split: if_splits)

lemma utf8_low:
  assumes "utf8_state_ok st" and "u \<in> set (utf8_decode_from st bs)" and "u < 128"
  shows "u \<in> set bs"
  using assms
proof (induction st bs rule: utf8_decode_from.induct)
  case (1 n c lo hi)
  then show ?case by (simp split: if_splits)
next
  case (2 n c lo hi b bs)
  define d where "d = c * 64 + (b - 128)"
  show ?case
  proof (cases "n \<noteq> 0 \<and> lo \<le> b \<and> b \<le> hi")
    case True
    show ?thesis
    proof (cases "n = 1")
      case one: True
      have "128 \<le> d" using 2(4) True one by (auto simp: utf8_state_ok_def d_def)
      then have "u \<in> set (utf8_decode_from utf8_start bs)"
        using 2(5,6) True one code_units_high [of d u] by (auto simp: Let_def d_def)
      then show ?thesis using 2(1) [OF True d_def one] 2(6) by (simp add: utf8_state_ok_def)
    next
      case more: False
      have "utf8_state_ok (n - 1, d, 0x80, 0xbf)" using 2(4) True more by (auto simp: utf8_state_ok_def d_def)
      moreover have "u \<in> set (utf8_decode_from (n - 1, d, 0x80, 0xbf) bs)" using 2(5) True more by (simp add: Let_def d_def)
      ultimately show ?thesis using 2(2) [OF True d_def more] 2(6) by simp
    qed
  next
    case False
    obtain out st where lead: "utf8_lead b = (out, st)" by (cases "utf8_lead b")
    have "u \<in> set out \<or> u \<in> set (utf8_decode_from st bs)" using 2(5,6) unfolding utf8_out [OF False lead] by (auto split: if_splits)
    then show ?thesis
      using utf8_lead_units [OF lead] 2(3) [OF False lead [symmetric] refl utf8_lead_ok [OF lead]] 2(6) by auto
  qed
qed

definition decoded :: "string \<Rightarrow> js_string" where
  "decoded s = utf8_decode_from utf8_start (units s)"

lemma decoded_Nil [simp]: "decoded [] = []"
  by (simp add: decoded_def)

lemma utf8_lines:
  "decoded (concat (map (\<lambda>l. l @ [CHR 0x0A]) ls)) =
   concat (map (\<lambda>l. l @ [10]) (map decoded ls))"
  unfolding decoded_def by (induction ls) (simp_all add: utf8_start_split units_Cons del: utf8_decode_from.simps add: utf8_start_Nil)

section \<open>Lines and words\<close>

definition visible :: "char \<Rightarrow> bool" where
  "visible c \<longleftrightarrow> 33 \<le> (of_char c :: nat) \<and> (of_char c :: nat) < 127"

lemma visible_units: "list_all visible s \<Longrightarrow> list_all (\<lambda>u. \<not> js_blank u) (units s) \<and> list_all (\<lambda>u. u < 128) (units s)"
  by (induction s) (auto simp: visible_def js_blank_def units_Cons)

lemma js_words_Nil [simp]: "js_words [] = []"
  by (subst js_words.simps) simp

lemma js_words_two:
  assumes "list_all (\<lambda>u. \<not> js_blank u) a" and "a \<noteq> []" and "list_all (\<lambda>u. \<not> js_blank u) b" and "b \<noteq> []"
  shows "js_words (a @ 32 # b) = [a, b]"
proof -
  have blank: "js_blank 32" by (simp add: js_blank_def)
  have a: "\<forall>u \<in> set a. \<not> js_blank u" and b: "\<forall>u \<in> set b. \<not> js_blank u" using assms by (simp_all add: list_all_iff)
  have "dropWhile js_blank (a @ 32 # b) = a @ 32 # b" using a assms(2) by (cases a) auto
  moreover have "js_words (32 # b) = [b]"
  proof -
    have "dropWhile js_blank (32 # b) = b" using b assms(4) blank by (cases b) auto
    moreover have "takeWhile (\<lambda>u. \<not> js_blank u) b = b" "dropWhile (\<lambda>u. \<not> js_blank u) b = []"
      using b by (simp_all add: takeWhile_eq_all_conv dropWhile_eq_Nil_conv)
    ultimately show ?thesis
      using assms(4) by (subst js_words.simps) (simp only: Let_def if_False js_words_Nil)
  qed
  ultimately show ?thesis
    using a assms(2) blank js_words.simps [of "a @ 32 # b"] by (simp add: takeWhile_append dropWhile_append Let_def)
qed

lemma js_words_first:
  assumes "list_all (\<lambda>u. \<not> js_blank u) a" and "a \<noteq> []" and "js_words (a @ rest) = w # ws"
  shows "w = a @ takeWhile (\<lambda>u. \<not> js_blank u) rest"
proof -
  have a: "\<forall>u \<in> set a. \<not> js_blank u" using assms by (simp add: list_all_iff)
  have "dropWhile js_blank (a @ rest) = a @ rest" using a assms(2) by (cases a) auto
  then show ?thesis using assms(2,3) a js_words.simps [of "a @ rest"] by (simp add: takeWhile_append Let_def)
qed

section \<open>What the script reads in a line\<close>

lemma digit_visible: "is_digit c \<Longrightarrow> visible c"
  by (auto simp: is_digit_def visible_def)

lemma show_nat_visible: "list_all visible (show_nat n)"
  using show_nat_digits digit_visible by (auto simp: list_all_iff)

lemma list_all_take_drop: "list_all P s \<Longrightarrow> list_all P (take n s) \<and> list_all P (drop n s)"
  by (auto simp: list_all_iff dest: in_set_takeD in_set_dropD)

lemma with_fraction_visible:
  assumes "list_all visible a" and "list_all visible b"
  shows "list_all visible (with_fraction a b)"
  using assms by (auto simp: with_fraction_def strip_zeros_def list_all_iff visible_def Let_def dest: set_dropWhileD)

lemma print_positive_visible: "list_all visible (print_positive q)"
proof -
  have marks: "visible (CHR ''0'')" "visible (CHR ''e'')" "visible (CHR ''-'')" "visible (CHR ''+'')" by (simp_all add: visible_def)
  have zeros: "list_all visible (replicate n (CHR ''0''))" for n using marks by (simp add: list_all_iff)
  note parts = with_fraction_visible list_all_take_drop [OF show_nat_visible, THEN conjunct1]
    list_all_take_drop [OF show_nat_visible, THEN conjunct2]
  show ?thesis
    unfolding print_positive_def Let_def
    using marks zeros by (simp add: case_prod_beta parts pad_zero_def show_nat_visible)
qed

lemma print_double_visible: "list_all visible (print_double x)"
proof -
  have "visible (CHR ''-'')" "list_all visible ''nan''" "list_all visible ''inf''" "visible (CHR ''0'')" by (simp_all add: visible_def)
  then show ?thesis using print_positive_visible by (simp add: print_double_def split: double.split)
qed

lemma print_double_not_Nil: "print_double x \<noteq> []"
  by (auto simp: print_double_def print_positive_def with_fraction_def Let_def split: double.split prod.split)

lemma char_in_units: "of_char c \<in> set (units s) \<longleftrightarrow> c \<in> set s"
  by (auto simp: units_def)

lemma metric_name_brace: "metric_name name \<Longrightarrow> of_char (CHR ''{'') \<notin> set (units name)"
  unfolding char_in_units by (rule metric_name_props(4))

text \<open>The text of a sample before its value, as the script sees it.\<close>

definition script_text :: "string \<Rightarrow> metric_label list \<Rightarrow> js_string" where
  "script_text name labels = units name @ decoded (labels_text labels)"

lemma labels_text_decoded:
  "labels \<noteq> [] \<Longrightarrow> \<exists>rest. decoded (labels_text labels) = of_char (CHR ''{'') # rest"
  using utf8_start_ascii [of "units ''{''"] by (simp add: labels_text_def decoded_def units_Cons)

lemma sample_line_decoded:
  assumes "list_all visible name"
  shows "decoded (sample_line name m) =
    script_text name (mv_labels m) @ 32 # units (print_double (mv_value m))"
proof -
  have name: "list_all (\<lambda>u. u < 128) (units name)" "list_all (\<lambda>u. u < 128) (units (print_double (mv_value m)))"
    using visible_units assms print_double_visible by blast+
  have "units (sample_line name m) = units name @ units (labels_text (mv_labels m)) @ 32 # units (print_double (mv_value m))"
    by (simp add: sample_line_def units_Cons)
  also have "utf8_decode_from utf8_start \<dots> =
      script_text name (mv_labels m) @ 32 # utf8_decode_from utf8_start (units (print_double (mv_value m)) @ [])"
    using utf8_start_split [of 32] by (simp add: utf8_start_ascii [OF name(1)] script_text_def decoded_def)
  finally show ?thesis using utf8_start_ascii [OF name(2), of "[]"] by (simp add: decoded_def)
qed

lemma script_text_hd:
  assumes "metric_name name"
  shows "script_text name labels \<noteq> []" and "hd (script_text name labels @ rest) \<noteq> of_char (CHR ''#'')"
proof -
  have "name \<noteq> []" and hd: "hd name \<noteq> CHR ''#''" using metric_name_props(1,5) [OF assms] by simp_all
  then obtain c s where name: "name = c # s" by (cases name) auto
  show "script_text name labels \<noteq> []" by (simp add: name script_text_def)
  have "of_char c \<noteq> (of_char (CHR ''#'') :: nat)" unfolding of_char_eq_iff using hd name by simp
  then show "hd (script_text name labels @ rest) \<noteq> of_char (CHR ''#'')" by (simp add: name script_text_def units_Cons)
qed

lemma read_sample_of_family:
  assumes "metric_name name" and "list_all visible name"
    and "read_metric_line (script_text name labels @ 32 # units v) = Some (n, s)"
  shows "n = units name"
proof -
  let ?line = "script_text name labels @ 32 # units v"
  obtain w ws where words: "js_words ?line = w # ws" and n: "n = takeWhile (\<lambda>u. u \<noteq> of_char (CHR ''{'')) w"
    using assms(3) by (auto simp: read_metric_line_def Let_def split: if_splits list.splits)
  define rest where "rest = decoded (labels_text labels) @ 32 # units v"
  have words': "js_words (units name @ rest) = w # ws" using words by (simp add: rest_def script_text_def)
  have w: "w = units name @ takeWhile (\<lambda>u. \<not> js_blank u) rest"
  proof (rule js_words_first [OF _ _ words'])
    show "list_all (\<lambda>u. \<not> js_blank u) (units name)" using visible_units [OF assms(2)] by (rule conjunct1)
    show "units name \<noteq> []" using metric_name_props(1) [OF assms(1)] by (simp add: units_def)
  qed
  have "\<not> js_blank (of_char (CHR ''{''))" and blank: "js_blank 32" by (simp_all add: js_blank_def)
  then have after: "takeWhile (\<lambda>u. \<not> js_blank u) rest = [] \<or> hd (takeWhile (\<lambda>u. \<not> js_blank u) rest) = of_char (CHR ''{'')"
    using labels_text_decoded [of labels] blank by (cases "labels = []") (auto simp: rest_def labels_text_def)
  show ?thesis
    using after metric_name_brace [OF assms(1)] unfolding n w by (cases "takeWhile (\<lambda>u. \<not> js_blank u) rest") (auto simp: takeWhile_append takeWhile_eq_all_conv)
qed

lemma read_sample_plain:
  assumes "metric_name name" and "list_all visible name" and "list_all (\<lambda>u. \<not> js_blank u) (script_text name labels)"
  shows "read_metric_line (script_text name labels @ 32 # units (print_double x)) =
    (let value = js_number (units (print_double x))
     in if is_finite value then Some (units name, \<lparr>js_text = script_text name labels, js_value = value\<rparr>) else None)"
proof -
  have "js_words (script_text name labels @ 32 # units (print_double x)) = [script_text name labels, units (print_double x)]"
    using assms(3) script_text_hd(1) [OF assms(1)] visible_units [OF print_double_visible] print_double_not_Nil
    by (intro js_words_two) (auto simp: units_def)
  moreover have "takeWhile (\<lambda>u. u \<noteq> of_char (CHR ''{'')) (script_text name labels) = units name"
    using labels_text_decoded [of labels] metric_name_brace [OF assms(1)]
    by (cases "labels = []") (auto simp: script_text_def labels_text_def takeWhile_append takeWhile_eq_all_conv)
  ultimately show ?thesis
    using script_text_hd [OF assms(1)] by (simp add: read_metric_line_def Let_def)
qed

section \<open>What the script reads in a page\<close>

definition family_samples :: "js_string \<Rightarrow> js_string list \<Rightarrow> js_sample list" where
  "family_samples name ls = List.map_filter (\<lambda>line. case read_metric_line line of
     None \<Rightarrow> None | Some (n, s) \<Rightarrow> if n = name then Some s else None) ls"

lemma family_samples_simps [simp]:
  "family_samples name [] = []"
  "family_samples name (l # ls) =
    (case read_metric_line l of None \<Rightarrow> [] | Some (n, s) \<Rightarrow> if n = name then [s] else []) @ family_samples name ls"
  by (simp_all add: family_samples_def map_filter_simps split: option.split)

lemma family_samples_append [simp]: "family_samples name (xs @ ys) = family_samples name xs @ family_samples name ys"
  by (simp add: family_samples_def map_filter_def)

lemma samples_of_fold: "samples_of (fold add_metric_line ls []) name = family_samples name ls"
proof (induction ls rule: rev_induct)
  case (snoc l ls)
  then show ?case
    by (auto simp: add_metric_line_def samples_of_def update_conv' split: option.splits)
qed (simp add: samples_of_def)

lemma add_blank_line: "add_metric_line [] metrics = metrics"
  by (simp add: add_metric_line_def read_metric_line_def)

lemma read_header: "read_metric_line (decoded (CHR ''#'' # s)) = None"
  by (simp add: decoded_def units_Cons utf8_ascii read_metric_line_def del: utf8_decode_from.simps)

definition script_sample :: "string \<Rightarrow> metric_value \<Rightarrow> js_sample" where
  "script_sample name m = \<lparr>js_text = script_text name (mv_labels m), js_value = js_number (units (print_double (mv_value m)))\<rparr>"

definition labels_without_blanks :: "string \<Rightarrow> metric_label list \<Rightarrow> bool" where
  "labels_without_blanks name labels \<longleftrightarrow> list_all (\<lambda>u. \<not> js_blank u) (script_text name labels)"

lemma family_samples_lines:
  assumes "list_all entry_ok xs" and "\<forall>(key, m) \<in> set xs. list_all visible (family_name key)"
    and "\<forall>(key, m) \<in> set xs. family_name key = name \<longrightarrow> labels_without_blanks name (mv_labels m)"
  shows "family_samples (units name) (map decoded (render_lines last_name xs)) =
    filter (\<lambda>s. is_finite (js_value s)) (map (\<lambda>(key, m). script_sample name m) (filter (\<lambda>(key, m). family_name key = name) xs))"
  using assms
proof (induction xs arbitrary: last_name)
  case (Cons x xs)
  obtain key m where x: "x = (key, m)" by (cases x)
  obtain n where n: "metric_name n" "family_name key = n" using Cons.prems(1) by (auto simp: x entry_ok_def)
  have vis: "list_all visible n" using Cons.prems(2) by (auto simp: x n)
  let ?line = "decoded (sample_line n m)"
  have line: "family_samples (units name) [?line] =
      (if n = name \<and> is_finite (js_value (script_sample name m)) then [script_sample name m] else [])"
  proof (cases "n = name")
    case True
    then have "labels_without_blanks n (mv_labels m)" using Cons.prems(3) by (auto simp: x n)
    then have "read_metric_line ?line = (let value = js_number (units (print_double (mv_value m)))
        in if is_finite value then Some (units n, \<lparr>js_text = script_text n (mv_labels m), js_value = value\<rparr>) else None)"
      unfolding sample_line_decoded [OF vis] labels_without_blanks_def by (rule read_sample_plain [OF n(1) vis])
    then show ?thesis using True by (simp add: script_sample_def Let_def)
  next
    case False
    then show ?thesis
      by (auto simp: sample_line_decoded [OF vis] split: option.splits dest!: read_sample_of_family [OF n(1) vis])
  qed
  have header: "family_samples (units name) (map decoded (header_lines n kind)) = []" for kind
    by (simp add: header_lines_def read_header del: units_simps)
  have rest: "family_samples (units name) (map decoded (render_lines n xs)) =
    filter (\<lambda>s. is_finite (js_value s)) (map (\<lambda>(key, m). script_sample name m) (filter (\<lambda>(key, m). family_name key = name) xs))"
    by (rule Cons.IH) (use Cons.prems in auto)
  have "family_samples (units name) (map decoded (render_lines last_name (x # xs))) =
      (if n \<noteq> last_name then family_samples (units name) (map decoded (header_lines n (mv_kind m))) else []) @
      family_samples (units name) [?line] @
      family_samples (units name) (map decoded (render_lines n xs))"
    using family_samples_append [of "units name" "[?line]"] by (simp add: x n Let_def)
  then show ?case unfolding header line rest by (simp add: x n)
qed simp

text \<open>
  The script reads in the page of a registry, for a family whose labels have no blanks, exactly its finite samples in the order
  of the page.
\<close>

lemma script_reads_family:
  assumes "registry_ok reg" and "\<forall>(key, m) \<in> set reg. list_all visible (family_name key)"
    and "\<forall>(key, m) \<in> set reg. family_name key = name \<longrightarrow> labels_without_blanks name (mv_labels m)"
  shows "samples_of (parse_metrics (response_text (render_prometheus reg))) (units name) =
    filter (\<lambda>s. is_finite (js_value s))
      (map (\<lambda>(key, m). script_sample name m) (filter (\<lambda>(key, m). family_name key = name) (snapshot reg)))"
proof -
  define ls where "ls = render_lines [] (snapshot reg)"
  have ok: "list_all entry_ok (snapshot reg)" using assms(1) by (simp add: registry_ok_def list_all_iff)
  have page: "render_prometheus reg = concat (map (\<lambda>l. l @ [CHR 0x0A]) ls)"
    by (simp add: render_prometheus_def newline_char_def ls_def)
  have start: "ls = [] \<or> (\<exists>s rest. ls = (CHR ''#'' # s) # rest)"
  proof (cases "snapshot reg")
    case (Cons x xs)
    then obtain key m where x: "x = (key, m)" "entry_ok (key, m)" using ok by (cases x) auto
    then have "family_name key \<noteq> []" using metric_name_props(1) by (auto simp: entry_ok_def)
    then show ?thesis by (simp add: ls_def Cons x(1) Let_def header_lines_def)
  qed (simp add: ls_def)
  have "response_text (render_prometheus reg) = decoded (render_prometheus reg)"
    using start by (auto simp: response_text_def page Let_def decoded_def units_Cons)
  also have "\<dots> = concat (map (\<lambda>l. l @ [10]) (map decoded ls))"
    unfolding page by (rule utf8_lines)
  finally have body: "response_text (render_prometheus reg) =
      concat (map (\<lambda>l. l @ [10]) (map decoded ls))" .
  have "10 \<notin> set (decoded l)" if "l \<in> set ls" for l
  proof
    assume "10 \<in> set (decoded l)"
    then have "10 \<in> set (units l)" using utf8_low [of utf8_start 10 "units l"] by (simp add: utf8_state_ok_def decoded_def)
    then have "CHR 0x0A \<in> set l" using char_in_units [of "CHR 0x0A" l] by simp
    then show False using render_lines_newline [OF ok, of l "[]"] that by (simp add: ls_def)
  qed
  then have "js_split 10 (response_text (render_prometheus reg)) = map decoded ls @ [[]]"
    unfolding body by (intro js_split_lines) auto
  then have "samples_of (parse_metrics (response_text (render_prometheus reg))) (units name) =
      family_samples (units name) (map decoded ls)"
    by (simp add: parse_metrics_def add_blank_line samples_of_fold)
  then show ?thesis unfolding ls_def using family_samples_lines [OF ok] assms(2,3) by simp
qed

section \<open>Whole numbers\<close>

lemma ascii_number_show:
  assumes "n \<le> 2 ^ 53"
  shows "ascii_number (show_nat n) = Fin (of_nat n)"
proof -
  have digits: "list_all is_digit (show_nat n)" using show_nat_digits by (auto simp: list_all_iff)
  have low: "to_lower c = c" if "is_digit c" for c using that by (auto simp: to_lower_def is_digit_def)
  have "map to_lower (take 2 (show_nat n)) = take 2 (show_nat n)"
    using digits low by (intro map_idI) (auto simp: list_all_iff dest: in_set_takeD)
  moreover have "\<forall>x \<in> {CHR ''x'', CHR ''o'', CHR ''b''}. take 2 (show_nat n) \<noteq> [CHR ''0'', x]"
  proof
    fix x
    assume x: "x \<in> {CHR ''x'', CHR ''o'', CHR ''b''}"
    show "take 2 (show_nat n) \<noteq> [CHR ''0'', x]"
    proof
      assume "take 2 (show_nat n) = [CHR ''0'', x]"
      then have "x \<in> set (show_nat n)" by (metis in_set_takeD list.set_intros)
      then show False using digits x by (auto simp: list_all_iff is_digit_def)
    qed
  qed
  ultimately have radix: "radix_number (show_nat n) = None" by (simp add: radix_number_def lowercase_def)
  have hd: "is_digit (hd (show_nat n))" using digits by (cases "show_nat n") (auto dest: arg_cong [of _ _ "\<lambda>s. s = []"])
  have sign: "hd (show_nat n) \<noteq> CHR ''-''" "hd (show_nat n) \<notin> {CHR ''-'', CHR ''+''}" using hd by (auto simp: is_digit_def)
  have all: "takeWhile is_digit (show_nat n) = show_nat n" "dropWhile is_digit (show_nat n) = []"
    using digits by (simp_all add: takeWhile_eq_all_conv dropWhile_eq_Nil_conv list_all_iff)
  have scan: "scan_decimal (show_nat n) = Some (of_nat n, [])"
    by (simp add: scan_decimal_def scan_mantissa_def all scan_exponent_def Let_def)
  have "show_nat n \<noteq> ''Infinity''" using hd by (auto simp: is_digit_def)
  then show ?thesis
    using radix sign scan round_double_of_nat [OF assms] by (simp add: ascii_number_def Let_def)
qed

lemma js_number_whole:
  assumes "n < 10 ^ 12"
  shows "js_number (units (print_double (Fin (of_nat n)))) = Fin (of_nat n)"
proof -
  have "list_all (\<lambda>u. u < 128) (units (show_nat n))" using visible_units [OF show_nat_visible] by blast
  moreover have "map char_of (units (show_nat n)) = show_nat n" by (simp add: units_def comp_def)
  moreover have "n \<le> 2 ^ 53" using assms by simp
  ultimately show ?thesis by (simp add: print_double_whole [OF assms] js_number_def ascii_number_show)
qed

end
