(* ===== verification/Status_Page.thy ===== *)
theory Status_Page
  imports Monitor_Metrics Status_Script
begin

text \<open>
  The status page over the pages that the monitor renders: what a refresh of the script in \<^verbatim>\<open>src/runtime/metrics_server.cpp\<close>
  shows after any run of recordings. The lemmas follow the values of a scrape through the registry, the text of the page
  and the parser of the script to the elements of the status page.
\<close>

section \<open>Families with known samples\<close>

text \<open>An update that puts only the listed keys into a family.\<close>

definition adds_within :: "string \<Rightarrow> string set \<Rightarrow> (registry \<Rightarrow> registry) \<Rightarrow> bool" where
  "adds_within name keys f \<longleftrightarrow> (\<forall>reg key. family_name key = name \<longrightarrow> key \<notin> keys \<longrightarrow> map_of (f reg) key = map_of reg key)"

lemma adds_set:
  assumes "metric_name n" and "n = name \<longrightarrow> metric_key n ls \<in> keys"
  shows "adds_within name keys (set_gauge n v ls)" and "adds_within name keys (set_counter n v ls)"
  using assms by (auto simp: adds_within_def)

lemma adds_apply:
  assumes "\<forall>f \<in> set fs. adds_within name keys f" and "family_name key = name" and "key \<notin> keys"
  shows "map_of (mm_registry (apply_updates fs m)) key = map_of (mm_registry m) key"
proof -
  have "map_of (fold id fs reg) key = map_of reg key" for reg
    using assms by (induction fs arbitrary: reg) (auto simp: adds_within_def)
  then show ?thesis by (simp add: apply_updates_def)
qed

definition queue_labels :: "metric_label list list" where
  "queue_labels = [[label ''queue'' ''sink''], [label ''queue'' ''source'']]"

definition failure_labels :: "metric_label list list" where
  "failure_labels = map (\<lambda>collector. [label ''collector'' collector]) [''cpu_usage'', ''io_delay'', ''meminfo'', ''sched_delay'', ''self_status'']"

definition known_labels :: "string \<Rightarrow> metric_label list list" where
  "known_labels name = (if name = ''minilisysm_collector_failures_total'' then failure_labels else queue_labels)"

definition known_families :: "string list" where
  "known_families = [''minilisysm_queue_depth'', ''minilisysm_queue_capacity'', ''minilisysm_queue_dropped_total'',
     ''minilisysm_collector_failures_total'']"

abbreviation known_keys :: "string \<Rightarrow> string set" where
  "known_keys name \<equiv> metric_key name ` set (known_labels name)"

lemmas adds_facts = adds_set metric_name_def plain_text_def known_labels_def queue_labels_def failure_labels_def

lemma scrape_adds:
  assumes "name \<in> set known_families"
  shows "\<forall>f \<in> set (runtime_updates i @ failure_updates i @ ebpf_updates st). adds_within name (known_keys name) f"
proof -
  have name: "name = ''minilisysm_queue_depth'' \<or> name = ''minilisysm_queue_capacity'' \<or> name = ''minilisysm_queue_dropped_total'' \<or>
      name = ''minilisysm_collector_failures_total''"
    using assms by (simp add: known_families_def)
  have "\<forall>f \<in> set (queue_updates q). adds_within name (known_keys name) f" for q
    using name by (elim disjE) (simp_all add: queue_updates_def adds_facts)
  moreover have "\<forall>f \<in> set (sink_updates entry). adds_within name (known_keys name) f" for entry
    using name by (elim disjE) (simp_all add: sink_updates_def adds_facts Let_def case_prod_beta)
  moreover have "adds_within name (known_keys name) (set_gauge ''minilisysm_up'' v [])"
      "adds_within name (known_keys name) (set_counter ''minilisysm_events_published_total'' v [])" for v
    using name by (elim disjE; simp add: adds_facts)+
  moreover have "\<forall>f \<in> set (failure_updates i). adds_within name (known_keys name) f"
    using name by (elim disjE) (simp_all add: failure_updates_def adds_facts)
  moreover have "\<forall>f \<in> set (ebpf_updates st). adds_within name (known_keys name) f"
    using name by (elim disjE) (simp_all add: ebpf_updates_def adds_facts)
  ultimately show ?thesis by (auto simp: runtime_updates_def)
qed

lemma known_only:
  assumes "name \<in> set known_families" and "family_name key = name" and "key \<notin> known_keys name"
  shows "map_of (page_registry cfg calls i) key = None"
proof -
  have render: "map_of (mm_registry (fst (render cfg i m))) key = map_of (mm_registry m) key" for i m
  proof -
    have "\<forall>f \<in> set (runtime_updates i). adds_within name (known_keys name) f"
      "\<forall>f \<in> set (failure_updates i @ ebpf_updates (sc_sched_stats i)). adds_within name (known_keys name) f"
      using scrape_adds [OF assms(1), of i "sc_sched_stats i"] by simp_all
    from this [THEN adds_apply, OF assms(2,3)] show ?thesis by (simp add: render_def Let_def)
  qed
  have "map_of (mm_registry (metrics_step cfg call m)) key = map_of (mm_registry m) key" for call m
  proof (cases "name \<in> call_families call")
    case True
    then obtain i where "call = Scrape i" using assms(1) by (cases call) (auto simp: known_families_def)
    then show ?thesis using render by simp
  qed (rule step_spares [OF _ assms(2)])
  then have "map_of (mm_registry (metrics_run cfg calls)) key = None"
    by (induction calls rule: rev_induct) (simp_all add: metrics_run_append metrics_run_def new_monitor_metrics_def)
  then show ?thesis using render by (simp add: page_registry_def)
qed

section \<open>The samples of a family in their order\<close>

lemma visible_families: "list_all (\<lambda>(name, kind, keys). list_all visible name) schema_table"
  by (simp add: schema_table_def visible_def)

lemma page_visible: "\<forall>(key, m) \<in> set (page_registry cfg calls i). list_all visible (family_name key)"
proof clarify
  fix key m
  assume "(key, m) \<in> set (page_registry cfg calls i)"
  from page.conforming_family(1) [OF page_conforms this]
  show "list_all visible (family_name key)"
    using visible_families by (auto simp: monitor_schema_def list_all_iff dest!: map_of_SomeD)
qed

text \<open>A family whose keys are known stands in the snapshot in the order of the keys.\<close>

lemma family_snapshot:
  fixes reg :: registry
  assumes "distinct (map fst reg)" and "sorted ks" and "distinct ks"
    and "\<forall>key. family_name key = name \<and> map_of reg key \<noteq> None \<longleftrightarrow> key \<in> set ks"
  shows "filter (\<lambda>(key, m). family_name key = name) (snapshot reg) = map (\<lambda>k. (k, the (map_of reg k))) ks"
proof -
  let ?xs = "filter (\<lambda>(key, m). family_name key = name) (snapshot reg)"
  have lookup: "(key, m) \<in> set reg \<longleftrightarrow> map_of reg key = Some m" for key m using assms(1) by (simp add: map_of_eq_Some_iff)
  have "mset (map fst (snapshot reg)) = mset (map fst reg)" by (simp add: snapshot_def)
  then have "distinct (map fst (snapshot reg))" using assms(1) mset_eq_imp_distinct_iff by blast
  then have "distinct (map fst ?xs)" by (rule distinct_map_filter)
  moreover have "sorted (map fst (snapshot reg))" by (simp add: snapshot_def)
  then have "sorted (map fst ?xs)" by (rule sorted_filter)
  moreover have "set (map fst ?xs) = set ks"
  proof -
    have "key \<in> set (map fst ?xs) \<longleftrightarrow> (\<exists>m. (key, m) \<in> set reg) \<and> family_name key = name" for key by force
    then have "key \<in> set (map fst ?xs) \<longleftrightarrow> key \<in> set ks" for key using assms(4) [THEN spec, of key] by (simp add: lookup) blast
    then show ?thesis by blast
  qed
  ultimately have keys: "map fst ?xs = ks" using assms(2,3) by (metis sorted_distinct_set_unique)
  have "?xs = map (\<lambda>x. (fst x, the (map_of reg (fst x)))) ?xs"
    by (rule map_idI [symmetric]) (auto simp: lookup)
  also have "\<dots> = map (\<lambda>k. (k, the (map_of reg k))) (map fst ?xs)" by (simp only: map_map comp_def)
  finally show ?thesis by (simp only: keys)
qed

text \<open>What the script reads in such a family.\<close>

lemma script_reads_known:
  assumes "metric_name name" and "sorted (map (metric_key name) lss)" and "distinct (map (metric_key name) lss)"
    and "\<forall>key. family_name key = name \<longrightarrow> key \<notin> metric_key name ` set lss \<longrightarrow> map_of (page_registry cfg calls i) key = None"
    and "\<forall>ls \<in> set lss. map_of (page_registry cfg calls i) (metric_key name ls) = Some \<lparr>mv_kind = kind, mv_value = v ls, mv_labels = ls\<rparr>"
    and "\<forall>ls \<in> set lss. labels_without_blanks name ls"
  shows "samples_of (parse_metrics (response_text (page_of cfg calls i))) (units name) =
    filter (\<lambda>s. is_finite (js_value s))
      (map (\<lambda>ls. \<lparr>js_text = script_text name ls, js_value = js_number (units (print_double (v ls)))\<rparr>) lss)"
proof -
  let ?reg = "page_registry cfg calls i"
  have distinct: "distinct (map fst ?reg)" using page_conforms by (simp add: conforms_def)
  have "\<forall>key. family_name key = name \<and> map_of ?reg key \<noteq> None \<longleftrightarrow> key \<in> set (map (metric_key name) lss)"
    using assms(1,4,5) by auto
  then have family: "filter (\<lambda>(key, m). family_name key = name) (snapshot ?reg) =
      map (\<lambda>k. (k, the (map_of ?reg k))) (map (metric_key name) lss)"
    using distinct assms(2,3) by (intro family_snapshot)
  have "\<forall>(key, m) \<in> set ?reg. family_name key = name \<longrightarrow> labels_without_blanks name (mv_labels m)"
  proof clarify
    fix key m
    assume "(key, m) \<in> set ?reg" "name = family_name key"
    then have "(key, m) \<in> set (filter (\<lambda>(key, m). family_name key = name) (snapshot ?reg))" by simp
    then show "labels_without_blanks (family_name key) (mv_labels m)" unfolding family using assms(1,5,6) by auto
  qed
  note reads = script_reads_family [OF page_ok page_visible this]
  show ?thesis
    unfolding page_of_registry reads family using assms(5) by (simp add: script_sample_def comp_def cong: map_cong)
qed

section \<open>Whole numbers on the page\<close>

lemma u64_read:
  assumes "unat w < 10 ^ 12"
  shows "js_number (units (print_double (double_of_u64 w))) = Fin (of_nat (unat w))"
proof -
  have "double_of_u64 w = Fin (of_nat (unat w))" using assms by (intro double_of_u64_exact) simp
  then show ?thesis using js_number_whole [OF assms] by simp
qed

lemma whole_text:
  assumes "n < 10 ^ 21"
  shows "format_number (Fin (of_nat n)) 0 = units (show_nat n)"
proof -
  have "\<lfloor>(of_nat n :: rat) + 1 / 2\<rfloor> = int n" by (rule floor_unique) simp_all
  moreover have "\<not> (10 :: rat) ^ 21 \<le> of_nat n" using assms by (metis not_le of_nat_less_numeral_power_cancel_iff)
  ultimately show ?thesis by (simp add: format_number_def is_finite_def to_fixed_def fixed_text_def)
qed

lemma script_text_plain:
  assumes "list_all visible (labels_text ls)"
  shows "script_text name ls = units (name @ labels_text ls)"
proof -
  have "list_all (\<lambda>u. u < 128) (units (labels_text ls))" using visible_units [OF assms] by blast
  then show ?thesis using utf8_start_ascii [of "units (labels_text ls)" "[]"] by (simp add: script_text_def decoded_def)
qed

lemma plain_labels:
  "list_all visible name \<Longrightarrow> list_all visible (labels_text ls) \<Longrightarrow> labels_without_blanks name ls"
  using visible_units [of "name @ labels_text ls"] by (simp add: labels_without_blanks_def script_text_plain)

lemma known_labels_visible: "list_all (list_all visible \<circ> labels_text) (queue_labels @ failure_labels)"
  by (simp add: queue_labels_def failure_labels_def labels_text_def label_text_def visible_def)

lemma known_names: "list_all (\<lambda>name. metric_name name \<and> list_all visible name) known_families"
  by (simp add: known_families_def metric_name_def plain_text_def visible_def)

lemma known_sorted:
  assumes "name \<in> set known_families"
  shows "sorted (map (metric_key name) (known_labels name)) \<and> distinct (map (metric_key name) (known_labels name))"
  using assms by (auto simp: known_families_def known_labels_def queue_labels_def failure_labels_def metric_key_def label_key_def)

text \<open>The samples that the script has of the queues and of the failures of collectors.\<close>

lemma known_read:
  assumes "name \<in> set known_families" and "\<forall>ls \<in> set (known_labels name). unat (v ls) < 10 ^ 12"
    and "\<forall>ls \<in> set (known_labels name). map_of (page_registry cfg calls i) (metric_key name ls) =
      Some \<lparr>mv_kind = kind, mv_value = double_of_u64 (v ls), mv_labels = ls\<rparr>"
  shows "samples_of (parse_metrics (response_text (page_of cfg calls i))) (units name) =
    map (\<lambda>ls. \<lparr>js_text = units (name @ labels_text ls), js_value = Fin (of_nat (unat (v ls)))\<rparr>) (known_labels name)"
proof -
  have name: "metric_name name" "list_all visible name" using assms(1) known_names by (auto simp: list_all_iff)
  have labels: "\<forall>ls \<in> set (known_labels name). list_all visible (labels_text ls)"
    using known_labels_visible by (auto simp: list_all_iff known_labels_def)
  have "samples_of (parse_metrics (response_text (page_of cfg calls i))) (units name) =
    filter (\<lambda>s. is_finite (js_value s)) (map (\<lambda>ls. \<lparr>js_text = script_text name ls,
      js_value = js_number (units (print_double (double_of_u64 (v ls))))\<rparr>) (known_labels name))"
    using name known_sorted [OF assms(1)] known_only [OF assms(1)] assms(3) labels plain_labels
    by (intro script_reads_known [where kind = kind]) simp_all
  also have "\<dots> = filter (\<lambda>s. is_finite (js_value s)) (map (\<lambda>ls. \<lparr>js_text = units (name @ labels_text ls),
      js_value = Fin (of_nat (unat (v ls)))\<rparr>) (known_labels name))"
    using assms(2) labels script_text_plain u64_read by (simp cong: map_cong)
  finally show ?thesis by (simp add: filter_map comp_def is_finite_def)
qed

section \<open>The rows of the queues\<close>

lemma queue_lookup:
  assumes "metrics_scrape_runtime cfg" and "family_name key = name" and "name \<in> set known_families"
    and "name \<noteq> ''minilisysm_collector_failures_total''"
  shows "map_of (page_registry cfg calls i) key = map_of (fold id (queue_updates (sc_queues i))
    (fold id (take 2 (runtime_updates i)) (mm_registry (metrics_run cfg calls)))) key"
proof -
  have name: "name = ''minilisysm_queue_depth'' \<or> name = ''minilisysm_queue_capacity'' \<or> name = ''minilisysm_queue_dropped_total''"
    using assms(3,4) by (simp add: known_families_def)
  have "\<forall>f \<in> set (sink_updates entry). spares name f" for entry
    using name by (elim disjE) (simp_all add: sink_updates_def spares_facts Let_def case_prod_beta)
  then have sinks: "\<forall>f \<in> set (concat (map sink_updates (sc_sink_stats i))). spares name f" by auto
  have rest: "\<forall>f \<in> set (failure_updates i @ ebpf_updates (sc_sched_stats i)). spares name f"
    using name by (elim disjE) (simp_all add: failure_updates_def ebpf_updates_def spares_facts)
  have split: "apply_updates (runtime_updates i) m = apply_updates (concat (map sink_updates (sc_sink_stats i)))
      (apply_updates (queue_updates (sc_queues i)) (apply_updates (take 2 (runtime_updates i)) m))" for m
    by (simp add: runtime_updates_def apply_updates_def)
  have "map_of (page_registry cfg calls i) key = map_of (mm_registry (apply_updates (queue_updates (sc_queues i))
      (apply_updates (take 2 (runtime_updates i)) (metrics_run cfg calls)))) key"
    using assms(1,2) spares_apply [OF sinks] spares_apply [OF rest] by (simp add: page_registry_def render_def Let_def split)
  then show ?thesis by (simp add: apply_updates_def)
qed

definition queue_field :: "(queue_snapshot \<Rightarrow> u64) \<Rightarrow> (queue_snapshot \<Rightarrow> u64) \<Rightarrow> scrape_input \<Rightarrow> metric_label list \<Rightarrow> u64" where
  "queue_field source sink i ls = (if ls = [label ''queue'' ''source''] then source (sc_queues i) else sink (sc_queues i))"

lemma queue_values:
  assumes "metrics_scrape_runtime cfg"
  shows "\<forall>ls \<in> set queue_labels. map_of (page_registry cfg calls i) (metric_key ''minilisysm_queue_depth'' ls) =
      Some \<lparr>mv_kind = Gauge, mv_value = double_of_u64 (queue_field qs_depth qs_sink_depth i ls), mv_labels = ls\<rparr>"
    and "\<forall>ls \<in> set queue_labels. map_of (page_registry cfg calls i) (metric_key ''minilisysm_queue_capacity'' ls) =
      Some \<lparr>mv_kind = Gauge, mv_value = double_of_u64 (queue_field qs_capacity qs_sink_capacity i ls), mv_labels = ls\<rparr>"
    and "\<forall>ls \<in> set queue_labels. map_of (page_registry cfg calls i) (metric_key ''minilisysm_queue_dropped_total'' ls) =
      Some \<lparr>mv_kind = Counter, mv_value = double_of_u64 (queue_field qs_dropped_count qs_sink_dropped_count i ls), mv_labels = ls\<rparr>"
proof -
  have names: "list_all (\<lambda>name. metric_name name) known_families" using known_names by (simp add: list_all_iff)
  have key: "map_of (page_registry cfg calls i) (metric_key name ls) = map_of (fold id (queue_updates (sc_queues i))
      (fold id (take 2 (runtime_updates i)) (mm_registry (metrics_run cfg calls)))) (metric_key name ls)"
    if "name \<in> set known_families" "name \<noteq> ''minilisysm_collector_failures_total''" for name ls
    using names that by (intro queue_lookup [OF assms]) (auto simp: list_all_iff)
  have "\<forall>ls \<in> set queue_labels. map_of (fold id (queue_updates (sc_queues i)) reg) (metric_key ''minilisysm_queue_depth'' ls) =
      Some \<lparr>mv_kind = Gauge, mv_value = double_of_u64 (queue_field qs_depth qs_sink_depth i ls), mv_labels = ls\<rparr>" for reg
    by (simp add: queue_labels_def queue_updates_def metric_key_def label_key_def queue_field_def label_def)
  then show "\<forall>ls \<in> set queue_labels. map_of (page_registry cfg calls i) (metric_key ''minilisysm_queue_depth'' ls) =
      Some \<lparr>mv_kind = Gauge, mv_value = double_of_u64 (queue_field qs_depth qs_sink_depth i ls), mv_labels = ls\<rparr>"
    by (simp add: key known_families_def)
  have "\<forall>ls \<in> set queue_labels. map_of (fold id (queue_updates (sc_queues i)) reg) (metric_key ''minilisysm_queue_capacity'' ls) =
      Some \<lparr>mv_kind = Gauge, mv_value = double_of_u64 (queue_field qs_capacity qs_sink_capacity i ls), mv_labels = ls\<rparr>" for reg
    by (simp add: queue_labels_def queue_updates_def metric_key_def label_key_def queue_field_def label_def)
  then show "\<forall>ls \<in> set queue_labels. map_of (page_registry cfg calls i) (metric_key ''minilisysm_queue_capacity'' ls) =
      Some \<lparr>mv_kind = Gauge, mv_value = double_of_u64 (queue_field qs_capacity qs_sink_capacity i ls), mv_labels = ls\<rparr>"
    by (simp add: key known_families_def)
  have "\<forall>ls \<in> set queue_labels. map_of (fold id (queue_updates (sc_queues i)) reg) (metric_key ''minilisysm_queue_dropped_total'' ls) =
      Some \<lparr>mv_kind = Counter, mv_value = double_of_u64 (queue_field qs_dropped_count qs_sink_dropped_count i ls), mv_labels = ls\<rparr>" for reg
    by (simp add: queue_labels_def queue_updates_def metric_key_def label_key_def queue_field_def label_def)
  then show "\<forall>ls \<in> set queue_labels. map_of (page_registry cfg calls i) (metric_key ''minilisysm_queue_dropped_total'' ls) =
      Some \<lparr>mv_kind = Counter, mv_value = double_of_u64 (queue_field qs_dropped_count qs_sink_dropped_count i ls), mv_labels = ls\<rparr>"
    by (simp add: key known_families_def)
qed

lemma queue_read:
  assumes "name \<in> {''minilisysm_queue_depth'', ''minilisysm_queue_capacity'', ''minilisysm_queue_dropped_total''}"
    and "\<forall>ls \<in> set queue_labels. unat (v ls) < 10 ^ 12"
    and "\<forall>ls \<in> set queue_labels. map_of (page_registry cfg calls i) (metric_key name ls) =
      Some \<lparr>mv_kind = kind, mv_value = double_of_u64 (v ls), mv_labels = ls\<rparr>"
  shows "samples_of (parse_metrics (response_text (page_of cfg calls i))) (units name) =
    map (\<lambda>ls. \<lparr>js_text = units (name @ labels_text ls), js_value = Fin (of_nat (unat (v ls)))\<rparr>) queue_labels"
proof -
  have name: "name \<in> set known_families" and labels: "known_labels name = queue_labels"
    using assms(1) by (auto simp: known_families_def known_labels_def)
  show ?thesis using known_read [OF name, unfolded labels, OF assms(2,3)] .
qed

text \<open>The selector of a queue finds the sample of that queue.\<close>

lemma queue_selected:
  assumes "name \<in> {''minilisysm_queue_depth'', ''minilisysm_queue_capacity'', ''minilisysm_queue_dropped_total''}"
    and "samples_of metrics (units name) = map (\<lambda>ls. \<lparr>js_text = units (name @ labels_text ls), js_value = v ls\<rparr>) queue_labels"
  shows "pick metrics name (Some (queue_selector ''source'')) = v [label ''queue'' ''source'']"
    and "pick metrics name (Some (queue_selector ''sink'')) = v [label ''queue'' ''sink'']"
proof -
  have found: "list_all (\<lambda>name. list_all (\<lambda>queue. list_all (\<lambda>queue'.
      sublist (units (queue_selector queue)) (units (name @ labels_text [label ''queue'' queue'])) = (queue = queue'))
      [''source'', ''sink'']) [''source'', ''sink'']) [''minilisysm_queue_depth'', ''minilisysm_queue_capacity'', ''minilisysm_queue_dropped_total'']"
    by code_simp
  show "pick metrics name (Some (queue_selector ''source'')) = v [label ''queue'' ''source'']"
    "pick metrics name (Some (queue_selector ''sink'')) = v [label ''queue'' ''sink'']"
    using found assms by (auto simp: pick_def Let_def queue_labels_def)
qed

definition queue_count :: "scrape_input \<Rightarrow> (queue_snapshot \<Rightarrow> u64) \<Rightarrow> double" where
  "queue_count i f = Fin (of_nat (unat (f (sc_queues i))))"

text \<open>
  The row of each queue on the status page has the depth, the capacity and the losses that the monitor measured for this scrape,
  digit for digit below \<open>10 ^ 12\<close>, and the bar their quotient, whatever was recorded before.
\<close>

theorem queue_rows_exact:
  assumes "metrics_scrape_runtime cfg" and "\<forall>f \<in> {qs_depth, qs_capacity, qs_dropped_count, qs_sink_depth, qs_sink_capacity,
      qs_sink_dropped_count}. unat (f (sc_queues i)) < 10 ^ 12"
  shows "vw_queues (refresh (Inr (page_of cfg calls i)) time view) =
    queue_row CapSourceQueue (queue_count i qs_depth) (queue_count i qs_capacity) (queue_count i qs_dropped_count) @
    queue_row CapSinkQueue (queue_count i qs_sink_depth) (queue_count i qs_sink_capacity) (queue_count i qs_sink_dropped_count)"
proof -
  define metrics where "metrics = parse_metrics (response_text (page_of cfg calls i))"
  have depth: "samples_of metrics (units ''minilisysm_queue_depth'') = map (\<lambda>ls. \<lparr>js_text = units (''minilisysm_queue_depth'' @ labels_text ls),
      js_value = Fin (of_nat (unat (queue_field qs_depth qs_sink_depth i ls)))\<rparr>) queue_labels"
    unfolding metrics_def by (rule queue_read [OF _ _ queue_values(1) [OF assms(1)]]) (use assms(2) in \<open>simp_all add: queue_field_def\<close>)
  have capacity: "samples_of metrics (units ''minilisysm_queue_capacity'') = map (\<lambda>ls. \<lparr>js_text = units (''minilisysm_queue_capacity'' @ labels_text ls),
      js_value = Fin (of_nat (unat (queue_field qs_capacity qs_sink_capacity i ls)))\<rparr>) queue_labels"
    unfolding metrics_def by (rule queue_read [OF _ _ queue_values(2) [OF assms(1)]]) (use assms(2) in \<open>simp_all add: queue_field_def\<close>)
  have dropped: "samples_of metrics (units ''minilisysm_queue_dropped_total'') = map (\<lambda>ls. \<lparr>js_text = units (''minilisysm_queue_dropped_total'' @ labels_text ls),
      js_value = Fin (of_nat (unat (queue_field qs_dropped_count qs_sink_dropped_count i ls)))\<rparr>) queue_labels"
    unfolding metrics_def by (rule queue_read [OF _ _ queue_values(3) [OF assms(1)]]) (use assms(2) in \<open>simp_all add: queue_field_def\<close>)
  note picked = queue_selected [OF _ depth] queue_selected [OF _ capacity] queue_selected [OF _ dropped]
  have "vw_queues (refresh (Inr (page_of cfg calls i)) time view) = render_queues metrics"
    by (simp add: refresh_def Let_def metrics_def)
  then show ?thesis by (simp add: render_queues_def picked queue_field_def queue_count_def label_def)
qed

section \<open>The state of the agent\<close>

lemma single_only:
  assumes "monitor_schema name = Some (kind, [])" and "family_name key = name" and "key \<noteq> name"
  shows "map_of (page_registry cfg calls i) key = None"
proof (rule ccontr)
  assume "map_of (page_registry cfg calls i) key \<noteq> None"
  then obtain m where "(key, m) \<in> set (page_registry cfg calls i)" by (auto dest: map_of_SomeD)
  from page.conforming_family [OF page_conforms this] show False
    using assms by (simp add: metric_key_def)
qed

lemma single_labels: "metric_name name \<Longrightarrow> list_all visible name \<Longrightarrow> labels_without_blanks name []"
  by (rule plain_labels) (simp_all add: labels_text_def)

lemma up_value:
  assumes "metrics_scrape_runtime cfg"
  shows "map_of (page_registry cfg calls i) ''minilisysm_up'' =
    Some \<lparr>mv_kind = Gauge, mv_value = (if sc_running i then Fin 1 else Fin 0), mv_labels = []\<rparr>"
proof -
  let ?name = "''minilisysm_up''"
  have key: "family_name ?name = ?name" by (rule family_name_plain) (simp add: metric_name_def plain_text_def)
  have "\<forall>f \<in> set (queue_updates q). spares ?name f" for q by (simp add: queue_updates_def spares_facts)
  moreover have "\<forall>f \<in> set (sink_updates st). spares ?name f" for st
    by (simp add: sink_updates_def spares_facts Let_def case_prod_beta)
  ultimately have after: "\<forall>f \<in> set (set_counter ''minilisysm_events_published_total'' (double_of_u64 (sc_next_sequence i - 1)) [] #
      queue_updates (sc_queues i) @ concat (map sink_updates (sc_sink_stats i))). spares ?name f"
    by (auto simp: spares_facts)
  have rest: "\<forall>f \<in> set (failure_updates i @ ebpf_updates (sc_sched_stats i)). spares ?name f"
    by (simp add: failure_updates_def ebpf_updates_def spares_facts)
  have "map_of (mm_registry (apply_updates (runtime_updates i) m)) ?name =
      Some \<lparr>mv_kind = Gauge, mv_value = (if sc_running i then Fin 1 else Fin 0), mv_labels = []\<rparr>" for m
    using apply_in [OF after key, of "[]"] by (simp add: runtime_updates_def metric_key_def)
  then show ?thesis
    using assms(1) spares_apply [OF rest key] by (simp add: page_registry_def render_def Let_def)
qed

lemma up_picked:
  assumes "metrics_scrape_runtime cfg"
  shows "pick (parse_metrics (response_text (page_of cfg calls i))) ''minilisysm_up'' None = (if sc_running i then Fin 1 else Fin 0)"
proof -
  let ?name = "''minilisysm_up''"
  have name: "metric_name ?name" "list_all visible ?name" by (simp_all add: metric_name_def plain_text_def visible_def)
  have schema: "monitor_schema ?name = Some (Gauge, [])" by (simp add: schema_lookup)
  have "samples_of (parse_metrics (response_text (page_of cfg calls i))) (units ?name) =
    filter (\<lambda>s. is_finite (js_value s)) (map (\<lambda>ls. \<lparr>js_text = script_text ?name ls,
      js_value = js_number (units (print_double (if sc_running i then Fin 1 else Fin 0)))\<rparr>) [[]])"
    using name single_only [OF schema] up_value [OF assms] single_labels [OF name]
    by (intro script_reads_known [where kind = Gauge]) (simp_all add: metric_key_def)
  moreover have "js_number (units (print_double (Fin 1))) = Fin 1" "js_number (units (print_double (Fin 0))) = Fin 0"
    using js_number_whole [of 1] js_number_whole [of 0] by simp_all
  ultimately show ?thesis by (simp add: pick_def is_finite_def Let_def)
qed

text \<open>
  The page says that the service runs exactly when the monitor ran at the scrape. The card of the agent, though, is never
  styled as good: the value 1 of a running agent is at the threshold of a warning.
\<close>

theorem agent_card_never_ok:
  assumes "metrics_scrape_runtime cfg"
  shows "vw_dot_class (refresh (Inr (page_of cfg calls i)) time view) = units (if sc_running i then ''dot ok'' else ''dot bad'') \<and>
    prefix (card_article CapAgentLabel (if sc_running i then ''warn-text'' else ''bad-text'')
        (caption_text (if sc_running i then CapRunning else CapAbnormal)) CapAgentHint)
      (vw_cards (refresh (Inr (page_of cfg calls i)) time view))"
proof -
  define metrics where "metrics = parse_metrics (response_text (page_of cfg calls i))"
  have up: "pick metrics ''minilisysm_up'' None = (if sc_running i then Fin 1 else Fin 0)"
    unfolding metrics_def by (rule up_picked [OF assms])
  have "vw_dot_class (refresh (Inr (page_of cfg calls i)) time view) = units (if sc_running i then ''dot ok'' else ''dot bad'')"
    by (simp add: refresh_def Let_def metrics_def [symmetric] update_live_state_def up deq_def)
  moreover have "render_card metrics (hd card_defs) = card_article CapAgentLabel (if sc_running i then ''warn-text'' else ''bad-text'')
        (caption_text (if sc_running i then CapRunning else CapAbnormal)) CapAgentHint"
    by (simp add: card_defs_def render_card_def card_numeric_def card_class_def card_value_def status_class_def up deq_def is_finite_def)
  moreover have "vw_cards (refresh (Inr (page_of cfg calls i)) time view) =
      render_card metrics (hd card_defs) @ concat (map (render_card metrics) (tl card_defs))"
    by (simp add: refresh_def Let_def metrics_def [symmetric] render_cards_def card_defs_def)
  ultimately show ?thesis by simp
qed

section \<open>The cards of the hardware\<close>

lemma no_hardware_samples:
  assumes "\<forall>sample. RecordHardware sample \<notin> set calls"
    and "name \<in> {''minilisysm_battery_health_percent'', ''minilisysm_storage_lifetime_used_percent''}"
  shows "samples_of (parse_metrics (response_text (page_of cfg calls i))) (units name) = []"
proof -
  have name: "metric_name name" using assms(2) by (auto simp: metric_name_def plain_text_def)
  have "\<forall>call \<in> set calls. name \<notin> call_families call"
  proof
    fix call
    assume "call \<in> set calls"
    then have "\<forall>sample. call \<noteq> RecordHardware sample" using assms(1) by blast
    then show "name \<notin> call_families call" using assms(2) by (cases call) (auto simp: scraped_families_def)
  qed
  then have "map_of (page_registry cfg ([] @ calls) i) key = None" if "family_name key = name" for key
    using assms(2) that by (subst later_spares) (auto simp: scraped_families_def metrics_run_def new_monitor_metrics_def)
  then show ?thesis using script_reads_known [OF name, of "[]"] by simp
qed

text \<open>
  Without a reading of the hardware the card of the batteries shows \<open>NaN\<close>, where the card of the storage beside it says that
  there is no value.
\<close>

theorem no_battery_shows_nan:
  assumes "\<forall>sample. RecordHardware sample \<notin> set calls"
  shows "sublist (card_article CapBatteryLabel ''ok-text'' (units ''NaN'') CapBatteryHint @
      card_article CapLifetimeLabel ''ok-text'' (caption_text CapMissing) CapLifetimeHint)
    (vw_cards (refresh (Inr (page_of cfg calls i)) time view))"
proof -
  define metrics where "metrics = parse_metrics (response_text (page_of cfg calls i))"
  have none: "samples_of metrics (units ''minilisysm_battery_health_percent'') = []"
    "samples_of metrics (units ''minilisysm_storage_lifetime_used_percent'') = []"
    unfolding metrics_def by (rule no_hardware_samples [OF assms]; simp)+
  have cards: "card_defs = take 5 card_defs @ [card_defs ! 5, card_defs ! 6] @ drop 7 card_defs" by (simp add: card_defs_def)
  have "render_card metrics (card_defs ! 5) = card_article CapBatteryLabel ''ok-text'' (units ''NaN'') CapBatteryHint"
    by (simp add: card_defs_def render_card_def card_numeric_def min_value_def finite_values_def none card_class_def card_value_def
      status_class_def is_finite_def)
  moreover have "render_card metrics (card_defs ! 6) = card_article CapLifetimeLabel ''ok-text'' (caption_text CapMissing) CapLifetimeHint"
    by (simp add: card_defs_def render_card_def card_numeric_def max_percent_def finite_values_def none card_class_def card_value_def
      status_class_def is_finite_def)
  moreover have "vw_cards (refresh (Inr (page_of cfg calls i)) time view) = concat (map (render_card metrics) card_defs)"
    by (simp add: refresh_def Let_def metrics_def [symmetric] render_cards_def)
  ultimately have "vw_cards (refresh (Inr (page_of cfg calls i)) time view) = concat (map (render_card metrics) (take 5 card_defs)) @
      (card_article CapBatteryLabel ''ok-text'' (units ''NaN'') CapBatteryHint @
       card_article CapLifetimeLabel ''ok-text'' (caption_text CapMissing) CapLifetimeHint) @
      concat (map (render_card metrics) (drop 7 card_defs))"
    by (subst (asm) cards) simp
  then show ?thesis unfolding sublist_def by blast
qed

section \<open>The table of the collectors\<close>

definition failure_field :: "scrape_input \<Rightarrow> metric_label list \<Rightarrow> u64" where
  "failure_field i ls =
     (if ls = [label ''collector'' ''meminfo''] then sc_meminfo_failures i
      else if ls = [label ''collector'' ''cpu_usage''] then sc_cpu_usage_failures i
      else if ls = [label ''collector'' ''self_status''] then sc_self_status_failures i
      else if ls = [label ''collector'' ''sched_delay''] then sc_sched_delay_failures i
      else sc_io_delay_failures i)"

lemma failure_values:
  assumes "metrics_scrape_collectors cfg"
  shows "\<forall>ls \<in> set failure_labels. map_of (page_registry cfg calls i) (metric_key ''minilisysm_collector_failures_total'' ls) =
    Some \<lparr>mv_kind = Counter, mv_value = double_of_u64 (failure_field i ls), mv_labels = ls\<rparr>"
proof -
  let ?name = "''minilisysm_collector_failures_total''"
  have rest: "\<forall>f \<in> set (ebpf_updates (sc_sched_stats i)). spares ?name f" by (simp add: ebpf_updates_def spares_facts)
  have name: "metric_name ?name" using known_names by (simp add: known_families_def)
  define m where "m = (if metrics_scrape_runtime cfg then apply_updates (runtime_updates i) (metrics_run cfg calls) else metrics_run cfg calls)"
  have page: "page_registry cfg calls i = mm_registry (apply_updates (ebpf_updates (sc_sched_stats i)) (apply_updates (failure_updates i) m))"
    using assms by (simp add: page_registry_def render_def m_def apply_updates_def Let_def)
  have "map_of (page_registry cfg calls i) (metric_key ?name ls) = map_of (fold id (failure_updates i) (mm_registry m)) (metric_key ?name ls)" for ls
    unfolding page spares_apply [OF rest family_name_key [OF name]] by (simp add: apply_updates_def)
  moreover have "\<forall>ls \<in> set failure_labels. map_of (fold id (failure_updates i) reg) (metric_key ?name ls) =
      Some \<lparr>mv_kind = Counter, mv_value = double_of_u64 (failure_field i ls), mv_labels = ls\<rparr>" for reg
    by (simp add: failure_labels_def failure_updates_def metric_key_def label_key_def failure_field_def label_def)
  ultimately show ?thesis by simp
qed

text \<open>A row as it should read.\<close>

definition failure_row :: "string \<Rightarrow> u64 \<Rightarrow> js_string" where
  "failure_row collector n =
     units ''<tr><td>'' @ units collector @ units ''</td><td>'' @ units (show_word n) @ units ''</td><td class=\"'' @
     units (if n = 0 then ''ok-text'' else ''bad-text'') @ units ''\">'' @ caption_text (if n = 0 then CapNormal else CapAttention) @
     units ''</td></tr>''"

lemma failure_names:
  "list_all (\<lambda>collector. match_label (units ''collector=\"'') (units (''minilisysm_collector_failures_total'' @
     labels_text [label ''collector'' collector])) = Some (units collector)) [''cpu_usage'', ''io_delay'', ''meminfo'', ''sched_delay'', ''self_status'']"
  by code_simp

lemma collector_row_known:
  assumes "match_label (units ''collector=\"'') text = Some (units collector)" and "unat n < 10 ^ 12"
  shows "collector_row \<lparr>js_text = text, js_value = Fin (of_nat (unat n))\<rparr> = failure_row collector n"
proof -
  have "unat n < 10 ^ 21" using assms(2) by simp
  from whole_text [OF this] show ?thesis
    using assms(1) by (simp add: collector_row_def failure_row_def deq_def show_word_def unat_eq_zero)
qed

text \<open>
  The table of the collectors has one row for each of the five, with its failures digit for digit, and says that it needs attention
  exactly when there were failures.
\<close>

theorem collector_rows_exact:
  assumes "metrics_scrape_collectors cfg" and "\<forall>ls \<in> set failure_labels. unat (failure_field i ls) < 10 ^ 12"
  shows "vw_collectors (refresh (Inr (page_of cfg calls i)) time view) =
    failure_row ''cpu_usage'' (sc_cpu_usage_failures i) @ failure_row ''io_delay'' (sc_io_delay_failures i) @
    failure_row ''meminfo'' (sc_meminfo_failures i) @ failure_row ''sched_delay'' (sc_sched_delay_failures i) @
    failure_row ''self_status'' (sc_self_status_failures i)"
proof -
  let ?name = "''minilisysm_collector_failures_total''"
  define metrics where "metrics = parse_metrics (response_text (page_of cfg calls i))"
  have name: "?name \<in> set known_families" and labels: "known_labels ?name = failure_labels"
    by (simp_all add: known_families_def known_labels_def)
  have samples: "samples_of metrics (units ?name) = map (\<lambda>ls. \<lparr>js_text = units (?name @ labels_text ls),
      js_value = Fin (of_nat (unat (failure_field i ls)))\<rparr>) failure_labels"
    unfolding metrics_def using known_read [OF name, unfolded labels, OF assms(2) failure_values [OF assms(1)]] .
  have rows: "collector_row \<lparr>js_text = units (?name @ labels_text [label ''collector'' collector]),
      js_value = Fin (of_nat (unat (failure_field i [label ''collector'' collector])))\<rparr> =
      failure_row collector (failure_field i [label ''collector'' collector])"
    if "collector \<in> set [''cpu_usage'', ''io_delay'', ''meminfo'', ''sched_delay'', ''self_status'']" for collector
    using that failure_names assms(2) by (intro collector_row_known) (simp_all only: list_all_iff, auto simp: failure_labels_def)
  have "vw_collectors (refresh (Inr (page_of cfg calls i)) time view) = concat (map collector_row (samples_of metrics (units ?name)))"
    unfolding samples by (simp add: refresh_def Let_def metrics_def [symmetric] render_collectors_def samples failure_labels_def)
  also have "map collector_row (samples_of metrics (units ?name)) =
      map (\<lambda>collector. failure_row collector (failure_field i [label ''collector'' collector]))
        [''cpu_usage'', ''io_delay'', ''meminfo'', ''sched_delay'', ''self_status'']"
    unfolding samples failure_labels_def map_map comp_def by (rule map_cong [OF refl]) (rule rows)
  finally show ?thesis by (simp add: failure_field_def label_def)
qed

section \<open>Examples\<close>

definition wit_view :: status_view where
  "wit_view = \<lparr>vw_dot_class = [], vw_live_text = [], vw_cards = [], vw_queues = [], vw_collectors = [], vw_hardware = [], vw_raw = [],
     vw_updated = []\<rparr>"

theorem queue_rows_exact_witness:
  "vw_queues (refresh (Inr (page_of wit_metrics_config [] wit_scrape)) [] wit_view) =
    queue_row CapSourceQueue (Fin 1) (Fin 8) (Fin 0) @ queue_row CapSinkQueue (Fin 0) (Fin 8) (Fin 0)"
  using queue_rows_exact [of wit_metrics_config wit_scrape "[]" "[]" wit_view]
  by (simp add: queue_count_def wit_scrape_def wit_queues_def)

theorem agent_card_never_ok_witness:
  "vw_dot_class (refresh (Inr (page_of wit_metrics_config [] wit_scrape)) [] wit_view) = units ''dot ok'' \<and>
    prefix (card_article CapAgentLabel ''warn-text'' (caption_text CapRunning) CapAgentHint)
      (vw_cards (refresh (Inr (page_of wit_metrics_config [] wit_scrape)) [] wit_view))"
  using agent_card_never_ok [of wit_metrics_config "[]" wit_scrape "[]" wit_view] by (simp add: wit_scrape_def)

theorem collector_rows_exact_witness:
  "vw_collectors (refresh (Inr (page_of wit_metrics_config [] wit_scrape)) [] wit_view) =
    failure_row ''cpu_usage'' 0 @ failure_row ''io_delay'' 0 @ failure_row ''meminfo'' 0 @ failure_row ''sched_delay'' 0 @
    failure_row ''self_status'' 0"
  using collector_rows_exact [of wit_metrics_config wit_scrape "[]" "[]" wit_view]
  by (simp add: failure_field_def failure_labels_def wit_scrape_def)

theorem no_battery_shows_nan_witness:
  "sublist (card_article CapBatteryLabel ''ok-text'' (units ''NaN'') CapBatteryHint @
      card_article CapLifetimeLabel ''ok-text'' (caption_text CapMissing) CapLifetimeHint)
    (vw_cards (refresh (Inr (page_of wit_metrics_config [] wit_scrape)) [] wit_view))"
  by (rule no_battery_shows_nan) simp

end
