(* ===== verification/Metrics_Server.thy ===== *)
theory Metrics_Server
  imports Config
begin

text \<open>
  The HTTP server of the metrics, \<^verbatim>\<open>src/runtime/metrics_server.cpp\<close>: which clients it serves, what it answers and what reaches
  the client. Sockets answer as the arguments say; the rendered page and the fixed HTML of the status page are
  arguments too. The lemmas show the access list exact, the responses readable, and the way of a page to the client.
\<close>

section \<open>Addresses\<close>

text \<open>
  \<open>inet_pton (AF_INET)\<close>: four decimal numbers up to 255 between dots, without leading zeros. \<open>inet_ntop\<close> prints
  them.
\<close>

definition pton_octet :: "string \<Rightarrow> nat option" where
  "pton_octet part =
     (if part \<noteq> [] \<and> list_all is_digit part \<and> (length part = 1 \<or> hd part \<noteq> CHR ''0'') \<and> digits_value part \<le> 255
      then Some (digits_value part) else None)"

fun pton_octets :: "nat \<Rightarrow> string \<Rightarrow> nat list option" where
  "pton_octets 0 s = None"
| "pton_octets (Suc n) s =
     (case split_first (CHR ''.'') s of
        None \<Rightarrow> if n = 0 then map_option (\<lambda>a. [a]) (pton_octet s) else None
      | Some (part, rest) \<Rightarrow>
          (case (pton_octet part, pton_octets n rest) of
             (Some a, Some as) \<Rightarrow> Some (a # as)
           | _ \<Rightarrow> None))"

definition inet_pton :: "string \<Rightarrow> nat list option" where
  "inet_pton s = pton_octets 4 s"

fun inet_ntop :: "nat list \<Rightarrow> string" where
  "inet_ntop [] = []"
| "inet_ntop [a] = show_nat a"
| "inet_ntop (a # b # as) = show_nat a @ ''.'' @ inet_ntop (b # as)"

section \<open>Responses\<close>

definition http_newline :: string where
  "http_newline = [CHR 0x0D, CHR 0x0A]"

definition http_response :: "nat \<Rightarrow> string \<Rightarrow> string \<Rightarrow> string \<Rightarrow> string" where
  "http_response status status_text content_type body =
     ''HTTP/1.1 '' @ show_nat status @ '' '' @ status_text @ http_newline @
     ''Content-Type: '' @ content_type @ http_newline @
     ''Content-Length: '' @ show_nat (length body) @ http_newline @
     ''Connection: close'' @ http_newline @ http_newline @ body"

definition plain_content :: string where
  "plain_content = ''text/plain; charset=utf-8''"

definition response_for_request :: "string \<Rightarrow> string \<Rightarrow> string \<Rightarrow> string" where
  "response_for_request status_page_html page request =
     (if prefix ''GET / '' request \<or> prefix ''GET /status '' request \<or> prefix ''GET /status?'' request
      then http_response 200 ''OK'' ''text/html; charset=utf-8'' status_page_html
      else if prefix ''GET /metrics '' request \<or> prefix ''GET /metrics?'' request
      then http_response 200 ''OK'' ''text/plain; version=0.0.4; charset=utf-8'' page
      else if prefix ''GET /healthz '' request
      then http_response 200 ''OK'' plain_content (''ok'' @ [CHR 0x0A])
      else http_response 404 ''Not Found'' plain_content (''not found'' @ [CHR 0x0A]))"

definition is_client_allowed :: "monitor_config \<Rightarrow> string \<Rightarrow> bool" where
  "is_client_allowed cfg client_address =
     (if metrics_allowed_clients cfg = [] then True
      else list_ex (\<lambda>client. case inet_pton client of None \<Rightarrow> False | Some address \<Rightarrow> client_address = inet_ntop address)
        (metrics_allowed_clients cfg))"

text \<open>The results of the calls of \<open>send\<close>; what the kernel took before one failed, or before there are no more calls.\<close>

fun send_response :: "int list \<Rightarrow> string \<Rightarrow> string" where
  "send_response results [] = []"
| "send_response [] (c # data) = []"
| "send_response (result # results) (c # data) =
     (if result \<le> 0 then []
      else take (nat result) (c # data) @ send_response results (drop (nat result) (c # data)))"

text \<open>A client: what has arrived when the server receives, if the call does not fail, and the results of the sends.\<close>

record client_io =
  cl_segment :: "string option"
  cl_sends :: "int list"

definition handle_client :: "monitor_config \<Rightarrow> string \<Rightarrow> string \<Rightarrow> string \<Rightarrow> client_io \<Rightarrow> string" where
  "handle_client cfg status_page_html page client_address io =
     (if \<not> is_client_allowed cfg client_address
      then send_response (cl_sends io) (http_response 403 ''Forbidden'' plain_content (''forbidden'' @ [CHR 0x0A]))
      else
        let response = (case cl_segment io of
              None \<Rightarrow> http_response 400 ''Bad Request'' plain_content (''bad request'' @ [CHR 0x0A])
            | Some segment \<Rightarrow>
                if segment = [] then http_response 400 ''Bad Request'' plain_content (''bad request'' @ [CHR 0x0A])
                else response_for_request status_page_html page (take 1023 segment))
        in send_response (cl_sends io) response)"

section \<open>Start and stop\<close>

record metrics_server =
  sv_running :: bool
  sv_listening :: bool
  sv_worker :: bool

definition new_metrics_server :: metrics_server where
  "new_metrics_server = \<lparr>sv_running = False, sv_listening = False, sv_worker = False\<rparr>"

record listen_outcome =
  lo_socket :: bool
  lo_bind :: bool
  lo_listen :: bool

definition close_listener :: "metrics_server \<Rightarrow> metrics_server" where
  "close_listener s = s\<lparr>sv_listening := False\<rparr>"

definition open_listener :: "monitor_config \<Rightarrow> listen_outcome \<Rightarrow> metrics_server \<Rightarrow> metrics_server \<times> bool" where
  "open_listener cfg out s =
     (if \<not> lo_socket out then (s\<lparr>sv_listening := False\<rparr>, False)
      else
        let s = s\<lparr>sv_listening := True\<rparr>
        in if \<not> (metrics_bind_host cfg = [] \<or> metrics_bind_host cfg = ''0.0.0.0'') \<and> inet_pton (metrics_bind_host cfg) = None
           then (close_listener s, False)
           else if \<not> lo_bind out then (close_listener s, False)
           else if \<not> lo_listen out then (close_listener s, False)
           else (s, True))"

definition server_start :: "monitor_config \<Rightarrow> listen_outcome \<Rightarrow> metrics_server \<Rightarrow> metrics_server \<times> bool" where
  "server_start cfg out s =
     (if \<not> metrics_enable cfg then (s, True)
      else if list_ex (\<lambda>client. inet_pton client = None) (metrics_allowed_clients cfg) then (s, False)
      else case open_listener cfg out s of
             (s, False) \<Rightarrow> (s, False)
           | (s, True) \<Rightarrow> (s\<lparr>sv_running := True, sv_worker := True\<rparr>, True))"

definition server_stop :: "metrics_server \<Rightarrow> metrics_server" where
  "server_stop s = (close_listener (s\<lparr>sv_running := False\<rparr>))\<lparr>sv_worker := False\<rparr>"

text \<open>One turn of the loop: nothing to accept, an accept or a formatting that fails, or a client.\<close>

datatype turn = Idle | AcceptFailed | AddressFailed | Client "nat list" client_io

fun serve_turn :: "monitor_config \<Rightarrow> string \<Rightarrow> string \<Rightarrow> turn \<Rightarrow> string option" where
  "serve_turn cfg html page (Client address io) = Some (handle_client cfg html page (inet_ntop address) io)"
| "serve_turn cfg html page _ = None"

section \<open>Addresses read and printed\<close>

definition is_address :: "nat list \<Rightarrow> bool" where
  "is_address as \<longleftrightarrow> length as = 4 \<and> list_all (\<lambda>a. a < 256) as"

lemma show_digits_value:
  "list_all is_digit ds \<Longrightarrow> ds \<noteq> [] \<Longrightarrow> length ds = 1 \<or> hd ds \<noteq> CHR ''0'' \<Longrightarrow>
   show_nat (digits_value ds) = ds \<and> (hd ds \<noteq> CHR ''0'' \<longrightarrow> 0 < digits_value ds)"
proof (induction ds rule: rev_induct)
  case (snoc c ds)
  have c: "is_digit c" "digit_value c < 10" "digit_char (digit_value c) = c" "c \<noteq> CHR ''0'' \<longrightarrow> 0 < digit_value c"
  proof -
    show "is_digit c" using snoc.prems(1) by simp
    then show "digit_value c < 10" "digit_char (digit_value c) = c" by (auto simp: is_digit_def digit_value_def digit_char_def)
    show "c \<noteq> CHR ''0'' \<longrightarrow> 0 < digit_value c"
    proof
      assume "c \<noteq> CHR ''0''"
      then have "(of_char c :: nat) \<noteq> 48" using of_char_eq_iff [of c "CHR ''0''", where ?'a = nat] by simp
      then show "0 < digit_value c" using \<open>is_digit c\<close> by (simp add: is_digit_def digit_value_def)
    qed
  qed
  show ?case
  proof (cases "ds = []")
    case True
    then show ?thesis using c by (simp add: digits_value_def show_nat.simps)
  next
    case False
    then have hd: "hd ds \<noteq> CHR ''0''" using snoc.prems(3) by simp
    then have IH: "show_nat (digits_value ds) = ds" "0 < digits_value ds" using snoc False by auto
    have "show_nat (10 * digits_value ds + digit_value c) = show_nat (digits_value ds) @ [digit_char (digit_value c)]"
      using IH(2) c(2) by (subst show_nat.simps) simp
    then show ?thesis using IH c by simp
  qed
qed simp

lemma pton_octet_iff: "pton_octet s = Some a \<longleftrightarrow> s = show_nat a \<and> a < 256"
proof
  assume "pton_octet s = Some a"
  then show "s = show_nat a \<and> a < 256" using show_digits_value [of s] by (auto simp: pton_octet_def split: if_splits)
next
  assume s: "s = show_nat a \<and> a < 256"
  have "show_nat 0 = ''0''" by code_simp
  then have "length (show_nat a) = 1 \<or> hd (show_nat a) \<noteq> CHR ''0''" using show_nat_hd [of a] by (cases "a = 0") simp_all
  moreover have "list_all is_digit (show_nat a)" using show_nat_digits by (auto simp: list_all_iff)
  ultimately show "pton_octet s = Some a" using s by (simp add: pton_octet_def)
qed

lemma show_nat_no_dot: "CHR ''.'' \<notin> set (show_nat n)"
  using show_nat_digits [of "CHR ''.''"] by (auto simp: is_digit_def)

lemma pton_octets_iff:
  "pton_octets n s = Some as \<longleftrightarrow> n \<noteq> 0 \<and> length as = n \<and> list_all (\<lambda>a. a < 256) as \<and> s = inet_ntop as"
proof (induction n arbitrary: s as)
  case (Suc n)
  show ?case
  proof (cases "split_first (CHR ''.'') s")
    case None
    then have "CHR ''.'' \<notin> set s" by (simp add: split_first_None)
    then show ?thesis using None
      by (cases as rule: inet_ntop.cases) (auto simp: pton_octet_iff length_Suc_conv)
  next
    case (Some p)
    obtain part rest where p: "p = (part, rest)" by (cases p)
    then have s: "s = part @ CHR ''.'' # rest" "CHR ''.'' \<notin> set part" using Some by (simp_all add: split_first_Some)
    show ?thesis
    proof (cases as rule: inet_ntop.cases)
      case 1
      then show ?thesis using Some p by (auto split: option.splits)
    next
      case (2 a)
      have "s \<noteq> show_nat a" using show_nat_no_dot [of a] s(1) by (metis in_set_conv_decomp)
      then show ?thesis using Some p 2 Suc.IH by (auto split: option.splits)
    next
      case (3 a b as')
      have split: "s = show_nat a @ ''.'' @ inet_ntop (b # as') \<longleftrightarrow> part = show_nat a \<and> rest = inet_ntop (b # as')"
        using split_first_Some [of "CHR ''.''" s part rest] split_first_Some [of "CHR ''.''" s "show_nat a" "inet_ntop (b # as')"]
          show_nat_no_dot [of a] s by auto
      then show ?thesis
        using Some p 3 Suc.IH [of rest "b # as'"] pton_octet_iff [of part a]
        by (auto split: option.splits)
    qed
  qed
qed simp

text \<open>The texts that are read as an address are exactly the printed addresses.\<close>

theorem inet_pton_iff: "inet_pton s = Some a \<longleftrightarrow> is_address a \<and> s = inet_ntop a"
  by (auto simp: inet_pton_def pton_octets_iff is_address_def)

text \<open>With an access list, a client is served exactly when its address stands on the list.\<close>

theorem allowed_clients_exact:
  assumes "metrics_allowed_clients cfg \<noteq> []" and "is_address a"
  shows "is_client_allowed cfg (inet_ntop a) \<longleftrightarrow> inet_ntop a \<in> set (metrics_allowed_clients cfg)"
proof -
  have "(case inet_pton client of None \<Rightarrow> False | Some b \<Rightarrow> inet_ntop a = inet_ntop b) \<longleftrightarrow> client = inet_ntop a" for client
  proof (cases "inet_pton client")
    case None
    moreover have "inet_pton (inet_ntop a) = Some a" using assms(2) by (simp add: inet_pton_iff)
    ultimately show ?thesis by auto
  next
    case (Some b)
    then have "client = inet_ntop b" by (simp add: inet_pton_iff)
    then show ?thesis using Some by auto
  qed
  then show ?thesis using assms(1) by (auto simp: is_client_allowed_def list_ex_iff)
qed

theorem allowed_clients_exact_witness:
  "is_client_allowed (default_config\<lparr>metrics_allowed_clients := [''10.0.0.1'', ''127.0.0.1'']\<rparr>) (inet_ntop [127, 0, 0, 1]) \<and>
   \<not> is_client_allowed (default_config\<lparr>metrics_allowed_clients := [''10.0.0.1'', ''127.0.0.1'']\<rparr>) (inet_ntop [127, 0, 0, 2])"
proof -
  have "inet_ntop [127, 0, 0, 1] = ''127.0.0.1''" "inet_ntop [127, 0, 0, 2] = ''127.0.0.2''" by code_simp+
  then show ?thesis
    using allowed_clients_exact [of "default_config\<lparr>metrics_allowed_clients := [''10.0.0.1'', ''127.0.0.1'']\<rparr>" "[127, 0, 0, 1]"]
      allowed_clients_exact [of "default_config\<lparr>metrics_allowed_clients := [''10.0.0.1'', ''127.0.0.1'']\<rparr>" "[127, 0, 0, 2]"]
    by (simp add: is_address_def)
qed

section \<open>Reading a response\<close>

function read_head :: "string \<Rightarrow> (string list \<times> string) option" where
  "read_head s =
     (case split_first (CHR 0x0A) s of
        None \<Rightarrow> None
      | Some (line, rest) \<Rightarrow>
          if line = [CHR 0x0D] then Some ([], rest) else map_option (\<lambda>(ls, body). (line # ls, body)) (read_head rest))"
  by pat_completeness auto
termination
  by (relation "measure length") (auto simp: split_first_Some)

declare read_head.simps [simp del]

definition read_response :: "string \<Rightarrow> (nat \<times> string \<times> nat \<times> string) option" where
  "read_response s =
     (case read_head s of
        Some ([status, content_type, content_length, connection], body) \<Rightarrow>
          if take 9 status = ''HTTP/1.1 '' \<and> take 14 content_type = ''Content-Type: '' \<and> take 16 content_length = ''Content-Length: ''
          then Some (digits_value (takeWhile is_digit (drop 9 status)), butlast (drop 14 content_type),
            digits_value (takeWhile is_digit (drop 16 content_length)), body)
          else None
      | _ \<Rightarrow> None)"

lemma read_head_lines:
  assumes "\<forall>l \<in> set ls. CHR 0x0A \<notin> set l \<and> l \<noteq> []"
  shows "read_head (concat (map (\<lambda>l. l @ http_newline) ls) @ http_newline @ body) = Some (map (\<lambda>l. l @ [CHR 0x0D]) ls, body)"
  using assms
proof (induction ls)
  case Nil
  then show ?case by (subst read_head.simps) (simp add: http_newline_def)
next
  case (Cons l ls)
  have "split_first (CHR 0x0A) (l @ http_newline @ rest) = Some (l @ [CHR 0x0D], rest)" for rest
    using Cons.prems by (simp add: split_first_Some http_newline_def)
  then show ?case using Cons by (subst read_head.simps) simp
qed

lemma digits_then: "takeWhile is_digit (show_nat n @ c # rest) = (if is_digit c then show_nat n @ c # takeWhile is_digit rest else show_nat n)"
  using takeWhile_show_nat [of "c # rest" n] show_nat_digits [of _ n] by (simp add: takeWhile_append)

text \<open>A response reads back with its status, its type, its length and its body, whatever the body is.\<close>

lemma http_response_read:
  assumes "CHR 0x0A \<notin> set status_text" and "CHR 0x0A \<notin> set content_type"
  shows "read_response (http_response status status_text content_type body) = Some (status, content_type, length body, body)"
proof -
  let ?lines = "[''HTTP/1.1 '' @ show_nat status @ '' '' @ status_text, ''Content-Type: '' @ content_type,
    ''Content-Length: '' @ show_nat (length body), ''Connection: close'']"
  have "http_response status status_text content_type body = concat (map (\<lambda>l. l @ http_newline) ?lines) @ http_newline @ body"
    by (simp add: http_response_def)
  moreover have "read_head (concat (map (\<lambda>l. l @ http_newline) ?lines) @ http_newline @ body) = Some (map (\<lambda>l. l @ [CHR 0x0D]) ?lines, body)"
    using assms by (intro read_head_lines) simp
  moreover have "\<not> is_digit (CHR '' '')" "\<not> is_digit (CHR 0x0D)" by code_simp+
  ultimately show ?thesis by (simp add: read_response_def digits_then)
qed

text \<open>What reaches the client is a prefix of the response, the whole of it if the sends take enough.\<close>

lemma send_response_prefix: "prefix (send_response results data) data"
proof (induction results data rule: send_response.induct)
  case (3 result results c data)
  show ?case
  proof (cases "result \<le> 0")
    case False
    then have "prefix (send_response results (drop (nat result) (c # data))) (drop (nat result) (c # data))" using 3 by simp
    then have "prefix (take (nat result) (c # data) @ send_response results (drop (nat result) (c # data)))
        (take (nat result) (c # data) @ drop (nat result) (c # data))"
      by (simp only: same_prefix_prefix)
    then show ?thesis using False by (simp only: append_take_drop_id send_response.simps if_False)
  qed simp
qed simp_all

definition sends_all :: "int list \<Rightarrow> nat \<Rightarrow> bool" where
  "sends_all results n \<longleftrightarrow> list_all (\<lambda>r. 0 < r) results \<and> int n \<le> sum_list results"

lemma sends_all_one [simp]: "sends_all [int n + 1] n"
  by (simp add: sends_all_def)

lemma send_response_complete: "sends_all results (length data) \<Longrightarrow> send_response results data = data"
proof (induction results data rule: send_response.induct)
  case (3 result results c data)
  have pos: "0 < result" using 3(2) by (simp add: sends_all_def)
  have "sends_all results (length (drop (nat result) (c # data)))"
  proof -
    have "0 \<le> sum_list results" using 3(2) by (intro sum_list_nonneg) (auto simp: sends_all_def list_all_iff)
    then show ?thesis using 3(2) pos by (simp add: sends_all_def, linarith)
  qed
  then have "send_response results (drop (nat result) (c # data)) = drop (nat result) (c # data)" using 3(1) pos by simp
  then show ?case using pos by (simp only: send_response.simps append_take_drop_id) simp
qed (simp_all add: sends_all_def)



text \<open>
  The answer of a client that may ask and takes what is sent: the page for \<^verbatim>\<open>/metrics\<close>, the fixed pages for the other
  paths, and 404 for everything else.
\<close>

theorem served_answer:
  assumes "is_client_allowed cfg address" and "cl_segment io = Some segment" and "segment \<noteq> []" and "length segment < 1024"
    and "sends_all (cl_sends io) (length (response_for_request html page segment))"
  shows "read_response (handle_client cfg html page address io) =
    (if prefix ''GET / '' segment \<or> prefix ''GET /status '' segment \<or> prefix ''GET /status?'' segment
     then Some (200, ''text/html; charset=utf-8'', length html, html)
     else if prefix ''GET /metrics '' segment \<or> prefix ''GET /metrics?'' segment
     then Some (200, ''text/plain; version=0.0.4; charset=utf-8'', length page, page)
     else if prefix ''GET /healthz '' segment
     then Some (200, plain_content, 3, ''ok'' @ [CHR 0x0A])
     else Some (404, plain_content, 10, ''not found'' @ [CHR 0x0A]))"
proof -
  have "handle_client cfg html page address io = response_for_request html page segment"
    using assms send_response_complete by (simp add: handle_client_def)
  then show ?thesis by (simp add: response_for_request_def http_response_read plain_content_def)
qed

theorem served_answer_witness:
  "read_response (handle_client default_config ''html'' ''minilisysm_up 1'' ''127.0.0.1''
     \<lparr>cl_segment = Some ''GET /metrics HTTP/1.1'', cl_sends = [100, 100]\<rparr>) =
   Some (200, ''text/plain; version=0.0.4; charset=utf-8'', 15, ''minilisysm_up 1'')"
proof -
  have "is_client_allowed default_config ''127.0.0.1''" by (simp add: is_client_allowed_def default_config_def)
  moreover have "length (response_for_request ''html'' ''minilisysm_up 1'' ''GET /metrics HTTP/1.1'') \<le> 200" by code_simp
  ultimately show ?thesis
    using served_answer [of default_config "''127.0.0.1''" "\<lparr>cl_segment = Some ''GET /metrics HTTP/1.1'', cl_sends = [100, 100]\<rparr>"
        "''GET /metrics HTTP/1.1''" "''html''" "''minilisysm_up 1''"]
    by (simp add: sends_all_def)
qed

text \<open>
  The server receives once: a request line that arrives in two segments is answered 404, also when the path is one of those it
  serves.
\<close>

theorem split_request_not_found:
  assumes "strict_prefix segment ''GET /metrics '' \<or> strict_prefix segment ''GET /healthz '' \<or> strict_prefix segment ''GET /status ''"
  shows "response_for_request html page segment = http_response 404 ''Not Found'' plain_content (''not found'' @ [CHR 0x0A])"
proof -
  define known where "known = [''GET / '', ''GET /status '', ''GET /status?'', ''GET /metrics '', ''GET /metrics?'', ''GET /healthz '']"
  have checked: "\<forall>line \<in> {''GET /metrics '', ''GET /healthz '', ''GET /status ''}. \<forall>s \<in> set (prefixes line).
      s = line \<or> list_all (\<lambda>p. \<not> prefix p s) known"
    unfolding known_def by code_simp
  obtain line where "line \<in> {''GET /metrics '', ''GET /healthz '', ''GET /status ''}" "strict_prefix segment line"
    using assms by blast
  moreover from this have "segment \<in> set (prefixes line)" "segment \<noteq> line" by (simp_all add: strict_prefix_def)
  ultimately have "list_all (\<lambda>p. \<not> prefix p segment) known" using checked by blast
  then show ?thesis by (simp add: response_for_request_def known_def)
qed

theorem split_request_not_found_witness:
  "response_for_request ''html'' ''page'' ''GET /met'' = http_response 404 ''Not Found'' plain_content (''not found'' @ [CHR 0x0A])"
  by (rule split_request_not_found) (simp add: strict_prefix_def)

section \<open>Starting\<close>

text \<open>
  A server with the metrics enabled starts exactly when every allowed client and the host to bind are addresses and the three
  socket calls succeed; then it listens and has its worker, and otherwise it holds no socket. After a stop nothing is left.
\<close>

theorem server_start_exact:
  "server_start cfg out new_metrics_server =
     (if \<not> metrics_enable cfg then (new_metrics_server, True)
      else if list_all (\<lambda>client. inet_pton client \<noteq> None) (metrics_allowed_clients cfg) \<and> lo_socket out \<and>
          (metrics_bind_host cfg \<in> {[], ''0.0.0.0''} \<or> inet_pton (metrics_bind_host cfg) \<noteq> None) \<and> lo_bind out \<and> lo_listen out
      then (\<lparr>sv_running = True, sv_listening = True, sv_worker = True\<rparr>, True)
      else (new_metrics_server, False)) \<and>
   server_stop (fst (server_start cfg out new_metrics_server)) = new_metrics_server"
  by (auto simp: server_start_def open_listener_def close_listener_def server_stop_def new_metrics_server_def Let_def
    list_all_iff list_ex_iff)

text \<open>
  The configuration accepts octets with leading zeros, the server does not: a configuration that is valid then keeps
  the server, and with it the monitor, from starting.
\<close>

theorem valid_client_refused:
  "valid_ipv4 ''010.0.0.1'' \<and>
   server_start (default_config\<lparr>metrics_enable := True, metrics_allowed_clients := [''010.0.0.1'']\<rparr>) out new_metrics_server =
     (new_metrics_server, False)"
proof -
  have "valid_octet ''010''" "valid_octet ''0''" "valid_octet ''1''"
    by (simp_all add: valid_octet_def from_chars_unsigned_def is_digit_def digits_value_def digit_value_def)
  then have "valid_ipv4 ''010.0.0.1''" by (simp add: valid_ipv4_def eval_nat_numeral)
  moreover have "inet_pton ''010.0.0.1'' = None" by code_simp
  ultimately show ?thesis by (simp add: server_start_def)
qed

end
