(* ===== verification/Agent.thy ===== *)
theory Agent
  imports Monitor Metrics_Server
begin

text \<open>
  The agent around the monitor: \<^verbatim>\<open>apps/minilisysm-agent/main.cpp\<close> with its log set-up, the factories that choose the parts
  (\<^verbatim>\<open>src/collectors/collector_factory.cpp\<close>, \<^verbatim>\<open>src/storage/storage_factory.cpp\<close>), the policy of the threads
  (\<^verbatim>\<open>src/runtime/thread_policy.cpp\<close>) and the clocks. The lemmas say when the agent runs, that what it started is stopped when it
  exits, and what a configuration that validation gave up on does to it.
\<close>

section \<open>Logging\<close>

datatype log_level = LogDebug | LogInfo | LogWarn | LogErr

definition parse_level :: "string \<Rightarrow> log_level" where
  "parse_level level =
     (if level = ''debug'' then LogDebug
      else if level = ''warn'' then LogWarn
      else if level = ''error'' then LogErr
      else LogInfo)"

datatype log_sink = ConsoleSink | DailyFile string u32 | RotatingFile string size_t u32 | NullSink

definition log_sinks :: "monitor_config \<Rightarrow> log_sink list" where
  "log_sinks cfg =
     (let console = (if agent_log_console cfg then [ConsoleSink] else []);
          max_size = agent_log_rotate_mb cfg * 1024 * 1024;
          file = (if \<not> agent_log_enable cfg then []
                  else if agent_log_rotation cfg = ''daily'' then [DailyFile (agent_log_path cfg) (agent_log_rotate_files cfg)]
                  else [RotatingFile (agent_log_path cfg) max_size (agent_log_rotate_files cfg)]);
          sinks = console @ file
      in if sinks = [] then [NullSink] else sinks)"

section \<open>Factories\<close>

datatype sink_kind = JsonlEventSink | NetworkEventSink

definition create_event_sinks :: "monitor_config \<Rightarrow> sink_kind list" where
  "create_event_sinks cfg =
     (if persistence_enable cfg then [JsonlEventSink] else []) @ (if network_sink_enable cfg then [NetworkEventSink] else [])"

datatype sched_kind = EbpfSchedDelay | ProcSchedDelay

definition create_sched_delay_collector :: "bool \<Rightarrow> monitor_config \<Rightarrow> sched_kind" where
  "create_sched_delay_collector ebpf_built cfg =
     (if ebpf_built \<and> sched_delay_source cfg = ''ebpf'' then EbpfSchedDelay else ProcSchedDelay)"

section \<open>Threads and clocks\<close>

text \<open>The set of processors given to the kernel holds 1024; the macro that fills it ignores the others.\<close>

definition set_current_thread_affinity :: "(nat set \<Rightarrow> int) \<Rightarrow> i32 \<Rightarrow> bool" where
  "set_current_thread_affinity setaffinity cpu =
     (if cpu <s 0 then True else setaffinity (if unat cpu < 1024 then {unat cpu} else {}) = 0)"

definition set_current_thread_nice :: "(i32 \<Rightarrow> int) \<Rightarrow> i32 \<Rightarrow> bool" where
  "set_current_thread_nice setpriority nice_value = (setpriority nice_value = 0)"

text \<open>A duration in nanoseconds becomes milliseconds rounded towards zero.\<close>

definition chrono_ms :: "int \<Rightarrow> u64" where
  "chrono_ms ns = of_int (if 0 \<le> ns then ns div 1000000 else - ((- ns) div 1000000))"

definition boottime_ms :: "(int \<times> int) option \<Rightarrow> int \<Rightarrow> u64" where
  "boottime_ms boot steady_ns =
     (case boot of Some (sec, nsec) \<Rightarrow> chrono_ms (sec * 1000000000 + nsec) | None \<Rightarrow> chrono_ms steady_ns)"

section \<open>Running\<close>

text \<open>
  The flags are the values of the stop request at the successive looks of the loop. The result has the calls on the parts of the
  monitor and, once the agent has exited, its exit code.
\<close>

definition agent_run :: "monitor_config \<Rightarrow> bool \<Rightarrow> listen_outcome \<Rightarrow> bool list \<Rightarrow> monitor_call list \<times> int option" where
  "agent_run cfg dispatchers_start out flags =
     (case monitor_start cfg dispatchers_start (snd (server_start cfg out new_metrics_server)) False of
        (calls, running, started) \<Rightarrow>
          if \<not> started then (calls @ fst (monitor_stop running), Some 1)
          else if True \<in> set flags then (calls @ fst (monitor_stop running), Some 0)
          else (calls, None))"

definition agent_main :: "string option \<Rightarrow> bool \<Rightarrow> listen_outcome \<Rightarrow> bool list \<Rightarrow> monitor_call list \<times> int option" where
  "agent_main content dispatchers_start out flags =
     agent_run (fst (validate (load_or_default content))) dispatchers_start out flags"

section \<open>When the agent runs\<close>

definition metrics_start_ok :: "monitor_config \<Rightarrow> listen_outcome \<Rightarrow> bool" where
  "metrics_start_ok cfg out \<longleftrightarrow> \<not> metrics_enable cfg \<or>
     list_all (\<lambda>client. inet_pton client \<noteq> None) (metrics_allowed_clients cfg) \<and>
     (metrics_bind_host cfg \<in> {[], ''0.0.0.0''} \<or> inet_pton (metrics_bind_host cfg) \<noteq> None) \<and>
     lo_socket out \<and> lo_bind out \<and> lo_listen out"

lemma metrics_start_iff: "snd (server_start cfg out new_metrics_server) = metrics_start_ok cfg out"
  by (auto simp: server_start_def open_listener_def close_listener_def new_metrics_server_def metrics_start_ok_def Let_def
    list_all_iff list_ex_iff)

text \<open>What is started and not stopped again by a sequence of calls, of which the last start may have failed.\<close>

fun parts_left :: "monitor_call list \<Rightarrow> monitor_call set" where
  "parts_left [] = {}"
| "parts_left (call # calls) =
     (case call of
        StartThreads \<Rightarrow> (if JoinThreads \<in> set calls then {} else {StartThreads})
      | StartMetrics \<Rightarrow> (if StopMetrics \<in> set calls then {} else {StartMetrics})
      | StartDispatchers \<Rightarrow> (if StopDispatchers \<in> set calls then {} else {StartDispatchers})
      | _ \<Rightarrow> {}) \<union> parts_left calls"

text \<open>
  The agent leaves with code 0 exactly when everything it needs started and the stop was requested; then every part
  has been stopped again, in the reverse order of the starts. In the other exits only the start that failed, if any, has no stop.
\<close>

theorem agent_exit_exact:
  "(snd (agent_run cfg dispatchers_start out flags) = Some 0 \<longleftrightarrow>
      enable cfg \<and> dispatchers_start \<and> metrics_start_ok cfg out \<and> True \<in> set flags) \<and>
   (snd (agent_run cfg dispatchers_start out flags) = None \<longleftrightarrow>
      enable cfg \<and> dispatchers_start \<and> metrics_start_ok cfg out \<and> True \<notin> set flags) \<and>
   parts_left (fst (agent_run cfg dispatchers_start out flags)) =
     (if \<not> enable cfg then {}
      else if \<not> dispatchers_start then {StartDispatchers}
      else if \<not> metrics_start_ok cfg out then {StartMetrics}
      else if True \<in> set flags then {}
      else {StartDispatchers, StartMetrics, StartThreads})"
  by (auto simp: agent_run_def monitor_start_def monitor_stop_def metrics_start_iff split: if_splits)

text \<open>
  A client address with a leading zero passes the validation of the configuration, but with it the agent never
  monitors anything, whatever the sockets do.
\<close>

theorem leading_zero_client_ends_agent:
  assumes "enable cfg" and "metrics_enable cfg" and "client \<in> set (metrics_allowed_clients cfg)" and "inet_pton client = None"
  shows "snd (agent_run cfg dispatchers_start out flags) = Some 1"
  using assms by (auto simp: agent_run_def monitor_start_def metrics_start_iff metrics_start_ok_def list_all_iff)

lemma leading_zero_passes: "valid_ipv4 ''010.0.0.1'' \<and> inet_pton ''010.0.0.1'' = None"
proof -
  have "valid_octet ''010''" "valid_octet ''0''" "valid_octet ''1''"
    by (simp_all add: valid_octet_def from_chars_unsigned_def is_digit_def digits_value_def digit_value_def)
  then have "valid_ipv4 ''010.0.0.1''" by (simp add: valid_ipv4_def eval_nat_numeral)
  moreover have "inet_pton ''010.0.0.1'' = None" by code_simp
  ultimately show ?thesis by blast
qed

theorem leading_zero_client_ends_agent_witness:
  "list_all valid_ipv4 [''010.0.0.1''] \<and>
   snd (agent_run (default_config\<lparr>enable := True, metrics_enable := True, metrics_allowed_clients := [''010.0.0.1'']\<rparr>) True
     \<lparr>lo_socket = True, lo_bind = True, lo_listen = True\<rparr> [False, True]) = Some 1"
  using leading_zero_passes
    leading_zero_client_ends_agent [of "default_config\<lparr>enable := True, metrics_enable := True, metrics_allowed_clients := [''010.0.0.1'']\<rparr>"
      "''010.0.0.1''" True]
  by simp

section \<open>A configuration that validation gave up on\<close>

fun publish_outcomes :: "(source \<times> time_stamp \<times> internal_event) list \<Rightarrow> shared_state \<Rightarrow> bool list" where
  "publish_outcomes [] s = []"
| "publish_outcomes ((source, ts, event) # rest) s =
     (case publish_event source ts event s of (s, ok) \<Rightarrow> ok # publish_outcomes rest s)"

lemma empty_ring_refuses:
  assumes "rb_capacity r = 1" and "rb_head r = 0" and "rb_tail r = 0"
  shows "\<not> snd (push level item r) \<and> rb_capacity (fst (push level item r)) = 1 \<and> rb_head (fst (push level item r)) = 0 \<and>
    rb_tail (fst (push level item r)) = 0"
  using assms by (cases level) (auto simp: push_def increment_def record_drop_def Let_def)

text \<open>
  C27: an address that is not IPv4 makes validation stop before the bounds of the queue: with a capacity of 0 in the
  file and the metrics switched off the agent runs, and every event is refused, critical ones included.
\<close>

theorem unvalidated_agent_loses_events:
  assumes "\<not> list_all valid_ipv4 (metrics_allowed_clients (load_sections (parse_ini content) default_config))"
    and "event_queue_capacity (load_sections (parse_ini content) default_config) = 0"
    and "enable (load_sections (parse_ini content) default_config)"
    and "\<not> metrics_enable (load_sections (parse_ini content) default_config)"
    and "dispatchers_start" and "True \<in> set flags"
  shows "snd (agent_main content dispatchers_start out flags) = Some 0 \<and>
    True \<notin> set (publish_outcomes publications (new_shared_state (fst (validate (load_or_default content)))))"
proof -
  let ?loaded = "load_sections (parse_ini content) default_config"
  define cfg where "cfg = fst (validate (load_or_default content))"
  have "load_or_default content = validate_head ?loaded"
    using assms(1) by (simp add: load_or_default_def validate_def Let_def validate_head_def)
  moreover have "metrics_allowed_clients (validate_head (validate_head ?loaded)) = metrics_allowed_clients ?loaded"
    by (simp add: validate_head_def)
  ultimately have cfg: "cfg = validate_head (validate_head ?loaded)"
    using assms(1) by (simp add: cfg_def validate_def Let_def)
  have "event_queue_capacity cfg = 0" "enable cfg" "\<not> metrics_enable cfg"
    using assms(2-4) by (simp_all add: cfg validate_head_def)
  note cfg_facts = this
  have refuse: "\<forall>ok \<in> set (publish_outcomes publications s). \<not> ok"
    if "\<forall>source. rb_capacity (sh_queue s source) = 1 \<and> rb_head (sh_queue s source) = 0 \<and> rb_tail (sh_queue s source) = 0" for s
    using that
  proof (induction publications arbitrary: s)
    case (Cons p rest)
    obtain source ts event where p: "p = (source, ts, event)" by (cases p)
    have "\<not> snd (publish_event source ts event s)"
      using Cons.prems empty_ring_refuses [of "sh_queue s source"] by (simp add: publish_event_def Let_def case_prod_beta)
    moreover have "\<forall>source'. rb_capacity (sh_queue (fst (publish_event source ts event s)) source') = 1 \<and>
        rb_head (sh_queue (fst (publish_event source ts event s)) source') = 0 \<and>
        rb_tail (sh_queue (fst (publish_event source ts event s)) source') = 0"
      using Cons.prems empty_ring_refuses [of "sh_queue s source"] by (simp add: publish_event_def Let_def case_prod_beta)
    ultimately show ?case using Cons.IH by (simp add: p case_prod_beta)
  qed simp
  have "\<forall>ok \<in> set (publish_outcomes publications (new_shared_state cfg)). \<not> ok"
    using cfg_facts by (intro refuse) (simp add: new_shared_state_def new_ring_def)
  moreover have "snd (agent_run cfg dispatchers_start out flags) = Some 0"
    using assms(5,6) cfg_facts by (simp add: agent_run_def monitor_start_def metrics_start_iff metrics_start_ok_def)
  ultimately show ?thesis by (auto simp: agent_main_def cfg_def)
qed

definition unvalidated_file :: string where
  "unvalidated_file = ini_text [(''metrics'', [(''allowed_clients'', ''localhost''), (''enable'', ''false'')]),
     (''event_queue'', [(''capacity'', ''0'')])]"

lemma unvalidated_read:
  "parse_ini (Some unvalidated_file) =
     [''metrics'' \<mapsto> [''allowed_clients'' \<mapsto> ''localhost'', ''enable'' \<mapsto> ''false''], ''event_queue'' \<mapsto> [''capacity'' \<mapsto> ''0'']]"
  unfolding unvalidated_file_def
  by (subst parse_ini_text) (simp_all add: writable_def entry_text_def is_space_def ini_of_def ini_insert_def)

lemma enable_assign:
  "enable (load_sections ini c) = assign_bool ini ''linux_stability_monitor'' ''enable'' (enable c)"
  "metrics_enable (load_sections ini c) = assign_bool ini ''metrics'' ''enable'' (metrics_enable c)"
  by (simp_all add: load_sections_def load_network_sink_def load_persistence_def load_cpu_usage_rule_def
      load_io_delay_rule_def load_process_memory_rule_def load_sched_delay_rule_def load_self_protection_def
      load_rule_runtime_def load_memory_rule_def load_event_queue_def load_thread_policy_def
      load_agent_log_def load_linux_stability_monitor_def)

theorem unvalidated_agent_loses_events_witness:
  "snd (agent_main (Some unvalidated_file) True \<lparr>lo_socket = True, lo_bind = True, lo_listen = True\<rparr> [True]) = Some 0 \<and>
   True \<notin> set (publish_outcomes [(FastQueue, \<lparr>ts_realtime_ms = 1, ts_monotonic_ms = 1, ts_boottime_ms = 1\<rparr>, started_event)]
     (new_shared_state (fst (validate (load_or_default (Some unvalidated_file))))))"
proof (rule unvalidated_agent_loses_events)
  show "\<not> list_all valid_ipv4 (metrics_allowed_clients (load_sections (parse_ini (Some unvalidated_file)) default_config))"
    by (simp add: unvalidated_read capacity_reserved_assign assign_csv_def find_value_def localhost_refused)
  show "event_queue_capacity (load_sections (parse_ini (Some unvalidated_file)) default_config) = 0"
    by (simp add: unvalidated_read capacity_reserved_assign assign_unsigned_def find_value_def zero_text_read)
  show "enable (load_sections (parse_ini (Some unvalidated_file)) default_config)"
    by (simp add: unvalidated_read enable_assign assign_bool_def find_value_def default_config_def)
  have "\<not> parse_bool ''false''" by code_simp
  then show "\<not> metrics_enable (load_sections (parse_ini (Some unvalidated_file)) default_config)"
    by (simp add: unvalidated_read enable_assign assign_bool_def find_value_def)
qed simp_all

end
